(* ===== verification/Nvshmem_Prelude.thy ===== *)
theory Nvshmem_Prelude
  imports Main "HOL-Library.Word" "HOL-Library.Signed_Division"
begin

text \<open>
  The vocabulary the components share: the machine types of the C++ and CUDA sources, the
  library's status codes, and generic lemmas on machine words, lists and C division.

  \<^item> \<open>u8\<close>, \<open>u16\<close>, \<open>u32\<close>, \<open>u64\<close> are the fixed-width unsigned types; \<open>size_t\<close>, \<open>void *\<close> and
    \<open>char *\<close> are 64-bit on every platform NVSHMEM supports and are modelled by \<open>u64\<close>, so that
    pointer and size arithmetic wraps as it does in the code. A null pointer is \<open>0\<close>.
  \<^item> \<open>int\<close> values that number processing elements (PEs), strides and teams are HOL integers; C's
    \<open>/\<close> and \<open>%\<close> on them truncate towards zero and are \<open>sdiv\<close> and \<open>smod\<close>.
\<close>

unbundle bit_operations_syntax

section \<open>Machine types and status codes\<close>

type_synonym u8 = "8 word"
type_synonym u16 = "16 word"
type_synonym u32 = "32 word"
type_synonym u64 = "64 word"

text \<open>The status codes of \<open>nvshmemx_error.h\<close> that the modelled functions return; C \<open>int\<close>s.\<close>

definition NVSHMEMX_SUCCESS :: int where "NVSHMEMX_SUCCESS = 0"
definition NVSHMEMX_ERROR_INVALID_VALUE :: int where "NVSHMEMX_ERROR_INVALID_VALUE = 1"
definition NVSHMEMX_ERROR_OUT_OF_MEMORY :: int where "NVSHMEMX_ERROR_OUT_OF_MEMORY = 2"
definition NVSHMEMX_ERROR_INTERNAL :: int where "NVSHMEMX_ERROR_INTERNAL = 7"

lemmas status_defs = NVSHMEMX_SUCCESS_def NVSHMEMX_ERROR_INVALID_VALUE_def NVSHMEMX_ERROR_OUT_OF_MEMORY_def
  NVSHMEMX_ERROR_INTERNAL_def

section \<open>Collections\<close>

named_theorems unat_nowrap \<open>unsigned readings of word arithmetic that does not wrap\<close>
named_theorems smap_simps \<open>lookups in updated ordered maps\<close>

section \<open>Words that do not wrap\<close>

lemma unat_add_nowrap [unat_nowrap]:
  fixes a b :: u64
  shows "unat a + unat b < 2 ^ 64 \<Longrightarrow> unat (a + b) = unat a + unat b"
  by (simp add: unat_add_lem[symmetric])

lemma unat_sub_nowrap [unat_nowrap]:
  fixes a b :: u64
  shows "unat b \<le> unat a \<Longrightarrow> unat (a - b) = unat a - unat b"
  by (simp add: unat_sub_if_size)

lemma unat_u64_bound [simp]: "unat (a :: u64) < 2 ^ 64"
  using unsigned_less[of a, where ?'a = nat] by simp

lemma unat_pos_iff: "0 < unat (a :: u64) \<longleftrightarrow> a \<noteq> 0"
  by (simp add: unat_gt_0)

end
