(* ===== verification/Std_Map.thy ===== *)
theory Std_Map
  imports Nvshmem_Prelude
begin

text \<open>
  \<open>std::map\<close> as the allocator uses it: a finite map that iterates in increasing key order. The
  model is the list of its entries in iteration order. The locale \<open>ordered_map\<close> states what a
  client may rely on (find after insert and erase, the order kept by both, the sum over the
  values), and \<open>smap\<close> interprets it on the list model.
\<close>

section \<open>Operations\<close>

type_synonym ('k, 'v) std_map = "('k \<times> 'v) list"

definition smap_find :: "('k, 'v) std_map \<Rightarrow> 'k \<Rightarrow> 'v option" where
  "smap_find m k = map_of m k"

fun smap_insert :: "'k::linorder \<Rightarrow> 'v \<Rightarrow> ('k, 'v) std_map \<Rightarrow> ('k, 'v) std_map" where
  "smap_insert k v [] = [(k, v)]"
| "smap_insert k v ((k', v') # m) =
     (if k < k' then (k, v) # (k', v') # m
      else if k = k' then (k, v) # m
      else (k', v') # smap_insert k v m)"

fun smap_erase :: "'k \<Rightarrow> ('k, 'v) std_map \<Rightarrow> ('k, 'v) std_map" where
  "smap_erase k [] = []"
| "smap_erase k ((k', v') # m) = (if k = k' then m else (k', v') # smap_erase k m)"

definition smap_wf :: "('k::linorder, 'v) std_map \<Rightarrow> bool" where
  "smap_wf m \<longleftrightarrow> sorted_wrt (<) (map fst m)"

definition smap_sum :: "('k, 'v::comm_monoid_add) std_map \<Rightarrow> 'v" where
  "smap_sum m = sum_list (map snd m)"

section \<open>Laws of the list model\<close>

lemma smap_wf_Nil [simp]: "smap_wf []"
  by (simp add: smap_wf_def)

lemma smap_wf_Cons: "smap_wf ((k, v) # m) \<longleftrightarrow> (\<forall>x \<in> fst ` set m. k < x) \<and> smap_wf m"
  by (auto simp: smap_wf_def)

lemma smap_find_None_iff: "smap_find m k = None \<longleftrightarrow> k \<notin> fst ` set m"
  by (simp add: smap_find_def map_of_eq_None_iff)

lemma smap_find_Nil [simp]: "smap_find [] = Map.empty"
  by (auto simp: smap_find_def)

lemma smap_find_single: "smap_find [(k, v)] = [k \<mapsto> v]"
  by (auto simp: smap_find_def)

lemma smap_find_in: "smap_find m k = Some v \<Longrightarrow> (k, v) \<in> set m"
  by (simp add: smap_find_def map_of_SomeD)

lemma smap_wf_distinct: "smap_wf m \<Longrightarrow> distinct (map fst m)"
  unfolding smap_wf_def by (induction m) auto

lemma smap_in_find: "smap_wf m \<Longrightarrow> (k, v) \<in> set m \<Longrightarrow> smap_find m k = Some v"
  by (simp add: smap_find_def smap_wf_distinct)

lemma smap_find_insert:
  "smap_find (smap_insert k v m) = (smap_find m)(k \<mapsto> v)"
  by (induction k v m rule: smap_insert.induct) (auto simp: smap_find_def)

lemma fst_set_insert: "fst ` set (smap_insert k v m) = insert k (fst ` set m)"
  by (induction k v m rule: smap_insert.induct) auto

lemma smap_wf_insert: "smap_wf m \<Longrightarrow> smap_wf (smap_insert k v m)"
  by (induction k v m rule: smap_insert.induct) (auto simp: smap_wf_Cons fst_set_insert)

lemma fst_set_erase: "fst ` set (smap_erase k m) \<subseteq> fst ` set m"
  by (induction k m rule: smap_erase.induct) auto

lemma smap_wf_erase: "smap_wf m \<Longrightarrow> smap_wf (smap_erase k m)"
proof (induction k m rule: smap_erase.induct)
  case (2 k k' v' m)
  then show ?case using fst_set_erase[of k m] by (auto simp: smap_wf_Cons dest!: subsetD)
qed simp

lemma smap_find_erase:
  "smap_wf m \<Longrightarrow> smap_find (smap_erase k m) = (smap_find m)(k := None)"
proof (induction k m rule: smap_erase.induct)
  case (2 k k' v' m)
  then have m: "k' \<notin> fst ` set m" and wf: "smap_wf m" by (auto simp: smap_wf_Cons)
  then have "smap_find m k' = None" by (simp add: smap_find_None_iff)
  with 2 wf show ?case by (auto simp: smap_find_def fun_eq_iff)
qed (auto simp: smap_find_def)

lemma smap_sum_insert:
  fixes m :: "('k::linorder, 'v::ab_group_add) std_map"
  assumes "smap_wf m"
  shows "smap_sum (smap_insert k v m) = smap_sum m + v - (case smap_find m k of None \<Rightarrow> 0 | Some w \<Rightarrow> w)"
  using assms
proof (induction k v m rule: smap_insert.induct)
  case (2 k v k' v' m)
  have *: "smap_find m k = None" if "k < k'"
    using that 2 by (auto simp: smap_find_None_iff smap_wf_Cons dest!: bspec)
  show ?case using 2 *
    by (auto simp: smap_sum_def smap_find_def smap_wf_Cons algebra_simps)
qed (simp add: smap_sum_def smap_find_def)

lemma smap_sum_erase:
  fixes m :: "('k::linorder, 'v::ab_group_add) std_map"
  shows "smap_sum (smap_erase k m) = smap_sum m - (case smap_find m k of None \<Rightarrow> 0 | Some w \<Rightarrow> w)"
  by (induction k m rule: smap_erase.induct) (auto simp: smap_sum_def smap_find_def algebra_simps)

text \<open>A well-formed map is determined by what it finds: the model is canonical.\<close>

lemma smap_ext:
  "smap_wf m \<Longrightarrow> smap_wf m' \<Longrightarrow> smap_find m = smap_find m' \<Longrightarrow> m = m'"
proof (induction m arbitrary: m')
  case Nil
  then show ?case by (cases m') (auto simp: smap_find_def fun_eq_iff split: if_splits)
next
  case (Cons e m)
  obtain k v where e: "e = (k, v)" by (cases e)
  from Cons.prems(3) e have "smap_find m' k = Some v"
    by (metis map_of_Cons_code(2) smap_find_def)
  then obtain k' v' m'' where m': "m' = (k', v') # m''" by (cases m') (auto simp: smap_find_def)
  have wf: "smap_wf m" "smap_wf m''" "\<forall>x \<in> fst ` set m. k < x" "\<forall>x \<in> fst ` set m''. k' < x"
    using Cons.prems e m' by (auto simp: smap_wf_Cons)
  have eq: "smap_find ((k, v) # m) x = smap_find ((k', v') # m'') x" for x
    using Cons.prems(3) e m' by (simp add: fun_eq_iff)
  have "k \<in> fst ` set ((k', v') # m'')" "k' \<in> fst ` set ((k, v) # m)"
    using eq[of k] eq[of k'] smap_find_None_iff[of "(k', v') # m''" k] smap_find_None_iff[of "(k, v) # m" k']
    by (auto simp: smap_find_def split: if_splits)
  with wf have kk: "k = k'" by force
  with eq[of k] have vv: "v = v'" by (simp add: smap_find_def)
  have "smap_find m = smap_find m''"
  proof
    fix x
    have "smap_find m k = None" "smap_find m'' k = None"
      using wf kk by (auto simp: smap_find_None_iff)
    then show "smap_find m x = smap_find m'' x"
      using eq[of x] kk by (cases "x = k") (auto simp: smap_find_def)
  qed
  with Cons.IH wf e m' kk vv show ?case by simp
qed

text \<open>A search in iteration order finds the entry with the least key.\<close>

lemma smap_find_first:
  assumes "smap_wf m" "List.find P m = Some (k, v)" "(j, w) \<in> set m" "P (j, w)"
  shows "k \<le> j"
  using assms
proof (induction m)
  case (Cons e m)
  then show ?case by (cases e) (auto simp: smap_wf_Cons less_imp_le split: if_splits)
qed simp

section \<open>The interface\<close>

locale ordered_map =
  fixes find_in :: "'m \<Rightarrow> 'k \<Rightarrow> 'v::ab_group_add option"
    and insert_in :: "'k \<Rightarrow> 'v \<Rightarrow> 'm \<Rightarrow> 'm"
    and erase_in :: "'k \<Rightarrow> 'm \<Rightarrow> 'm"
    and sum_of :: "'m \<Rightarrow> 'v"
    and wf_map :: "'m \<Rightarrow> bool"
  assumes find_insert: "find_in (insert_in k v m) = (find_in m)(k \<mapsto> v)"
    and find_erase: "wf_map m \<Longrightarrow> find_in (erase_in k m) = (find_in m)(k := None)"
    and wf_insert: "wf_map m \<Longrightarrow> wf_map (insert_in k v m)"
    and wf_erase: "wf_map m \<Longrightarrow> wf_map (erase_in k m)"
    and sum_insert: "wf_map m \<Longrightarrow>
      sum_of (insert_in k v m) = sum_of m + v - (case find_in m k of None \<Rightarrow> 0 | Some w \<Rightarrow> w)"
    and sum_erase: "sum_of (erase_in k m) = sum_of m - (case find_in m k of None \<Rightarrow> 0 | Some w \<Rightarrow> w)"
    and ext: "wf_map m \<Longrightarrow> wf_map m' \<Longrightarrow> find_in m = find_in m' \<Longrightarrow> m = m'"
begin

lemma sum_insert_fresh: "wf_map m \<Longrightarrow> find_in m k = None \<Longrightarrow> sum_of (insert_in k v m) = sum_of m + v"
  by (simp add: sum_insert)

lemma sum_erase_present: "find_in m k = Some v \<Longrightarrow> sum_of (erase_in k m) = sum_of m - v"
  by (simp add: sum_erase)

lemma sum_insert_present:
  "wf_map m \<Longrightarrow> find_in m k = Some w \<Longrightarrow> sum_of (insert_in k v m) = sum_of m + v - w"
  by (simp add: sum_insert)

lemma erase_insert_fresh:
  assumes "wf_map m" "find_in m k = None"
  shows "erase_in k (insert_in k v m) = m"
  using assms by (intro ext) (auto simp: find_erase find_insert wf_insert wf_erase fun_eq_iff)

lemma insert_insert: "wf_map m \<Longrightarrow> insert_in k v (insert_in k w m) = insert_in k v m"
  by (intro ext) (auto simp: find_insert wf_insert)

lemma erase_insert_other:
  "wf_map m \<Longrightarrow> j \<noteq> k \<Longrightarrow> erase_in k (insert_in j v m) = insert_in j v (erase_in k m)"
  by (intro ext) (auto simp: find_erase find_insert wf_insert wf_erase fun_upd_twist)

lemma erase_absent: "wf_map m \<Longrightarrow> find_in m k = None \<Longrightarrow> erase_in k m = m"
  by (intro ext) (auto simp: find_erase wf_erase)

lemma insert_erase_present:
  assumes "wf_map m" "find_in m k = Some v"
  shows "insert_in k v (erase_in k m) = m"
  using assms by (intro ext) (auto simp: find_erase find_insert wf_insert wf_erase fun_eq_iff)

end

interpretation smap: ordered_map smap_find smap_insert smap_erase smap_sum smap_wf
  by unfold_locales
    (auto simp: smap_find_insert smap_find_erase smap_wf_insert smap_wf_erase
       smap_sum_insert smap_sum_erase intro: smap_ext)

lemmas smap_laws [smap_simps] = smap.find_insert smap.find_erase smap.wf_insert smap.wf_erase

end
