(* ===== verification/Custom_Malloc.thy ===== *)
theory Custom_Malloc
  imports Std_Map
begin

text \<open>
  The symmetric heap's allocator, \<open>class mspace\<close> of \<open>custom_malloc.h\<close> and \<open>custom_malloc.cpp\<close>: a
  first-fit allocator over three ordered maps (free chunks by start address, free chunks by end
  address, chunks in use by start address). It manages device memory, so all its book-keeping is
  outside the memory it hands out.

  Every operation is a function on the record \<open>mspace\<close>. A call of \<open>exit(-1)\<close> and a failed
  \<open>assert\<close> are values of \<open>malloc_exit\<close>. The CUDA calls an operation makes are recorded as
  \<open>cuda_call\<close> values in program order; whether one succeeds is a parameter, and a failing one exits
  the process as \<open>CUDA_RUNTIME_CHECK\<close> does.
\<close>

section \<open>State and operations\<close>

record mspace =
  free_chunks_start :: "(u64, u64) std_map"
  free_chunks_end :: "(u64, u64) std_map"
  inuse_chunks :: "(u64, u64) std_map"
  total_size :: u64

datatype malloc_exit =
    InuseChunkUsedAsFree
  | FreeOnInvalidPointer
  | AlignmentAssertion
  | DivisionByZero
  | CudaFailure

datatype cuda_call =
    CudaMemset u64 u8 u64
  | CudaMemcpyDeviceToDevice u64 u64 u64

definition NVSHMEMI_MALLOC_ALIGNMENT :: u64 where
  "NVSHMEMI_MALLOC_ALIGNMENT = 512"

definition CHUNK_ALIGN_MASK :: u64 where
  "CHUNK_ALIGN_MASK = NVSHMEMI_MALLOC_ALIGNMENT - 1"

definition align_request :: "u64 \<Rightarrow> u64" where
  "align_request req = (req + CHUNK_ALIGN_MASK) AND NOT CHUNK_ALIGN_MASK"

definition align_offset :: "u64 \<Rightarrow> u64" where
  "align_offset A =
     (if A AND CHUNK_ALIGN_MASK = 0 then 0
      else (NVSHMEMI_MALLOC_ALIGNMENT - (A AND CHUNK_ALIGN_MASK)) AND CHUNK_ALIGN_MASK)"

definition get_total_size :: "(u64, u64) std_map \<Rightarrow> u64" where
  "get_total_size chunk_map = smap_sum chunk_map"

text \<open>The two conditions that \<open>ASSERT_CORRECTNESS\<close> asserts in debug builds.\<close>

definition ASSERT_CORRECTNESS :: "mspace \<Rightarrow> bool" where
  "ASSERT_CORRECTNESS m \<longleftrightarrow>
     get_total_size (free_chunks_start m) = get_total_size (free_chunks_end m) \<and>
     get_total_size (free_chunks_start m) + get_total_size (inuse_chunks m) = total_size m"

definition mspace_empty :: mspace where
  "mspace_empty = \<lparr>free_chunks_start = [], free_chunks_end = [], inuse_chunks = [], total_size = 0\<rparr>"

definition mspace_new :: "u64 \<Rightarrow> u64 \<Rightarrow> mspace" where
  "mspace_new base capacity =
     (let start_addr = base;
          offset = align_offset start_addr;
          start_addr = start_addr + offset;
          capacity = capacity - offset
      in if capacity > 0 then
           let end_addr = start_addr + capacity
           in mspace_empty\<lparr>
                free_chunks_start := smap_insert start_addr capacity (free_chunks_start mspace_empty),
                free_chunks_end := smap_insert end_addr capacity (free_chunks_end mspace_empty),
                total_size := capacity\<rparr>
         else mspace_empty)"

text \<open>
  \<open>add_free_chunk\<close> in its three parts: the merge with a free chunk that ends at \<open>base\<close>, the merge
  with a free chunk that starts behind the (grown) chunk, and the plain insertion.
\<close>

definition merge_prev ::
  "(u64, u64) std_map \<Rightarrow> (u64, u64) std_map \<Rightarrow> u64 \<Rightarrow> u64 \<Rightarrow>
   (u64, u64) std_map \<times> (u64, u64) std_map \<times> u64 \<times> u64 \<times> bool" where
  "merge_prev fs fe base capacity =
     (case smap_find fe base of
        Some psize \<Rightarrow>
          let fe = smap_erase base fe;
              fe = smap_insert (base + capacity) (capacity + psize) fe;
              base = base - psize;
              capacity = capacity + psize;
              fs = smap_insert base capacity fs
          in (fs, fe, base, capacity, True)
      | None \<Rightarrow> (fs, fe, base, capacity, False))"

definition merge_next ::
  "(u64, u64) std_map \<Rightarrow> (u64, u64) std_map \<Rightarrow> u64 \<Rightarrow> u64 \<Rightarrow> bool \<Rightarrow>
   (u64, u64) std_map \<times> (u64, u64) std_map \<times> bool" where
  "merge_next fs fe base capacity merged =
     (case smap_find fs (base + capacity) of
        Some nsize \<Rightarrow>
          let fe = smap_erase (base + capacity) fe;
              fs = smap_erase (base + capacity) fs;
              fs = smap_insert base (capacity + nsize) fs;
              fe = smap_insert (base + capacity + nsize) (capacity + nsize) fe
          in (fs, fe, True)
      | None \<Rightarrow> (fs, fe, merged))"

definition add_free_chunk :: "mspace \<Rightarrow> u64 \<Rightarrow> u64 \<Rightarrow> malloc_exit + mspace" where
  "add_free_chunk m base capacity =
     (if smap_find (inuse_chunks m) base \<noteq> None then Inl InuseChunkUsedAsFree
      else
        let (fs, fe, base, capacity, merged) =
              merge_prev (free_chunks_start m) (free_chunks_end m) base capacity;
            (fs, fe, merged) = merge_next fs fe base capacity merged;
            (fs, fe) = (if \<not> merged then (smap_insert base capacity fs,
                                          smap_insert (base + capacity) capacity fe)
                        else (fs, fe))
        in Inr (m\<lparr>free_chunks_start := fs, free_chunks_end := fe\<rparr>))"

definition add_new_chunk :: "mspace \<Rightarrow> u64 \<Rightarrow> u64 \<Rightarrow> malloc_exit + mspace" where
  "add_new_chunk m base capacity =
     add_free_chunk (m\<lparr>total_size := total_size m + capacity\<rparr>) base capacity"

definition track_large_chunks :: "mspace \<Rightarrow> int \<Rightarrow> int \<times> mspace" where
  "track_large_chunks m enable = (0, m)"

text \<open>The loop of \<open>allocate\<close> takes the first free chunk, by address, that is large enough.\<close>

definition allocate :: "mspace \<Rightarrow> u64 \<Rightarrow> u64 \<times> mspace" where
  "allocate m bytes =
     (if bytes = 0 then (0, m)
      else
        let bytes = align_request bytes
        in case List.find (\<lambda>(a, s). s \<ge> bytes) (free_chunks_start m) of
             None \<Rightarrow> (0, m)
           | Some (start_addr, sz) \<Rightarrow>
               let rsize = sz - bytes;
                   (fs, fe) =
                     (if rsize > 0 then
                        (smap_erase start_addr
                           (smap_insert (start_addr + bytes) rsize (free_chunks_start m)),
                         smap_insert (start_addr + sz) rsize (free_chunks_end m))
                      else
                        (smap_erase start_addr (free_chunks_start m),
                         smap_erase (start_addr + sz) (free_chunks_end m)))
               in (start_addr,
                   m\<lparr>free_chunks_start := fs, free_chunks_end := fe,
                     inuse_chunks := smap_insert start_addr bytes (inuse_chunks m)\<rparr>))"

definition deallocate :: "mspace \<Rightarrow> u64 \<Rightarrow> malloc_exit + mspace" where
  "deallocate m mem =
     (case smap_find (inuse_chunks m) mem of
        None \<Rightarrow> Inl FreeOnInvalidPointer
      | Some bytes \<Rightarrow>
          add_free_chunk (m\<lparr>inuse_chunks := smap_erase mem (inuse_chunks m)\<rparr>) mem bytes)"

definition allocate_zeroed ::
  "(cuda_call \<Rightarrow> bool) \<Rightarrow> mspace \<Rightarrow> u64 \<Rightarrow> u64 \<Rightarrow> malloc_exit + (u64 \<times> cuda_call list \<times> mspace)" where
  "allocate_zeroed cuda m n_elements elem_size =
     (let bytes = n_elements * elem_size;
          (ptr, m) = allocate m bytes
      in if ptr \<noteq> 0 then
           (if cuda (CudaMemset ptr 0 bytes) then Inr (ptr, [CudaMemset ptr 0 bytes], m)
            else Inl CudaFailure)
         else Inr (ptr, [], m))"

definition allocate_aligned :: "mspace \<Rightarrow> u64 \<Rightarrow> u64 \<Rightarrow> malloc_exit + (u64 \<times> mspace)" where
  "allocate_aligned m alignment bytes =
     (if \<not> (alignment mod 8 = 0 \<and> alignment AND (alignment - 1) = 0) then Inl AlignmentAssertion
      else
        let bytes = bytes + alignment;
            (ptr, m) = allocate m bytes
        in if ptr = 0 then Inr (0, m)
           else if alignment = 0 then Inl DivisionByZero
           else
             let ret_ptr = alignment * ((ptr + (alignment - 1)) div alignment)
             in if ret_ptr - ptr \<noteq> 0 then
                  (let old = (case smap_find (inuse_chunks m) ptr of None \<Rightarrow> 0 | Some s \<Rightarrow> s);
                       used = smap_insert ret_ptr (old - (ret_ptr - ptr)) (inuse_chunks m);
                       used = smap_erase ptr used
                   in case add_free_chunk (m\<lparr>inuse_chunks := used\<rparr>) ptr (ret_ptr - ptr) of
                        Inl e \<Rightarrow> Inl e
                      | Inr m' \<Rightarrow> Inr (ret_ptr, m'))
                else Inr (ret_ptr, m))"

text \<open>
  \<open>inuse_chunks[ptr]\<close> reads through \<open>operator[]\<close>, which inserts a zero entry for an unknown
  pointer.
\<close>

definition smap_index :: "u64 \<Rightarrow> (u64, u64) std_map \<Rightarrow> u64 \<times> (u64, u64) std_map" where
  "smap_index k m = (case smap_find m k of Some v \<Rightarrow> (v, m) | None \<Rightarrow> (0, smap_insert k 0 m))"

text \<open>The last branch of \<open>reallocate\<close>: allocate elsewhere, copy, release the old chunk.\<close>

definition reallocate_move ::
  "(cuda_call \<Rightarrow> bool) \<Rightarrow> mspace \<Rightarrow> u64 \<Rightarrow> u64 \<Rightarrow> u64 \<Rightarrow> malloc_exit + (u64 \<times> cuda_call list \<times> mspace)"
where
  "reallocate_move cuda m ptr sz current_size =
     (let (new_ptr, m) = allocate m sz
      in if new_ptr = 0 then Inr (0, [], m)
         else if \<not> cuda (CudaMemcpyDeviceToDevice new_ptr ptr sz) then Inl CudaFailure
         else
           case add_free_chunk (m\<lparr>inuse_chunks := smap_erase ptr (inuse_chunks m)\<rparr>) ptr current_size of
             Inl e \<Rightarrow> Inl e
           | Inr m' \<Rightarrow> Inr (new_ptr, [CudaMemcpyDeviceToDevice new_ptr ptr sz], m'))"

definition reallocate ::
  "(cuda_call \<Rightarrow> bool) \<Rightarrow> mspace \<Rightarrow> u64 \<Rightarrow> u64 \<Rightarrow> malloc_exit + (u64 \<times> cuda_call list \<times> mspace)"
where
  "reallocate cuda m ptr sz =
     (let sz = align_request sz;
          (current_size, used) = smap_index ptr (inuse_chunks m);
          m = m\<lparr>inuse_chunks := used\<rparr>
      in if sz < current_size then
           (case add_free_chunk (m\<lparr>inuse_chunks := smap_insert ptr sz (inuse_chunks m)\<rparr>)
                   (ptr + sz) (current_size - sz) of
              Inl e \<Rightarrow> Inl e
            | Inr m' \<Rightarrow> Inr (ptr, [], m'))
         else if sz > current_size then
           (case smap_find (free_chunks_start m) (ptr + current_size) of
              Some chunk_size \<Rightarrow>
                if current_size + chunk_size \<ge> sz then
                  let m = m\<lparr>inuse_chunks := smap_insert ptr sz (inuse_chunks m),
                            free_chunks_start := smap_erase (ptr + current_size) (free_chunks_start m),
                            free_chunks_end :=
                              smap_erase (ptr + current_size + chunk_size) (free_chunks_end m)\<rparr>
                  in if current_size + chunk_size > sz then
                       (case add_free_chunk m (ptr + sz) (sz - current_size) of
                          Inl e \<Rightarrow> Inl e
                        | Inr m' \<Rightarrow> Inr (ptr, [], m'))
                     else Inr (ptr, [], m)
                else reallocate_move cuda m ptr sz current_size
            | None \<Rightarrow> reallocate_move cuda m ptr sz current_size)
         else Inr (ptr, [], m))"

definition checkInuse :: "mspace \<Rightarrow> u64 \<Rightarrow> u64 \<Rightarrow> bool" where
  "checkInuse m ptr sz \<longleftrightarrow>
     (case smap_find (inuse_chunks m) ptr of None \<Rightarrow> False | Some s \<Rightarrow> s = sz)"

definition get_startInusePtr :: "mspace \<Rightarrow> u64" where
  "get_startInusePtr m = (case inuse_chunks m of [] \<Rightarrow> 0 | (p, _) # _ \<Rightarrow> p)"

end
