(* ===== verification/Malloc_Invariant.thy ===== *)
theory Malloc_Invariant
  imports Custom_Malloc
begin

text \<open>
  What keeps the allocator of \<open>Custom_Malloc\<close> sound. \<open>chunks_inv\<close> states it on the lookups of the
  three maps: chunks are non-empty and do not wrap, the end map mirrors the start map, no two chunks
  overlap, and no two free chunks touch. \<open>mspace_inv\<close> adds the ordering of the maps and the totals
  that \<open>ASSERT_CORRECTNESS\<close> checks. Every operation is a composition of four moves (take a chunk out
  of the free or the used map, put a gap into one of them), and each move has its lemma here.
\<close>

section \<open>Chunk invariants\<close>

definition chunk_ok :: "u64 \<Rightarrow> u64 \<Rightarrow> bool" where
  "chunk_ok a s \<longleftrightarrow> 0 < unat a \<and> 0 < unat s \<and> unat a + unat s < 2 ^ 64"

definition disj_chunks :: "u64 \<Rightarrow> u64 \<Rightarrow> u64 \<Rightarrow> u64 \<Rightarrow> bool" where
  "disj_chunks a s b t \<longleftrightarrow> unat a + unat s \<le> unat b \<or> unat b + unat t \<le> unat a"

definition chunks_inv :: "(u64 \<rightharpoonup> u64) \<Rightarrow> (u64 \<rightharpoonup> u64) \<Rightarrow> (u64 \<rightharpoonup> u64) \<Rightarrow> bool" where
  "chunks_inv F E U \<longleftrightarrow>
     (\<forall>a s. F a = Some s \<longrightarrow> chunk_ok a s) \<and>
     (\<forall>a s. U a = Some s \<longrightarrow> chunk_ok a s) \<and>
     (\<forall>e s. E e = Some s \<longleftrightarrow> F (e - s) = Some s) \<and>
     (\<forall>a s b t. F a = Some s \<longrightarrow> F b = Some t \<longrightarrow> a \<noteq> b \<longrightarrow> disj_chunks a s b t) \<and>
     (\<forall>a s b t. U a = Some s \<longrightarrow> U b = Some t \<longrightarrow> a \<noteq> b \<longrightarrow> disj_chunks a s b t) \<and>
     (\<forall>a s b t. F a = Some s \<longrightarrow> U b = Some t \<longrightarrow> disj_chunks a s b t) \<and>
     (\<forall>a s. F a = Some s \<longrightarrow> F (a + s) = None)"

text \<open>A range of addresses that no chunk of \<open>F\<close> touches.\<close>

definition gap :: "(u64 \<rightharpoonup> u64) \<Rightarrow> u64 \<Rightarrow> u64 \<Rightarrow> bool" where
  "gap F b t \<longleftrightarrow> (\<forall>a s. F a = Some s \<longrightarrow> disj_chunks a s b t)"

lemma inv_ok_free: "chunks_inv F E U \<Longrightarrow> F a = Some s \<Longrightarrow> chunk_ok a s"
  and inv_ok_used: "chunks_inv F E U \<Longrightarrow> U a = Some s \<Longrightarrow> chunk_ok a s"
  and inv_end_iff: "chunks_inv F E U \<Longrightarrow> E e = Some s \<longleftrightarrow> F (e - s) = Some s"
  and inv_free_free: "chunks_inv F E U \<Longrightarrow> F a = Some s \<Longrightarrow> F b = Some t \<Longrightarrow> a \<noteq> b \<Longrightarrow> disj_chunks a s b t"
  and inv_used_used: "chunks_inv F E U \<Longrightarrow> U a = Some s \<Longrightarrow> U b = Some t \<Longrightarrow> a \<noteq> b \<Longrightarrow> disj_chunks a s b t"
  and inv_free_used: "chunks_inv F E U \<Longrightarrow> F a = Some s \<Longrightarrow> U b = Some t \<Longrightarrow> disj_chunks a s b t"
  and inv_coalesced: "chunks_inv F E U \<Longrightarrow> F a = Some s \<Longrightarrow> F (a + s) = None"
  unfolding chunks_inv_def by blast+

lemma chunks_invI:
  assumes "\<And>a s. F a = Some s \<Longrightarrow> chunk_ok a s" "\<And>a s. U a = Some s \<Longrightarrow> chunk_ok a s"
    and "\<And>e s. E e = Some s \<longleftrightarrow> F (e - s) = Some s"
    and "\<And>a s b t. F a = Some s \<Longrightarrow> F b = Some t \<Longrightarrow> a \<noteq> b \<Longrightarrow> disj_chunks a s b t"
    and "\<And>a s b t. U a = Some s \<Longrightarrow> U b = Some t \<Longrightarrow> a \<noteq> b \<Longrightarrow> disj_chunks a s b t"
    and "\<And>a s b t. F a = Some s \<Longrightarrow> U b = Some t \<Longrightarrow> disj_chunks a s b t"
    and "\<And>a s. F a = Some s \<Longrightarrow> F (a + s) = None"
  shows "chunks_inv F E U"
  unfolding chunks_inv_def using assms by blast

lemma unat_end: "chunk_ok a s \<Longrightarrow> unat (a + s) = unat a + unat s"
  by (simp add: chunk_ok_def unat_nowrap)

lemma chunk_end_neq: "chunk_ok a s \<Longrightarrow> a + s \<noteq> a"
  by (auto simp: chunk_ok_def)

lemma disj_sym: "disj_chunks a s b t \<Longrightarrow> disj_chunks b t a s"
  by (auto simp: disj_chunks_def)

lemma disj_irrefl: "chunk_ok a s \<Longrightarrow> chunk_ok a t \<Longrightarrow> \<not> disj_chunks a s a t"
  by (auto simp: disj_chunks_def chunk_ok_def)

lemma gapD: "gap F b t \<Longrightarrow> F a = Some s \<Longrightarrow> disj_chunks a s b t"
  and gapD': "gap F b t \<Longrightarrow> F a = Some s \<Longrightarrow> disj_chunks b t a s"
  unfolding gap_def using disj_sym by blast+

lemma gap_remove: "gap F b t \<Longrightarrow> gap (F(x := None)) b t"
  by (simp add: gap_def)

lemma gap_sub:
  "gap F a s \<Longrightarrow> unat a \<le> unat b \<Longrightarrow> unat b + unat t \<le> unat a + unat s \<Longrightarrow> gap F b t"
  unfolding gap_def disj_chunks_def by fastforce

lemma gap_join:
  assumes "gap F a s" "gap F b t" "unat b = unat a + unat s" "unat st = unat s + unat t"
    and ok: "\<And>x y. F x = Some y \<Longrightarrow> chunk_ok x y"
  shows "gap F a st"
  unfolding gap_def
proof (intro allI impI)
  fix x y assume x: "F x = Some y"
  from gapD[OF assms(1) x] gapD[OF assms(2) x] ok[OF x] assms(3,4)
  show "disj_chunks x y a st" by (auto simp: disj_chunks_def chunk_ok_def)
qed

lemma gap_start_None:
  assumes inv: "chunks_inv F E U" and ok: "chunk_ok a s" and gF: "gap F a s"
  shows "F a = None"
proof (cases "F a")
  case (Some t)
  with gapD[OF gF Some] disj_irrefl[OF inv_ok_free[OF inv Some] ok] show ?thesis by simp
qed

lemma gap_end_None:
  assumes inv: "chunks_inv F E U" and ok: "chunk_ok a s" and gF: "gap F a s"
  shows "E (a + s) = None"
proof (cases "E (a + s)")
  case (Some t)
  with inv_end_iff[OF inv] have t: "F (a + s - t) = Some t" by simp
  note k = inv_ok_free[OF inv t]
  have "unat (a + s) = unat (a + s - t) + unat t" using unat_end[OF k] by simp
  with gapD[OF gF t] k ok show ?thesis by (auto simp: disj_chunks_def chunk_ok_def unat_end)
qed

section \<open>The four moves every operation is made of\<close>

lemma inv_remove_free:
  assumes inv: "chunks_inv F E U" and Fa: "F a = Some s"
  shows "chunks_inv (F(a := None)) (E(a + s := None)) U"
    and "gap (F(a := None)) a s" and "gap U a s" and "chunk_ok a s"
proof -
  have Eas: "E (a + s) = Some s" using inv_end_iff[OF inv] Fa by simp
  have e: "(E(a + s := None)) e = Some t \<longleftrightarrow> (F(a := None)) (e - t) = Some t" for e t
    using inv_end_iff[OF inv, of e t] Fa Eas by (auto simp: diff_eq_eq)
  show "chunks_inv (F(a := None)) (E(a + s := None)) U"
    by (rule chunks_invI)
      (use e in \<open>auto split: if_splits
         intro: inv_ok_free[OF inv] inv_ok_used[OF inv] inv_free_free[OF inv] inv_used_used[OF inv]
           inv_free_used[OF inv] inv_coalesced[OF inv]\<close>)
  show "gap (F(a := None)) a s" using inv_free_free[OF inv _ Fa] by (auto simp: gap_def split: if_splits)
  show "gap U a s" using inv_free_used[OF inv Fa] disj_sym by (auto simp: gap_def)
  show "chunk_ok a s" using inv Fa by (rule inv_ok_free)
qed

lemma inv_remove_used:
  assumes inv: "chunks_inv F E U" and Ua: "U a = Some s"
  shows "chunks_inv F E (U(a := None))"
    and "gap F a s" and "gap (U(a := None)) a s" and "chunk_ok a s"
proof -
  show "chunks_inv F E (U(a := None))"
    by (rule chunks_invI)
      (auto split: if_splits
         intro: inv_ok_free[OF inv] inv_ok_used[OF inv] inv_free_free[OF inv] inv_used_used[OF inv]
           inv_free_used[OF inv] inv_coalesced[OF inv] simp: inv_end_iff[OF inv])
  show "gap (U(a := None)) a s" using inv_used_used[OF inv _ Ua] by (auto simp: gap_def split: if_splits)
  show "gap F a s" using inv_free_used[OF inv _ Ua] by (auto simp: gap_def)
  show "chunk_ok a s" using inv Ua by (rule inv_ok_used)
qed

lemma inv_add_used:
  assumes inv: "chunks_inv F E U" and ok: "chunk_ok a s" and gF: "gap F a s" and gU: "gap U a s"
  shows "chunks_inv F E (U(a \<mapsto> s))"
  by (rule chunks_invI)
    (auto split: if_splits
       intro: ok inv_ok_free[OF inv] inv_ok_used[OF inv] inv_free_free[OF inv] inv_used_used[OF inv]
         inv_free_used[OF inv] inv_coalesced[OF inv] gapD[OF gF] gapD[OF gU] gapD'[OF gU]
       simp: inv_end_iff[OF inv])

lemma inv_add_free:
  assumes inv: "chunks_inv F E U" and ok: "chunk_ok a s" and gF: "gap F a s" and gU: "gap U a s"
    and next_free: "F (a + s) = None" and prev_free: "E a = None"
  shows "chunks_inv (F(a \<mapsto> s)) (E(a + s \<mapsto> s)) U"
proof -
  have Fa: "F a = None" and Eas: "E (a + s) = None"
    using inv ok gF by (rule gap_start_None, rule gap_end_None)
  have e: "(E(a + s \<mapsto> s)) e = Some t \<longleftrightarrow> (F(a \<mapsto> s)) (e - t) = Some t" for e t
  proof (cases "e = a + s")
    case True
    have "F (a + s - t) \<noteq> Some t" using inv_end_iff[OF inv, of "a + s" t] Eas by simp
    with True show ?thesis by (auto simp: algebra_simps)
  next
    case False
    then show ?thesis using inv_end_iff[OF inv, of e t] Fa by (auto simp: diff_eq_eq)
  qed
  have "b + t \<noteq> a" if "F b = Some t" for b t
    using inv_end_iff[OF inv, of a t] prev_free that by auto
  then show ?thesis
    by (intro chunks_invI)
      (use e next_free chunk_end_neq[OF ok] in \<open>auto split: if_splits
         intro: ok inv_ok_free[OF inv] inv_ok_used[OF inv] inv_free_free[OF inv] inv_used_used[OF inv]
           inv_free_used[OF inv] inv_coalesced[OF inv] gapD[OF gF] gapD'[OF gF] gapD'[OF gU]\<close>)
qed


section \<open>Merging a gap with its free neighbours\<close>

definition opt_size :: "u64 option \<Rightarrow> u64" where
  "opt_size r = (case r of None \<Rightarrow> 0 | Some s \<Rightarrow> s)"

lemma opt_size_simps [simp]: "opt_size None = 0" "opt_size (Some s) = s"
  by (simp_all add: opt_size_def)

lemma absorb_prev:
  assumes inv: "chunks_inv F E U" and ok: "chunk_ok b c" and gF: "gap F b c" and gU: "gap U b c"
    and p: "p = opt_size (E b)"
  shows "chunks_inv (F(b - p := None)) (E(b := None)) U \<and>
    chunk_ok (b - p) (c + p) \<and> gap (F(b - p := None)) (b - p) (c + p) \<and> gap U (b - p) (c + p) \<and>
    E (b - p) = None \<and> b + c \<noteq> b - p \<and> unat (b - p) + unat p = unat b \<and> unat (c + p) = unat c + unat p"
proof (cases "E b")
  case None
  then have "E(b := None) = E" "F(b := None) = F" "p = 0"
    using p gap_start_None[OF inv ok gF] by auto
  with inv ok gF gU None chunk_end_neq[OF ok] show ?thesis by simp
next
  case (Some q)
  then have Fp: "F (b - p) = Some p" using inv_end_iff[OF inv, of b q] p by simp
  note R = inv_remove_free[OF inv Fp]
  have ub: "unat b = unat (b - p) + unat p" using unat_end[OF R(4)] by simp
  have uc: "unat (c + p) = unat c + unat p"
    using ok R(4) ub by (intro unat_add_nowrap) (simp add: chunk_ok_def)
  have ok': "chunk_ok (b - p) (c + p)" using ok R(4) ub uc by (simp add: chunk_ok_def)
  have g1: "gap (F(b - p := None)) (b - p) (c + p)"
    by (rule gap_join[OF R(2) gap_remove[OF gF]])
      (use ub uc in \<open>auto split: if_splits intro: inv_ok_free[OF inv]\<close>)
  have g2: "gap U (b - p) (c + p)"
    by (rule gap_join[OF R(3) gU]) (use ub uc in \<open>auto intro: inv_ok_used[OF inv]\<close>)
  have "E (b - p) = None"
  proof (cases "E (b - p)")
    case (Some t)
    then have "F (b - p - t) = Some t" using inv_end_iff[OF inv] by simp
    from inv_coalesced[OF inv this] Fp show ?thesis by simp
  qed
  moreover have "unat (b + c) \<noteq> unat (b - p)" using ub unat_end[OF ok] ok by (simp add: chunk_ok_def)
  then have "b + c \<noteq> b - p" by metis
  ultimately show ?thesis using R(1) ok' g1 g2 ub uc by simp
qed

lemma absorb_next:
  assumes inv: "chunks_inv F E U" and ok: "chunk_ok b c" and gF: "gap F b c" and gU: "gap U b c"
    and n: "n = opt_size (F (b + c))"
  shows "chunks_inv (F(b + c := None)) (E(b + c + n := None)) U \<and>
    chunk_ok b (c + n) \<and> gap (F(b + c := None)) b (c + n) \<and> gap U b (c + n) \<and>
    F (b + c + n) = None \<and> unat (c + n) = unat c + unat n"
proof (cases "F (b + c)")
  case None
  then have "n = 0" "F(b + c := None) = F" "E(b + c := None) = E"
    using n gap_end_None[OF inv ok gF] by auto
  with inv ok gF gU None show ?thesis by simp
next
  case (Some m)
  with n have Fn: "F (b + c) = Some n" by simp
  note R = inv_remove_free[OF inv Fn]
  note ub = unat_end[OF ok]
  have uc: "unat (c + n) = unat c + unat n"
    using ok R(4) ub by (intro unat_add_nowrap) (simp add: chunk_ok_def)
  have ok': "chunk_ok b (c + n)" using ok R(4) ub uc by (simp add: chunk_ok_def)
  have g1: "gap (F(b + c := None)) b (c + n)"
    by (rule gap_join[OF gap_remove[OF gF] R(2)])
      (use ub uc in \<open>auto split: if_splits intro: inv_ok_free[OF inv]\<close>)
  have g2: "gap U b (c + n)"
    by (rule gap_join[OF gU R(3)]) (use ub uc in \<open>auto intro: inv_ok_used[OF inv]\<close>)
  show ?thesis using R(1) ok' g1 g2 uc inv_coalesced[OF inv Fn] by simp
qed

text \<open>The effect of \<open>add_free_chunk\<close> on the two free maps, all four merge cases at once.\<close>

lemma inv_add_gap:
  assumes inv: "chunks_inv F E U" and ok: "chunk_ok b c" and gF: "gap F b c" and gU: "gap U b c"
    and p: "p = opt_size (E b)" and n: "n = opt_size (F (b + c))"
  shows "chunks_inv (F(b + c := None, b - p \<mapsto> c + p + n)) (E(b := None, b + c + n \<mapsto> c + p + n)) U"
    and "unat (b - p) + unat p = unat b" and "unat (c + p + n) = unat c + unat p + unat n"
    and "E (b + c) = None" and "b + c \<noteq> b - p"
proof -
  note P = absorb_prev[OF inv ok gF gU p]
  let ?F = "F(b - p := None)" and ?E = "E(b := None)"
  have bc: "b - p + (c + p) = b + c" by simp
  have n': "n = opt_size (?F (b - p + (c + p)))" using P n bc by simp
  have N: "chunks_inv (?F(b + c := None)) (?E(b + c + n := None)) U \<and>
    chunk_ok (b - p) (c + p + n) \<and> gap (?F(b + c := None)) (b - p) (c + p + n) \<and> gap U (b - p) (c + p + n) \<and>
    ?F (b + c + n) = None \<and> unat (c + p + n) = unat (c + p) + unat n"
    using absorb_next[of ?F ?E U "b - p" "c + p" n] P n' bc by simp
  have be: "b - p + (c + p + n) = b + c + n" by simp
  have "chunks_inv (?F(b + c := None, b - p \<mapsto> c + p + n)) (?E(b + c + n := None, b + c + n \<mapsto> c + p + n)) U"
    using inv_add_free[of "?F(b + c := None)" "?E(b + c + n := None)" U "b - p" "c + p + n"] N P be
    by (simp split: if_splits)
  moreover have "?F(b + c := None, b - p \<mapsto> c + p + n) = F(b + c := None, b - p \<mapsto> c + p + n)"
    using P by auto
  ultimately show "chunks_inv (F(b + c := None, b - p \<mapsto> c + p + n)) (E(b := None, b + c + n \<mapsto> c + p + n)) U"
    by simp
  show "E (b + c) = None" using inv ok gF by (rule gap_end_None)
  show "unat (b - p) + unat p = unat b" "unat (c + p + n) = unat c + unat p + unat n" "b + c \<noteq> b - p"
    using P N by auto
qed


section \<open>The allocator's invariant\<close>

definition mspace_wf :: "mspace \<Rightarrow> bool" where
  "mspace_wf m \<longleftrightarrow>
     smap_wf (free_chunks_start m) \<and> smap_wf (free_chunks_end m) \<and> smap_wf (inuse_chunks m) \<and>
     chunks_inv (smap_find (free_chunks_start m)) (smap_find (free_chunks_end m)) (smap_find (inuse_chunks m))"

definition mspace_inv :: "mspace \<Rightarrow> bool" where
  "mspace_inv m \<longleftrightarrow> mspace_wf m \<and> ASSERT_CORRECTNESS m"

lemma gap_used_None:
  assumes inv: "chunks_inv F E U" and ok: "chunk_ok a s" and gU: "gap U a s"
  shows "U a = None"
proof (cases "U a")
  case (Some t)
  with gapD[OF gU Some] disj_irrefl[OF inv_ok_used[OF inv Some] ok] show ?thesis by simp
qed

lemma add_free_chunk_eq:
  assumes wf: "mspace_wf m" and ok: "chunk_ok b c"
    and gF: "gap (smap_find (free_chunks_start m)) b c" and gU: "gap (smap_find (inuse_chunks m)) b c"
    and p: "p = opt_size (smap_find (free_chunks_end m) b)"
    and n: "n = opt_size (smap_find (free_chunks_start m) (b + c))"
  shows "add_free_chunk m b c = Inr (m\<lparr>
    free_chunks_start := smap_insert (b - p) (c + p + n) (smap_erase (b + c) (free_chunks_start m)),
    free_chunks_end := smap_insert (b + c + n) (c + p + n) (smap_erase b (free_chunks_end m))\<rparr>)"
proof -
  let ?fs = "free_chunks_start m" and ?fe = "free_chunks_end m" and ?U = "smap_find (inuse_chunks m)"
  note W = wf[unfolded mspace_wf_def]
  from W have inv: "chunks_inv (smap_find ?fs) (smap_find ?fe) ?U" by blast
  note A = inv_add_gap[OF inv ok gF gU p n]
  have Ub: "?U b = None" using inv ok gU by (rule gap_used_None)
  have Ebc: "smap_find ?fe (b + c) = None" by (rule A(4))
  have bc: "b + c \<noteq> b - p" "b + c \<noteq> b" by (rule A(5)) (rule chunk_end_neq[OF ok])
  have canon: "smap_erase (b + c) ?fe = ?fe" using W Ebc by (simp add: smap.erase_absent)
  show ?thesis
  proof (cases "smap_find ?fe b")
    case Eb: None
    then have p0: "p = 0" and er: "smap_erase b ?fe = ?fe" using p W by (simp_all add: smap.erase_absent)
    show ?thesis
    proof (cases "smap_find ?fs (b + c)")
      case None
      then have "n = 0" "smap_erase (b + c) ?fs = ?fs" using n W by (simp_all add: smap.erase_absent)
      then show ?thesis using Eb None Ub p0 er
        by (simp add: add_free_chunk_def merge_prev_def merge_next_def Let_def)
    next
      case (Some k)
      then have "n = k" using n by simp
      then show ?thesis using Eb Some Ub p0 er canon
        by (simp add: add_free_chunk_def merge_prev_def merge_next_def Let_def)
    qed
  next
    case (Some q)
    then have Eb: "smap_find ?fe b = Some p" using p by simp
    have prev: "merge_prev ?fs ?fe b c = (smap_insert (b - p) (c + p) ?fs,
        smap_insert (b + c) (c + p) (smap_erase b ?fe), b - p, c + p, True)"
      by (simp add: merge_prev_def Eb Let_def)
    have find: "smap_find (smap_insert (b - p) (c + p) ?fs) (b + c) = smap_find ?fs (b + c)"
      using bc by (simp add: smap_simps)
    show ?thesis
    proof (cases "smap_find ?fs (b + c)")
      case None
      then have "n = 0" "smap_erase (b + c) ?fs = ?fs" using n W by (simp_all add: smap.erase_absent)
      then show ?thesis using None Ub find
        by (simp add: add_free_chunk_def prev merge_next_def Let_def)
    next
      case (Some k)
      then have nk: "n = k" using n by simp
      have fs: "smap_insert (b - p) (c + p + n) (smap_erase (b + c) (smap_insert (b - p) (c + p) ?fs)) =
          smap_insert (b - p) (c + p + n) (smap_erase (b + c) ?fs)"
        using W bc by (simp add: smap.erase_insert_other smap.insert_insert smap_simps)
      have fe: "smap_erase (b + c) (smap_insert (b + c) (c + p) (smap_erase b ?fe)) = smap_erase b ?fe"
        using W Ebc bc by (simp add: smap.erase_insert_fresh smap_simps)
      show ?thesis using Some nk Ub find
        by (simp add: add_free_chunk_def prev merge_next_def Let_def fs[unfolded nk] fe)
    qed
  qed
qed

section \<open>Bytes\<close>

definition chunk_bytes :: "u64 \<Rightarrow> u64 \<Rightarrow> nat set" where
  "chunk_bytes a s = {unat a ..< unat a + unat s}"

definition map_bytes :: "(u64 \<rightharpoonup> u64) \<Rightarrow> nat set" where
  "map_bytes F = {x. \<exists>a s. F a = Some s \<and> x \<in> chunk_bytes a s}"

lemma map_bytes_empty [simp]: "map_bytes (\<lambda>x. None) = {}"
  by (simp add: map_bytes_def)

lemma map_bytes_add: "F a = None \<Longrightarrow> map_bytes (F(a \<mapsto> s)) = map_bytes F \<union> chunk_bytes a s"
  unfolding map_bytes_def by (auto split: if_splits) (metis option.distinct(1))

lemma disj_bytes: "disj_chunks a s b t \<Longrightarrow> chunk_bytes a s \<inter> chunk_bytes b t = {}"
  by (auto simp: disj_chunks_def chunk_bytes_def)

lemma gap_bytes: "gap F a s \<Longrightarrow> map_bytes F \<inter> chunk_bytes a s = {}"
  unfolding map_bytes_def using gapD disj_bytes by blast

lemma map_bytes_split: "F a = Some s \<Longrightarrow> map_bytes F = map_bytes (F(a := None)) \<union> chunk_bytes a s"
  using map_bytes_add[of "F(a := None)" a s] by (simp add: map_upd_triv)

lemma chunk_bytes_append:
  "unat b = unat a + unat s \<Longrightarrow> unat st = unat s + unat t \<Longrightarrow>
   chunk_bytes a st = chunk_bytes a s \<union> chunk_bytes b t"
  by (auto simp: chunk_bytes_def)

lemma chunk_bytes_nonempty: "chunk_ok a s \<Longrightarrow> chunk_bytes a s \<noteq> {}"
  by (simp add: chunk_ok_def chunk_bytes_def)

lemma map_bytes_opt: "map_bytes F = map_bytes (F(a := None)) \<union> chunk_bytes a (opt_size (F a))"
  by (cases "F a") (simp_all add: map_bytes_split fun_upd_idem chunk_bytes_def)

lemma inv_add_gap_bytes:
  assumes inv: "chunks_inv F E U" and ok: "chunk_ok b c" and gF: "gap F b c" and gU: "gap U b c"
    and p: "p = opt_size (E b)" and n: "n = opt_size (F (b + c))"
  shows "opt_size (F (b - p)) = p" "opt_size (E (b + c + n)) = n" "b + c + n \<noteq> b"
    and "map_bytes (F(b + c := None, b - p \<mapsto> c + p + n)) = map_bytes F \<union> chunk_bytes b c"
proof -
  note A = inv_add_gap[OF inv ok gF gU p n]
  have Fb: "F b = None" using inv ok gF by (rule gap_start_None)
  show Fp: "opt_size (F (b - p)) = p"
    using p Fb inv_end_iff[OF inv, of b p] by (cases "E b") auto
  show "opt_size (E (b + c + n)) = n"
    using n A(4) inv_end_iff[OF inv, of "b + c + n" n] by (cases "F (b + c)") auto
  have ubc: "unat (b + c) = unat b + unat c" by (rule unat_end[OF ok])
  let ?G = "F(b + c := None, b - p := None)"
  have ok': "chunk_ok (b - p) (c + p + n)"
    by (rule inv_ok_free[OF A(1)]) simp
  have ubcn: "unat (b + c + n) = unat b + unat c + unat n"
    using unat_end[OF ok'] A(2,3) by (simp add: algebra_simps)
  have "unat (b + c + n) \<noteq> unat b" using ok ubcn by (simp add: chunk_ok_def)
  then show "b + c + n \<noteq> b" by metis
  have "map_bytes F = map_bytes (F(b + c := None)) \<union> chunk_bytes (b + c) n"
    using map_bytes_opt[of F "b + c"] n by simp
  also have "map_bytes (F(b + c := None)) = map_bytes ?G \<union> chunk_bytes (b - p) p"
    using map_bytes_opt[of "F(b + c := None)" "b - p"] A(5) Fp by simp
  finally have 1: "map_bytes F = map_bytes ?G \<union> chunk_bytes (b - p) p \<union> chunk_bytes (b + c) n" .
  have "chunk_bytes (b - p) (c + p + n) = chunk_bytes (b - p) p \<union> chunk_bytes b c \<union> chunk_bytes (b + c) n"
    using A(2,3) ubc by (auto simp: chunk_bytes_def)
  moreover have "F(b + c := None, b - p \<mapsto> c + p + n) = ?G(b - p \<mapsto> c + p + n)" by simp
  ultimately show "map_bytes (F(b + c := None, b - p \<mapsto> c + p + n)) = map_bytes F \<union> chunk_bytes b c"
    using map_bytes_add[of ?G "b - p" "c + p + n"] 1 by auto
qed

abbreviation free_at :: "mspace \<Rightarrow> u64 \<rightharpoonup> u64" where
  "free_at m \<equiv> smap_find (free_chunks_start m)"

abbreviation free_end_at :: "mspace \<Rightarrow> u64 \<rightharpoonup> u64" where
  "free_end_at m \<equiv> smap_find (free_chunks_end m)"

abbreviation used_at :: "mspace \<Rightarrow> u64 \<rightharpoonup> u64" where
  "used_at m \<equiv> smap_find (inuse_chunks m)"

lemma smap_sum_insert_opt: "smap_wf m \<Longrightarrow> smap_sum (smap_insert k v m) = smap_sum m + v - opt_size (smap_find m k)"
  and smap_sum_erase_opt: "smap_sum (smap_erase k m) = smap_sum m - opt_size (smap_find m k)"
  by (simp_all add: smap.sum_insert smap.sum_erase opt_size_def)

lemma mspace_wfD: "mspace_wf m \<Longrightarrow> chunks_inv (free_at m) (free_end_at m) (used_at m)"
  by (simp add: mspace_wf_def)

lemma add_free_chunk_wf:
  assumes wf: "mspace_wf m" and ok: "chunk_ok b c" and gF: "gap (free_at m) b c" and gU: "gap (used_at m) b c"
  obtains m' where "add_free_chunk m b c = Inr m'" "mspace_wf m'"
    "inuse_chunks m' = inuse_chunks m" "total_size m' = total_size m"
    "smap_sum (free_chunks_start m') = smap_sum (free_chunks_start m) + c"
    "smap_sum (free_chunks_end m') = smap_sum (free_chunks_end m) + c"
    "map_bytes (free_at m') = map_bytes (free_at m) \<union> chunk_bytes b c"
    "dom (free_at m') \<subseteq> insert b (dom (free_at m))"
proof -
  define p n where p: "p = opt_size (free_end_at m b)" and n: "n = opt_size (free_at m (b + c))"
  let ?fs = "smap_insert (b - p) (c + p + n) (smap_erase (b + c) (free_chunks_start m))"
  let ?fe = "smap_insert (b + c + n) (c + p + n) (smap_erase b (free_chunks_end m))"
  let ?m = "m\<lparr>free_chunks_start := ?fs, free_chunks_end := ?fe\<rparr>"
  note W = wf[unfolded mspace_wf_def]
  note A = inv_add_gap[OF mspace_wfD[OF wf] ok gF gU p n]
  note B = inv_add_gap_bytes[OF mspace_wfD[OF wf] ok gF gU p n]
  have find: "smap_find ?fs = (free_at m)(b + c := None, b - p \<mapsto> c + p + n)"
    "smap_find ?fe = (free_end_at m)(b := None, b + c + n \<mapsto> c + p + n)"
    using W by (simp_all add: smap_simps)
  show ?thesis
  proof (rule that)
    show "add_free_chunk m b c = Inr ?m" by (rule add_free_chunk_eq[OF wf ok gF gU p n])
    show "mspace_wf ?m" using W A(1) find by (simp add: mspace_wf_def smap_simps)
    show "smap_sum (free_chunks_start ?m) = smap_sum (free_chunks_start m) + c"
      using W A(5) B(1) by (simp add: smap_sum_insert_opt smap_sum_erase_opt smap_simps flip: n)
    show "smap_sum (free_chunks_end ?m) = smap_sum (free_chunks_end m) + c"
      using W B(2,3) by (simp add: smap_sum_insert_opt smap_sum_erase_opt smap_simps flip: p)
    show "map_bytes (free_at ?m) = map_bytes (free_at m) \<union> chunk_bytes b c"
      using B(4) find by simp
    show "dom (free_at ?m) \<subseteq> insert b (dom (free_at m))"
      using B(1) find by (cases "free_at m (b - p)") (auto split: if_splits)
  qed simp_all
qed

section \<open>Alignment\<close>

lemma mask9: "CHUNK_ALIGN_MASK = mask 9"
  by (simp add: CHUNK_ALIGN_MASK_def NVSHMEMI_MALLOC_ALIGNMENT_def mask_eq_exp_minus_1)

lemma unat_and_mask9: "unat (x AND CHUNK_ALIGN_MASK :: u64) = unat x mod 512"
proof -
  have "unat (x AND mask 9) = take_bit 9 (unat x)"
    by (simp only: take_bit_eq_mask[symmetric] unsigned_take_bit_eq)
  then show ?thesis unfolding mask9 by (simp add: take_bit_eq_mod)
qed

lemma unat_and_not_mask9: "unat (x AND NOT CHUNK_ALIGN_MASK :: u64) = unat x div 512 * 512"
proof -
  have "x AND NOT CHUNK_ALIGN_MASK = x AND NOT (x AND CHUNK_ALIGN_MASK)"
    by (intro bit_word_eqI) (auto simp: bit_simps)
  also have "\<dots> = x - (x AND CHUNK_ALIGN_MASK)"
    by (rule disjunctive_diff[symmetric]) (simp add: bit_simps)
  also have "unat \<dots> = unat x - unat x mod 512"
    by (simp add: unat_sub_nowrap unat_and_mask9)
  finally show ?thesis by (simp add: minus_mod_eq_div_mult)
qed

lemma align_request_spec:
  assumes "unat x + 511 < 2 ^ 64"
  shows "unat (align_request x) = (unat x + 511) div 512 * 512"
    and "512 dvd unat (align_request x)" "unat x \<le> unat (align_request x)" "unat (align_request x) < unat x + 512"
proof -
  have "unat (x + CHUNK_ALIGN_MASK) = unat x + 511"
    using assms by (simp add: CHUNK_ALIGN_MASK_def NVSHMEMI_MALLOC_ALIGNMENT_def unat_nowrap)
  then show *: "unat (align_request x) = (unat x + 511) div 512 * 512"
    by (simp add: align_request_def unat_and_not_mask9)
  show "512 dvd unat (align_request x)" "unat x \<le> unat (align_request x)" "unat (align_request x) < unat x + 512"
    unfolding * using div_mult_mod_eq[of "unat x + 511" 512] mod_less_divisor[of 512 "unat x + 511"]
    by simp_all
qed

lemma dvd_complement: "(512::nat) dvd a + (512 - a mod 512) mod 512"
proof (cases "a mod 512 = 0")
  case False
  then have r: "(512 - a mod 512) mod 512 = 512 - a mod 512" by simp
  have e: "a + (512 - a mod 512) = (a - a mod 512) + 512"
    using mod_less_eq_dividend[of a 512] mod_less_divisor[of 512 a] by simp
  show ?thesis unfolding r e by (intro dvd_add dvd_minus_mod) simp
qed auto

lemma align_offset_spec:
  shows "unat (align_offset a) = (512 - unat a mod 512) mod 512" "unat (align_offset a) < 512"
    "512 dvd unat a + unat (align_offset a)"
proof -
  have "unat (NVSHMEMI_MALLOC_ALIGNMENT - (a AND CHUNK_ALIGN_MASK)) = 512 - unat a mod 512"
    using unat_and_mask9[of a] by (simp add: NVSHMEMI_MALLOC_ALIGNMENT_def unat_sub_nowrap)
  moreover have "a AND CHUNK_ALIGN_MASK = 0 \<longleftrightarrow> unat a mod 512 = 0"
    by (metis unat_and_mask9 unat_eq_zero)
  ultimately show *: "unat (align_offset a) = (512 - unat a mod 512) mod 512"
    by (simp add: align_offset_def unat_and_mask9)
  show "unat (align_offset a) < 512" "512 dvd unat a + unat (align_offset a)"
    unfolding * by simp (rule dvd_complement)
qed

lemma mspace_invD: "mspace_inv m \<Longrightarrow> mspace_wf m" "mspace_inv m \<Longrightarrow> ASSERT_CORRECTNESS m"
  by (simp_all add: mspace_inv_def)

lemma mspace_new_inv:
  assumes cap: "512 \<le> unat capacity" and fits: "unat base + unat capacity < 2 ^ 64" and base: "base \<noteq> 0"
  shows "mspace_inv (mspace_new base capacity)"
    and "inuse_chunks (mspace_new base capacity) = []"
    and "free_chunks_start (mspace_new base capacity) =
      [(base + align_offset base, capacity - align_offset base)]"
proof -
  let ?o = "align_offset base"
  note O = align_offset_spec(2)[of base]
  have ub: "unat (base + ?o) = unat base + unat ?o" and uc: "unat (capacity - ?o) = unat capacity - unat ?o"
    using O cap fits by (simp_all add: unat_nowrap)
  have "0 < unat (capacity - ?o)" using O cap uc by simp
  then have pos: "capacity - ?o > 0" by (simp add: word_gt_0 unat_pos_iff)
  have ok: "chunk_ok (base + ?o) (capacity - ?o)"
    using ub uc O cap fits base by (simp add: chunk_ok_def unat_pos_iff)
  have eq: "mspace_new base capacity =
    \<lparr>free_chunks_start = [(base + ?o, capacity - ?o)], free_chunks_end = [(base + capacity, capacity - ?o)],
     inuse_chunks = [], total_size = capacity - ?o\<rparr>"
    using pos by (simp add: mspace_new_def Let_def mspace_empty_def)
  have "chunks_inv (\<lambda>x. None) (\<lambda>x. None) (\<lambda>x. None)" by (simp add: chunks_inv_def)
  from inv_add_free[OF this ok]
  have "chunks_inv [base + ?o \<mapsto> capacity - ?o] [base + capacity \<mapsto> capacity - ?o] Map.empty"
    by (simp add: gap_def)
  then show "mspace_inv (mspace_new base capacity)"
    unfolding eq mspace_inv_def mspace_wf_def ASSERT_CORRECTNESS_def get_total_size_def
    by (simp add: smap_wf_Cons smap_sum_def smap_find_single)
  show "inuse_chunks (mspace_new base capacity) = []"
    "free_chunks_start (mspace_new base capacity) = [(base + ?o, capacity - ?o)]"
    unfolding eq by simp_all
qed

lemma find_first_SomeD:
  assumes "List.find P xs = Some x"
  shows "x \<in> set xs \<and> P x"
  using assms by (auto simp: find_Some_iff)

lemma allocate_None:
  assumes "smap_wf (free_chunks_start m)"
    "\<And>a s. free_at m a = Some s \<Longrightarrow> s < align_request bytes"
  shows "allocate m bytes = (0, m)"
proof -
  have "List.find (\<lambda>(a, s). s \<ge> align_request bytes) (free_chunks_start m) = None"
    using assms smap_in_find[OF assms(1)] by (fastforce simp: find_None_iff)
  then show ?thesis by (simp add: allocate_def)
qed

text \<open>Carving \<open>n\<close> bytes off the front of a free chunk.\<close>

lemma inv_carve:
  assumes inv: "chunks_inv F E U" and Fa: "F a = Some s" and le: "n \<le> s" and n0: "n \<noteq> 0"
  defines "F' \<equiv> (if s - n > 0 then F(a + n \<mapsto> s - n, a := None) else F(a := None))"
  defines "E' \<equiv> (if s - n > 0 then E(a + s \<mapsto> s - n) else E(a + s := None))"
  shows "chunks_inv F' E' (U(a \<mapsto> n))" and "U a = None"
    and "map_bytes F = map_bytes F' \<union> chunk_bytes a n" and "map_bytes F' \<inter> chunk_bytes a n = {}"
proof -
  note R = inv_remove_free[OF inv Fa]
  have un: "unat n \<le> unat s" "0 < unat n" using le n0 by (simp_all add: word_le_nat_alt unat_pos_iff)
  have us: "unat (s - n) = unat s - unat n" using un by (simp add: unat_nowrap)
  have ok: "chunk_ok a n" using R(4) un by (simp add: chunk_ok_def)
  note ua = unat_end[OF ok]
  have gF: "gap (F(a := None)) a n" and gU: "gap U a n"
    by (rule gap_sub[OF R(2)]; use un in simp) (rule gap_sub[OF R(3)]; use un in simp)
  note U = inv_add_used[OF R(1) ok gF gU]
  show "U a = None" using inv R(4) R(3) by (rule gap_used_None)
  have "chunks_inv F' E' (U(a \<mapsto> n)) \<and> map_bytes F = map_bytes F' \<union> chunk_bytes a n \<and> gap F' a n"
  proof (cases "s - n > 0")
    case True
    then have pos: "0 < unat (s - n)" by (simp add: word_gt_0 unat_pos_iff)
    have ok': "chunk_ok (a + n) (s - n)" using R(4) ua us un pos by (simp add: chunk_ok_def)
    have gF': "gap (F(a := None)) (a + n) (s - n)"
      by (rule gap_sub[OF R(2)]) (use ua us un in simp_all)
    have gU': "gap (U(a \<mapsto> n)) (a + n) (s - n)"
      using gap_sub[OF R(3), of "a + n" "s - n"] ua us un by (auto simp: gap_def disj_chunks_def)
    have e: "a + n + (s - n) = a + s" by simp
    have coal: "(F(a := None)) (a + s) = None" using inv_coalesced[OF inv Fa] by simp
    have prev: "(E(a + s := None)) (a + n) = None"
      using gap_end_None[OF R(1) ok gF] .
    have ne: "a + n \<noteq> a" using n0 by simp
    then have F': "F' = (F(a := None))(a + n \<mapsto> s - n)" and E': "E' = (E(a + s := None))(a + s \<mapsto> s - n)"
      using True by (simp_all add: F'_def E'_def fun_upd_twist)
    have none: "(F(a := None)) (a + n) = None" by (rule gap_start_None[OF R(1) ok' gF'])
    have "chunk_bytes a s = chunk_bytes a n \<union> chunk_bytes (a + n) (s - n)"
      by (rule chunk_bytes_append) (use ua us un in simp_all)
    then have "map_bytes F = map_bytes F' \<union> chunk_bytes a n"
      using map_bytes_split[of F a s, OF Fa] map_bytes_add[of "F(a := None)" "a + n" "s - n", OF none] F' by auto
    moreover have "gap F' a n"
      using gF ua un unfolding F' by (auto simp: gap_def disj_chunks_def)
    ultimately show ?thesis
      using inv_add_free[OF U ok' gF' gU'] e coal prev unfolding F' E' by simp
  next
    case False
    then have "s = n" by (simp add: word_gt_0)
    then show ?thesis using False U gF map_bytes_split[of F a s, OF Fa] by (simp add: F'_def E'_def)
  qed
  then show "chunks_inv F' E' (U(a \<mapsto> n))" "map_bytes F = map_bytes F' \<union> chunk_bytes a n"
    "map_bytes F' \<inter> chunk_bytes a n = {}"
    using gap_bytes by blast+
qed

lemma allocate_Some:
  assumes inv: "mspace_inv m" and bytes: "bytes \<noteq> 0" and nowrap: "unat bytes + 511 < 2 ^ 64"
    and find: "List.find (\<lambda>(a, s). s \<ge> align_request bytes) (free_chunks_start m) = Some (a, s)"
  obtains m' where "allocate m bytes = (a, m')" "mspace_inv m'" "a \<noteq> 0" "used_at m a = None"
    "inuse_chunks m' = smap_insert a (align_request bytes) (inuse_chunks m)" "total_size m' = total_size m"
    "map_bytes (free_at m) = map_bytes (free_at m') \<union> chunk_bytes a (align_request bytes)"
    "map_bytes (free_at m') \<inter> chunk_bytes a (align_request bytes) = {}"
    "free_at m a = Some s"
    "free_at m' = (if s - align_request bytes > 0 then (free_at m)(a + align_request bytes \<mapsto> s - align_request bytes, a := None) else (free_at m)(a := None))"
proof -
  let ?n = "align_request bytes" and ?fs = "free_chunks_start m" and ?fe = "free_chunks_end m"
  note W = inv[unfolded mspace_inv_def mspace_wf_def]
  have le: "?n \<le> s" and "(a, s) \<in> set ?fs" using find_first_SomeD[OF find] by auto
  with W have Fa: "free_at m a = Some s" by (simp add: smap_in_find)
  have n0: "?n \<noteq> 0"
    using align_request_spec(3)[OF nowrap] bytes by (metis le_zero_eq unat_0 unat_eq_zero)
  note C = inv_carve[OF mspace_wfD[OF mspace_invD(1)[OF inv]] Fa le n0]
  define fs' where "fs' = (if s - ?n > 0 then smap_erase a (smap_insert (a + ?n) (s - ?n) ?fs) else smap_erase a ?fs)"
  define fe' where "fe' = (if s - ?n > 0 then smap_insert (a + s) (s - ?n) ?fe else smap_erase (a + s) ?fe)"
  define m' where "m' = m\<lparr>free_chunks_start := fs', free_chunks_end := fe', inuse_chunks := smap_insert a ?n (inuse_chunks m)\<rparr>"
  have Ea: "free_end_at m (a + s) = Some s"
    using inv_end_iff[OF mspace_wfD[OF mspace_invD(1)[OF inv]]] Fa by simp
  have ff: "smap_find fs' = (if s - ?n > 0 then (free_at m)(a + ?n \<mapsto> s - ?n, a := None) else (free_at m)(a := None))"
    "smap_find fe' = (if s - ?n > 0 then (free_end_at m)(a + s \<mapsto> s - ?n) else (free_end_at m)(a + s := None))"
    using W by (simp_all add: fs'_def fe'_def smap_simps)
  have an: "free_at m (a + ?n) = None" if "s - ?n > 0"
  proof (rule ccontr)
    assume "free_at m (a + ?n) \<noteq> None"
    then obtain t where t: "free_at m (a + ?n) = Some t" by blast
    have "disj_chunks a s (a + ?n) t"
      using inv_free_free[OF mspace_wfD[OF mspace_invD(1)[OF inv]] Fa t] n0 by simp
    moreover have ok: "chunk_ok a s" "chunk_ok (a + ?n) t"
      using inv_ok_free[OF mspace_wfD[OF mspace_invD(1)[OF inv]]] Fa t by blast+
    moreover have "unat ?n < unat s" using that le by (metis word_less_nat_alt order_le_less word_gt_0 right_minus_eq)
    moreover have "unat (a + ?n) = unat a + unat ?n"
      using calculation by (intro unat_add_nowrap) (simp add: chunk_ok_def)
    ultimately show False by (auto simp: disj_chunks_def chunk_ok_def)
  qed
  have sums: "smap_sum fs' = smap_sum ?fs - ?n" "smap_sum fe' = smap_sum ?fe - ?n"
    using W Fa Ea an n0
    by (auto simp: fs'_def fe'_def smap_sum_insert_opt smap_sum_erase_opt smap_simps word_gt_0)
  have wf: "mspace_wf m'"
    using W C(1) ff by (simp add: mspace_wf_def m'_def fs'_def fe'_def smap_simps)
  have "ASSERT_CORRECTNESS m'"
    using W C(2) by (auto simp: ASSERT_CORRECTNESS_def get_total_size_def m'_def smap.sum_insert_fresh sums)
  show ?thesis
  proof (rule that)
    show "allocate m bytes = (a, m')"
      using bytes find by (simp add: allocate_def Let_def m'_def fs'_def fe'_def)
    show "mspace_inv m'" using wf \<open>ASSERT_CORRECTNESS m'\<close> by (simp add: mspace_inv_def)
    show "a \<noteq> 0"
      using inv_ok_free[OF mspace_wfD[OF mspace_invD(1)[OF inv]] Fa] by (auto simp: chunk_ok_def)
    show "free_at m a = Some s" by (rule Fa)
  qed (use C ff in \<open>simp_all add: m'_def\<close>)
qed

section \<open>Free bytes determine the free maps\<close>

lemma map_bytesI: "F a = Some s \<Longrightarrow> unat a \<le> x \<Longrightarrow> x < unat a + unat s \<Longrightarrow> x \<in> map_bytes F"
  by (auto simp: map_bytes_def chunk_bytes_def)

lemma map_bytesE:
  assumes "x \<in> map_bytes F"
  obtains a s where "F a = Some s" "unat a \<le> x" "x < unat a + unat s"
  using assms by (auto simp: map_bytes_def chunk_bytes_def)

lemma chunk_before:
  assumes inv: "chunks_inv F E U" and Fa: "F a = Some s" and x: "x + 1 = unat a"
  shows "x \<notin> map_bytes F"
proof
  assume "x \<in> map_bytes F"
  then obtain b t where b: "F b = Some t" "unat b \<le> x" "x < unat b + unat t" by (rule map_bytesE)
  with x have "b \<noteq> a" by auto
  then have "disj_chunks b t a s" using inv_free_free[OF inv b(1) Fa] by simp
  then have "unat b + unat t = unat a" using b x inv_ok_free[OF inv Fa] by (auto simp: disj_chunks_def chunk_ok_def)
  then have "b + t = a" using unat_end[OF inv_ok_free[OF inv b(1)]] by (simp add: word_unat_eq_iff)
  then show False using inv_coalesced[OF inv b(1)] Fa by simp
qed

lemma chunk_after:
  assumes inv: "chunks_inv F E U" and Fa: "F a = Some s"
  shows "unat a + unat s \<notin> map_bytes F"
proof
  assume "unat a + unat s \<in> map_bytes F"
  then obtain b t where b: "F b = Some t" "unat b \<le> unat a + unat s" "unat a + unat s < unat b + unat t"
    by (rule map_bytesE)
  have "a \<noteq> b" using Fa b by auto
  then have "disj_chunks a s b t" using inv_free_free[OF inv Fa b(1)] by simp
  then have "unat b = unat a + unat s"
    using b inv_ok_free[OF inv Fa] by (auto simp: disj_chunks_def chunk_ok_def)
  then have "b = a + s" using unat_end[OF inv_ok_free[OF inv Fa]] by (simp add: word_unat_eq_iff)
  then show False using inv_coalesced[OF inv Fa] b(1) by simp
qed

text \<open>A run of free bytes lies inside one free chunk, because free chunks never touch.\<close>

lemma run_in_chunk:
  assumes inv: "chunks_inv F E U" and run: "{x ..< x + Suc k} \<subseteq> map_bytes F"
  shows "\<exists>a s. F a = Some s \<and> unat a \<le> x \<and> x + Suc k \<le> unat a + unat s"
  using run
proof (induction k)
  case 0
  then have "x \<in> map_bytes F" by auto
  then show ?case by (rule map_bytesE) (auto simp: Suc_le_eq)
next
  case (Suc k)
  have "{x ..< x + Suc k} \<subseteq> map_bytes F" "x + Suc k \<in> map_bytes F" using Suc.prems by auto
  with Suc.IH obtain a s where a: "F a = Some s" "unat a \<le> x" "x + Suc k \<le> unat a + unat s" by blast
  have "x + Suc k \<noteq> unat a + unat s" using chunk_after[OF inv a(1)] \<open>x + Suc k \<in> map_bytes F\<close> by metis
  with a show ?case by (intro exI[of _ a] exI[of _ s]) auto
qed

lemma free_bytes_determine_le:
  assumes inv: "chunks_inv F E U" and inv': "chunks_inv F' E' U'" and eq: "map_bytes F = map_bytes F'"
    and Fa: "F a = Some s"
  shows "F' a = Some s"
proof -
  note ok = inv_ok_free[OF inv Fa]
  then obtain k where k: "unat s = Suc k" by (auto simp: chunk_ok_def gr0_conv_Suc)
  then have "{unat a ..< unat a + Suc k} \<subseteq> map_bytes F'"
    using Fa unfolding eq[symmetric] by (auto intro: map_bytesI)
  from run_in_chunk[OF inv' this] k obtain b t where
    b: "F' b = Some t" "unat b \<le> unat a" "unat a + unat s \<le> unat b + unat t" by auto
  have "unat b = unat a"
  proof (rule ccontr)
    assume "unat b \<noteq> unat a"
    with b k have "unat a - 1 \<in> map_bytes F'" by (intro map_bytesI[of F' b t]) auto
    then show False using chunk_before[OF inv Fa, of "unat a - 1"] ok eq by (simp add: chunk_ok_def)
  qed
  moreover have "unat t = unat s"
  proof (rule ccontr)
    assume "unat t \<noteq> unat s"
    with b calculation have "unat a + unat s \<in> map_bytes F'" by (intro map_bytesI[of F' b t]) auto
    then show False using chunk_after[OF inv Fa] eq by simp
  qed
  ultimately have "b = a" "t = s" by (simp_all add: word_unat_eq_iff)
  then show ?thesis using b(1) by simp
qed

lemma free_bytes_determine:
  assumes inv: "chunks_inv F E U" and inv': "chunks_inv F' E' U'" and eq: "map_bytes F = map_bytes F'"
  shows "F = F'" and "E = E'"
proof -
  show F: "F = F'"
  proof
    fix a show "F a = F' a"
      using free_bytes_determine_le[OF inv inv' eq, of a] free_bytes_determine_le[OF inv' inv eq[symmetric], of a]
      by (cases "F a"; cases "F' a") auto
  qed
  have "E e = Some s \<longleftrightarrow> E' e = Some s" for e s
    using inv_end_iff[OF inv, of e s] inv_end_iff[OF inv', of e s] F by simp
  then show "E = E'" by (intro ext) (metis not_Some_eq)
qed

lemma mspace_determined:
  assumes "mspace_wf m" "mspace_wf m'" "map_bytes (free_at m) = map_bytes (free_at m')"
    "inuse_chunks m = inuse_chunks m'" "total_size m = total_size m'"
  shows "m = m'"
proof -
  have "free_at m = free_at m'" "free_end_at m = free_end_at m'"
    using free_bytes_determine[OF mspace_wfD mspace_wfD] assms by blast+
  then have "free_chunks_start m = free_chunks_start m'" "free_chunks_end m = free_chunks_end m'"
    using assms(1,2) by (auto simp: mspace_wf_def intro: smap_ext)
  with assms show ?thesis by (intro mspace.equality) auto
qed

section \<open>What each operation does to a well-formed heap\<close>

lemma deallocate_spec:
  assumes inv: "mspace_inv m" and used: "used_at m p = Some s"
  obtains m' where "deallocate m p = Inr m'" "mspace_inv m'"
    "inuse_chunks m' = smap_erase p (inuse_chunks m)" "total_size m' = total_size m"
    "map_bytes (free_at m') = map_bytes (free_at m) \<union> chunk_bytes p s"
    "map_bytes (free_at m) \<inter> chunk_bytes p s = {}"
    "dom (free_at m') \<subseteq> insert p (dom (free_at m))"
proof -
  note W = inv[unfolded mspace_inv_def mspace_wf_def]
  let ?m = "m\<lparr>inuse_chunks := smap_erase p (inuse_chunks m)\<rparr>"
  note R = inv_remove_used[OF mspace_wfD[OF mspace_invD(1)[OF inv]] used]
  have wf: "mspace_wf ?m" using W R(1) by (simp add: mspace_wf_def smap_simps)
  have gU: "gap (used_at ?m) p s" using W R(3) by (simp add: smap_simps)
  have gF: "gap (free_at ?m) p s" using R(2) by simp
  obtain m' where m': "add_free_chunk ?m p s = Inr m'" "mspace_wf m'"
    "inuse_chunks m' = inuse_chunks ?m" "total_size m' = total_size ?m"
    "smap_sum (free_chunks_start m') = smap_sum (free_chunks_start ?m) + s"
    "smap_sum (free_chunks_end m') = smap_sum (free_chunks_end ?m) + s"
    "map_bytes (free_at m') = map_bytes (free_at ?m) \<union> chunk_bytes p s"
    "dom (free_at m') \<subseteq> insert p (dom (free_at ?m))"
    using add_free_chunk_wf[OF wf R(4) gF gU] .
  show ?thesis
  proof (rule that)
    show "deallocate m p = Inr m'" using used m'(1) by (simp add: deallocate_def)
    show "mspace_inv m'"
      using W m' used by (auto simp: mspace_inv_def ASSERT_CORRECTNESS_def get_total_size_def smap.sum_erase_present)
    show "map_bytes (free_at m) \<inter> chunk_bytes p s = {}" using gap_bytes[OF R(2)] .
  qed (use m' in simp_all)
qed

lemma add_new_chunk_spec:
  assumes inv: "mspace_inv m" and ok: "chunk_ok b c" and gF: "gap (free_at m) b c" and gU: "gap (used_at m) b c"
  obtains m' where "add_new_chunk m b c = Inr m'" "mspace_inv m'"
    "inuse_chunks m' = inuse_chunks m" "total_size m' = total_size m + c"
    "map_bytes (free_at m') = map_bytes (free_at m) \<union> chunk_bytes b c"
    "dom (free_at m') \<subseteq> insert b (dom (free_at m))"
proof -
  let ?m = "m\<lparr>total_size := total_size m + c\<rparr>"
  have wf: "mspace_wf ?m" using inv by (simp add: mspace_inv_def mspace_wf_def)
  have g: "gap (free_at ?m) b c" "gap (used_at ?m) b c" using gF gU by simp_all
  obtain m' where m': "add_free_chunk ?m b c = Inr m'" "mspace_wf m'"
    "inuse_chunks m' = inuse_chunks ?m" "total_size m' = total_size ?m"
    "smap_sum (free_chunks_start m') = smap_sum (free_chunks_start ?m) + c"
    "smap_sum (free_chunks_end m') = smap_sum (free_chunks_end ?m) + c"
    "map_bytes (free_at m') = map_bytes (free_at ?m) \<union> chunk_bytes b c"
    "dom (free_at m') \<subseteq> insert b (dom (free_at ?m))"
    using add_free_chunk_wf[OF wf ok g] .
  show ?thesis
  proof (rule that)
    show "add_new_chunk m b c = Inr m'" using m'(1) by (simp add: add_new_chunk_def)
    show "mspace_inv m'"
      using inv m' by (auto simp: mspace_inv_def ASSERT_CORRECTNESS_def get_total_size_def)
  qed (use m' in simp_all)
qed

text \<open>Cutting the first \<open>d\<close> bytes off a chunk in use and giving them back.\<close>

lemma trim_front:
  assumes inv: "mspace_inv m" and used: "used_at m p = Some s" and d: "0 < unat d" "unat d < unat s"
  obtains m' where
    "add_free_chunk (m\<lparr>inuse_chunks := smap_erase p (smap_insert (p + d) (s - d) (inuse_chunks m))\<rparr>) p d = Inr m'"
    "mspace_inv m'" "inuse_chunks m' = smap_erase p (smap_insert (p + d) (s - d) (inuse_chunks m))"
    "total_size m' = total_size m" "map_bytes (free_at m') = map_bytes (free_at m) \<union> chunk_bytes p d"
    "unat (p + d) = unat p + unat d" "unat (s - d) = unat s - unat d"
    "used_at m (p + d) = None" "dom (free_at m') \<subseteq> insert p (dom (free_at m))"
proof -
  note W = inv[unfolded mspace_inv_def mspace_wf_def]
  note I = mspace_wfD[OF mspace_invD(1)[OF inv]]
  let ?U = "smap_erase p (smap_insert (p + d) (s - d) (inuse_chunks m))"
  let ?m = "m\<lparr>inuse_chunks := ?U\<rparr>"
  note R = inv_remove_used[OF I used]
  have us: "unat (s - d) = unat s - unat d" using d by (simp add: unat_nowrap)
  have up: "unat (p + d) = unat p + unat d"
    using d R(4) by (intro unat_add_nowrap) (simp add: chunk_ok_def)
  have ok1: "chunk_ok (p + d) (s - d)" and ok2: "chunk_ok p d"
    using R(4) d us up by (simp_all add: chunk_ok_def)
  have g1: "gap (free_at m) (p + d) (s - d)" "gap ((used_at m)(p := None)) (p + d) (s - d)"
    by (rule gap_sub[OF R(2)]; use d us up in simp) (rule gap_sub[OF R(3)]; use d us up in simp)
  have g2: "gap (free_at m) p d" "gap ((used_at m)(p := None)) p d"
    by (rule gap_sub[OF R(2)]; use d in simp) (rule gap_sub[OF R(3)]; use d in simp)
  have ne: "p + d \<noteq> p" using d by auto
  have find: "smap_find ?U = (used_at m)(p := None, p + d \<mapsto> s - d)"
    using W ne by (simp add: smap_simps fun_upd_twist)
  have none: "used_at m (p + d) = None"
    using gap_used_None[OF R(1) ok1 g1(2)] ne by simp
  have wf: "mspace_wf ?m"
    using W find inv_add_used[OF R(1) ok1 g1] by (simp add: mspace_wf_def smap_wf_insert smap_wf_erase)
  have gU: "gap (used_at ?m) p d" using g2(2) up by (auto simp: find gap_def disj_chunks_def)
  have gF: "gap (free_at ?m) p d" using g2(1) by simp
  obtain m' where m': "add_free_chunk ?m p d = Inr m'" "mspace_wf m'"
    "inuse_chunks m' = inuse_chunks ?m" "total_size m' = total_size ?m"
    "smap_sum (free_chunks_start m') = smap_sum (free_chunks_start ?m) + d"
    "smap_sum (free_chunks_end m') = smap_sum (free_chunks_end ?m) + d"
    "map_bytes (free_at m') = map_bytes (free_at ?m) \<union> chunk_bytes p d"
    "dom (free_at m') \<subseteq> insert p (dom (free_at ?m))"
    using add_free_chunk_wf[OF wf ok2 gF gU] .
  have "smap_sum ?U = smap_sum (inuse_chunks m) - d"
    using W none used ne by (simp add: smap_sum_erase_opt smap_sum_insert_opt smap_simps)
  then have "mspace_inv m'"
    using W m' by (auto simp: mspace_inv_def ASSERT_CORRECTNESS_def get_total_size_def)
  then show ?thesis using that m' us up none by simp
qed

lemma allocate_cases:
  assumes inv: "mspace_inv m" and nowrap: "unat bytes + 511 < 2 ^ 64"
  obtains (null) "allocate m bytes = (0, m)"
      "bytes \<noteq> 0 \<Longrightarrow> (\<And>a s. free_at m a = Some s \<Longrightarrow> s < align_request bytes)"
  | (block) a s m' where "bytes \<noteq> 0" "allocate m bytes = (a, m')" "mspace_inv m'" "a \<noteq> 0" "used_at m a = None"
    "inuse_chunks m' = smap_insert a (align_request bytes) (inuse_chunks m)" "total_size m' = total_size m"
    "map_bytes (free_at m) = map_bytes (free_at m') \<union> chunk_bytes a (align_request bytes)"
    "map_bytes (free_at m') \<inter> chunk_bytes a (align_request bytes) = {}"
    "free_at m a = Some s" "align_request bytes \<le> s"
    "\<And>b t. free_at m b = Some t \<Longrightarrow> align_request bytes \<le> t \<Longrightarrow> a \<le> b"
    "dom (free_at m') \<subseteq> insert (a + align_request bytes) (dom (free_at m))"
proof -
  note W = inv[unfolded mspace_inv_def mspace_wf_def]
  let ?P = "\<lambda>(a, s). s \<ge> align_request bytes"
  show ?thesis
  proof (cases "bytes = 0")
    case True
    then show ?thesis by (intro null) (simp_all add: allocate_def)
  next
    case b0: False
    show ?thesis
    proof (cases "List.find ?P (free_chunks_start m)")
      case None
      then have "s < align_request bytes" if "free_at m a = Some s" for a s
        using smap_find_in[OF that] by (fastforce simp: find_None_iff)
      with W show ?thesis by (intro null allocate_None) auto
    next
      case (Some e)
      then obtain a s where e: "List.find ?P (free_chunks_start m) = Some (a, s)" by (cases e) auto
      obtain m' where m': "allocate m bytes = (a, m')" "mspace_inv m'" "a \<noteq> 0" "used_at m a = None"
        "inuse_chunks m' = smap_insert a (align_request bytes) (inuse_chunks m)" "total_size m' = total_size m"
        "map_bytes (free_at m) = map_bytes (free_at m') \<union> chunk_bytes a (align_request bytes)"
        "map_bytes (free_at m') \<inter> chunk_bytes a (align_request bytes) = {}"
        "free_at m a = Some s"
        "free_at m' = (if s - align_request bytes > 0 then (free_at m)(a + align_request bytes \<mapsto> s - align_request bytes, a := None) else (free_at m)(a := None))"
        using allocate_Some[OF inv b0 nowrap e] .
      have first: "a \<le> b" if "free_at m b = Some t" "align_request bytes \<le> t" for b t
        using smap_find_first[OF _ e smap_find_in[OF that(1)]] W that(2) by simp
      show ?thesis
        by (rule block[OF b0 m'(1-9) _ first])
          (use find_first_SomeD[OF e] m'(10) in \<open>auto split: if_splits\<close>)
    qed
  qed
qed

end
