(* ===== verification/Malloc_Contract.thy ===== *)
theory Malloc_Contract
  imports Malloc_Invariant
begin

text \<open>
  What the allocator promises. The locale \<open>heap_allocator\<close> is the contract its clients rely on; \<open>dev_heap\<close>
  interprets it on \<open>allocate\<close> and \<open>deallocate\<close>, and the round trip, the commutation of releases and
  the rejection of a double free follow once and for all. The theorems after it give the contract in
  terms of the operations of \<open>custom_malloc.cpp\<close>, first fit and aligned allocation included, and what
  \<open>reallocate\<close> does on each of its branches.
\<close>

section \<open>The contract a client of the allocator relies on\<close>

locale heap_allocator =
  fixes alloc :: "'s \<Rightarrow> u64 \<Rightarrow> u64 \<times> 's"
    and release :: "'s \<Rightarrow> u64 \<Rightarrow> 'e + 's"
    and live :: "'s \<Rightarrow> u64 \<rightharpoonup> u64"
    and spare :: "'s \<Rightarrow> nat set"
    and extent :: "'s \<Rightarrow> u64"
    and ok :: "'s \<Rightarrow> bool"
    and fits :: "u64 \<Rightarrow> bool"
  assumes alloc_law: "ok s \<Longrightarrow> fits n \<Longrightarrow> alloc s n = (p, s') \<Longrightarrow>
      (p = 0 \<and> s' = s) \<or>
      (p \<noteq> 0 \<and> ok s' \<and> extent s' = extent s \<and>
       (\<exists>k. live s p = None \<and> n \<le> k \<and> live s' = (live s)(p \<mapsto> k) \<and>
            spare s = spare s' \<union> chunk_bytes p k \<and> spare s' \<inter> chunk_bytes p k = {}))"
    and release_law: "ok s \<Longrightarrow> live s p = Some k \<Longrightarrow>
      \<exists>s'. release s p = Inr s' \<and> ok s' \<and> extent s' = extent s \<and>
           live s' = (live s)(p := None) \<and> spare s' = spare s \<union> chunk_bytes p k"
    and release_invalid: "live s p = None \<Longrightarrow> \<exists>e. release s p = Inl e"
    and live_disjoint: "ok s \<Longrightarrow> live s p = Some k \<Longrightarrow> live s q = Some j \<Longrightarrow> p \<noteq> q \<Longrightarrow>
      chunk_bytes p k \<inter> chunk_bytes q j = {}"
    and determined: "ok s \<Longrightarrow> ok s' \<Longrightarrow> live s = live s' \<Longrightarrow> spare s = spare s' \<Longrightarrow>
      extent s = extent s' \<Longrightarrow> s = s'"
begin

lemma alloc_release:
  assumes "ok s" "fits n" "alloc s n = (p, s')" "p \<noteq> 0"
  shows "release s' p = Inr s"
proof -
  from alloc_law[OF assms(1-3)] assms(4) obtain k where k: "ok s'" "extent s' = extent s"
    "live s p = None" "live s' = (live s)(p \<mapsto> k)" "spare s = spare s' \<union> chunk_bytes p k" by blast
  then have "live s' p = Some k" by simp
  from release_law[OF k(1) this] obtain t where t: "release s' p = Inr t" "ok t" "extent t = extent s'"
    "live t = (live s')(p := None)" "spare t = spare s' \<union> chunk_bytes p k" by blast
  then have "t = s" using k assms(1) by (intro determined) (auto simp: fun_upd_idem)
  with t show ?thesis by simp
qed

lemma release_commute:
  assumes ok: "ok s" and p: "live s p = Some k" and q: "live s q = Some j" and ne: "p \<noteq> q"
  obtains s1 s2 t where "release s p = Inr s1" "release s1 q = Inr t" "release s q = Inr s2" "release s2 p = Inr t"
proof -
  obtain s1 where s1: "release s p = Inr s1" "ok s1" "extent s1 = extent s"
    "live s1 = (live s)(p := None)" "spare s1 = spare s \<union> chunk_bytes p k" using release_law[OF ok p] by blast
  obtain s2 where s2: "release s q = Inr s2" "ok s2" "extent s2 = extent s"
    "live s2 = (live s)(q := None)" "spare s2 = spare s \<union> chunk_bytes q j" using release_law[OF ok q] by blast
  have "live s1 q = Some j" "live s2 p = Some k" using s1 s2 p q ne by auto
  then obtain t1 t2 where t1: "release s1 q = Inr t1" "ok t1" "extent t1 = extent s1"
    "live t1 = (live s1)(q := None)" "spare t1 = spare s1 \<union> chunk_bytes q j"
    and t2: "release s2 p = Inr t2" "ok t2" "extent t2 = extent s2"
    "live t2 = (live s2)(p := None)" "spare t2 = spare s2 \<union> chunk_bytes p k"
    using release_law[OF s1(2)] release_law[OF s2(2)] by meson
  have "t1 = t2" using s1 s2 t1 t2 by (intro determined) (auto simp: fun_upd_twist[OF ne])
  with that s1 s2 t1 t2 show ?thesis by blast
qed

lemma double_release:
  assumes "ok s" "release s p = Inr s'"
  shows "\<exists>e. release s' p = Inl e"
proof (cases "live s p")
  case None
  from release_invalid[OF this] assms(2) show ?thesis by auto
next
  case (Some k)
  from release_law[OF assms(1) this] assms(2) have "live s' p = None" by auto
  then show ?thesis by (rule release_invalid)
qed

lemma alloc_distinct:
  assumes "ok s" "fits n" "alloc s n = (p, s')" "p \<noteq> 0" "live s q = Some j"
  shows "q \<noteq> p \<and> live s' q = Some j \<and> (\<exists>k. live s' p = Some k \<and> n \<le> k \<and> chunk_bytes p k \<inter> chunk_bytes q j = {})"
proof -
  from alloc_law[OF assms(1-3)] assms(4) obtain k where k: "ok s'"
    "live s p = None" "n \<le> k" "live s' = (live s)(p \<mapsto> k)" by blast
  then have "q \<noteq> p" "live s' q = Some j" "live s' p = Some k" using assms(5) by auto
  with k live_disjoint[OF k(1)] show ?thesis by blast
qed

end

lemma used_bytes_disjoint:
  assumes "mspace_inv m" "used_at m a = Some s" "used_at m b = Some t" "a \<noteq> b"
  shows "chunk_bytes a s \<inter> chunk_bytes b t = {}"
  using inv_used_used[OF mspace_wfD[OF mspace_invD(1)[OF assms(1)]] assms(2-4)] by (rule disj_bytes)

definition request_fits :: "u64 \<Rightarrow> bool" where
  "request_fits bytes \<longleftrightarrow> unat bytes + 511 < 2 ^ 64"

lemma align_request_ge: "request_fits x \<Longrightarrow> x \<le> align_request x"
  using align_request_spec(3) by (simp add: request_fits_def word_le_nat_alt)

lemma allocate_law:
  assumes inv: "mspace_inv s" and fits: "request_fits n" and eq: "allocate s n = (p, s')"
  shows "(p = 0 \<and> s' = s) \<or>
      (p \<noteq> 0 \<and> mspace_inv s' \<and> total_size s' = total_size s \<and>
       (\<exists>k. used_at s p = None \<and> n \<le> k \<and> used_at s' = (used_at s)(p \<mapsto> k) \<and>
            map_bytes (free_at s) = map_bytes (free_at s') \<union> chunk_bytes p k \<and>
            map_bytes (free_at s') \<inter> chunk_bytes p k = {}))"
  using inv fits[unfolded request_fits_def]
proof (cases rule: allocate_cases)
  case (block a k m')
  then show ?thesis using eq align_request_ge[OF fits]
    by (intro disjI2 conjI exI[of _ "align_request n"]) (auto simp: smap_simps)
qed (use eq in auto)

lemma deallocate_law:
  assumes inv: "mspace_inv s" and used: "used_at s p = Some k"
  shows "\<exists>s'. deallocate s p = Inr s' \<and> mspace_inv s' \<and> total_size s' = total_size s \<and>
           used_at s' = (used_at s)(p := None) \<and> map_bytes (free_at s') = map_bytes (free_at s) \<union> chunk_bytes p k"
  by (rule deallocate_spec[OF inv used]) (use inv in \<open>auto simp: smap_simps mspace_inv_def mspace_wf_def\<close>)

lemma mspace_inv_determined:
  assumes "mspace_inv s" "mspace_inv s'" "used_at s = used_at s'" "map_bytes (free_at s) = map_bytes (free_at s')"
    "total_size s = total_size s'"
  shows "s = s'"
proof (rule mspace_determined)
  show "inuse_chunks s = inuse_chunks s'"
    using assms(1-3) by (auto simp: mspace_inv_def mspace_wf_def intro: smap_ext)
qed (use assms in \<open>auto simp: mspace_inv_def\<close>)

interpretation dev_heap: heap_allocator allocate deallocate used_at "\<lambda>m. map_bytes (free_at m)"
  total_size mspace_inv request_fits
proof (unfold_locales, goal_cases)
  case (1 s n p s') then show ?case by (rule allocate_law)
next
  case (2 s p k) then show ?case by (rule deallocate_law)
next
  case (3 s p) then show ?case by (simp add: deallocate_def)
next
  case (4 s p k q j) then show ?case by (rule used_bytes_disjoint)
next
  case (5 s s') then show ?case by (rule mspace_inv_determined)
qed

section \<open>First fit\<close>

lemma run_iff_chunk:
  assumes inv: "chunks_inv F E U" and n: "0 < n"
  shows "{x ..< x + n} \<subseteq> map_bytes F \<longleftrightarrow> (\<exists>a s. F a = Some s \<and> unat a \<le> x \<and> x + n \<le> unat a + unat s)"
proof
  obtain k where k: "n = Suc k" using n gr0_conv_Suc by auto
  assume "{x ..< x + n} \<subseteq> map_bytes F"
  with run_in_chunk[OF inv, of x k] k show "\<exists>a s. F a = Some s \<and> unat a \<le> x \<and> x + n \<le> unat a + unat s"
    by simp
qed (auto intro: map_bytesI)

lemma align_request_nonzero: "request_fits x \<Longrightarrow> x \<noteq> 0 \<Longrightarrow> 0 < unat (align_request x)"
  using align_request_spec(3)[of x] by (simp add: request_fits_def) (metis gr0I le_zero_eq unat_eq_zero)

lemma dvd_imp_le_diff: "(k::nat) dvd a \<Longrightarrow> k dvd b \<Longrightarrow> a < b \<Longrightarrow> a + k \<le> b"
  by (metis dvd_diff_nat dvd_imp_le le_diff_conv2 less_imp_le add.commute zero_less_diff)

lemma align_request_fits:
  assumes "request_fits x"
  shows "request_fits (align_request x)"
proof -
  have x: "unat x + 511 < 2 ^ 64" using assms by (simp add: request_fits_def)
  note A = align_request_spec(2,4)[OF x]
  have "unat (align_request x) < 2 ^ 64" by (rule unat_u64_bound)
  moreover have "(512::nat) dvd 2 ^ 64" by simp
  ultimately have "unat (align_request x) + 512 \<le> 2 ^ 64"
    using A(1) by (metis dvd_imp_le_diff)
  then show ?thesis by (simp add: request_fits_def)
qed

text \<open>
  \<open>allocate\<close> is first fit over bytes: if some run of free bytes is as long as the aligned request, the
  block starts at the least address where such a run begins, and otherwise it returns a null pointer.
  In particular it never fails because of how free memory is cut into chunks.
\<close>
lemma allocate_first_fit:
  assumes inv: "mspace_inv m" and fits: "request_fits bytes" and pos: "bytes \<noteq> 0"
  shows "let n = unat (align_request bytes); room = (\<lambda>x. {x ..< x + n} \<subseteq> map_bytes (free_at m)) in
    if \<exists>x. room x then unat (fst (allocate m bytes)) = (LEAST x. room x) \<and> fst (allocate m bytes) \<noteq> 0
    else allocate m bytes = (0, m)"
proof -
  let ?n = "unat (align_request bytes)"
  note I = mspace_wfD[OF mspace_invD(1)[OF inv]]
  note runs = run_iff_chunk[OF I align_request_nonzero[OF fits pos]]
  from inv fits[unfolded request_fits_def] show ?thesis
  proof (cases rule: allocate_cases)
    case null
    have "\<not> (\<exists>x. {x ..< x + ?n} \<subseteq> map_bytes (free_at m))"
    proof
      assume "\<exists>x. {x ..< x + ?n} \<subseteq> map_bytes (free_at m)"
      then obtain x a s where a: "free_at m a = Some s" "unat a \<le> x" "x + ?n \<le> unat a + unat s"
        using runs by blast
      with null(2)[OF pos a(1)] show False by (simp add: word_less_nat_alt)
    qed
    then show ?thesis using null(1) by simp
  next
    case (block a s m')
    have run: "{unat a ..< unat a + ?n} \<subseteq> map_bytes (free_at m)"
      using block(10,11) unfolding runs by (intro exI[of _ a] exI[of _ s]) (simp add: word_le_nat_alt)
    have least: "(LEAST x. {x ..< x + ?n} \<subseteq> map_bytes (free_at m)) = unat a"
    proof (rule Least_equality)
      show "{unat a ..< unat a + ?n} \<subseteq> map_bytes (free_at m)" by (rule run)
      fix y assume "{y ..< y + ?n} \<subseteq> map_bytes (free_at m)"
      then obtain b t where b: "free_at m b = Some t" "unat b \<le> y" "y + ?n \<le> unat b + unat t"
        using runs by blast
      then have "a \<le> b" by (intro block(12)[of b t]) (auto simp: word_le_nat_alt)
      with b show "unat a \<le> y" by (simp add: word_le_nat_alt)
    qed
    show ?thesis using block(2,4) run least by (auto simp: Let_def)
  qed
qed

section \<open>Everything stays aligned\<close>

text \<open>Free and used chunks start at multiples of 512, and used chunks have sizes that are multiples of 512.\<close>

definition mspace_aligned :: "mspace \<Rightarrow> bool" where
  "mspace_aligned m \<longleftrightarrow> (\<forall>a s. free_at m a = Some s \<longrightarrow> 512 dvd unat a) \<and>
     (\<forall>a s. used_at m a = Some s \<longrightarrow> 512 dvd unat a \<and> 512 dvd unat s)"

lemma alignedI:
  assumes "mspace_aligned m" "dom (free_at m') \<subseteq> insert b (dom (free_at m))" "512 dvd unat b"
    "\<And>a s. used_at m' a = Some s \<Longrightarrow> used_at m a = Some s \<or> 512 dvd unat a \<and> 512 dvd unat s"
  shows "mspace_aligned m'"
proof -
  have "512 dvd unat a" if "free_at m' a = Some s" for a s
  proof -
    have "a = b \<or> (\<exists>t. free_at m a = Some t)" using assms(2) that by blast
    then show ?thesis using assms(1,3) unfolding mspace_aligned_def by blast
  qed
  moreover have "512 dvd unat a \<and> 512 dvd unat s" if "used_at m' a = Some s" for a s
    using assms(4)[OF that] assms(1) unfolding mspace_aligned_def by blast
  ultimately show ?thesis unfolding mspace_aligned_def by blast
qed

lemma allocate_free_dom:
  assumes "mspace_inv m" "allocate m bytes = (p, m')"
  shows "dom (free_at m') \<subseteq> insert (p + align_request bytes) (dom (free_at m))"
proof -
  have wf: "smap_wf (free_chunks_start m)" using assms(1) by (simp add: mspace_inv_def mspace_wf_def)
  show ?thesis using assms(2) wf
    by (auto simp: allocate_def Let_def smap_simps smap_wf_insert split: if_splits option.splits prod.splits)
qed

lemma allocate_aligned_heap:
  assumes "mspace_inv m" "mspace_aligned m" "request_fits bytes" "allocate m bytes = (p, m')"
  shows "mspace_aligned m' \<and> 512 dvd unat p"
  using assms(1) assms(3)[unfolded request_fits_def]
proof (cases rule: allocate_cases)
  case null
  then show ?thesis using assms(2,4) by simp
next
  case (block a s m1)
  have pm: "p = a" "m' = m1" using block(2) assms(4) by simp_all
  have x: "unat bytes + 511 < 2 ^ 64" using assms(3) by (simp add: request_fits_def)
  have d: "512 dvd unat a" "512 dvd unat (align_request bytes)"
    using assms(2) block(10) align_request_spec(2)[OF x] unfolding mspace_aligned_def by blast+
  have used: "used_at m1 a = Some (align_request bytes)" using block(6) by (simp add: smap_simps)
  have e: "unat (a + align_request bytes) = unat a + unat (align_request bytes)"
    by (rule unat_end[OF inv_ok_used[OF mspace_wfD[OF mspace_invD(1)[OF block(3)]] used]])
  have "mspace_aligned m1"
  proof (rule alignedI[OF assms(2) allocate_free_dom[OF assms(1) block(2)]])
    show "512 dvd unat (a + align_request bytes)" unfolding e using d by simp
    show "used_at m b = Some t \<or> 512 dvd unat b \<and> 512 dvd unat t" if "used_at m1 b = Some t" for b t
      using that block(6) d by (auto simp: smap_simps split: if_splits)
  qed
  then show ?thesis using d pm by simp
qed

lemma deallocate_aligned_heap:
  assumes "mspace_inv m" "mspace_aligned m" "used_at m p = Some k" "deallocate m p = Inr m'"
  shows "mspace_aligned m'"
proof (rule deallocate_spec[OF assms(1,3)])
  fix m1 assume m1: "deallocate m p = Inr m1" "inuse_chunks m1 = smap_erase p (inuse_chunks m)" "dom (free_at m1) \<subseteq> insert p (dom (free_at m))"
  have wf: "smap_wf (inuse_chunks m)" using assms(1) by (simp add: mspace_inv_def mspace_wf_def)
  have "512 dvd unat p" using assms(2,3) unfolding mspace_aligned_def by blast
  then have "mspace_aligned m1" by (rule alignedI[OF assms(2) m1(3)]) (use m1(2) wf in \<open>auto simp: smap_simps split: if_splits\<close>)
  then show ?thesis using m1(1) assms(4) by simp
qed

section \<open>Aligned allocation\<close>

lemma round_up_spec:
  fixes p al :: u64
  assumes al: "al \<noteq> 0" and nowrap: "unat p + unat al < 2 ^ 64"
  defines "r \<equiv> al * ((p + (al - 1)) div al)"
  shows "unat al dvd unat r" "p \<le> r" "unat (r - p) < unat al" "unat r = unat p + unat (r - p)"
proof -
  have al1: "unat (al - 1) = unat al - 1" using al by (simp add: unat_minus_one)
  have "0 < unat al" using al by (simp add: unat_pos_iff)
  then have s: "unat (p + (al - 1)) = unat p + unat al - 1"
    using nowrap al1 by (simp add: unat_nowrap)
  let ?q = "(unat p + unat al - 1) div unat al"
  have le: "unat al * ?q \<le> unat p + unat al - 1" by simp
  have r: "unat r = unat al * ?q"
    unfolding r_def using le_less_trans[OF le, of "2 ^ 64"] nowrap s
    by (subst unat_mult_lem[THEN iffD1]) (auto simp: unat_div)
  show "unat al dvd unat r" by (simp add: r)
  have ge: "unat p \<le> unat r"
    using mult_div_mod_eq[of "unat al" "unat p + unat al - 1"] mod_less_divisor[OF \<open>0 < unat al\<close>, of "unat p + unat al - 1"]
    unfolding r by linarith
  then show "p \<le> r" by (simp add: word_le_nat_alt)
  from ge have d: "unat (r - p) = unat r - unat p" by (simp add: unat_nowrap)
  then show "unat r = unat p + unat (r - p)" using ge by simp
  show "unat (r - p) < unat al" using d le \<open>0 < unat al\<close> unfolding r by linarith
qed

definition valid_alignment :: "u64 \<Rightarrow> bool" where
  "valid_alignment al \<longleftrightarrow> al \<noteq> 0 \<and> al mod 8 = 0 \<and> al AND (al - 1) = 0"

lemma allocate_aligned_spec:
  assumes inv: "mspace_inv m" and al: "valid_alignment al" and fits: "unat bytes + unat al + 511 < 2 ^ 64"
  obtains (null) "allocate_aligned m al bytes = Inr (0, m)" "allocate m (bytes + al) = (0, m)"
  | (block) p k m' where "allocate_aligned m al bytes = Inr (p, m')" "mspace_inv m'" "p \<noteq> 0"
      "unat al dvd unat p" "bytes \<le> k" "0 < unat k" "used_at m p = None" "used_at m' = (used_at m)(p \<mapsto> k)"
      "map_bytes (free_at m) = map_bytes (free_at m') \<union> chunk_bytes p k"
      "map_bytes (free_at m') \<inter> chunk_bytes p k = {}" "total_size m' = total_size m"
      "fst (allocate m (bytes + al)) \<noteq> 0" "unat (fst (allocate m (bytes + al))) \<le> unat p"
      "unat p < unat (fst (allocate m (bytes + al))) + unat al"
      "unat p + unat k = unat (fst (allocate m (bytes + al))) + unat (align_request (bytes + al))"
      "dom (free_at m') \<subseteq> insert (fst (allocate m (bytes + al))) (dom (free_at (snd (allocate m (bytes + al)))))"
proof -
  have ua: "unat (bytes + al) = unat bytes + unat al" using fits by (simp add: unat_nowrap)
  have al0: "al \<noteq> 0" "0 < unat al" using al by (simp_all add: valid_alignment_def unat_pos_iff)
  have guard: "al mod 8 = 0 \<and> al AND (al - 1) = 0" using al by (simp add: valid_alignment_def)
  have nw: "unat (bytes + al) + 511 < 2 ^ 64" using ua fits by simp
  let ?n = "align_request (bytes + al)"
  have n: "unat bytes + unat al \<le> unat ?n" using align_request_spec(3)[OF nw] ua by simp
  from inv nw show ?thesis
  proof (cases rule: allocate_cases)
    case null
    then show ?thesis using that(1) guard by (simp add: allocate_aligned_def)
  next
    case (block a s m')
    have used: "used_at m' a = Some ?n" using block(6) by (simp add: smap_simps)
    note ok = inv_ok_used[OF mspace_wfD[OF mspace_invD(1)[OF block(3)]] used]
    have nw2: "unat a + unat al < 2 ^ 64" using ok n by (simp add: chunk_ok_def)
    define r where "r = al * ((a + (al - 1)) div al)"
    note R = round_up_spec[OF al0(1) nw2, folded r_def]
    have r0: "r \<noteq> 0" using R(4) block(4) ok by (auto simp: chunk_ok_def)
    have wfU: "smap_wf (inuse_chunks m)" using inv by (simp add: mspace_inv_def mspace_wf_def)
    show ?thesis
    proof (cases "r - a = 0")
      case True
      then have ra: "r = a" by simp
      have "allocate_aligned m al bytes = Inr (a, m')"
        using guard block(2,4) al0 True unfolding allocate_aligned_def by (simp add: Let_def flip: r_def)
      then show ?thesis
        using that(2)[of a m' ?n] block n R(1) ra ok al0
        by (auto simp: smap_simps word_le_nat_alt chunk_ok_def)
    next
      case False
      then have d: "0 < unat (r - a)" "unat (r - a) < unat ?n" using R(3) n by (simp_all add: unat_pos_iff)
      have ra: "a + (r - a) = r" by simp
      obtain m'' where m'':
        "add_free_chunk (m'\<lparr>inuse_chunks := smap_erase a (smap_insert r (?n - (r - a)) (inuse_chunks m'))\<rparr>) a (r - a) = Inr m''"
        "mspace_inv m''" "inuse_chunks m'' = smap_erase a (smap_insert r (?n - (r - a)) (inuse_chunks m'))"
        "total_size m'' = total_size m'" "map_bytes (free_at m'') = map_bytes (free_at m') \<union> chunk_bytes a (r - a)"
        "unat r = unat a + unat (r - a)" "unat (?n - (r - a)) = unat ?n - unat (r - a)" "used_at m' r = None"
        "dom (free_at m'') \<subseteq> insert a (dom (free_at m'))"
        using trim_front[OF block(3) used d] unfolding ra .
      have eq: "allocate_aligned m al bytes = Inr (r, m'')"
        using guard block(2,4) al0 False used m''(1) unfolding allocate_aligned_def
        by (simp add: Let_def flip: r_def)
      have U: "used_at m'' = (used_at m)(r \<mapsto> ?n - (r - a))"
        using m''(3) block(5,6) wfU False by (auto simp: smap_simps fun_eq_iff)
      have none: "used_at m r = None" using m''(8) block(6) False by (auto simp: smap_simps)
      have cb: "chunk_bytes a ?n = chunk_bytes a (r - a) \<union> chunk_bytes r (?n - (r - a))"
        by (rule chunk_bytes_append) (use m''(6,7) d in simp_all)
      have dj: "chunk_bytes a (r - a) \<inter> chunk_bytes r (?n - (r - a)) = {}"
        using m''(6) by (auto simp: chunk_bytes_def)
      show ?thesis
      proof (rule that(2)[OF eq m''(2) r0 R(1) _ _ none U])
        show "bytes \<le> ?n - (r - a)" "0 < unat (?n - (r - a))"
          using m''(7) R(3) n d by (simp_all add: word_le_nat_alt)
        show "map_bytes (free_at m) = map_bytes (free_at m'') \<union> chunk_bytes r (?n - (r - a))"
          using block(8) m''(5) cb by auto
        show "map_bytes (free_at m'') \<inter> chunk_bytes r (?n - (r - a)) = {}"
          using block(9) m''(5) cb dj by auto
        show "total_size m'' = total_size m" using block(7) m''(4) by simp
        show "fst (allocate m (bytes + al)) \<noteq> 0" "unat (fst (allocate m (bytes + al))) \<le> unat r"
          "unat r < unat (fst (allocate m (bytes + al))) + unat al"
          "unat r + unat (?n - (r - a)) = unat (fst (allocate m (bytes + al))) + unat ?n"
          "dom (free_at m'') \<subseteq> insert (fst (allocate m (bytes + al))) (dom (free_at (snd (allocate m (bytes + al)))))"
          using block(2,4) m''(6,7,9) R(3) d by simp_all
      qed
    qed
  qed
qed

text \<open>A valid alignment is a power of two, so it divides 512 or is a multiple of it.\<close>

lemma and_pred_power: "n AND (n - 1) = 0 \<Longrightarrow> 0 < n \<Longrightarrow> \<exists>i. n = (2 :: nat) ^ i"
proof (induction n rule: less_induct)
  case (less n)
  show ?case
  proof (cases "even n")
    case True
    then obtain y where y: "n = 2 * y" by blast
    then have y0: "0 < y" "n - 1 = 2 * (y - 1) + 1" using less.prems(2) by auto
    have "(2 * y - 1) div 2 = y - 1" using y0(1) by linarith
    then have "n AND (n - 1) = 2 * (y AND (y - 1))" unfolding y using y0(1) by (subst and_rec) simp
    then have "y AND (y - 1) = 0" using less.prems(1) by simp
    then obtain i where "y = 2 ^ i" using less.IH[of y] y y0(1) by auto
    then show ?thesis using y by (intro exI[of _ "Suc i"]) simp
  next
    case False
    then obtain y where y: "n = 2 * y + 1" by (metis oddE)
    have "n AND (n - 1) = 2 * y" unfolding y by (subst and_rec) simp
    then show ?thesis using less.prems(1) y by (intro exI[of _ 0]) simp
  qed
qed

lemma alignment_power:
  assumes "valid_alignment al"
  obtains i where "unat al = 2 ^ i"
proof -
  have al: "al \<noteq> 0" "al AND (al - 1) = 0" using assms by (simp_all add: valid_alignment_def)
  have "unat al AND (unat al - 1) = unat (al AND (al - 1))" using al(1) by (simp add: unsigned_and_eq unat_minus_one)
  then have "unat al AND (unat al - 1) = 0" using al(2) by simp
  moreover have "0 < unat al" using al(1) by (simp add: unat_pos_iff)
  ultimately show ?thesis using and_pred_power that by blast
qed

lemma round_up_512:
  assumes "valid_alignment al" "512 dvd a" "unat al dvd r" "a \<le> r" "r < a + unat al"
  shows "512 dvd (r :: nat)"
proof -
  obtain i where i: "unat al = 2 ^ i" by (rule alignment_power[OF assms(1)])
  show ?thesis
  proof (cases "9 \<le> i")
    case True
    then have "(2 :: nat) ^ 9 dvd unat al" unfolding i by (rule le_imp_power_dvd)
    then show ?thesis using assms(3) by (simp add: dvd_trans)
  next
    case False
    then have "unat al dvd 2 ^ 9" unfolding i by (intro le_imp_power_dvd) simp
    then have "unat al dvd a" using assms(2) by (simp add: dvd_trans)
    then have "unat al dvd r - a" using assms(3) by (rule dvd_diff_nat[rotated])
    moreover have "r - a < unat al" using assms(4,5) by linarith
    ultimately have "r = a" using assms(4) by (metis dvd_imp_le diff_is_0_eq' le_antisym not_le zero_less_diff)
    then show ?thesis using assms(2) by simp
  qed
qed

section \<open>Reallocation\<close>

lemma trim_back:
  assumes inv: "mspace_inv m" and used: "used_at m p = Some s" and d: "0 < unat n" "unat n < unat s"
  obtains m' where
    "add_free_chunk (m\<lparr>inuse_chunks := smap_insert p n (inuse_chunks m)\<rparr>) (p + n) (s - n) = Inr m'"
    "mspace_inv m'" "inuse_chunks m' = smap_insert p n (inuse_chunks m)"
    "total_size m' = total_size m" "map_bytes (free_at m') = map_bytes (free_at m) \<union> chunk_bytes (p + n) (s - n)"
proof -
  note W = inv[unfolded mspace_inv_def mspace_wf_def]
  note I = mspace_wfD[OF mspace_invD(1)[OF inv]]
  let ?m = "m\<lparr>inuse_chunks := smap_insert p n (inuse_chunks m)\<rparr>"
  note R = inv_remove_used[OF I used]
  have us: "unat (s - n) = unat s - unat n" using d by (simp add: unat_nowrap)
  have up: "unat (p + n) = unat p + unat n"
    using d R(4) by (intro unat_add_nowrap) (simp add: chunk_ok_def)
  have ok1: "chunk_ok (p + n) (s - n)" and ok2: "chunk_ok p n"
    using R(4) d us up by (simp_all add: chunk_ok_def)
  have g1: "gap (free_at m) (p + n) (s - n)" "gap ((used_at m)(p := None)) (p + n) (s - n)"
    by (rule gap_sub[OF R(2)]; use d us up in simp) (rule gap_sub[OF R(3)]; use d us up in simp)
  have g2: "gap (free_at m) p n" "gap ((used_at m)(p := None)) p n"
    by (rule gap_sub[OF R(2)]; use d in simp) (rule gap_sub[OF R(3)]; use d in simp)
  have find: "used_at ?m = (used_at m)(p := None, p \<mapsto> n)" by (simp add: smap_simps)
  have wf: "mspace_wf ?m"
    using W find inv_add_used[OF R(1) ok2 g2] by (simp add: mspace_wf_def smap_wf_insert)
  have gU: "gap (used_at ?m) (p + n) (s - n)" using g1(2) up unfolding find by (auto simp: gap_def disj_chunks_def)
  have gF: "gap (free_at ?m) (p + n) (s - n)" using g1(1) by simp
  obtain m' where m': "add_free_chunk ?m (p + n) (s - n) = Inr m'" "mspace_wf m'"
    "inuse_chunks m' = inuse_chunks ?m" "total_size m' = total_size ?m"
    "smap_sum (free_chunks_start m') = smap_sum (free_chunks_start ?m) + (s - n)"
    "smap_sum (free_chunks_end m') = smap_sum (free_chunks_end ?m) + (s - n)"
    "map_bytes (free_at m') = map_bytes (free_at ?m) \<union> chunk_bytes (p + n) (s - n)"
    using add_free_chunk_wf[OF wf ok1 gF gU] .
  have "smap_sum (smap_insert p n (inuse_chunks m)) = smap_sum (inuse_chunks m) + n - s"
    using W used by (simp add: smap.sum_insert_present)
  then have "mspace_inv m'"
    using W m' by (auto simp: mspace_inv_def ASSERT_CORRECTNESS_def get_total_size_def)
  then show ?thesis using that m' by simp
qed

text \<open>The place behind a block that grows into a free chunk starts no chunk and ends none.\<close>

lemma grow_place:
  assumes inv: "mspace_inv m" and used: "used_at m p = Some s" and behind: "free_at m (p + s) = Some c"
    and n: "s < n" "unat n < unat s + unat c"
  shows "n < s + c" "p + n \<noteq> p" "used_at m (p + n) = None" "free_at m (p + n) = None" "free_end_at m (p + n) = None" "p + n \<noteq> p + s"
proof -
  note I = mspace_wfD[OF mspace_invD(1)[OF inv]]
  note U = inv_ok_used[OF I used] and F = inv_ok_free[OF I behind]
  have e: "unat (p + s) = unat p + unat s" by (rule unat_end[OF U])
  have lt: "unat s < unat n" using n(1) by (simp add: word_less_nat_alt)
  have bound: "unat p + unat s + unat c < 2 ^ 64" using F e by (simp add: chunk_ok_def)
  have pn: "unat (p + n) = unat p + unat n" using n(2) bound by (intro unat_add_nowrap) simp
  show "n < s + c" using bound n(2) by (simp add: word_less_nat_alt unat_nowrap)
  show "p + n \<noteq> p" using pn lt by auto
  show ne: "p + n \<noteq> p + s" using pn e lt by auto
  show "used_at m (p + n) = None"
  proof (cases "used_at m (p + n)")
    case (Some t)
    then show ?thesis using inv_free_used[OF I behind Some] inv_ok_used[OF I Some] e pn lt n(2) by (simp add: disj_chunks_def chunk_ok_def)
  qed
  show "free_at m (p + n) = None"
  proof (cases "free_at m (p + n)")
    case (Some t)
    then show ?thesis using inv_free_free[OF I behind Some] ne inv_ok_free[OF I Some] e pn lt n(2) by (auto simp: disj_chunks_def chunk_ok_def)
  qed
  show "free_end_at m (p + n) = None"
  proof (cases "free_end_at m (p + n)")
    case (Some t)
    then have f: "free_at m (p + n - t) = Some t" using inv_end_iff[OF I] by simp
    have "unat (p + n - t + t) = unat (p + n - t) + unat t" by (rule unat_end[OF inv_ok_free[OF I f]])
    then have t: "unat (p + n - t) + unat t = unat p + unat n" using pn by simp
    have "p + n - t \<noteq> p + s"
    proof
      assume a: "p + n - t = p + s"
      have "t = c" using f[unfolded a] behind by (simp only: option.inject)
      then show False using t e n(2) unfolding a by simp
    qed
    then show ?thesis using inv_free_free[OF I behind f] inv_ok_free[OF I f] e t lt n(2) by (auto simp: disj_chunks_def chunk_ok_def)
  qed
qed

text \<open>Whatever it merges with, \<open>add_free_chunk\<close> adds the size of the chunk to the total of the start map.\<close>

lemma add_free_chunk_sum:
  assumes wf: "smap_wf (free_chunks_start m)" and none: "used_at m b = None" "free_at m b = None" "free_end_at m b = None"
  obtains m' where "add_free_chunk m b c = Inr m'" "inuse_chunks m' = inuse_chunks m" "total_size m' = total_size m"
    "smap_sum (free_chunks_start m') = smap_sum (free_chunks_start m) + c"
proof (cases "free_at m (b + c)")
  case None
  then show ?thesis using that none wf by (simp add: add_free_chunk_def merge_prev_def merge_next_def smap_sum_insert_opt)
next
  case (Some t)
  have "smap_wf (smap_erase (b + c) (free_chunks_start m))" using wf by (rule smap_wf_erase)
  moreover have "smap_find (smap_erase (b + c) (free_chunks_start m)) b = None" using none(2) wf by (simp add: smap_simps)
  ultimately show ?thesis
    using that none wf Some by (simp add: add_free_chunk_def merge_prev_def merge_next_def Let_def smap_sum_insert_opt smap_sum_erase_opt)
qed

section \<open>The promises\<close>

lemma demo_heap: "mspace_inv (mspace_new 4096 8192)"
  by (rule mspace_new_inv) simp_all

lemma demo_aligned: "mspace_aligned (mspace_new 4096 8192)"
proof -
  have "free_chunks_start (mspace_new 4096 8192) = [(4096, 8192)]" "inuse_chunks (mspace_new 4096 8192) = []" by code_simp+
  then show ?thesis by (simp add: mspace_aligned_def smap_find_single)
qed

lemma demo_block: "mspace_inv (snd (allocate (mspace_new 4096 8192) 1024))"
  "used_at (snd (allocate (mspace_new 4096 8192) 1024)) 4096 = Some 1024"
proof -
  have e: "fst (allocate (mspace_new 4096 8192) 1024) = 4096" by code_simp
  then show "mspace_inv (snd (allocate (mspace_new 4096 8192) 1024))"
    using allocate_law[OF demo_heap, of 1024 4096 "snd (allocate (mspace_new 4096 8192) 1024)"]
    by (cases "allocate (mspace_new 4096 8192) 1024") (simp add: request_fits_def)
  show "used_at (snd (allocate (mspace_new 4096 8192) 1024)) 4096 = Some 1024" by code_simp
qed

text \<open>
  C32: a new \<open>mspace\<close> over a region that does not wrap and has at least one alignment unit satisfies the
  invariant, has nothing in use, is aligned, and offers exactly the region from the first 512-byte boundary on.
\<close>
theorem mspace_new_correct:
  assumes "512 \<le> unat capacity" "unat base + unat capacity < 2 ^ 64" "base \<noteq> 0"
  shows "mspace_inv (mspace_new base capacity) \<and> mspace_aligned (mspace_new base capacity) \<and> used_at (mspace_new base capacity) = Map.empty \<and>
    map_bytes (free_at (mspace_new base capacity)) =
      {unat base + unat (align_offset base) ..< unat base + unat capacity} \<and>
    512 dvd unat base + unat (align_offset base) \<and> unat (align_offset base) < 512"
proof -
  note N = mspace_new_inv[OF assms] and O = align_offset_spec[of base]
  have "unat (base + align_offset base) = unat base + unat (align_offset base)"
    "unat (capacity - align_offset base) = unat capacity - unat (align_offset base)"
    using O(2) assms by (simp_all add: unat_nowrap)
  then have "map_bytes (free_at (mspace_new base capacity)) =
      {unat base + unat (align_offset base) ..< unat base + unat capacity}"
    using N(3) O(2) assms(1) by (simp add: smap_find_single map_bytes_add chunk_bytes_def)
  moreover have "mspace_aligned (mspace_new base capacity)"
    using N(2,3) O(3) assms \<open>unat (base + align_offset base) = _\<close> by (simp add: mspace_aligned_def smap_find_single)
  ultimately show ?thesis using N O by simp
qed

theorem mspace_new_correct_witness:
  "mspace_inv (mspace_new 4100 8192) \<and> map_bytes (free_at (mspace_new 4100 8192)) = {4608 ..< 12292}"
proof -
  have "unat (align_offset 4100) = 508" by code_simp
  then show ?thesis using mspace_new_correct[of 8192 4100] by simp
qed

text \<open>
  C21: \<open>allocate\<close> is first fit over bytes. Let \<open>n\<close> be the request rounded up to a multiple of 512. If the request is zero
  or no run of \<open>n\<close> bytes is free, it returns a null pointer and changes nothing; it never fails because of how free memory is
  cut into chunks. Otherwise the block starts at the least address where such a run begins, has exactly \<open>n\<close> bytes, which
  are no longer free, overlaps no block in use, and leaves every other block as it was. The invariant (with the totals of
  \<open>ASSERT_CORRECTNESS\<close>) is kept, and in an aligned heap, which \<open>mspace_new\<close> gives, the block is aligned to 512 bytes and the heap
  stays aligned.
\<close>
theorem allocate_correct:
  assumes inv: "mspace_inv m" and fits: "request_fits bytes" and run: "allocate m bytes = (p, m')"
  shows "mspace_inv m' \<and> total_size m' = total_size m \<and> (mspace_aligned m \<longrightarrow> mspace_aligned m' \<and> 512 dvd unat p) \<and>
    (let n = (unat bytes + 511) div 512 * 512; room = (\<lambda>x. {x ..< x + n} \<subseteq> map_bytes (free_at m))
     in if bytes = 0 \<or> \<not> (\<exists>x. room x) then p = 0 \<and> m' = m
        else p \<noteq> 0 \<and> unat p = (LEAST x. room x) \<and> used_at m p = None \<and>
          (\<exists>k. unat k = n \<and> used_at m' = (used_at m)(p \<mapsto> k) \<and>
            map_bytes (free_at m') = map_bytes (free_at m) - chunk_bytes p k \<and>
            (\<forall>q j. used_at m q = Some j \<longrightarrow> chunk_bytes p k \<inter> chunk_bytes q j = {})))"
proof -
  let ?n = "(unat bytes + 511) div 512 * 512"
  have x: "unat bytes + 511 < 2 ^ 64" using fits by (simp add: request_fits_def)
  have n: "unat (align_request bytes) = ?n" by (rule align_request_spec(1)[OF x])
  have al: "mspace_aligned m \<longrightarrow> mspace_aligned m' \<and> 512 dvd unat p" using allocate_aligned_heap[OF inv _ fits run] by blast
  have disj: "chunk_bytes p k \<inter> chunk_bytes q j = {}"
    if "p \<noteq> 0" "used_at m q = Some j" "used_at m' p = Some k" for q j k
    using dev_heap.alloc_distinct[OF inv fits run that(1,2)] that(3) by auto
  show ?thesis
  proof (cases "p = 0")
    case True
    then have "m' = m" using dev_heap.alloc_law[OF inv fits run] by blast
    moreover have "bytes = 0 \<or> \<not> (\<exists>x. {x ..< x + ?n} \<subseteq> map_bytes (free_at m))"
      using allocate_first_fit[OF inv fits] run True n by (auto simp: Let_def split: if_splits)
    ultimately show ?thesis using True inv al by (simp only: Let_def if_True)
  next
    case False
    have b0: "bytes \<noteq> 0" using run False by (auto simp: allocate_def)
    note ff = allocate_first_fit[OF inv fits b0, unfolded Let_def n run fst_conv]
    have room: "\<exists>x. {x ..< x + ?n} \<subseteq> map_bytes (free_at m)" using ff run False by (auto split: if_splits)
    have least: "unat p = (LEAST x. {x ..< x + ?n} \<subseteq> map_bytes (free_at m))" using ff room by simp
    from inv x show ?thesis
    proof (cases rule: allocate_cases)
      case null
      then show ?thesis using run False by simp
    next
      case (block a s m1)
      have pm: "p = a" "m' = m1" using block(2) run by simp_all
      have U: "used_at m' = (used_at m)(p \<mapsto> align_request bytes)" using block(6) pm by (simp add: smap_simps)
      have F: "map_bytes (free_at m') = map_bytes (free_at m) - chunk_bytes p (align_request bytes)" using block(8,9) pm by auto
      have D: "\<forall>q j. used_at m q = Some j \<longrightarrow> chunk_bytes p (align_request bytes) \<inter> chunk_bytes q j = {}"
        using disj[OF False] U by simp
      have "\<exists>k. unat k = ?n \<and> used_at m' = (used_at m)(p \<mapsto> k) \<and> map_bytes (free_at m') = map_bytes (free_at m) - chunk_bytes p k \<and>
          (\<forall>q j. used_at m q = Some j \<longrightarrow> chunk_bytes p k \<inter> chunk_bytes q j = {})"
        using n U F D by blast
      moreover have "\<not> (bytes = 0 \<or> \<not> (\<exists>x. {x ..< x + ?n} \<subseteq> map_bytes (free_at m)))" using b0 room by blast
      ultimately show ?thesis unfolding Let_def using al block(3,5,7) pm False least by (simp only: if_False) simp
    qed
  qed
qed

theorem allocate_correct_witness:
  "let (p, m') = allocate (mspace_new 4096 8192) 100 in p = 4096 \<and> mspace_inv m' \<and> mspace_aligned m' \<and> (\<exists>k. unat k = 512 \<and> used_at m' p = Some k)"
proof -
  have p: "fst (allocate (mspace_new 4096 8192) 100) = 4096" by code_simp
  have al: "mspace_aligned (mspace_new 4096 8192)" by (rule demo_aligned)
  have "request_fits 100" by (simp add: request_fits_def)
  from allocate_correct[OF demo_heap this, of 4096 "snd (allocate (mspace_new 4096 8192) 100)"] show ?thesis
    using p al by (cases "allocate (mspace_new 4096 8192) 100") (auto simp: Let_def split: if_splits)
qed

text \<open>
  C22: \<open>deallocate\<close> of a block in use succeeds, keeps the invariant, and returns exactly the block's bytes
  to the free memory; of any other pointer it exits with the invalid-pointer error, so a second free
  of the same block is caught.
\<close>
theorem deallocate_correct:
  assumes inv: "mspace_inv m"
  shows "(case used_at m p of
      None \<Rightarrow> deallocate m p = Inl FreeOnInvalidPointer
    | Some k \<Rightarrow> (\<exists>m'. deallocate m p = Inr m' \<and> mspace_inv m' \<and> total_size m' = total_size m \<and>
        used_at m' = (used_at m)(p := None) \<and>
        map_bytes (free_at m') = map_bytes (free_at m) \<union> chunk_bytes p k \<and>
        (mspace_aligned m \<longrightarrow> mspace_aligned m') \<and> deallocate m' p = Inl FreeOnInvalidPointer))"
proof (cases "used_at m p")
  case (Some k)
  from dev_heap.release_law[OF inv Some] show ?thesis using deallocate_aligned_heap[OF inv _ Some] by (auto simp: Some deallocate_def)
qed (simp add: deallocate_def)

theorem deallocate_correct_witness:
  "\<exists>m'. deallocate (snd (allocate (mspace_new 4096 8192) 1024)) 4096 = Inr m' \<and> mspace_inv m'"
  using deallocate_correct[OF demo_block(1), of 4096] by (auto simp: demo_block(2))

text \<open>
  C23: releasing a block that was just allocated restores the allocator's state exactly, entry by entry: the
  two chunks an allocation may leave behind are merged again.
\<close>
theorem allocate_deallocate:
  assumes "mspace_inv m" "request_fits bytes" "allocate m bytes = (p, m')" "p \<noteq> 0"
  shows "deallocate m' p = Inr m"
  using assms by (rule dev_heap.alloc_release)

theorem allocate_deallocate_witness:
  "deallocate (snd (allocate (mspace_new 4096 8192) 100)) 4096 = Inr (mspace_new 4096 8192)"
proof -
  have "fst (allocate (mspace_new 4096 8192) 100) = 4096" by code_simp
  then show ?thesis
    using allocate_deallocate[OF demo_heap, of 100 4096 "snd (allocate (mspace_new 4096 8192) 100)"]
    by (cases "allocate (mspace_new 4096 8192) 100") (simp add: request_fits_def)
qed

text \<open>
  the order in which two blocks are released does not matter: both orders succeed and end in the same
  state, so PEs that free in different orders keep symmetric heaps.
\<close>
theorem deallocate_commute:
  assumes "mspace_inv m" "used_at m p = Some k" "used_at m q = Some j" "p \<noteq> q"
  shows "\<exists>m1 m2 t. deallocate m p = Inr m1 \<and> deallocate m1 q = Inr t \<and>
    deallocate m q = Inr m2 \<and> deallocate m2 p = Inr t"
  using dev_heap.release_commute[OF assms] by metis

theorem deallocate_commute_witness:
  "let m = snd (allocate (snd (allocate (mspace_new 4096 8192) 1024)) 600) in
   \<exists>m1 m2 t. deallocate m 4096 = Inr m1 \<and> deallocate m1 5120 = Inr t \<and>
     deallocate m 5120 = Inr m2 \<and> deallocate m2 4096 = Inr t"
proof -
  let ?m = "snd (allocate (mspace_new 4096 8192) 1024)"
  have e: "fst (allocate ?m 600) = 5120" "used_at (snd (allocate ?m 600)) 4096 = Some 1024"
    "used_at (snd (allocate ?m 600)) 5120 = Some 1024" by code_simp+
  have "mspace_inv (snd (allocate ?m 600))"
    using allocate_law[OF demo_block(1), of 600 5120 "snd (allocate ?m 600)"] e(1)
    by (cases "allocate ?m 600") (simp add: request_fits_def)
  then show ?thesis using deallocate_commute[OF _ e(2,3)] by (simp add: Let_def)
qed

text \<open>
  C33: \<open>allocate_aligned\<close> with a valid alignment asks for the request and the alignment together, rounded up to a multiple of
  512; call this \<open>n\<close>. If no run of \<open>n\<close> bytes is free it returns a null pointer and changes nothing. Otherwise the block is at the
  least multiple of the alignment in the first such run, reaches to the end of the \<open>n\<close> bytes and holds the request; exactly
  its bytes are no longer free, so those in front of it are free again. The invariant is kept, and an aligned heap stays
  aligned.
\<close>
theorem allocate_aligned_correct:
  assumes inv: "mspace_inv m" and al: "valid_alignment al" and fits: "unat bytes + unat al + 511 < 2 ^ 64"
  shows "let n = (unat bytes + unat al + 511) div 512 * 512; room = (\<lambda>x. {x ..< x + n} \<subseteq> map_bytes (free_at m)); a = (LEAST x. room x)
    in if \<not> (\<exists>x. room x) then allocate_aligned m al bytes = Inr (0, m)
       else \<exists>p k m'. allocate_aligned m al bytes = Inr (p, m') \<and> mspace_inv m' \<and> total_size m' = total_size m \<and>
         (mspace_aligned m \<longrightarrow> mspace_aligned m') \<and> p \<noteq> 0 \<and> unat p = (LEAST x. a \<le> x \<and> unat al dvd x) \<and> unat p + unat k = a + n \<and>
         bytes \<le> k \<and> used_at m p = None \<and> used_at m' = (used_at m)(p \<mapsto> k) \<and>
         map_bytes (free_at m') = map_bytes (free_at m) - chunk_bytes p k"
proof -
  let ?n = "(unat bytes + unat al + 511) div 512 * 512"
  let ?room = "\<lambda>x. {x ..< x + ?n} \<subseteq> map_bytes (free_at m)"
  have ua: "unat (bytes + al) = unat bytes + unat al" using fits by (simp add: unat_nowrap)
  have "unat (bytes + al) \<noteq> 0" using ua al by (simp add: valid_alignment_def unat_eq_zero)
  then have b0: "bytes + al \<noteq> 0" by force
  have rf: "request_fits (bytes + al)" using fits ua by (simp add: request_fits_def)
  have n: "unat (align_request (bytes + al)) = ?n" using align_request_spec(1)[of "bytes + al"] ua fits by simp
  note ff = allocate_first_fit[OF inv rf b0, unfolded Let_def n]
  from inv al fits show ?thesis
  proof (cases rule: allocate_aligned_spec)
    case null
    then have "\<not> (\<exists>x. ?room x)" using ff by (auto split: if_splits)
    then show ?thesis using null by (simp add: Let_def)
  next
    case (block p k m')
    let ?a = "unat (fst (allocate m (bytes + al)))"
    have room: "\<exists>x. ?room x" using ff block(12) by (auto split: if_splits)
    then have a: "?a = (LEAST x. ?room x)" using ff by simp
    have least: "unat p = (LEAST x. ?a \<le> x \<and> unat al dvd x)"
    proof (rule Least_equality[symmetric])
      fix y assume y: "?a \<le> y \<and> unat al dvd y"
      show "unat p \<le> y"
      proof (rule ccontr)
        assume "\<not> unat p \<le> y"
        then have "0 < unat p - y" "unat p - y < unat al" using y block(14) by linarith+
        moreover have "unat al dvd unat p - y" using y block(4) by (simp add: dvd_diff_nat)
        ultimately show False by (meson dvd_imp_le not_le)
      qed
    qed (use block(4,13) in simp)
    have "mspace_aligned m'" if m: "mspace_aligned m"
    proof -
      obtain m1 where m1: "allocate m (bytes + al) = (fst (allocate m (bytes + al)), m1)" by (metis prod.collapse)
      note A = allocate_aligned_heap[OF inv m rf m1]
      have p: "512 dvd unat p" by (rule round_up_512[OF al conjunct2[OF A] block(4,13,14)])
      have "512 dvd ?a + ?n" using A by simp
      then have k: "512 dvd unat k" using p block(15)[unfolded n] by (metis dvd_add_right_iff)
      have am: "mspace_aligned (m\<lparr>free_chunks_start := free_chunks_start m1\<rparr>)" using A m unfolding mspace_aligned_def by simp
      show ?thesis
      proof (rule alignedI[OF am])
        have "snd (allocate m (bytes + al)) = m1" using m1 by (metis snd_conv)
        then show "dom (free_at m') \<subseteq> insert (fst (allocate m (bytes + al))) (dom (free_at (m\<lparr>free_chunks_start := free_chunks_start m1\<rparr>)))"
          using block(16) by simp
      qed (use A block(8) p k in \<open>auto split: if_splits\<close>)
    qed
    then have "\<exists>p k m'. allocate_aligned m al bytes = Inr (p, m') \<and> mspace_inv m' \<and> total_size m' = total_size m \<and>
         (mspace_aligned m \<longrightarrow> mspace_aligned m') \<and> p \<noteq> 0 \<and> unat p = (LEAST x. ?a \<le> x \<and> unat al dvd x) \<and> unat p + unat k = ?a + ?n \<and>
         bytes \<le> k \<and> used_at m p = None \<and> used_at m' = (used_at m)(p \<mapsto> k) \<and>
         map_bytes (free_at m') = map_bytes (free_at m) - chunk_bytes p k"
      using block least n by (intro exI[of _ p] exI[of _ k] exI[of _ m']) auto
    then show ?thesis unfolding Let_def a using room by simp
  qed
qed

theorem allocate_aligned_correct_witness:
  "\<exists>p k m'. allocate_aligned (snd (allocate (mspace_new 4096 8192) 512)) 1024 700 = Inr (p, m') \<and>
     mspace_inv m' \<and> p = 5120 \<and> 700 \<le> k \<and> used_at m' p = Some k"
proof -
  let ?m = "snd (allocate (mspace_new 4096 8192) 512)"
  have e: "fst (allocate (mspace_new 4096 8192) 512) = 4096" by code_simp
  have i: "mspace_inv ?m"
    using allocate_law[OF demo_heap, of 512 4096 ?m] e
    by (cases "allocate (mspace_new 4096 8192) 512") (simp add: request_fits_def)
  have v: "valid_alignment 1024" by code_simp
  obtain m' where p: "allocate_aligned ?m 1024 700 = Inr (5120, m')"
  proof -
    have "case allocate_aligned ?m 1024 700 of Inl _ \<Rightarrow> False | Inr r \<Rightarrow> fst r = 5120" by code_simp
    then show ?thesis using that by (cases "allocate_aligned ?m 1024 700") auto
  qed
  have f: "unat (700 :: u64) + unat (1024 :: u64) + 511 < 2 ^ 64" by simp
  show ?thesis using allocate_aligned_correct[OF i v f] p unfolding Let_def by (auto split: if_splits)
qed

text \<open>
  \<open>reallocate\<close> to a smaller non-zero size keeps the block where it is, gives the bytes behind the new
  end back, and keeps the invariant.
\<close>
theorem reallocate_shrink:
  assumes inv: "mspace_inv m" and used: "used_at m p = Some s"
    and fits: "request_fits sz" and pos: "sz \<noteq> 0" and less: "align_request sz < s"
  shows "\<exists>m'. reallocate cuda m p sz = Inr (p, [], m') \<and> mspace_inv m' \<and>
    used_at m' = (used_at m)(p \<mapsto> align_request sz) \<and>
    map_bytes (free_at m') = map_bytes (free_at m) \<union> chunk_bytes (p + align_request sz) (s - align_request sz)"
proof -
  let ?n = "align_request sz"
  have n: "0 < unat ?n" "unat ?n < unat s"
    using align_request_nonzero[OF fits pos] less by (simp_all add: word_less_nat_alt)
  obtain m' where m':
    "add_free_chunk (m\<lparr>inuse_chunks := smap_insert p ?n (inuse_chunks m)\<rparr>) (p + ?n) (s - ?n) = Inr m'"
    "mspace_inv m'" "inuse_chunks m' = smap_insert p ?n (inuse_chunks m)"
    "total_size m' = total_size m" "map_bytes (free_at m') = map_bytes (free_at m) \<union> chunk_bytes (p + ?n) (s - ?n)"
    using trim_back[OF inv used n] .
  have "reallocate cuda m p sz = Inr (p, [], m')"
    using used less m'(1) by (simp add: reallocate_def smap_index_def)
  then show ?thesis using m' by (auto simp: smap_simps)
qed

theorem reallocate_shrink_witness:
  "\<exists>m'. reallocate (\<lambda>_. True) (snd (allocate (mspace_new 4096 8192) 1024)) 4096 500 = Inr (4096, [], m') \<and>
     mspace_inv m'"
proof -
  have "align_request 500 < 1024" by code_simp
  then show ?thesis
    using reallocate_shrink[OF demo_block, of 500 "\<lambda>_. True"] by (auto simp: request_fits_def)
qed

text \<open>
  C34: when the block cannot grow in place, \<open>reallocate\<close> moves it and keeps the invariant; the device copy it
  issues has the length of the new block, which is more than the old block holds.
\<close>
theorem reallocate_moves:
  assumes inv: "mspace_inv m" and used: "used_at m p = Some s" and fits: "request_fits sz"
    and grow: "s < align_request sz" and stuck: "free_at m (p + s) = None"
    and room: "allocate m (align_request sz) = (q, m1)" "q \<noteq> 0" and cuda: "\<And>c. cuda c"
  shows "\<exists>m'. reallocate cuda m p sz = Inr (q, [CudaMemcpyDeviceToDevice q p (align_request sz)], m') \<and>
    mspace_inv m' \<and> used_at m' p = None \<and> (\<exists>k. used_at m' q = Some k \<and> sz \<le> k) \<and>
    unat s < unat (align_request sz)"
proof -
  let ?n = "align_request sz"
  have fits': "request_fits ?n" using align_request_fits[OF fits] .
  from dev_heap.alloc_distinct[OF inv fits' room used] obtain k where
    k: "p \<noteq> q" "used_at m1 p = Some s" "used_at m1 q = Some k" "?n \<le> k" by blast
  have inv1: "mspace_inv m1" using dev_heap.alloc_law[OF inv fits' room(1)] room(2) by simp
  from dev_heap.release_law[OF inv1 k(2)] obtain m' where m': "deallocate m1 p = Inr m'" "mspace_inv m'"
    "used_at m' = (used_at m1)(p := None)" by blast
  have "reallocate cuda m p sz = Inr (q, [CudaMemcpyDeviceToDevice q p ?n], m')"
    using used grow stuck room k(2) m'(1) cuda less_not_sym[OF grow]
    by (simp add: Let_def reallocate_def smap_index_def reallocate_move_def deallocate_def)
  moreover have "sz \<le> k" using align_request_ge[OF fits] k(4) by simp
  ultimately show ?thesis using m' k grow by (auto simp: word_less_nat_alt)
qed

theorem reallocate_moves_witness:
  "let m = snd (allocate (snd (allocate (mspace_new 4096 8192) 1024)) 600) in
   \<exists>m'. reallocate (\<lambda>_. True) m 4096 2000 = Inr (6144, [CudaMemcpyDeviceToDevice 6144 4096 2048], m') \<and>
     mspace_inv m'"
proof -
  let ?m = "snd (allocate (mspace_new 4096 8192) 1024)"
  let ?n = "snd (allocate ?m 600)"
  have e: "fst (allocate ?m 600) = 5120" "used_at ?n 4096 = Some 1024" "(1024 :: u64) < align_request 2000"
    "free_at ?n (4096 + 1024) = None" "fst (allocate ?n 2048) = 6144" "align_request 2000 = 2048" by code_simp+
  have i: "mspace_inv ?n"
    using allocate_law[OF demo_block(1), of 600 5120 ?n] e(1)
    by (cases "allocate ?m 600") (simp add: request_fits_def)
  have "allocate ?n (align_request 2000) = (6144, snd (allocate ?n 2048))"
    using e(5,6) by (cases "allocate ?n 2048") simp
  from reallocate_moves[OF i e(2) _ e(3,4) this, of "\<lambda>_. True"] e(6)
  show ?thesis by (auto simp: Let_def request_fits_def)
qed

text \<open>
  C35: Growing a block in place loses track of memory. When the chunk behind a block is free and larger than the growth,
  \<open>reallocate\<close> succeeds without moving, but the free chunk it puts back has the size of the growth and not of the remainder
  of the old chunk. The sizes in the maps then add up to the total plus twice the growth minus the size of that chunk, so
  \<open>ASSERT_CORRECTNESS\<close> fails unless the growth is just half of it.
\<close>
theorem reallocate_grow_breaks_accounting:
  assumes inv: "mspace_inv m" and used: "used_at m p = Some s" and behind: "free_at m (p + s) = Some c"
    and n: "n = align_request sz" "s < n" "unat n < unat s + unat c"
  shows "\<exists>m'. reallocate cuda m p sz = Inr (p, [], m') \<and> used_at m' = (used_at m)(p \<mapsto> n) \<and> total_size m' = total_size m \<and>
    get_total_size (free_chunks_start m') + get_total_size (inuse_chunks m') = total_size m + 2 * (n - s) - c \<and>
    (ASSERT_CORRECTNESS m' \<longrightarrow> c = 2 * (n - s))"
proof -
  note G = grow_place[OF inv used behind n(2,3)]
  let ?m = "m\<lparr>inuse_chunks := smap_insert p n (inuse_chunks m), free_chunks_start := smap_erase (p + s) (free_chunks_start m),
      free_chunks_end := smap_erase (p + s + c) (free_chunks_end m)\<rparr>"
  obtain m' where m': "add_free_chunk ?m (p + n) (n - s) = Inr m'" "inuse_chunks m' = inuse_chunks ?m" "total_size m' = total_size ?m"
    "smap_sum (free_chunks_start m') = smap_sum (free_chunks_start ?m) + (n - s)"
  proof (rule add_free_chunk_sum[of ?m "p + n" "n - s"])
    have W: "smap_wf (free_chunks_start m)" "smap_wf (free_chunks_end m)" "smap_wf (inuse_chunks m)"
      using inv by (simp_all add: mspace_inv_def mspace_wf_def)
    show "smap_wf (free_chunks_start ?m)" "used_at ?m (p + n) = None" "free_at ?m (p + n) = None" "free_end_at ?m (p + n) = None"
      using G(2-5) W by (auto simp: smap_simps smap_wf_erase)
  qed
  have run: "reallocate cuda m p sz = Inr (p, [], m')"
    using used behind n m'(1) G(1) less_not_sym[OF n(2)] less_imp_le[OF G(1)] by (simp add: reallocate_def smap_index_def Let_def)
  have W: "smap_wf (inuse_chunks m)" "smap_wf (free_chunks_start m)" using inv by (simp_all add: mspace_inv_def mspace_wf_def)
  have sums: "smap_sum (free_chunks_start m') = smap_sum (free_chunks_start m) - c + (n - s)"
    "smap_sum (inuse_chunks m') = smap_sum (inuse_chunks m) + n - s"
    using m'(2,4) W used behind by (simp_all add: smap_sum_erase_opt smap_sum_insert_opt)
  have "smap_sum (free_chunks_start m) + smap_sum (inuse_chunks m) = total_size m"
    using mspace_invD(2)[OF inv] unfolding ASSERT_CORRECTNESS_def get_total_size_def by (rule conjunct2)
  note old = this[symmetric]
  have tot: "get_total_size (free_chunks_start m') + get_total_size (inuse_chunks m') = total_size m + 2 * (n - s) - c"
    unfolding get_total_size_def sums old by (simp add: algebra_simps)
  have "c = 2 * (n - s)" if "ASSERT_CORRECTNESS m'"
  proof -
    have "total_size m + 2 * (n - s) - c = total_size m" using that tot m'(3) by (simp add: ASSERT_CORRECTNESS_def)
    then show ?thesis by (simp add: algebra_simps)
  qed
  then show ?thesis using run tot m'(2,3) by (auto simp: smap_simps)
qed

theorem reallocate_grow_breaks_accounting_witness:
  "\<exists>m'. reallocate (\<lambda>_. True) (snd (allocate (mspace_new 4096 8192) 1024)) 4096 1536 = Inr (4096, [], m') \<and> \<not> ASSERT_CORRECTNESS m'"
proof -
  have e: "free_at (snd (allocate (mspace_new 4096 8192) 1024)) (4096 + 1024) = Some 7168" "align_request 1536 = 1536" by code_simp+
  show ?thesis using reallocate_grow_breaks_accounting[OF demo_block e(1), of 1536 1536 "\<lambda>_. True"] e(2) by auto
qed

text \<open>
  \<open>reallocate\<close> of a live block to size zero does not free it: the process exits, because the block's own
  start is handed to \<open>add_free_chunk\<close> while the block is still in use.
\<close>
theorem reallocate_zero_exits:
  assumes "used_at m p = Some s" and "s \<noteq> 0"
  shows "reallocate cuda m p 0 = Inl InuseChunkUsedAsFree"
proof -
  have "align_request 0 = 0" by code_simp
  then show ?thesis using assms
    by (simp add: reallocate_def smap_index_def add_free_chunk_def smap_simps word_gt_0)
qed

theorem reallocate_zero_exits_witness:
  "reallocate (\<lambda>_. True) (snd (allocate (mspace_new 4096 8192) 1024)) 4096 0 = Inl InuseChunkUsedAsFree"
  by (rule reallocate_zero_exits[OF demo_block(2)]) simp

end
