(* ===== verification/Local_Buf_Cache.thy ===== *)
theory Local_Buf_Cache
  imports Nvshmem_Prelude
begin

text \<open>
  Registration of user buffers (\<open>mem.cpp\<close>): a sorted array of handles per transport, with a region
  longer than \<open>NVSHMEMI_MAX_HANDLE_LENGTH\<close> split into a chain of linked handles, linear search on
  registration and removal, and binary search on the data path. The array is the list of its used
  entries; \<open>array_size\<close> is its capacity. CUDA, the transport's operations and the allocator are
  oracles of the environment record, and calls with an effect outside are logged.
\<close>

section \<open>Data\<close>

definition NVSHMEMI_MAX_HANDLE_LENGTH :: u64 where "NVSHMEMI_MAX_HANDLE_LENGTH = 2147483648"
definition NVSHMEMI_DMA_BUF_MAX_LENGTH :: u64 where "NVSHMEMI_DMA_BUF_MAX_LENGTH = 0x100000000"
definition NVSHMEMI_LOCAL_BUF_CACHE_DEFAULT_SIZE :: nat where "NVSHMEMI_LOCAL_BUF_CACHE_DEFAULT_SIZE = 64"

definition NVSHMEMI_SUCCESS :: int where "NVSHMEMI_SUCCESS = 0"
definition NVSHMEMI_INTERNAL_ERROR :: int where "NVSHMEMI_INTERNAL_ERROR = 3"

lemmas buf_consts = NVSHMEMI_MAX_HANDLE_LENGTH_def NVSHMEMI_DMA_BUF_MAX_LENGTH_def
  NVSHMEMI_LOCAL_BUF_CACHE_DEFAULT_SIZE_def

text \<open>
  A pointer \<open>&handle[i]\<close> into a \<open>calloc\<close>ed array of handles, and at once the pointer
  \<open>handle[i].handle\<close> allocated for it: the allocation and the index.
\<close>

type_synonym handle_ref = "nat \<times> nat"

record local_buf_handle =
  lb_ptr :: u64
  lb_length :: u64
  lb_ref :: handle_ref
  registered_by_us :: bool
  linked_with_prev :: bool
  linked_with_next :: bool

record local_buf_cache =
  array_size :: nat
  buffers :: "local_buf_handle list"

abbreviation array_used :: "local_buf_cache \<Rightarrow> nat" where
  "array_used c \<equiv> length (buffers c)"

datatype cuda_memory_type = cudaMemoryTypeUnregistered | cudaMemoryTypeHost | cudaMemoryTypeDevice | cudaMemoryTypeManaged

datatype buf_effect =
    Cuda_Host_Register u64 u64
  | Cuda_Host_Unregister u64
  | Get_Mem_Handle handle_ref u64 u64
  | Release_Mem_Handle handle_ref
  | Free_Mem_Handle handle_ref
  | Free_Handle_Array handle_ref

text \<open>How a call ends other than by returning.\<close>

datatype buf_exit = Assertion_Failed | Cuda_Check_Failed | Out_Of_Bounds | Null_Dereference

text \<open>
  The environment of one call: the answers of CUDA, of the allocator (\<open>calloc_array\<close> is the new
  allocation, \<open>None\<close> for NULL), of the lock after the \<open>EBUSY\<close> retries, and of the transport
  (\<open>get_mem_handle_op\<close> is \<open>None\<close> where the operation is NULL, else its status for the i-th handle).
\<close>

record buf_env =
  env_heap_base :: u64
  env_heap_size :: u64
  ptr_attributes :: "cuda_memory_type option"
  calloc_array :: "nat option"
  calloc_handle :: "nat \<Rightarrow> bool"
  lock_status :: int
  host_memory_registration_supported :: bool
  host_register_ok :: bool
  host_unregister_ok :: bool
  realloc_ok :: bool
  get_mem_handle_op :: "(nat \<Rightarrow> int) option"
  has_release_mem :: bool
  update_device_state_status :: int

type_synonym buf_result = "buf_exit + int \<times> local_buf_cache \<times> buf_effect list"

definition local_mem_cache_new :: local_buf_cache where
  "local_mem_cache_new = \<lparr>array_size = NVSHMEMI_LOCAL_BUF_CACHE_DEFAULT_SIZE, buffers = []\<rparr>"

text \<open>
  \<open>nvshmemi_local_mem_cache_init\<close>: the error exit frees \<open>cache_ptr->buffers\<close> also where \<open>cache_ptr\<close> is
  NULL. The array is taken to be there; the code does not test its allocation.
\<close>

definition nvshmemi_local_mem_cache_init :: "bool \<Rightarrow> int \<Rightarrow> buf_exit + int \<times> local_buf_cache option" where
  "nvshmemi_local_mem_cache_init calloc_ok rwlock_init_status =
     (if \<not> calloc_ok then Inl Null_Dereference
      else if rwlock_init_status \<noteq> 0 then Inr (NVSHMEMI_INTERNAL_ERROR, None)
      else Inr (NVSHMEMI_SUCCESS, Some local_mem_cache_new))"

section \<open>Registration\<close>

text \<open>The search for the insertion point; \<open>None\<close> is the rejection of an address inside a known region.\<close>

fun find_slot :: "u64 \<Rightarrow> local_buf_handle list \<Rightarrow> nat option" where
  "find_slot addr [] = Some 0"
| "find_slot addr (h # hs) =
     (if addr > lb_ptr h
      then if addr < lb_ptr h + lb_length h then None else map_option Suc (find_slot addr hs)
      else if addr = lb_ptr h then None
      else Some 0)"

text \<open>
  The loop that assigns the handles, from index \<open>i\<close> with \<open>k\<close> handles to go out of \<open>n\<close>. It stops with the
  transport's status at the first handle that the transport refuses.
\<close>

fun assign_handles ::
  "buf_env \<Rightarrow> nat \<Rightarrow> bool \<Rightarrow> nat \<Rightarrow> nat \<Rightarrow> nat \<Rightarrow> u64 \<Rightarrow> u64 \<Rightarrow>
     buf_exit + (int \<times> local_buf_handle list \<times> buf_effect list)" where
  "assign_handles env b us n i 0 addr_calc remaining_length = Inr (0, [], [])"
| "assign_handles env b us n i (Suc k) addr_calc remaining_length =
     (let register_length = (if remaining_length > NVSHMEMI_MAX_HANDLE_LENGTH then NVSHMEMI_MAX_HANDLE_LENGTH
                             else remaining_length);
          h = \<lparr>lb_ptr = addr_calc, lb_length = register_length, lb_ref = (b, i), registered_by_us = us,
               linked_with_prev = (i \<noteq> 0), linked_with_next = (i \<noteq> n - 1)\<rparr>;
          status = (case get_mem_handle_op env of None \<Rightarrow> 0 | Some op \<Rightarrow> op i);
          eff = (if get_mem_handle_op env = None then [] else [Get_Mem_Handle (b, i) addr_calc register_length])
      in if get_mem_handle_op env \<noteq> None \<and> \<not> register_length < NVSHMEMI_DMA_BUF_MAX_LENGTH then Inl Assertion_Failed
         else if status \<noteq> 0 then Inr (status, [], eff)
         else (case assign_handles env b us n (Suc i) k (addr_calc + register_length) (remaining_length - register_length) of
                 Inl e \<Rightarrow> Inl e
               | Inr (st, hs, effs) \<Rightarrow> Inr (st, h # hs, eff @ effs)))"

text \<open>\<open>out_error_unlocked\<close>: undo the CUDA registration and free the handles and their array.\<close>

definition out_error_unlocked ::
  "buf_env \<Rightarrow> nat \<Rightarrow> nat \<Rightarrow> bool \<Rightarrow> u64 \<Rightarrow> int \<Rightarrow> local_buf_cache \<Rightarrow> buf_effect list \<Rightarrow> buf_result" where
  "out_error_unlocked env b n us addr status cache eff =
     (if us \<and> \<not> host_unregister_ok env then Inl Cuda_Check_Failed
      else Inr (status, cache, eff @ (if us then [Cuda_Host_Unregister addr] else []) @
             map (\<lambda>i. Free_Mem_Handle (b, i)) (takeWhile (calloc_handle env) [0..<n]) @ [Free_Handle_Array (b, 0)]))"

definition grow_cache :: "buf_env \<Rightarrow> nat \<Rightarrow> local_buf_cache \<Rightarrow> buf_exit + local_buf_cache option" where
  "grow_cache env n cache =
     (if array_used cache + n \<ge> array_size cache then
        (let new_array_size = (if n > array_size cache then array_size cache + n else array_size cache * 2)
         in if \<not> new_array_size < 2 ^ 59 - 1 then Inl Assertion_Failed
            else if \<not> realloc_ok env then Inr None
            else Inr (Some (cache\<lparr>array_size := new_array_size\<rparr>)))
      else Inr (Some cache))"

definition number_of_handles :: "u64 \<Rightarrow> nat" where
  "number_of_handles len = unat ((len + NVSHMEMI_MAX_HANDLE_LENGTH - 1) div NVSHMEMI_MAX_HANDLE_LENGTH)"

text \<open>The part under the write lock, after the CUDA registration.\<close>

definition buffer_register_locked ::
  "buf_env \<Rightarrow> nat \<Rightarrow> nat \<Rightarrow> bool \<Rightarrow> local_buf_cache \<Rightarrow> u64 \<Rightarrow> u64 \<Rightarrow> buf_result" where
  "buffer_register_locked env b n us cache addr len =
     (let eff = (if us then [Cuda_Host_Register addr len] else [])
      in case grow_cache env n cache of
           Inl e \<Rightarrow> Inl e
         | Inr None \<Rightarrow> out_error_unlocked env b n us addr NVSHMEMX_ERROR_OUT_OF_MEMORY cache eff
         | Inr (Some cache) \<Rightarrow>
             (case find_slot addr (buffers cache) of
                None \<Rightarrow> out_error_unlocked env b n us addr NVSHMEMX_ERROR_INVALID_VALUE cache eff
              | Some selected_index \<Rightarrow>
                  (case assign_handles env b us n 0 n addr len of
                     Inl e \<Rightarrow> Inl e
                   | Inr (status, hs, effs) \<Rightarrow>
                       if status \<noteq> 0 then out_error_unlocked env b n us addr status cache (eff @ effs)
                       else if \<not> selected_index < array_size cache then Inl Assertion_Failed
                       else (let cache = cache\<lparr>buffers := take selected_index (buffers cache) @ hs @
                                                drop selected_index (buffers cache)\<rparr>
                             in if update_device_state_status env \<noteq> 0
                                then out_error_unlocked env b n us addr NVSHMEMX_ERROR_INTERNAL cache (eff @ effs)
                                else Inr (0, cache, eff @ effs)))))"

definition buffer_register :: "buf_env \<Rightarrow> local_buf_cache \<Rightarrow> u64 \<Rightarrow> u64 \<Rightarrow> buf_result" where
  "buffer_register env cache addr len =
     (if len = 0 then Inr (NVSHMEMX_ERROR_INVALID_VALUE, cache, [])
      else let n = number_of_handles len in
        case ptr_attributes env of
          None \<Rightarrow> Inr (NVSHMEMX_ERROR_INTERNAL, cache, [])
        | Some ty \<Rightarrow>
            if ty = cudaMemoryTypeManaged then Inr (NVSHMEMX_ERROR_INVALID_VALUE, cache, [])
            else if addr \<ge> env_heap_base env \<and> addr < env_heap_base env + env_heap_size env
            then Inr (NVSHMEMX_ERROR_INVALID_VALUE, cache, [])
            else (case calloc_array env of
                    None \<Rightarrow> Inr (NVSHMEMX_ERROR_OUT_OF_MEMORY, cache, [])
                  | Some b \<Rightarrow>
                      if list_ex (\<lambda>i. \<not> calloc_handle env i) [0..<n]
                      then out_error_unlocked env b n False addr NVSHMEMX_ERROR_OUT_OF_MEMORY cache []
                      else if n = 0 then Inl Out_Of_Bounds
                      else if lock_status env \<noteq> 0
                      then out_error_unlocked env b n False addr NVSHMEMX_ERROR_INTERNAL cache []
                      else if ty = cudaMemoryTypeUnregistered \<and> \<not> host_memory_registration_supported env
                      then out_error_unlocked env b n False addr NVSHMEMX_ERROR_INVALID_VALUE cache []
                      else if ty = cudaMemoryTypeUnregistered \<and> \<not> host_register_ok env
                      then out_error_unlocked env b n False addr NVSHMEMX_ERROR_INTERNAL cache []
                      else buffer_register_locked env b n (ty = cudaMemoryTypeUnregistered) cache addr len))"

section \<open>Removal\<close>

fun find_buf :: "u64 \<Rightarrow> local_buf_handle list \<Rightarrow> nat option" where
  "find_buf addr [] = None"
| "find_buf addr (h # hs) =
     (if addr > lb_ptr h then map_option Suc (find_buf addr hs)
      else if addr = lb_ptr h then Some 0
      else None)"

text \<open>
  The calls for one handle, and the do-while over a chain: as long as the handle is linked with the next
  one, the next entry of the array is taken. Running past the used entries reads a stale pointer.
\<close>

definition release_handle :: "buf_env \<Rightarrow> local_buf_handle \<Rightarrow> buf_effect list" where
  "release_handle env h =
     (if has_release_mem env then [Release_Mem_Handle (lb_ref h), Free_Mem_Handle (lb_ref h)] else []) @
     (if registered_by_us h \<and> \<not> linked_with_prev h then [Cuda_Host_Unregister (lb_ptr h)] else [])"

fun release_chain :: "buf_env \<Rightarrow> local_buf_handle list \<Rightarrow> buf_exit + nat \<times> buf_effect list" where
  "release_chain env [] = Inl Out_Of_Bounds"
| "release_chain env (h # hs) =
     (if registered_by_us h \<and> \<not> linked_with_prev h \<and> \<not> host_unregister_ok env then Inl Cuda_Check_Failed
      else if linked_with_next h
      then (case release_chain env hs of Inl e \<Rightarrow> Inl e | Inr (k, eff) \<Rightarrow> Inr (Suc k, release_handle env h @ eff))
      else Inr (1, release_handle env h))"

definition buffer_unregister :: "buf_env \<Rightarrow> local_buf_cache \<Rightarrow> u64 \<Rightarrow> buf_result" where
  "buffer_unregister env cache addr =
     (if lock_status env \<noteq> 0 then Inr (NVSHMEMX_ERROR_INTERNAL, cache, [])
      else case find_buf addr (buffers cache) of
             None \<Rightarrow> Inr (NVSHMEMX_ERROR_INVALID_VALUE, cache, [])
           | Some i \<Rightarrow>
               (case release_chain env (drop i (buffers cache)) of
                  Inl e \<Rightarrow> Inl e
                | Inr (num_mem_handles, eff) \<Rightarrow>
                    Inr (if update_device_state_status env \<noteq> 0 then NVSHMEMX_ERROR_INTERNAL else 0,
                         cache\<lparr>buffers := take i (buffers cache) @ drop (i + num_mem_handles) (buffers cache)\<rparr>,
                         eff @ [Free_Handle_Array (lb_ref (buffers cache ! i))])))"

text \<open>\<open>buffer_unregister_all\<close>: \<open>e\<close> is \<open>num_entries\<close>, the links seen since the head of the chain.\<close>

fun unregister_loop :: "buf_env \<Rightarrow> local_buf_handle list \<Rightarrow> nat \<Rightarrow> nat \<Rightarrow> nat \<Rightarrow> buf_exit + buf_effect list" where
  "unregister_loop env bufs i e 0 = Inr []"
| "unregister_loop env bufs i e (Suc k) =
     (let h = bufs ! i
      in if registered_by_us h \<and> \<not> linked_with_prev h \<and> \<not> host_unregister_ok env then Inl Cuda_Check_Failed
         else case (if linked_with_next h then unregister_loop env bufs (Suc i) (Suc e) k
                    else unregister_loop env bufs (Suc i) 0 k) of
                Inl x \<Rightarrow> Inl x
              | Inr eff \<Rightarrow> Inr (release_handle env h @
                  (if linked_with_next h then [] else [Free_Handle_Array (lb_ref (bufs ! (i - e)))]) @ eff))"

definition buffer_unregister_all :: "buf_env \<Rightarrow> local_buf_cache \<Rightarrow> buf_exit + local_buf_cache \<times> buf_effect list" where
  "buffer_unregister_all env cache =
     (if lock_status env \<noteq> 0 then Inr (cache, [])
      else case unregister_loop env (buffers cache) 0 0 (array_used cache) of
             Inl e \<Rightarrow> Inl e
           | Inr eff \<Rightarrow> Inr (cache\<lparr>buffers := []\<rparr>, eff))"

section \<open>The lookup of the data path\<close>

text \<open>
  The do-while of \<open>nvshmemi_get_registered_buffer_handle\<close>; \<open>mn\<close> and \<open>mx\<close> are \<open>min\<close> and \<open>max\<close>. The second
  component is what \<open>*len\<close> holds on return.
\<close>

function buf_search :: "local_buf_handle list \<Rightarrow> u64 \<Rightarrow> u64 \<Rightarrow> nat \<Rightarrow> nat \<Rightarrow> handle_ref option \<times> u64" where
  "buf_search bufs addr len mn mx =
     (let mid = (mx - mn) div 2 + mn
      in if mid \<ge> length bufs then (None, len)
         else let h = bufs ! mid; max_addr = lb_ptr h + lb_length h; max_len = max_addr - addr
              in if addr > lb_ptr h
                 then if addr < max_addr then (Some (lb_ref h), if len < max_len then len else max_len)
                      else if mx \<ge> mid + 1 then buf_search bufs addr len (mid + 1) mx
                      else (None, len)
                 else if addr = lb_ptr h then (Some (lb_ref h), if len < lb_length h then len else lb_length h)
                 else if mid = 0 then (None, len)
                 else if mid - 1 \<ge> mn then buf_search bufs addr len mn (mid - 1)
                 else (None, len))"
  by pat_completeness auto
termination
  by (relation "measure (\<lambda>(bufs, addr, len, mn, mx). Suc mx - mn)") (auto, presburger)

definition nvshmemi_get_registered_buffer_handle ::
  "int \<Rightarrow> local_buf_cache \<Rightarrow> u64 \<Rightarrow> u64 \<Rightarrow> handle_ref option \<times> u64" where
  "nvshmemi_get_registered_buffer_handle rdlock_status cache addr len =
     (if rdlock_status \<noteq> 0 then (None, len)
      else if array_used cache = 0 then (None, len)
      else buf_search (buffers cache) addr len 0 (array_used cache))"

section \<open>All transports\<close>

text \<open>
  The three entry points run over the initialised transports whose bit is set, each with its own cache
  and environment; the last failure is the status.
\<close>

record buf_transport =
  bt_env :: buf_env
  bt_cache :: local_buf_cache
  bt_enabled :: bool

fun nvshmemx_buffer_register_loop ::
  "buf_transport list \<Rightarrow> int \<Rightarrow> u64 \<Rightarrow> u64 \<Rightarrow> buf_exit + int \<times> buf_transport list \<times> buf_effect list" where
  "nvshmemx_buffer_register_loop [] status_global addr len = Inr (status_global, [], [])"
| "nvshmemx_buffer_register_loop (t # ts) status_global addr len =
     (if bt_enabled t then
        (case buffer_register (bt_env t) (bt_cache t) addr len of
           Inl e \<Rightarrow> Inl e
         | Inr (status_local, cache, eff) \<Rightarrow>
             (case nvshmemx_buffer_register_loop ts (if status_local \<noteq> 0 then status_local else status_global) addr len of
                Inl e \<Rightarrow> Inl e
              | Inr (st, ts', effs) \<Rightarrow> Inr (st, t\<lparr>bt_cache := cache\<rparr> # ts', eff @ effs)))
      else (case nvshmemx_buffer_register_loop ts status_global addr len of
              Inl e \<Rightarrow> Inl e
            | Inr (st, ts', effs) \<Rightarrow> Inr (st, t # ts', effs)))"

definition nvshmemx_buffer_register ::
  "buf_transport list \<Rightarrow> u64 \<Rightarrow> u64 \<Rightarrow> buf_exit + int \<times> buf_transport list \<times> buf_effect list" where
  "nvshmemx_buffer_register ts addr len = nvshmemx_buffer_register_loop ts NVSHMEMX_SUCCESS addr len"

fun nvshmemx_buffer_unregister_loop ::
  "buf_transport list \<Rightarrow> int \<Rightarrow> u64 \<Rightarrow> buf_exit + int \<times> buf_transport list \<times> buf_effect list" where
  "nvshmemx_buffer_unregister_loop [] status_global addr = Inr (status_global, [], [])"
| "nvshmemx_buffer_unregister_loop (t # ts) status_global addr =
     (if bt_enabled t then
        (case buffer_unregister (bt_env t) (bt_cache t) addr of
           Inl e \<Rightarrow> Inl e
         | Inr (status_local, cache, eff) \<Rightarrow>
             (case nvshmemx_buffer_unregister_loop ts (if status_local \<noteq> 0 then status_local else status_global) addr of
                Inl e \<Rightarrow> Inl e
              | Inr (st, ts', effs) \<Rightarrow> Inr (st, t\<lparr>bt_cache := cache\<rparr> # ts', eff @ effs)))
      else (case nvshmemx_buffer_unregister_loop ts status_global addr of
              Inl e \<Rightarrow> Inl e
            | Inr (st, ts', effs) \<Rightarrow> Inr (st, t # ts', effs)))"

definition nvshmemx_buffer_unregister ::
  "buf_transport list \<Rightarrow> u64 \<Rightarrow> buf_exit + int \<times> buf_transport list \<times> buf_effect list" where
  "nvshmemx_buffer_unregister ts addr = nvshmemx_buffer_unregister_loop ts NVSHMEMX_SUCCESS addr"

fun nvshmemx_buffer_unregister_all :: "buf_transport list \<Rightarrow> buf_exit + buf_transport list \<times> buf_effect list" where
  "nvshmemx_buffer_unregister_all [] = Inr ([], [])"
| "nvshmemx_buffer_unregister_all (t # ts) =
     (if bt_enabled t then
        (case buffer_unregister_all (bt_env t) (bt_cache t) of
           Inl e \<Rightarrow> Inl e
         | Inr (cache, eff) \<Rightarrow>
             (case nvshmemx_buffer_unregister_all ts of
                Inl e \<Rightarrow> Inl e
              | Inr (ts', effs) \<Rightarrow> Inr (t\<lparr>bt_cache := cache\<rparr> # ts', eff @ effs)))
      else (case nvshmemx_buffer_unregister_all ts of
              Inl e \<Rightarrow> Inl e
            | Inr (ts', effs) \<Rightarrow> Inr (t # ts', effs)))"

end
