(* ===== verification/Buf_Cache_Regions.thy ===== *)
theory Buf_Cache_Regions
  imports Local_Buf_Cache
begin

text \<open>
  The registered-buffer array as a set of disjoint regions. \<open>cache_rep c regs\<close> says that the array is
  the concatenation of the handle chains of the regions \<open>regs\<close>, in address order; registration and
  removal act on the regions, and the binary search finds exactly the handle that covers an address.
\<close>

section \<open>Handles in address order\<close>

definition h_end :: "local_buf_handle \<Rightarrow> nat" where
  "h_end h = unat (lb_ptr h) + unat (lb_length h)"

definition handle_covers :: "local_buf_handle \<Rightarrow> u64 \<Rightarrow> bool" where
  "handle_covers h a \<longleftrightarrow> unat (lb_ptr h) \<le> unat a \<and> unat a < h_end h"

definition handle_ok :: "local_buf_handle \<Rightarrow> bool" where
  "handle_ok h \<longleftrightarrow> lb_length h \<noteq> 0 \<and> h_end h < 2 ^ 64"

definition handles_ok :: "local_buf_handle list \<Rightarrow> bool" where
  "handles_ok hs \<longleftrightarrow> sorted_wrt (\<lambda>g h. h_end g \<le> unat (lb_ptr h)) hs \<and> (\<forall>h \<in> set hs. handle_ok h)"

lemma handle_end: "handle_ok h \<Longrightarrow> unat (lb_ptr h + lb_length h) = h_end h"
  by (simp add: handle_ok_def h_end_def unat_add_nowrap)

lemma handle_tests:
  assumes "handle_ok h"
  shows "a < lb_ptr h + lb_length h \<longleftrightarrow> unat a < h_end h" "lb_ptr h < a \<longleftrightarrow> unat (lb_ptr h) < unat a"
    "unat (lb_ptr h) < h_end h"
  using handle_end[OF assms] assms
  by (simp_all add: word_less_nat_alt h_end_def handle_ok_def unat_pos_iff)

lemma handles_ok_append:
  "handles_ok (xs @ ys) \<longleftrightarrow>
     handles_ok xs \<and> handles_ok ys \<and> (\<forall>x \<in> set xs. \<forall>y \<in> set ys. h_end x \<le> unat (lb_ptr y))"
  by (auto simp: handles_ok_def sorted_wrt_append)

lemma handles_okD:
  assumes "handles_ok hs" "i < j" "j < length hs"
  shows "h_end (hs ! i) \<le> unat (lb_ptr (hs ! j))"
  using assms unfolding handles_ok_def by (metis sorted_wrt_nth_less)

section \<open>The lookup\<close>

declare buf_search.simps [simp del]

lemma none_covers:
  assumes "\<And>j. j < length bufs \<Longrightarrow> h_end (bufs ! j) \<le> unat a \<or> unat a < unat (lb_ptr (bufs ! j))"
  shows "\<forall>h \<in> set bufs. \<not> handle_covers h a"
  using assms by (fastforce simp: in_set_conv_nth handle_covers_def)

definition lookup_result :: "local_buf_handle list \<Rightarrow> u64 \<Rightarrow> u64 \<Rightarrow> handle_ref option \<times> u64 \<Rightarrow> bool" where
  "lookup_result bufs a len res \<longleftrightarrow>
     (\<exists>h \<in> set bufs. handle_covers h a \<and> res = (Some (lb_ref h), min len (lb_ptr h + lb_length h - a))) \<or>
     (\<forall>h \<in> set bufs. \<not> handle_covers h a) \<and> res = (None, len)"

lemma lookup_found:
  "h \<in> set bufs \<Longrightarrow> handle_covers h a \<Longrightarrow> l = min len (lb_ptr h + lb_length h - a) \<Longrightarrow>
     lookup_result bufs a len (Some (lb_ref h), l)"
  by (auto simp: lookup_result_def)

lemma lookup_missed:
  "(\<And>j. j < length bufs \<Longrightarrow> h_end (bufs ! j) \<le> unat a \<or> unat a < unat (lb_ptr (bufs ! j))) \<Longrightarrow>
     lookup_result bufs a len (None, len)"
  using none_covers[of bufs a] by (simp add: lookup_result_def)

lemma buf_search_correct:
  assumes "handles_ok bufs"
    and "\<And>j. j < mn \<Longrightarrow> j < length bufs \<Longrightarrow> h_end (bufs ! j) \<le> unat a"
    and "\<And>j. mx < j \<Longrightarrow> j < length bufs \<Longrightarrow> unat a < unat (lb_ptr (bufs ! j))"
    and "mn \<le> mx" "mx \<le> length bufs"
  shows "lookup_result bufs a len (buf_search bufs a len mn mx)"
  using assms
proof (induction bufs a len mn mx rule: buf_search.induct)
  case (1 bufs a len mn mx)
  note below = 1(4) and above = 1(5)
  define mid where "mid = (mx - mn) div 2 + mn"
  have mid: "mn \<le> mid" "mid \<le> mx" using 1(6) by (auto simp: mid_def)
  show ?case
  proof (cases "length bufs \<le> mid")
    case True
    then have "length bufs \<le> mn" using mid 1(6,7) by (simp add: mid_def)
    then show ?thesis using True below by (subst buf_search.simps) (auto simp: Let_def mid_def intro!: lookup_missed)
  next
    case False
    define h where "h = bufs ! mid"
    have h: "handle_ok h" "h \<in> set bufs" using False 1(3) by (auto simp: handles_ok_def h_def)
    have lo: "h_end (bufs ! j) \<le> unat (lb_ptr h)" if "j < mid" for j
      using handles_okD[OF 1(3) that] False by (simp add: h_def)
    have hi: "h_end h \<le> unat (lb_ptr (bufs ! j))" if "mid < j" "j < length bufs" for j
      using handles_okD[OF 1(3) that] by (simp add: h_def)
    note T = handle_tests[OF h(1)]
    consider (inside) "lb_ptr h < a" "a < lb_ptr h + lb_length h" | (right) "lb_ptr h < a" "\<not> a < lb_ptr h + lb_length h"
      | (at) "a = lb_ptr h" | (left) "a < lb_ptr h" by fastforce
    then show ?thesis
    proof cases
      case inside
      then have "buf_search bufs a len mn mx = (Some (lb_ref h), min len (lb_ptr h + lb_length h - a))"
        using False by (subst buf_search.simps) (auto simp: Let_def mid_def[symmetric] h_def[symmetric] min_def not_less)
      then show ?thesis using inside h T by (auto intro!: lookup_found simp: handle_covers_def)
    next
      case at
      then have "buf_search bufs a len mn mx = (Some (lb_ref h), min len (lb_ptr h + lb_length h - a))"
        using False by (subst buf_search.simps) (auto simp: Let_def mid_def[symmetric] h_def[symmetric] min_def not_less)
      then show ?thesis using at h T by (auto intro!: lookup_found simp: handle_covers_def)
    next
      case right
      then have le: "h_end h \<le> unat a" using T by simp
      have below': "h_end (bufs ! j) \<le> unat a" if "j < mid + 1" for j
        using that lo[of j] le T(3) h_def by (cases "j = mid") auto
      have e: "buf_search bufs a len mn mx = (if mid + 1 \<le> mx then buf_search bufs a len (mid + 1) mx else (None, len))"
        using False right by (subst buf_search.simps) (simp add: Let_def mid_def[symmetric] h_def[symmetric])
      show ?thesis
      proof (cases "mid + 1 \<le> mx")
        case True
        have "lookup_result bufs a len (buf_search bufs a len (mid + 1) mx)"
          using 1(1)[OF mid_def _ h_def refl refl] False right True 1(3,7) below' above by simp
        then show ?thesis using e True by simp
      next
        case False
        then have "lookup_result bufs a len (None, len)" using below' above by (intro lookup_missed) (meson not_less less_Suc_eq_le Suc_eq_plus1 leI less_le_trans)
        then show ?thesis using e False by simp
      qed
    next
      case left
      then have lt: "unat a < unat (lb_ptr h)" by (simp add: word_less_nat_alt)
      have above': "unat a < unat (lb_ptr (bufs ! j))" if "mid \<le> j" "j < length bufs" for j
        using that hi[of j] lt T(3) h_def by (cases "j = mid") auto
      have e: "buf_search bufs a len mn mx =
          (if mid = 0 then (None, len) else if mn \<le> mid - 1 then buf_search bufs a len mn (mid - 1) else (None, len))"
        using False left by (subst buf_search.simps) (auto simp: Let_def mid_def[symmetric] h_def[symmetric])
      show ?thesis
      proof (cases "mid \<noteq> 0 \<and> mn \<le> mid - 1")
        case True
        have "lookup_result bufs a len (buf_search bufs a len mn (mid - 1))"
          using 1(2)[OF mid_def _ h_def refl refl] False left True 1(3) below above' by auto
        then show ?thesis using e True by simp
      next
        case F: False
        then have "mid \<le> mn" by auto
        then have "lookup_result bufs a len (None, len)"
          using below above' by (intro lookup_missed) (meson not_less order_trans)
        then show ?thesis using e F by auto
      qed
    qed
  qed
qed

section \<open>Regions and their chains\<close>

record region =
  rg_addr :: u64
  rg_len :: u64
  rg_block :: nat
  rg_us :: bool

abbreviation r_end :: "region \<Rightarrow> nat" where
  "r_end r \<equiv> unat (rg_addr r) + unat (rg_len r)"

definition region_ok :: "region \<Rightarrow> bool" where
  "region_ok r \<longleftrightarrow> rg_len r \<noteq> 0 \<and> r_end r < 2 ^ 64 \<and> unat (rg_len r) \<le> 2 ^ 63"

definition region_covers :: "region \<Rightarrow> u64 \<Rightarrow> bool" where
  "region_covers r a \<longleftrightarrow> unat (rg_addr r) \<le> unat a \<and> unat a < r_end r"

text \<open>The handles that the assignment loop makes when the transport refuses none.\<close>

fun pieces :: "nat \<Rightarrow> bool \<Rightarrow> nat \<Rightarrow> nat \<Rightarrow> nat \<Rightarrow> u64 \<Rightarrow> u64 \<Rightarrow> local_buf_handle list" where
  "pieces b us n i 0 a l = []"
| "pieces b us n i (Suc k) a l =
     (let m = (if l > NVSHMEMI_MAX_HANDLE_LENGTH then NVSHMEMI_MAX_HANDLE_LENGTH else l)
      in \<lparr>lb_ptr = a, lb_length = m, lb_ref = (b, i), registered_by_us = us,
          linked_with_prev = (i \<noteq> 0), linked_with_next = (i \<noteq> n - 1)\<rparr> # pieces b us n (Suc i) k (a + m) (l - m))"

definition chain_of :: "region \<Rightarrow> local_buf_handle list" where
  "chain_of r = (let n = number_of_handles (rg_len r) in pieces (rg_block r) (rg_us r) n 0 n (rg_addr r) (rg_len r))"

lemma assign_pieces:
  "assign_handles env b us n i k a l = Inr (0, hs, eff) \<Longrightarrow> hs = pieces b us n i k a l"
  by (induction k arbitrary: i a l hs eff) (auto simp: Let_def split: if_splits sum.splits prod.splits)

lemma assign_total:
  assumes "\<And>i op. get_mem_handle_op env = Some op \<Longrightarrow> op i = 0"
  shows "\<exists>eff. assign_handles env b us n i k a l = Inr (0, pieces b us n i k a l, eff)"
proof (induction k arbitrary: i a l)
  case (Suc k)
  let ?m = "if l > NVSHMEMI_MAX_HANDLE_LENGTH then NVSHMEMI_MAX_HANDLE_LENGTH else l"
  have "?m < NVSHMEMI_DMA_BUF_MAX_LENGTH" by (simp add: buf_consts not_less word_less_nat_alt word_le_nat_alt)
  moreover have "(case get_mem_handle_op env of None \<Rightarrow> 0 | Some op \<Rightarrow> op i) = 0"
    using assms by (auto split: option.splits)
  moreover obtain eff where "assign_handles env b us n (Suc i) k (a + ?m) (l - ?m) =
      Inr (0, pieces b us n (Suc i) k (a + ?m) (l - ?m), eff)" using Suc.IH by blast
  ultimately show ?case by (simp add: Let_def del: if_image_distrib)
qed simp

lemma max_handle: "unat NVSHMEMI_MAX_HANDLE_LENGTH = 2 ^ 31"
  by (simp add: buf_consts)

lemma ceil_div_bounds:
  fixes l m :: nat
  assumes "0 < l" "0 < m"
  shows "0 < (l + m - 1) div m" "l \<le> (l + m - 1) div m * m" "((l + m - 1) div m - 1) * m < l"
proof -
  let ?q = "(l + m - 1) div m"
  have q: "?q * m + (l + m - 1) mod m = l + m - 1" "(l + m - 1) mod m < m"
    using assms(2) by (simp_all only: div_mult_mod_eq mod_less_divisor)
  show pos: "0 < ?q" using assms by (simp add: div_greater_zero_iff)
  show "l \<le> ?q * m" using q by linarith
  show "(?q - 1) * m < l" using q pos assms by (simp only: diff_mult_distrib)
qed

lemma number_of_handles:
  assumes "region_ok r"
  shows "0 < number_of_handles (rg_len r)" "unat (rg_len r) \<le> number_of_handles (rg_len r) * 2 ^ 31"
    "(number_of_handles (rg_len r) - 1) * 2 ^ 31 < unat (rg_len r)"
proof -
  let ?l = "unat (rg_len r)"
  have l: "0 < ?l" "?l \<le> 2 ^ 63" using assms by (simp_all add: region_ok_def unat_pos_iff)
  have "unat (rg_len r + NVSHMEMI_MAX_HANDLE_LENGTH) = ?l + 2 ^ 31"
    using l max_handle by (subst unat_add_nowrap) simp_all
  then have "unat (rg_len r + NVSHMEMI_MAX_HANDLE_LENGTH - 1) = ?l + 2 ^ 31 - 1"
    by (subst unat_sub_nowrap) simp_all
  then have n: "number_of_handles (rg_len r) = (?l + 2 ^ 31 - 1) div 2 ^ 31"
    by (simp add: number_of_handles_def unat_div_distrib max_handle)
  show "0 < number_of_handles (rg_len r)" "?l \<le> number_of_handles (rg_len r) * 2 ^ 31"
    "(number_of_handles (rg_len r) - 1) * 2 ^ 31 < ?l"
    unfolding n by (rule ceil_div_bounds[OF l(1)]; simp)+
qed

lemma pieces_spec:
  assumes "unat l \<le> k * 2 ^ 31" "(k - 1) * 2 ^ 31 < unat l" "unat a + unat l < 2 ^ 64" "0 < k"
  shows "handles_ok (pieces b us n i k a l) \<and>
    (\<forall>h \<in> set (pieces b us n i k a l). unat a \<le> unat (lb_ptr h) \<and> h_end h \<le> unat a + unat l) \<and>
    (\<forall>x. unat a \<le> unat x \<longrightarrow> unat x < unat a + unat l \<longrightarrow> (\<exists>h \<in> set (pieces b us n i k a l). handle_covers h x))"
  using assms
proof (induction k arbitrary: i a l)
  case (Suc k)
  define m where "m = (if l > NVSHMEMI_MAX_HANDLE_LENGTH then NVSHMEMI_MAX_HANDLE_LENGTH else l)"
  let ?h = "\<lparr>lb_ptr = a, lb_length = m, lb_ref = (b, i), registered_by_us = us,
          linked_with_prev = (i \<noteq> 0), linked_with_next = (i \<noteq> n - 1)\<rparr>"
  let ?r = "pieces b us n (Suc i) k (a + m) (l - m)"
  have p: "pieces b us n i (Suc k) a l = ?h # ?r" by (simp add: m_def Let_def)
  have m: "unat m = min (unat l) (2 ^ 31)"
    using max_handle by (simp add: m_def word_less_nat_alt)
  have l0: "0 < unat l" using Suc.prems(2) by linarith
  have h: "h_end ?h = unat a + unat m" "handle_ok ?h"
    using m l0 Suc.prems(3) by (auto simp: h_end_def handle_ok_def unat_pos_iff[symmetric])
  have am: "unat (a + m) = unat a + unat m" using m Suc.prems(3) by (subst unat_add_nowrap) auto
  have lm: "unat (l - m) = unat l - unat m" using m by (subst unat_sub_nowrap) auto
  have IH: "handles_ok ?r \<and> (\<forall>h \<in> set ?r. unat (a + m) \<le> unat (lb_ptr h) \<and> h_end h \<le> unat (a + m) + unat (l - m)) \<and>
      (\<forall>x. unat (a + m) \<le> unat x \<longrightarrow> unat x < unat (a + m) + unat (l - m) \<longrightarrow> (\<exists>h \<in> set ?r. handle_covers h x))"
  proof (cases k)
    case 0
    then have "unat l - unat m = 0" using Suc.prems(1) m by simp
    then show ?thesis using 0 lm by (simp add: handles_ok_def)
  next
    case (Suc k')
    have "unat (l - m) \<le> k * 2 ^ 31" "(k - 1) * 2 ^ 31 < unat (l - m)" "unat (a + m) + unat (l - m) < 2 ^ 64"
      using Suc.prems m am lm Suc by auto
    then show ?thesis using Suc.IH[where i = "Suc i"] Suc by blast
  qed
  have sum: "unat (a + m) + unat (l - m) = unat a + unat l" using am lm m by simp
  have "handles_ok (?h # ?r)" using IH h am by (auto simp: handles_ok_def)
  moreover have "\<forall>g \<in> set (?h # ?r). unat a \<le> unat (lb_ptr g) \<and> h_end g \<le> unat a + unat l"
    using IH h am sum m by auto
  moreover have "\<exists>g \<in> set (?h # ?r). handle_covers g x" if "unat a \<le> unat x" "unat x < unat a + unat l" for x
  proof (cases "unat x < unat a + unat m")
    case True then show ?thesis using that(1) h by (auto simp: handle_covers_def)
  next
    case False then show ?thesis using IH sum am that(2) by auto
  qed
  ultimately show ?case unfolding p by blast
qed simp_all

lemma chain_spec:
  assumes "region_ok r"
  shows "handles_ok (chain_of r)" "h \<in> set (chain_of r) \<Longrightarrow> unat (rg_addr r) \<le> unat (lb_ptr h) \<and> h_end h \<le> r_end r"
    "region_covers r x \<Longrightarrow> \<exists>h \<in> set (chain_of r). handle_covers h x"
  using pieces_spec[OF number_of_handles(2,3)[OF assms] _ number_of_handles(1)[OF assms], of "rg_addr r"] assms
  unfolding chain_of_def Let_def region_ok_def region_covers_def by blast+

section \<open>The cache as a list of regions\<close>

definition regions_ok :: "region list \<Rightarrow> bool" where
  "regions_ok rs \<longleftrightarrow> sorted_wrt (\<lambda>r s. r_end r \<le> unat (rg_addr s)) rs \<and> (\<forall>r \<in> set rs. region_ok r)"

definition cache_rep :: "local_buf_cache \<Rightarrow> region list \<Rightarrow> bool" where
  "cache_rep c rs \<longleftrightarrow> buffers c = concat (map chain_of rs) \<and> regions_ok rs \<and> array_used c < array_size c"

lemma cache_repD:
  assumes "cache_rep c rs"
  shows "buffers c = concat (map chain_of rs)" "regions_ok rs" "array_used c < array_size c"
  using assms unfolding cache_rep_def by blast+

lemma regions_ok_append:
  "regions_ok (rs @ ss) \<longleftrightarrow>
     regions_ok rs \<and> regions_ok ss \<and> (\<forall>r \<in> set rs. \<forall>s \<in> set ss. r_end r \<le> unat (rg_addr s))"
  by (auto simp: regions_ok_def sorted_wrt_append)

lemma regions_ok_Cons:
  "regions_ok (r # rs) \<longleftrightarrow> region_ok r \<and> regions_ok rs \<and> (\<forall>s \<in> set rs. r_end r \<le> unat (rg_addr s))"
  by (auto simp: regions_ok_def)

lemma chains_ok:
  "regions_ok rs \<Longrightarrow> handles_ok (concat (map chain_of rs))"
proof (induction rs)
  case (Cons r rs)
  then have r: "region_ok r" and rs: "regions_ok rs" and lt: "\<forall>s \<in> set rs. r_end r \<le> unat (rg_addr s)"
    by (simp_all add: regions_ok_Cons)
  have "h_end x \<le> unat (lb_ptr y)" if "x \<in> set (chain_of r)" "s \<in> set rs" "y \<in> set (chain_of s)" for x y s
  proof -
    have "region_ok s" using rs that(2) by (simp add: regions_ok_def)
    then show ?thesis using chain_spec(2)[OF r that(1)] chain_spec(2)[OF _ that(3)] lt that(2) by force
  qed
  then show ?case using Cons.IH[OF rs] chain_spec(1)[OF r] by (auto simp: handles_ok_append)
qed (simp add: handles_ok_def)

lemma handles_cover_regions:
  assumes "regions_ok rs"
  shows "(\<exists>h \<in> set (concat (map chain_of rs)). handle_covers h a) \<longleftrightarrow> (\<exists>r \<in> set rs. region_covers r a)"
proof
  assume "\<exists>h \<in> set (concat (map chain_of rs)). handle_covers h a"
  then obtain r h where r: "r \<in> set rs" "h \<in> set (chain_of r)" "handle_covers h a" by auto
  then have "region_ok r" using assms by (simp add: regions_ok_def)
  then have "region_covers r a" using chain_spec(2)[of r h] r(2,3) by (auto simp: region_covers_def handle_covers_def)
  then show "\<exists>r \<in> set rs. region_covers r a" using r(1) by blast
next
  assume "\<exists>r \<in> set rs. region_covers r a"
  then obtain r where r: "r \<in> set rs" "region_covers r a" by blast
  then have "region_ok r" using assms by (simp add: regions_ok_def)
  then show "\<exists>h \<in> set (concat (map chain_of rs)). handle_covers h a" using chain_spec(3) r by fastforce
qed

lemma lookup_spec:
  assumes "cache_rep c rs"
  shows "lookup_result (buffers c) a len (nvshmemi_get_registered_buffer_handle 0 c a len)"
proof (cases "buffers c = []")
  case True
  then show ?thesis by (simp add: nvshmemi_get_registered_buffer_handle_def lookup_result_def)
next
  case False
  have "handles_ok (buffers c)" using assms chains_ok by (simp add: cache_rep_def)
  then show ?thesis using False buf_search_correct[of "buffers c" 0 a "array_used c"]
    by (simp add: nvshmemi_get_registered_buffer_handle_def)
qed

subsection \<open>Insertion\<close>

lemma find_slot_skip:
  assumes "\<And>h. h \<in> set xs \<Longrightarrow> handle_ok h \<and> h_end h \<le> unat a"
  shows "find_slot a (xs @ ys) = map_option ((+) (length xs)) (find_slot a ys)"
  using assms
proof (induction xs)
  case (Cons h xs)
  then have "handle_ok h" "h_end h \<le> unat a" by simp_all
  then have "lb_ptr h < a" "\<not> a < lb_ptr h + lb_length h" using handle_tests(1,2)[of h a] handle_tests(3)[of h] by simp_all
  then show ?case using Cons by (cases "find_slot a ys") simp_all
qed (cases "find_slot a ys"; simp)

lemma find_slot_here:
  "(\<And>h. h \<in> set ys \<Longrightarrow> unat a < unat (lb_ptr h)) \<Longrightarrow> find_slot a ys = Some 0"
  by (cases ys) (force simp: word_less_nat_alt)+

lemma find_slot_inside:
  assumes "handles_ok hs" "h \<in> set hs" "handle_covers h a"
  shows "find_slot a hs = None"
  using assms
proof (induction hs)
  case (Cons g hs)
  then have g: "handle_ok g" by (simp add: handles_ok_def)
  show ?case
  proof (cases "h = g")
    case True
    then have "lb_ptr g \<le> a" "a < lb_ptr g + lb_length g"
      using Cons.prems(3) handle_tests(1)[OF g, of a] by (simp_all add: handle_covers_def word_le_nat_alt)
    then show ?thesis by (auto simp: le_less)
  next
    case False
    then have h: "h \<in> set hs" using Cons.prems(2) by simp
    then have "h_end g \<le> unat (lb_ptr h)" using Cons.prems(1) by (simp add: handles_ok_def)
    then have "h_end g \<le> unat a" using Cons.prems(3) by (simp add: handle_covers_def)
    then have "lb_ptr g < a" "\<not> a < lb_ptr g + lb_length g" using handle_tests(1,2)[OF g, of a] handle_tests(3)[OF g] by simp_all
    moreover have "find_slot a hs = None" using Cons h by (simp add: handles_ok_def)
    ultimately show ?thesis by simp
  qed
qed simp

text \<open>The regions below an address, and the ones from it on.\<close>

definition regions_below :: "u64 \<Rightarrow> region list \<Rightarrow> region list" where
  "regions_below a rs = takeWhile (\<lambda>r. rg_addr r < a) rs"

definition regions_from :: "u64 \<Rightarrow> region list \<Rightarrow> region list" where
  "regions_from a rs = dropWhile (\<lambda>r. rg_addr r < a) rs"

definition insert_region :: "region \<Rightarrow> region list \<Rightarrow> region list" where
  "insert_region r rs = regions_below (rg_addr r) rs @ r # regions_from (rg_addr r) rs"

lemma regions_split: "regions_below a rs @ regions_from a rs = rs"
  by (simp add: regions_below_def regions_from_def)

lemma regions_from_ge:
  assumes "regions_ok rs" "r \<in> set (regions_from a rs)"
  shows "a \<le> rg_addr r"
proof -
  have ok: "regions_ok (regions_from a rs)" using assms(1) regions_ok_append[of "regions_below a rs" "regions_from a rs"] by (simp add: regions_split)
  obtain s ss where s: "regions_from a rs = s # ss" using assms(2) by (cases "regions_from a rs") auto
  then have "\<not> rg_addr s < a" unfolding regions_from_def using hd_dropWhile[of "\<lambda>r. rg_addr r < a" rs] by (metis list.distinct(1) list.sel(1))
  moreover have "unat (rg_addr s) \<le> unat (rg_addr r)" using ok assms(2) unfolding s regions_ok_Cons by force
  ultimately show ?thesis by (simp add: word_le_nat_alt not_less)
qed

text \<open>An address outside all regions lies past the ones below it and before the others.\<close>

lemma gap:
  assumes "regions_ok rs" "\<forall>r \<in> set rs. \<not> region_covers r a"
  shows "r \<in> set (regions_below a rs) \<Longrightarrow> r_end r \<le> unat a" "r \<in> set (regions_from a rs) \<Longrightarrow> unat a < unat (rg_addr r)"
proof -
  have sub: "set (regions_below a rs) \<subseteq> set rs" "set (regions_from a rs) \<subseteq> set rs"
    using regions_split[of a rs] by (metis set_append Un_upper1, metis set_append Un_upper2)
  { assume r: "r \<in> set (regions_below a rs)"
    then have "rg_addr r < a" unfolding regions_below_def by (metis set_takeWhileD)
    then show "r_end r \<le> unat a" using assms(2) r sub by (force simp: region_covers_def word_less_nat_alt) }
  { assume r: "r \<in> set (regions_from a rs)"
    then have "a \<le> rg_addr r" "region_ok r" using regions_from_ge[OF assms(1)] assms(1) sub by (auto simp: regions_ok_def)
    then show "unat a < unat (rg_addr r)" using assms(2) r sub
      by (force simp: region_covers_def word_le_nat_alt region_ok_def unat_pos_iff[symmetric]) }
qed

lemma find_slot_gap:
  assumes "regions_ok rs" "\<forall>r \<in> set rs. \<not> region_covers r a"
  shows "find_slot a (concat (map chain_of rs)) = Some (length (concat (map chain_of (regions_below a rs))))"
proof -
  have ok: "regions_ok (regions_below a rs)" "regions_ok (regions_from a rs)"
    using assms(1) regions_ok_append[of "regions_below a rs" "regions_from a rs"] by (simp_all add: regions_split)
  have "handle_ok h \<and> h_end h \<le> unat a" if "h \<in> set (concat (map chain_of (regions_below a rs)))" for h
  proof -
    obtain r where r: "r \<in> set (regions_below a rs)" "h \<in> set (chain_of r)" using \<open>h \<in> _\<close> by auto
    then have "region_ok r" using ok(1) by (simp add: regions_ok_def)
    then show ?thesis using chain_spec(1,2) r gap(1)[OF assms r(1)] by (force simp: handles_ok_def)
  qed
  moreover have "unat a < unat (lb_ptr h)" if "h \<in> set (concat (map chain_of (regions_from a rs)))" for h
  proof -
    obtain r where r: "r \<in> set (regions_from a rs)" "h \<in> set (chain_of r)" using \<open>h \<in> _\<close> by auto
    then have "region_ok r" using ok(2) by (simp add: regions_ok_def)
    then show ?thesis using chain_spec(2)[OF _ r(2)] gap(2)[OF assms r(1)] by force
  qed
  ultimately have "find_slot a (concat (map chain_of (regions_below a rs)) @ concat (map chain_of (regions_from a rs))) =
      Some (length (concat (map chain_of (regions_below a rs))))"
    by (simp only: find_slot_skip find_slot_here option.map add_0_right)
  then show ?thesis by (simp only: concat_append[symmetric] map_append[symmetric] regions_split)
qed

lemma insert_region_ok:
  assumes "regions_ok rs" "region_ok r" "\<forall>s \<in> set rs. \<not> region_covers s (rg_addr r)"
    and "\<forall>s \<in> set rs. rg_addr r < rg_addr s \<longrightarrow> r_end r \<le> unat (rg_addr s)"
  shows "regions_ok (insert_region r rs)"
proof -
  have ok: "regions_ok (regions_below (rg_addr r) rs)" "regions_ok (regions_from (rg_addr r) rs)"
    "\<forall>x \<in> set (regions_below (rg_addr r) rs). \<forall>y \<in> set (regions_from (rg_addr r) rs). r_end x \<le> unat (rg_addr y)"
    using assms(1) regions_ok_append[of "regions_below (rg_addr r) rs" "regions_from (rg_addr r) rs"] by (simp_all add: regions_split)
  have "r_end r \<le> unat (rg_addr s)" if "s \<in> set (regions_from (rg_addr r) rs)" for s
  proof -
    have "s \<in> set rs" using that regions_split[of "rg_addr r" rs] by (metis Un_iff set_append)
    then show ?thesis using gap(2)[OF assms(1,3) that] assms(4) by (simp add: word_less_nat_alt)
  qed
  then show ?thesis unfolding insert_region_def regions_ok_append regions_ok_Cons
    using ok gap(1)[OF assms(1,3)] assms(2) by force
qed

lemma insert_region_chain:
  "concat (map chain_of (insert_region r rs)) =
     take (length (concat (map chain_of (regions_below (rg_addr r) rs)))) (concat (map chain_of rs)) @ chain_of r @
     drop (length (concat (map chain_of (regions_below (rg_addr r) rs)))) (concat (map chain_of rs))"
proof -
  let ?b = "concat (map chain_of (regions_below (rg_addr r) rs))" and ?f = "concat (map chain_of (regions_from (rg_addr r) rs))"
  have "concat (map chain_of rs) = ?b @ ?f" by (metis concat_append map_append regions_split)
  then show ?thesis by (simp add: insert_region_def)
qed

lemma pieces_length [simp]: "length (pieces b us n i k a l) = k"
  by (induction k arbitrary: i a l) (simp_all add: Let_def)

lemma pieces_block: "h \<in> set (pieces b us n i k a l) \<Longrightarrow> fst (lb_ref h) = b"
  by (induction k arbitrary: i a l) (auto simp: Let_def)

lemma chain_length: "length (chain_of r) = number_of_handles (rg_len r)"
  by (simp add: chain_of_def Let_def)

lemma grow_spec:
  assumes "array_used c < array_size c" "grow_cache env n c = Inr (Some c')"
  shows "buffers c' = buffers c \<and> array_used c + n < array_size c' \<and> array_size c \<le> array_size c'"
  using assms by (auto simp: grow_cache_def Let_def split: if_splits)

subsection \<open>Removal\<close>

lemma chain_not_empty: "region_ok r \<Longrightarrow> chain_of r \<noteq> []"
  using number_of_handles(1)[of r] chain_length[of r] by auto

lemma pieces_head: "k \<noteq> 0 \<Longrightarrow> lb_ptr (hd (pieces b us n i k a l)) = a" "k \<noteq> 0 \<Longrightarrow> lb_ref (hd (pieces b us n i k a l)) = (b, i)"
  by (cases k; simp add: Let_def)+

lemma chain_head:
  assumes "region_ok r"
  shows "lb_ptr (hd (chain_of r)) = rg_addr r" "lb_ref (hd (chain_of r)) = (rg_block r, 0)"
  using number_of_handles(1)[OF assms] by (simp_all add: chain_of_def Let_def pieces_head)

text \<open>The calls for a whole chain, head to tail.\<close>

definition release_calls :: "buf_env \<Rightarrow> region \<Rightarrow> buf_effect list" where
  "release_calls env r = concat (map (release_handle env) (chain_of r)) @ [Free_Handle_Array (rg_block r, 0)]"

lemma release_pieces:
  assumes "us \<longrightarrow> host_unregister_ok env" "0 < k" "i + k = n"
  shows "release_chain env (pieces b us n i k a l @ rest) =
    Inr (k, concat (map (release_handle env) (pieces b us n i k a l)))"
  using assms(2,3)
proof (induction k arbitrary: i a l)
  case (Suc k)
  show ?case
  proof (cases k)
    case 0
    then show ?thesis using assms(1) Suc.prems by (auto simp: Let_def)
  next
    case (Suc k')
    then have "i \<noteq> n - 1" using Suc.prems by auto
    then show ?thesis using Suc.IH[of "Suc i"] Suc Suc.prems assms(1) by (simp add: Let_def)
  qed
qed simp

lemma release_chain_of:
  assumes "rg_us r \<longrightarrow> host_unregister_ok env" "region_ok r"
  shows "release_chain env (chain_of r @ rest) = Inr (length (chain_of r), concat (map (release_handle env) (chain_of r)))"
  using release_pieces[OF assms(1), of "number_of_handles (rg_len r)" 0] number_of_handles(1)[OF assms(2)]
  unfolding chain_length by (simp add: chain_of_def Let_def)

lemma release_chain_exit:
  assumes "rg_us r" "\<not> host_unregister_ok env" "region_ok r"
  shows "release_chain env (chain_of r @ rest) = Inl Cuda_Check_Failed"
proof -
  obtain k where "number_of_handles (rg_len r) = Suc k" using number_of_handles(1)[OF assms(3)] gr0_conv_Suc by blast
  then show ?thesis using assms(1,2) by (simp add: chain_of_def Let_def)
qed

lemma find_buf_skip:
  "(\<And>h. h \<in> set xs \<Longrightarrow> lb_ptr h < a) \<Longrightarrow> find_buf a (xs @ ys) = map_option ((+) (length xs)) (find_buf a ys)"
  by (induction xs; cases "find_buf a ys") simp_all

lemma find_buf_head:
  assumes "regions_ok (rs @ r # ss)"
  shows "find_buf (rg_addr r) (concat (map chain_of (rs @ r # ss))) = Some (length (concat (map chain_of rs)))"
proof -
  have r: "region_ok r" and rs: "regions_ok rs" and lt: "\<forall>q \<in> set rs. r_end q \<le> unat (rg_addr r)"
    using assms by (auto simp: regions_ok_append regions_ok_Cons)
  have "lb_ptr h < rg_addr r" if "h \<in> set (concat (map chain_of rs))" for h
  proof -
    obtain q where q: "q \<in> set rs" "h \<in> set (chain_of q)" using \<open>h \<in> _\<close> by auto
    then have "region_ok q" using rs by (simp add: regions_ok_def)
    then have "handle_ok h" "h_end h \<le> r_end q" using chain_spec(1,2) q(2) by (auto simp: handles_ok_def)
    then show ?thesis using handle_tests(3) lt q(1) by (fastforce simp: word_less_nat_alt)
  qed
  moreover have "find_buf (rg_addr r) (chain_of r @ xs) = Some 0" for xs
    using chain_not_empty[OF r] chain_head(1)[OF r] by (cases "chain_of r") auto
  ultimately show ?thesis unfolding map_append list.map concat_append concat.simps by (subst find_buf_skip) auto
qed

lemma find_buf_None:
  assumes "\<And>h. h \<in> set hs \<Longrightarrow> lb_ptr h \<noteq> a"
  shows "find_buf a hs = None"
  using assms by (induction hs) auto

end
