(* ===== verification/Buf_Cache_Props.thy ===== *)
theory Buf_Cache_Props
  imports Buf_Cache_Regions
begin

text \<open>
  What registration promises: the interface \<open>buffer_registry\<close> with its client lemmas, its interpretation
  on the cache, and the properties of each operation, error paths included.
\<close>

section \<open>The operations on regions\<close>

text \<open>A region that may be added: it starts outside all regions and does not reach into the next one.\<close>

definition fresh_region :: "region \<Rightarrow> region list \<Rightarrow> bool" where
  "fresh_region r rs \<longleftrightarrow> region_ok r \<and> (\<forall>s \<in> set rs. \<not> region_covers s (rg_addr r)) \<and>
     (\<forall>s \<in> set rs. rg_addr r < rg_addr s \<longrightarrow> r_end r \<le> unat (rg_addr s))"

text \<open>The environment hands out the region's block, and CUDA knows the buffer or is asked to register it.\<close>

definition env_for :: "buf_env \<Rightarrow> region \<Rightarrow> bool" where
  "env_for env r \<longleftrightarrow> calloc_array env = Some (rg_block r) \<and>
     (\<exists>ty. ptr_attributes env = Some ty \<and> ty \<noteq> cudaMemoryTypeManaged \<and> rg_us r = (ty = cudaMemoryTypeUnregistered))"

definition env_good :: "buf_env \<Rightarrow> bool" where
  "env_good env \<longleftrightarrow> (\<forall>i. calloc_handle env i) \<and> lock_status env = 0 \<and> host_memory_registration_supported env \<and>
     host_register_ok env \<and> host_unregister_ok env \<and> realloc_ok env \<and>
     (\<forall>op i. get_mem_handle_op env = Some op \<longrightarrow> op i = 0) \<and> update_device_state_status env = 0"

lemma register_locked_ok:
  assumes "cache_rep c rs" "fresh_region r rs"
    and "buffer_register_locked env (rg_block r) (number_of_handles (rg_len r)) (rg_us r) c (rg_addr r) (rg_len r) = Inr (0, c', eff)"
  shows "cache_rep c' (insert_region r rs)"
proof -
  let ?n = "number_of_handles (rg_len r)"
  have rs: "buffers c = concat (map chain_of rs)" "regions_ok rs" "array_used c < array_size c"
    by (rule cache_repD[OF assms(1)])+
  have fr: "region_ok r" "\<forall>s \<in> set rs. \<not> region_covers s (rg_addr r)"
    "\<forall>s \<in> set rs. rg_addr r < rg_addr s \<longrightarrow> r_end r \<le> unat (rg_addr s)"
    using assms(2) by (simp_all add: fresh_region_def)
  have err: "out_error_unlocked e b n u a st k f \<noteq> Inr (0, c', eff)" if "st \<noteq> 0" for e b n u a st k f
    using that by (simp add: out_error_unlocked_def)
  obtain c1 where g: "grow_cache env ?n c = Inr (Some c1)"
    using assms(3) err by (auto simp: buffer_register_locked_def Let_def status_defs split: sum.splits option.splits)
  note G = grow_spec[OF rs(3) g]
  have sl: "find_slot (rg_addr r) (buffers c1) = Some (length (concat (map chain_of (regions_below (rg_addr r) rs))))"
    using find_slot_gap[OF rs(2) fr(2)] G rs(1) by simp
  obtain hs effs where h: "assign_handles env (rg_block r) (rg_us r) ?n 0 ?n (rg_addr r) (rg_len r) = Inr (0, hs, effs)"
    and c': "buffers c' = concat (map chain_of (insert_region r rs))" "array_size c' = array_size c1"
  proof -
    from assms(3) g sl obtain hs effs where
      h: "assign_handles env (rg_block r) (rg_us r) ?n 0 ?n (rg_addr r) (rg_len r) = Inr (0, hs, effs)"
      and "c' = c1\<lparr>buffers := take (length (concat (map chain_of (regions_below (rg_addr r) rs)))) (buffers c1) @ hs @
        drop (length (concat (map chain_of (regions_below (rg_addr r) rs)))) (buffers c1)\<rparr>"
      using err by (auto simp: buffer_register_locked_def Let_def status_defs split: sum.splits prod.splits if_splits)
    moreover have "hs = chain_of r" using assign_pieces[OF h] by (simp add: chain_of_def Let_def)
    ultimately show ?thesis using that h insert_region_chain[of r rs] G rs(1) by simp
  qed
  have "array_used c' = array_used c + ?n"
    unfolding c'(1) rs(1) insert_region_chain by (simp add: chain_length del: length_concat)
  then show ?thesis using c' insert_region_ok[OF rs(2) fr] G by (simp add: cache_rep_def)
qed

lemma register_inner:
  assumes "buffer_register env c (rg_addr r) (rg_len r) = Inr (0, c', eff)" "env_for env r"
  shows "buffer_register_locked env (rg_block r) (number_of_handles (rg_len r)) (rg_us r) c (rg_addr r) (rg_len r) = Inr (0, c', eff)"
  using assms by (auto simp: buffer_register_def env_for_def Let_def status_defs out_error_unlocked_def
      split: option.splits if_splits)

lemma grow_total:
  assumes "realloc_ok env" "array_size c < 2 ^ 57" "n \<le> 2 ^ 33"
  shows "\<exists>c1. grow_cache env n c = Inr (Some c1)"
proof -
  have "(if n > array_size c then array_size c + n else array_size c * 2) < 2 ^ 59 - 1" using assms(2,3) by simp
  then show ?thesis using assms(1) unfolding grow_cache_def Let_def by auto
qed

lemma register_runs:
  assumes "env_good (env\<lparr>update_device_state_status := 0\<rparr>)" "env_for env r" "cache_rep c rs" "region_ok r"
    and "\<forall>s \<in> set rs. \<not> region_covers s (rg_addr r)"
    and "\<not> (env_heap_base env \<le> rg_addr r \<and> rg_addr r < env_heap_base env + env_heap_size env)"
    and "array_size c < 2 ^ 57"
  shows "\<exists>c' eff. buffers c' = concat (map chain_of (insert_region r rs)) \<and>
    buffer_register env c (rg_addr r) (rg_len r) =
      (if update_device_state_status env = 0 then Inr (0, c', eff)
       else out_error_unlocked env (rg_block r) (number_of_handles (rg_len r)) (rg_us r) (rg_addr r) NVSHMEMX_ERROR_INTERNAL c' eff)"
proof -
  let ?n = "number_of_handles (rg_len r)" and ?i = "length (concat (map chain_of (regions_below (rg_addr r) rs)))"
  have good: "\<forall>i. calloc_handle env i" "lock_status env = 0" "host_memory_registration_supported env"
    "host_register_ok env" "realloc_ok env" "\<And>op i. get_mem_handle_op env = Some op \<Longrightarrow> op i = 0"
    using assms(1) by (simp_all add: env_good_def)
  have n: "0 < ?n" "?n \<le> 2 ^ 33"
  proof -
    show "0 < ?n" by (rule number_of_handles(1)[OF assms(4)])
    have "(?n - 1) * 2 ^ 31 < 2 ^ 63" using number_of_handles(3)[OF assms(4)] assms(4) by (simp add: region_ok_def)
    then show "?n \<le> 2 ^ 33" by simp
  qed
  obtain c1 where g: "grow_cache env ?n c = Inr (Some c1)"
    using grow_total[OF good(5) assms(7) n(2)] by blast
  note rs = cache_repD[OF assms(3)]
  note G = grow_spec[OF rs(3) g]
  have sl: "find_slot (rg_addr r) (buffers c1) = Some ?i"
    using find_slot_gap[OF rs(2) assms(5)] G rs(1) by simp
  have "?i \<le> array_used c"
    unfolding rs(1) using regions_split[of "rg_addr r" rs] by (metis concat_append length_append le_add1 map_append)
  then have sel: "?i < array_size c1" using G by linarith
  obtain effs where "assign_handles env (rg_block r) (rg_us r) ?n 0 ?n (rg_addr r) (rg_len r) = Inr (0, chain_of r, effs)"
    using assign_total[of env] good(6) unfolding chain_of_def Let_def by blast
  then have "buffer_register_locked env (rg_block r) ?n (rg_us r) c (rg_addr r) (rg_len r) =
      (let c' = c1\<lparr>buffers := take ?i (buffers c1) @ chain_of r @ drop ?i (buffers c1)\<rparr>;
           eff = (if rg_us r then [Cuda_Host_Register (rg_addr r) (rg_len r)] else []) @ effs
       in if update_device_state_status env = 0 then Inr (0, c', eff)
          else out_error_unlocked env (rg_block r) ?n (rg_us r) (rg_addr r) NVSHMEMX_ERROR_INTERNAL c' eff)"
    using g sl sel by (simp add: buffer_register_locked_def Let_def del: length_concat)
  moreover have "buffer_register env c (rg_addr r) (rg_len r) =
      buffer_register_locked env (rg_block r) ?n (rg_us r) c (rg_addr r) (rg_len r)"
    using assms(2,4,6) n good by (auto simp: buffer_register_def env_for_def region_ok_def Let_def list_ex_iff)
  moreover have "take ?i (buffers c1) @ chain_of r @ drop ?i (buffers c1) = concat (map chain_of (insert_region r rs))"
    unfolding insert_region_chain using G rs(1) by simp
  ultimately show ?thesis
    by (intro exI[of _ "c1\<lparr>buffers := take ?i (buffers c1) @ chain_of r @ drop ?i (buffers c1)\<rparr>"]
        exI[of _ "(if rg_us r then [Cuda_Host_Register (rg_addr r) (rg_len r)] else []) @ effs"]) (simp add: Let_def)
qed

lemma register_success:
  assumes "env_good env" "env_for env r" "cache_rep c rs" "fresh_region r rs"
    and "\<not> (env_heap_base env \<le> rg_addr r \<and> rg_addr r < env_heap_base env + env_heap_size env)"
    and "array_size c < 2 ^ 57"
  shows "\<exists>c' eff. buffer_register env c (rg_addr r) (rg_len r) = Inr (0, c', eff)"
proof -
  have "env_good (env\<lparr>update_device_state_status := 0\<rparr>)" "update_device_state_status env = 0"
    using assms(1) by (simp_all add: env_good_def)
  then show ?thesis using register_runs[OF _ assms(2,3) _ _ assms(5,6)] assms(4) unfolding fresh_region_def by metis
qed

lemma unregister_rep:
  assumes "cache_rep c (rs @ r # ss)" "lock_status env = 0" "rg_us r \<longrightarrow> host_unregister_ok env"
  shows "\<exists>c'. buffer_unregister env c (rg_addr r) =
      Inr (if update_device_state_status env \<noteq> 0 then NVSHMEMX_ERROR_INTERNAL else 0, c', release_calls env r) \<and>
    cache_rep c' (rs @ ss) \<and> array_size c' = array_size c"
proof -
  let ?i = "length (concat (map chain_of rs))"
  have c: "buffers c = concat (map chain_of rs) @ chain_of r @ concat (map chain_of ss)"
    "regions_ok (rs @ r # ss)" "array_used c < array_size c" using cache_repD[OF assms(1)] by simp_all
  have r: "region_ok r" using c(2) by (simp add: regions_ok_append regions_ok_Cons)
  have f: "find_buf (rg_addr r) (buffers c) = Some ?i" using find_buf_head[OF c(2)] c(1) by simp
  have d: "drop ?i (buffers c) = chain_of r @ concat (map chain_of ss)" using c(1) by simp
  have t: "take ?i (buffers c) @ drop (?i + length (chain_of r)) (buffers c) = concat (map chain_of (rs @ ss))"
    using c(1) by (simp del: length_concat)
  have "buffers c ! ?i = hd (chain_of r)"
    using c(1) chain_not_empty[OF r] by (simp add: nth_append hd_conv_nth del: length_concat)
  then have h: "lb_ref (buffers c ! ?i) = (rg_block r, 0)" using chain_head(2)[OF r] by simp
  have "length (concat (map chain_of (rs @ ss))) \<le> array_used c" using c(1) by (simp del: length_concat)
  then have "cache_rep (c\<lparr>buffers := concat (map chain_of (rs @ ss))\<rparr>) (rs @ ss)"
    using c(2,3) by (simp add: cache_rep_def regions_ok_append regions_ok_Cons del: length_concat)
  moreover have rc: "release_chain env (drop ?i (buffers c)) =
      Inr (length (chain_of r), concat (map (release_handle env) (chain_of r)))"
    unfolding d by (rule release_chain_of[OF assms(3) r])
  have "buffer_unregister env c (rg_addr r) =
      Inr (if update_device_state_status env \<noteq> 0 then NVSHMEMX_ERROR_INTERNAL else 0,
        c\<lparr>buffers := concat (map chain_of (rs @ ss))\<rparr>, release_calls env r)"
    unfolding buffer_unregister_def f rc option.case sum.case prod.case t h release_calls_def using assms(2) by simp
  ultimately show ?thesis by auto
qed

lemma unregister_exit:
  assumes "cache_rep c (rs @ r # ss)" "lock_status env = 0" "rg_us r" "\<not> host_unregister_ok env"
  shows "buffer_unregister env c (rg_addr r) = Inl Cuda_Check_Failed"
proof -
  note C = cache_repD[OF assms(1)]
  have r: "region_ok r" using C(2) by (simp add: regions_ok_append regions_ok_Cons)
  show ?thesis unfolding buffer_unregister_def C(1) find_buf_head[OF C(2)]
    using release_chain_exit[OF assms(3,4) r] assms(2) by (simp del: length_concat)
qed

section \<open>The interface\<close>

locale buffer_registry =
  fixes rep :: "'s \<Rightarrow> region list \<Rightarrow> bool"
    and register :: "region \<Rightarrow> 's \<Rightarrow> 's option"
    and unregister :: "u64 \<Rightarrow> 's \<Rightarrow> 's option"
    and find :: "'s \<Rightarrow> u64 \<Rightarrow> u64 \<Rightarrow> handle_ref option \<times> u64"
  assumes rep_regions: "rep s rs \<Longrightarrow> regions_ok rs"
    and register_adds: "rep s rs \<Longrightarrow> fresh_region r rs \<Longrightarrow> register r s = Some s' \<Longrightarrow> rep s' (insert_region r rs)"
    and unregister_removes: "rep s (rs @ r # ss) \<Longrightarrow> unregister (rg_addr r) s = Some s' \<Longrightarrow> rep s' (rs @ ss)"
    and find_inside: "rep s rs \<Longrightarrow> r \<in> set rs \<Longrightarrow> region_covers r a \<Longrightarrow>
      \<exists>i l. find s a len = (Some (rg_block r, i), l) \<and> l \<le> len \<and> unat a + unat l \<le> r_end r \<and> (0 < len \<longrightarrow> 0 < l)"
    and find_outside: "rep s rs \<Longrightarrow> \<forall>r \<in> set rs. \<not> region_covers r a \<Longrightarrow> find s a len = (None, len)"
begin

lemma found_after_register:
  assumes "rep s rs" "fresh_region r rs" "register r s = Some s'" "region_covers r a"
  shows "\<exists>i l. find s' a len = (Some (rg_block r, i), l) \<and> l \<le> len \<and> unat a + unat l \<le> r_end r \<and> (0 < len \<longrightarrow> 0 < l)"
  using find_inside[OF register_adds[OF assms(1-3)] _ assms(4)] by (simp add: insert_region_def)

lemma register_unregister:
  assumes "rep s rs" "fresh_region r rs" "register r s = Some s'" "unregister (rg_addr r) s' = Some s''"
  shows "rep s'' rs"
  using unregister_removes[of s' "regions_below (rg_addr r) rs" r "regions_from (rg_addr r) rs", OF _ assms(4)]
    register_adds[OF assms(1-3)] by (simp add: insert_region_def regions_split)

lemma lost_after_unregister:
  assumes "rep s (rs @ r # ss)" "unregister (rg_addr r) s = Some s'" "region_covers r a"
  shows "find s' a len = (None, len)"
proof (rule find_outside[OF unregister_removes[OF assms(1,2)]], rule ballI)
  fix q assume q: "q \<in> set (rs @ ss)"
  have ok: "regions_ok (rs @ r # ss)" by (rule rep_regions[OF assms(1)])
  have "r_end q \<le> unat (rg_addr r) \<or> r_end r \<le> unat (rg_addr q)"
    using ok q by (auto simp: regions_ok_append regions_ok_Cons)
  then show "\<not> region_covers q a" using assms(3) by (auto simp: region_covers_def)
qed

end

text \<open>The cache's own operations, with a success as the new state.\<close>

definition cache_register :: "buf_env \<Rightarrow> region \<Rightarrow> local_buf_cache \<Rightarrow> local_buf_cache option" where
  "cache_register env r c =
     (case buffer_register (env\<lparr>calloc_array := Some (rg_block r),
             ptr_attributes := Some (if rg_us r then cudaMemoryTypeUnregistered else cudaMemoryTypeDevice)\<rparr>)
             c (rg_addr r) (rg_len r) of
        Inr (status, c', _) \<Rightarrow> if status = 0 then Some c' else None | Inl _ \<Rightarrow> None)"

definition cache_unregister :: "buf_env \<Rightarrow> u64 \<Rightarrow> local_buf_cache \<Rightarrow> local_buf_cache option" where
  "cache_unregister env a c =
     (case buffer_unregister env c a of Inr (status, c', _) \<Rightarrow> if status = 0 then Some c' else None | Inl _ \<Rightarrow> None)"

lemma find_region:
  assumes "cache_rep c rs" "r \<in> set rs" "region_covers r a"
  shows "\<exists>i l. nvshmemi_get_registered_buffer_handle 0 c a len = (Some (rg_block r, i), l) \<and> l \<le> len \<and>
    unat a + unat l \<le> r_end r \<and> (0 < len \<longrightarrow> 0 < l)"
proof -
  note C = cache_repD[OF assms(1)]
  have "\<exists>h \<in> set (buffers c). handle_covers h a"
    unfolding C(1) handles_cover_regions[OF C(2)] using assms(2,3) by blast
  with lookup_spec[OF assms(1), of a len] obtain h where h: "h \<in> set (buffers c)" "handle_covers h a"
    and res: "nvshmemi_get_registered_buffer_handle 0 c a len = (Some (lb_ref h), min len (lb_ptr h + lb_length h - a))"
    unfolding lookup_result_def by blast
  have hk: "handle_ok h" using h(1) chains_ok[OF C(2)] unfolding C(1) handles_ok_def by blast
  obtain q where q: "q \<in> set rs" "h \<in> set (chain_of q)" using h(1) C(1) by auto
  have qok: "region_ok q" "region_ok r" using C(2) q(1) assms(2) by (simp_all add: regions_ok_def)
  have cq: "region_covers q a" using chain_spec(2)[OF qok(1) q(2)] h(2) by (auto simp: region_covers_def handle_covers_def)
  have "q = r"
  proof (rule ccontr)
    assume "q \<noteq> r"
    then obtain i j where "i < length rs" "j < length rs" "i \<noteq> j" "rs ! i = q" "rs ! j = r"
      using q(1) assms(2) by (metis in_set_conv_nth)
    then have "r_end q \<le> unat (rg_addr r) \<or> r_end r \<le> unat (rg_addr q)"
      using C(2) sorted_wrt_nth_less unfolding regions_ok_def by (metis (no_types, lifting) linorder_neqE_nat)
    then show False using cq assms(3) by (auto simp: region_covers_def)
  qed
  moreover have "fst (lb_ref h) = rg_block q"
    using q(2) unfolding chain_of_def Let_def by (rule pieces_block)
  moreover have "unat (lb_ptr h + lb_length h - a) = h_end h - unat a"
    using handle_end[OF hk] h(2) by (subst unat_sub_nowrap) (simp_all add: handle_covers_def)
  ultimately show ?thesis using res h(2) chain_spec(2)[OF qok(1) q(2)]
    by (cases "lb_ref h") (auto simp: min_def word_le_nat_alt word_less_nat_alt handle_covers_def)
qed

lemma find_no_region:
  assumes "cache_rep c rs" "\<forall>r \<in> set rs. \<not> region_covers r a"
  shows "nvshmemi_get_registered_buffer_handle 0 c a len = (None, len)"
proof -
  note C = cache_repD[OF assms(1)]
  have "\<not> (\<exists>h \<in> set (buffers c). handle_covers h a)"
    unfolding C(1) handles_cover_regions[OF C(2)] using assms(2) by blast
  then show ?thesis using lookup_spec[OF assms(1), of a len] unfolding lookup_result_def by blast
qed

interpretation buf_cache: buffer_registry cache_rep "cache_register env" "cache_unregister env"
  "nvshmemi_get_registered_buffer_handle 0" for env
proof (unfold_locales, goal_cases)
  case (1 s rs) then show ?case by (rule cache_repD)
next
  case (2 s rs r s')
  let ?e = "env\<lparr>calloc_array := Some (rg_block r),
    ptr_attributes := Some (if rg_us r then cudaMemoryTypeUnregistered else cudaMemoryTypeDevice)\<rparr>"
  obtain eff where "buffer_register ?e s (rg_addr r) (rg_len r) = Inr (0, s', eff)"
    using 2(3) by (auto simp: cache_register_def split: sum.splits prod.splits if_splits)
  moreover have "env_for ?e r" by (simp add: env_for_def)
  ultimately show ?case using register_locked_ok[OF 2(1,2)] register_inner by blast
next
  case (3 s rs r ss s')
  have l: "lock_status env = 0"
    using 3(2) by (auto simp: cache_unregister_def buffer_unregister_def status_defs split: if_splits)
  have "host_unregister_ok env" if "rg_us r"
    using 3(2) unregister_exit[OF 3(1) l that] by (cases "host_unregister_ok env") (auto simp: cache_unregister_def)
  with unregister_rep[OF 3(1) l] 3(2) show ?case
    by (auto simp: cache_unregister_def status_defs split: if_splits)
next
  case 4 then show ?case by (rule find_region)
next
  case 5 then show ?case by (rule find_no_region)
qed

section \<open>What a removal has to call\<close>

text \<open>The number of handles a region of this length takes.\<close>

definition handles_needed :: "region \<Rightarrow> nat" where
  "handles_needed r = (unat (rg_len r) + 2 ^ 31 - 1) div 2 ^ 31"

text \<open>
  How often each call has to be made for one region: \<open>has_op\<close> says whether the transport has a \<open>release_mem_handle\<close>. Without
  one, the code leaves the handles as they are.
\<close>

fun calls_due :: "bool \<Rightarrow> region \<Rightarrow> buf_effect \<Rightarrow> nat" where
  "calls_due has_op r (Release_Mem_Handle (b, i)) = of_bool (has_op \<and> b = rg_block r \<and> i < handles_needed r)"
| "calls_due has_op r (Free_Mem_Handle (b, i)) = of_bool (has_op \<and> b = rg_block r \<and> i < handles_needed r)"
| "calls_due has_op r (Free_Handle_Array ref) = of_bool (ref = (rg_block r, 0))"
| "calls_due has_op r (Cuda_Host_Unregister a) = of_bool (rg_us r \<and> a = rg_addr r)"
| "calls_due has_op r (Cuda_Host_Register a l) = 0"
| "calls_due has_op r (Get_Mem_Handle ref a l) = 0"

lemma handles_number:
  assumes "region_ok r"
  shows "number_of_handles (rg_len r) = handles_needed r"
proof -
  define n l where "n = number_of_handles (rg_len r)" and "l = unat (rg_len r)"
  have N: "0 < n" "l \<le> n * 2 ^ 31" "(n - 1) * 2 ^ 31 < l" using number_of_handles[OF assms] by (simp_all add: n_def l_def)
  obtain k where k: "n = Suc k" using N(1) gr0_conv_Suc by blast
  have "(l + 2 ^ 31 - 1) div 2 ^ 31 = n" by (rule div_nat_eqI) (use N(2,3) k in simp_all)
  then show ?thesis by (simp add: handles_needed_def n_def l_def)
qed

lemma count_pieces:
  "count_list (concat (map (release_handle env) (pieces b us n i k a l))) e =
    (case e of Release_Mem_Handle (c, j) \<Rightarrow> of_bool (has_release_mem env \<and> c = b \<and> i \<le> j \<and> j < i + k)
     | Free_Mem_Handle (c, j) \<Rightarrow> of_bool (has_release_mem env \<and> c = b \<and> i \<le> j \<and> j < i + k)
     | Cuda_Host_Unregister x \<Rightarrow> of_bool (us \<and> i = 0 \<and> 0 < k \<and> x = a)
     | _ \<Rightarrow> 0)"
proof (induction k arbitrary: i a l)
  case 0
  show ?case by (auto split: buf_effect.splits prod.splits)
next
  case (Suc k)
  define m where "m = (if l > NVSHMEMI_MAX_HANDLE_LENGTH then NVSHMEMI_MAX_HANDLE_LENGTH else l)"
  define h where "h = \<lparr>lb_ptr = a, lb_length = m, lb_ref = (b, i), registered_by_us = us,
          linked_with_prev = (i \<noteq> 0), linked_with_next = (i \<noteq> n - 1)\<rparr>"
  have p: "pieces b us n i (Suc k) a l = h # pieces b us n (Suc i) k (a + m) (l - m)" by (simp add: m_def h_def Let_def)
  have "count_list (release_handle env h) e =
    (case e of Release_Mem_Handle (c, j) \<Rightarrow> of_bool (has_release_mem env \<and> c = b \<and> j = i)
     | Free_Mem_Handle (c, j) \<Rightarrow> of_bool (has_release_mem env \<and> c = b \<and> j = i)
     | Cuda_Host_Unregister x \<Rightarrow> of_bool (us \<and> i = 0 \<and> x = a)
     | _ \<Rightarrow> 0)"
    by (auto simp: release_handle_def h_def split: buf_effect.splits prod.splits)
  then show ?case unfolding p using Suc.IH[of "Suc i" "a + m" "l - m"]
    by (auto simp: count_list_append split: buf_effect.splits prod.splits)
qed

lemma calls_made:
  assumes "region_ok r"
  shows "count_list (release_calls env r) e = calls_due (has_release_mem env) r e" "last (release_calls env r) = Free_Handle_Array (rg_block r, 0)"
proof -
  have n: "0 < handles_needed r" using number_of_handles(1)[OF assms] handles_number[OF assms] by simp
  show "count_list (release_calls env r) e = calls_due (has_release_mem env) r e"
    unfolding release_calls_def chain_of_def Let_def handles_number[OF assms] count_list_append count_pieces
    using n by (cases e; cases "snd (case e of Release_Mem_Handle x \<Rightarrow> x | Free_Mem_Handle x \<Rightarrow> x | _ \<Rightarrow> (0, 0))") (auto split: prod.splits)
qed (simp add: release_calls_def)

lemma sum_one:
  assumes "distinct xs" "x \<in> set xs" "\<And>y. y \<in> set xs \<Longrightarrow> y \<noteq> x \<Longrightarrow> f y = 0"
  shows "(\<Sum>y\<leftarrow>xs. f y) = (f x :: nat)"
  using assms
proof (induction xs)
  case (Cons a xs)
  show ?case
  proof (cases "a = x")
    case True
    then have "(\<Sum>y\<leftarrow>xs. f y) = (\<Sum>y\<leftarrow>xs. 0)" using Cons.prems by (intro arg_cong[where f = sum_list] map_cong) auto
    then show ?thesis using True by simp
  next
    case False
    then show ?thesis using Cons by simp
  qed
qed simp

lemma count_concat: "count_list (concat xss) e = (\<Sum>xs\<leftarrow>xss. count_list xs e)"
  by (induction xss) (simp_all add: count_list_append)

text \<open>No two regions of a cache call for the same thing, if their arrays are different allocations.\<close>

lemma calls_due_own:
  assumes "regions_ok rs" "distinct (map rg_block rs)" "q \<in> set rs" "r \<in> set rs" "0 < calls_due op q e" "0 < calls_due op r e"
  shows "q = r"
proof -
  have "rg_block q = rg_block r \<or> rg_addr q = rg_addr r"
    using assms(5,6) by (cases e) (auto split: if_splits)
  then show ?thesis
  proof
    assume "rg_block q = rg_block r"
    then show ?thesis using assms(2-4) by (auto simp: distinct_map dest: inj_onD)
  next
    assume a: "rg_addr q = rg_addr r"
    show ?thesis
    proof (rule ccontr)
      assume "q \<noteq> r"
      then obtain i j where "i < length rs" "j < length rs" "i \<noteq> j" "rs ! i = q" "rs ! j = r"
        using assms(3,4) by (metis in_set_conv_nth)
      then have "r_end q \<le> unat (rg_addr r) \<or> r_end r \<le> unat (rg_addr q)"
        using assms(1) sorted_wrt_nth_less unfolding regions_ok_def by (metis (no_types, lifting) linorder_neqE_nat)
      moreover have "0 < unat (rg_len q)" "0 < unat (rg_len r)" using assms(1,3,4) by (simp_all add: regions_ok_def region_ok_def unat_pos_iff)
      ultimately show False using a by auto
    qed
  qed
qed

section \<open>Properties\<close>

text \<open>Two regions, one of them longer than a handle, and an environment in which everything succeeds.\<close>

definition demo_env :: buf_env where
  "demo_env = \<lparr>env_heap_base = 0x900000000000, env_heap_size = 0x1000, ptr_attributes = Some cudaMemoryTypeDevice,
     calloc_array = Some 1, calloc_handle = (\<lambda>_. True), lock_status = 0, host_memory_registration_supported = True,
     host_register_ok = True, host_unregister_ok = True, realloc_ok = True, get_mem_handle_op = Some (\<lambda>_. 0),
     has_release_mem = True, update_device_state_status = 0\<rparr>"

definition demo_region :: region where
  "demo_region = \<lparr>rg_addr = 0x10000, rg_len = 0x80000010, rg_block = 1, rg_us = False\<rparr>"

lemma demo_region_ok: "region_ok demo_region" "region_covers demo_region 0x80000000"
  by (simp_all add: region_ok_def region_covers_def demo_region_def)

lemma demo_empty: "cache_rep local_mem_cache_new []" "fresh_region demo_region []"
  "env_good demo_env" "env_for demo_env demo_region"
proof -
  show "fresh_region demo_region []" using demo_region_ok(1) by (simp add: fresh_region_def)
qed (simp_all add: cache_rep_def regions_ok_def local_mem_cache_new_def env_good_def env_for_def demo_env_def demo_region_def buf_consts)

definition demo_cache :: local_buf_cache where
  "demo_cache = \<lparr>array_size = 64, buffers = chain_of demo_region\<rparr>"

lemma demo_chain: "chain_of demo_region =
  [\<lparr>lb_ptr = 0x10000, lb_length = 0x80000000, lb_ref = (1, 0), registered_by_us = False, linked_with_prev = False, linked_with_next = True\<rparr>,
   \<lparr>lb_ptr = 0x80010000, lb_length = 0x10, lb_ref = (1, 1), registered_by_us = False, linked_with_prev = True, linked_with_next = False\<rparr>]"
proof -
  have "number_of_handles 0x80000010 = Suc (Suc 0)" by (simp add: number_of_handles_def buf_consts)
  then show ?thesis by (simp add: chain_of_def demo_region_def buf_consts)
qed

lemma demo_rep: "cache_rep demo_cache [demo_region]"
  using demo_region_ok(1) by (simp add: cache_rep_def regions_ok_def demo_cache_def demo_chain)

text \<open>
  C26: Registration succeeds and is correct. In an environment where CUDA, the allocator and the transport
  accept, a buffer outside the symmetric heap that starts outside all registered regions and ends before
  the next one is accepted; the array then holds the chain of its handles in address order among the
  others, within its capacity.
\<close>

theorem buffer_register_correct:
  assumes "env_good env" "env_for env r" "cache_rep c rs" "fresh_region r rs"
    and "\<not> (env_heap_base env \<le> rg_addr r \<and> rg_addr r < env_heap_base env + env_heap_size env)"
    and "array_size c < 2 ^ 57"
  shows "\<exists>c' eff. buffer_register env c (rg_addr r) (rg_len r) = Inr (0, c', eff) \<and> cache_rep c' (insert_region r rs)"
  using register_success[OF assms] register_inner[OF _ assms(2)] register_locked_ok[OF assms(3,4)] by blast

theorem buffer_register_correct_witness:
  "\<exists>c' eff. buffer_register demo_env local_mem_cache_new 0x10000 0x80000010 = Inr (0, c', eff) \<and>
     cache_rep c' [demo_region]"
  using buffer_register_correct[of demo_env demo_region local_mem_cache_new "[]"] demo_empty
  by (simp add: demo_env_def demo_region_def local_mem_cache_new_def buf_consts insert_region_def regions_below_def regions_from_def)

text \<open>
  C25: The binary search of the data path is correct and returns. With the read lock held, an address
  inside a registered region yields a handle of that region, together with a length that is no more than
  asked for, is not zero, and stays inside the region; an address outside all regions yields none and
  leaves the length alone.
\<close>

theorem registered_lookup_correct:
  assumes "cache_rep c rs"
  shows "(\<forall>r. r \<in> set rs \<and> region_covers r a \<longrightarrow>
      (\<exists>i l. nvshmemi_get_registered_buffer_handle 0 c a len = (Some (rg_block r, i), l) \<and> l \<le> len \<and>
         unat a + unat l \<le> r_end r \<and> (0 < len \<longrightarrow> 0 < l))) \<and>
    ((\<forall>r. r \<in> set rs \<longrightarrow> \<not> region_covers r a) \<longrightarrow> nvshmemi_get_registered_buffer_handle 0 c a len = (None, len))"
  using buf_cache.find_inside[OF assms] buf_cache.find_outside[OF assms] by blast

theorem registered_lookup_correct_witness:
  "\<exists>i l. nvshmemi_get_registered_buffer_handle 0 demo_cache 0x80000000 0x100 = (Some (1, i), l) \<and> 0 < l"
  using registered_lookup_correct[OF demo_rep, of "0x80000000" "0x100"] demo_region_ok(2) by (auto simp: demo_region_def)

text \<open>
  C27: Removal undoes registration. When the lock, CUDA and the device state accept, removing a registered region makes
  exactly the calls that are due for it, each once: with a transport that has \<open>release_mem_handle\<close> the release and the free of
  each of its handles, the \<open>cudaHostUnregister\<close> if the registration had registered the memory, and last the free of the array of
  handles. All other regions are kept, and no address of the removed region is found any more.
\<close>

theorem buffer_unregister_correct:
  assumes "cache_rep c (rs @ r # ss)" "lock_status env = 0" "host_unregister_ok env" "update_device_state_status env = 0"
  shows "\<exists>c' eff. buffer_unregister env c (rg_addr r) = Inr (0, c', eff) \<and>
    (\<forall>e. count_list eff e = calls_due (has_release_mem env) r e) \<and> last eff = Free_Handle_Array (rg_block r, 0) \<and> cache_rep c' (rs @ ss) \<and>
    (\<forall>a. region_covers r a \<longrightarrow> nvshmemi_get_registered_buffer_handle 0 c' a len = (None, len))"
proof -
  obtain c' where c': "buffer_unregister env c (rg_addr r) = Inr (0, c', release_calls env r)" "cache_rep c' (rs @ ss)"
    using unregister_rep[OF assms(1,2)] assms(3,4) by auto
  then have "cache_unregister env (rg_addr r) c = Some c'" by (simp add: cache_unregister_def)
  moreover have "region_ok r" using cache_repD(2)[OF assms(1)] by (simp add: regions_ok_append regions_ok_Cons)
  ultimately show ?thesis using c' calls_made buf_cache.lost_after_unregister[OF assms(1)] by blast
qed

theorem buffer_unregister_correct_witness:
  "\<exists>c' eff. buffer_unregister demo_env demo_cache 0x10000 = Inr (0, c', eff) \<and> count_list eff (Release_Mem_Handle (1, 1)) = 1 \<and> cache_rep c' []"
proof -
  have a: "rg_addr demo_region = 0x10000" "handles_needed demo_region = 2" "rg_block demo_region = 1" by (simp_all add: demo_region_def handles_needed_def)
  have "cache_rep demo_cache ([] @ demo_region # [])" using demo_rep by simp
  from buffer_unregister_correct[OF this, of demo_env 0] show ?thesis using a by (force simp: demo_env_def)
qed

text \<open>
  A region may be registered and removed again without a trace: the regions of the cache are what they
  were before, whatever was registered at the time.
\<close>

theorem register_unregister_regions:
  assumes "cache_rep c rs" "fresh_region r rs" "cache_register env r c = Some c'" "cache_unregister env (rg_addr r) c' = Some c''"
  shows "cache_rep c'' rs"
  by (rule buf_cache.register_unregister[OF assms])

theorem register_unregister_regions_witness:
  "\<exists>c' c''. cache_register demo_env demo_region local_mem_cache_new = Some c' \<and>
     cache_unregister demo_env (rg_addr demo_region) c' = Some c'' \<and> cache_rep c'' []"
proof -
  let ?e = "demo_env\<lparr>calloc_array := Some (rg_block demo_region), ptr_attributes := Some cudaMemoryTypeDevice\<rparr>"
  have e: "?e = demo_env" by (simp add: demo_env_def demo_region_def)
  obtain c' eff where c': "buffer_register demo_env local_mem_cache_new (rg_addr demo_region) (rg_len demo_region) = Inr (0, c', eff)"
    using register_success[OF demo_empty(3,4,1,2)] by (auto simp: demo_env_def demo_region_def local_mem_cache_new_def buf_consts)
  then have r: "cache_register demo_env demo_region local_mem_cache_new = Some c'"
    using e by (simp add: cache_register_def demo_region_def)
  have "cache_rep c' ([] @ demo_region # [])"
    using register_locked_ok[OF demo_empty(1,2) register_inner[OF c' demo_empty(4)]]
    by (simp add: insert_region_def regions_below_def regions_from_def)
  from unregister_rep[OF this, of demo_env] obtain c'' where
    u: "cache_unregister demo_env (rg_addr demo_region) c' = Some c''"
    by (auto simp: cache_unregister_def demo_env_def)
  then show ?thesis using register_unregister_regions[OF demo_empty(1,2) r u] r by blast
qed

lemma unregister_loop_pieces:
  assumes "us \<longrightarrow> host_unregister_ok env" "bufs = pre @ pieces b us n e k a l @ post" "length pre = i" "e + k = n" "0 < k"
    "e \<le> i" "lb_ref (bufs ! (i - e)) = (b, 0)"
  shows "unregister_loop env bufs i e (k + m) =
    (case unregister_loop env bufs (i + k) 0 m of Inl x \<Rightarrow> Inl x
     | Inr eff \<Rightarrow> Inr (concat (map (release_handle env) (pieces b us n e k a l)) @ [Free_Handle_Array (b, 0)] @ eff))"
  using assms(2-)
proof (induction k arbitrary: pre i e a l)
  case (Suc k)
  define w where "w = (if l > NVSHMEMI_MAX_HANDLE_LENGTH then NVSHMEMI_MAX_HANDLE_LENGTH else l)"
  define h where "h = \<lparr>lb_ptr = a, lb_length = w, lb_ref = (b, e), registered_by_us = us,
          linked_with_prev = (e \<noteq> 0), linked_with_next = (e \<noteq> n - 1)\<rparr>"
  have p: "pieces b us n e (Suc k) a l = h # pieces b us n (Suc e) k (a + w) (l - w)" by (simp add: w_def h_def Let_def)
  have at: "bufs ! i = h" using Suc.prems(1,2) unfolding p by (simp add: nth_append)
  have ok: "\<not> (registered_by_us h \<and> \<not> linked_with_prev h \<and> \<not> host_unregister_ok env)" using assms(1) by (simp add: h_def)
  show ?case
  proof (cases k)
    case 0
    then have "\<not> linked_with_next h" using Suc.prems(3) by (simp add: h_def)
    then show ?thesis using at ok Suc.prems(6) 0 unfolding p by (auto simp: Let_def split: sum.splits)
  next
    case (Suc k')
    then have nx: "linked_with_next h" using Suc.prems(3) by (simp add: h_def)
    have "unregister_loop env bufs (Suc i) (Suc e) (k + m) =
      (case unregister_loop env bufs (Suc i + k) 0 m of Inl x \<Rightarrow> Inl x
       | Inr eff \<Rightarrow> Inr (concat (map (release_handle env) (pieces b us n (Suc e) k (a + w) (l - w))) @ [Free_Handle_Array (b, 0)] @ eff))"
      using Suc.prems Suc unfolding p by (intro Suc.IH[of "pre @ [h]"]) simp_all
    then show ?thesis using at ok nx unfolding p by (auto simp: Let_def split: sum.splits)
  qed
qed simp

lemma unregister_loop_chains:
  assumes "regions_ok rs" "host_unregister_ok env" "bufs = pre @ concat (map chain_of rs)"
  shows "unregister_loop env bufs (length pre) 0 (length (concat (map chain_of rs))) = Inr (concat (map (release_calls env) rs))"
  using assms
proof (induction rs arbitrary: pre)
  case (Cons r rs)
  have r: "region_ok r" and rs: "regions_ok rs" using Cons.prems(1) by (simp_all add: regions_ok_Cons)
  let ?n = "number_of_handles (rg_len r)"
  have ch: "chain_of r = pieces (rg_block r) (rg_us r) ?n 0 ?n (rg_addr r) (rg_len r)" by (simp add: chain_of_def Let_def)
  have "bufs ! length pre = hd (chain_of r)"
    using Cons.prems(3) chain_not_empty[OF r] by (simp add: nth_append hd_conv_nth)
  then have "lb_ref (bufs ! (length pre - 0)) = (rg_block r, 0)" using chain_head(2)[OF r] by simp
  moreover have "bufs = pre @ pieces (rg_block r) (rg_us r) ?n 0 ?n (rg_addr r) (rg_len r) @ concat (map chain_of rs)"
    using Cons.prems(3) by (simp add: ch)
  ultimately have "unregister_loop env bufs (length pre) 0 (?n + length (concat (map chain_of rs))) =
    (case unregister_loop env bufs (length pre + ?n) 0 (length (concat (map chain_of rs))) of Inl x \<Rightarrow> Inl x
     | Inr eff \<Rightarrow> Inr (concat (map (release_handle env) (chain_of r)) @ [Free_Handle_Array (rg_block r, 0)] @ eff))"
    unfolding ch using number_of_handles(1)[OF r] Cons.prems(2) by (intro unregister_loop_pieces) simp_all
  moreover have "unregister_loop env bufs (length (pre @ chain_of r)) 0 (length (concat (map chain_of rs))) =
      Inr (concat (map (release_calls env) rs))"
    using Cons.IH[OF rs Cons.prems(2), of "pre @ chain_of r"] Cons.prems(3) by simp
  ultimately show ?case by (simp add: chain_length release_calls_def[of env r] del: length_concat)
qed simp

text \<open>
  C38: Removing everything empties the cache and makes exactly the calls that are due for the registered regions, each
  once: none is left out, none is made twice and no other is made, provided the regions' arrays of handles are different
  allocations, as those that are live at the same time are.
\<close>

theorem buffer_unregister_all_correct:
  assumes "cache_rep c rs" "lock_status env = 0" "host_unregister_ok env" "distinct (map rg_block rs)"
  shows "\<exists>eff. buffer_unregister_all env c = Inr (c\<lparr>buffers := []\<rparr>, eff) \<and> cache_rep (c\<lparr>buffers := []\<rparr>) [] \<and>
    (\<forall>e. count_list eff e = of_bool (\<exists>r \<in> set rs. 0 < calls_due (has_release_mem env) r e))"
proof -
  note C = cache_repD[OF assms(1)]
  let ?eff = "concat (map (release_calls env) rs)"
  have run: "unregister_loop env (buffers c) 0 0 (array_used c) = Inr ?eff"
    using unregister_loop_chains[OF C(2) assms(3), of _ "[]"] C(1) by simp
  have sum: "count_list ?eff e = (\<Sum>r\<leftarrow>rs. calls_due (has_release_mem env) r e)" for e
  proof -
    have "count_list (release_calls env r) e = calls_due (has_release_mem env) r e" if "r \<in> set rs" for r
      using calls_made(1) C(2) that by (simp add: regions_ok_def)
    then show ?thesis by (simp add: count_concat comp_def cong: map_cong)
  qed
  have "count_list ?eff e = of_bool (\<exists>r \<in> set rs. 0 < calls_due (has_release_mem env) r e)" for e
  proof (cases "\<exists>r \<in> set rs. 0 < calls_due (has_release_mem env) r e")
    case True
    then obtain r where r: "r \<in> set rs" "0 < calls_due (has_release_mem env) r e" by blast
    have "(\<Sum>r\<leftarrow>rs. calls_due (has_release_mem env) r e) = calls_due (has_release_mem env) r e"
      by (rule sum_one[OF conjunct1[OF assms(4)[unfolded distinct_map]] r(1)]) (use calls_due_own[OF C(2) assms(4) _ r(1) _ r(2)] in blast)
    moreover have "calls_due (has_release_mem env) r e = 1" using r(2) by (cases e) auto
    ultimately show ?thesis using True sum by simp
  next
    case False
    then have "(\<Sum>r\<leftarrow>rs. calls_due (has_release_mem env) r e) = (\<Sum>r\<leftarrow>rs. 0)" by (intro arg_cong[where f = sum_list] map_cong) auto
    then show ?thesis using False sum by simp
  qed
  then show ?thesis using run assms(2) C(3) by (auto simp: buffer_unregister_all_def cache_rep_def regions_ok_def)
qed

theorem buffer_unregister_all_correct_witness:
  "\<exists>eff. buffer_unregister_all demo_env demo_cache = Inr (demo_cache\<lparr>buffers := []\<rparr>, eff) \<and> count_list eff (Free_Mem_Handle (1, 1)) = 1"
proof -
  have "handles_needed demo_region = 2" "rg_block demo_region = 1" by (simp_all add: demo_region_def handles_needed_def)
  then show ?thesis using buffer_unregister_all_correct[OF demo_rep, of demo_env] by (auto simp: demo_env_def)
qed

text \<open>
  C39: Registration does not reject every overlap. A buffer that starts outside all registered regions but
  reaches into the next one is accepted, although the code means to refuse overlapping regions: two
  handles of the array then cover the first address of that region.
\<close>

theorem buffer_register_accepts_overlap:
  assumes "env_good env" "env_for env r" "cache_rep c rs" "region_ok r"
    and "\<forall>s. s \<in> set rs \<longrightarrow> \<not> region_covers s (rg_addr r)"
    and "\<not> (env_heap_base env \<le> rg_addr r \<and> rg_addr r < env_heap_base env + env_heap_size env)"
    and "array_size c < 2 ^ 57" "s \<in> set rs" "region_covers r (rg_addr s)"
  shows "\<exists>c' eff. buffer_register env c (rg_addr r) (rg_len r) = Inr (0, c', eff) \<and>
    (\<exists>g h. g \<in> set (chain_of r) \<and> h \<in> set (chain_of s) \<and> g \<in> set (buffers c') \<and> h \<in> set (buffers c') \<and>
       handle_covers g (rg_addr s) \<and> handle_covers h (rg_addr s))"
proof -
  have "env_good (env\<lparr>update_device_state_status := 0\<rparr>)" "update_device_state_status env = 0"
    using assms(1) by (simp_all add: env_good_def)
  then obtain c' eff where c': "buffers c' = concat (map chain_of (insert_region r rs))"
    "buffer_register env c (rg_addr r) (rg_len r) = Inr (0, c', eff)"
    using register_runs[OF _ assms(2-4) _ assms(6,7)] assms(5) by auto
  have sk: "region_ok s" using assms(8) cache_repD(2)[OF assms(3)] by (simp add: regions_ok_def)
  then have "region_covers s (rg_addr s)" by (simp add: region_covers_def region_ok_def unat_pos_iff)
  then obtain g h where gh: "g \<in> set (chain_of r)" "handle_covers g (rg_addr s)" "h \<in> set (chain_of s)" "handle_covers h (rg_addr s)"
    using chain_spec(3)[OF assms(4,9)] chain_spec(3)[OF sk] by blast
  have "set (insert_region r rs) = insert r (set rs)"
    using regions_split[of "rg_addr r" rs] unfolding insert_region_def by (metis Un_insert_right list.simps(15) set_append)
  then have "g \<in> set (buffers c')" "h \<in> set (buffers c')" using gh c'(1) assms(8) by auto
  then show ?thesis using c'(2) gh by blast
qed

definition demo_overlap :: region where
  "demo_overlap = \<lparr>rg_addr = 0x8000, rg_len = 0x9000, rg_block = 1, rg_us = False\<rparr>"

theorem buffer_register_accepts_overlap_witness:
  "\<exists>c' eff. buffer_register demo_env demo_cache 0x8000 0x9000 = Inr (0, c', eff)"
  using buffer_register_accepts_overlap[of demo_env demo_overlap demo_cache "[demo_region]" demo_region] demo_rep demo_empty(3)
  by (auto simp: demo_overlap_def demo_region_def region_ok_def region_covers_def env_for_def demo_env_def demo_cache_def)

text \<open>
  A registration that fails in its last step leaves dangling entries. When
  \<open>nvshmemi_update_device_state\<close> fails after the handles were entered, the error path frees their array but
  does not take them out of the cache: the call reports an error, its array is freed, and the freed handles
  are still in the array of the cache.
\<close>

theorem buffer_register_dangling:
  assumes "env_good (env\<lparr>update_device_state_status := 0\<rparr>)" "update_device_state_status env \<noteq> 0"
    and "env_for env r" "cache_rep c rs" "fresh_region r rs"
    and "\<not> (env_heap_base env \<le> rg_addr r \<and> rg_addr r < env_heap_base env + env_heap_size env)"
    and "array_size c < 2 ^ 57"
  shows "\<exists>c' eff. buffer_register env c (rg_addr r) (rg_len r) = Inr (NVSHMEMX_ERROR_INTERNAL, c', eff) \<and>
    Free_Handle_Array (rg_block r, 0) \<in> set eff \<and> (\<exists>h. h \<in> set (buffers c') \<and> lb_ref h = (rg_block r, 0))"
proof -
  have r: "region_ok r" "\<forall>s \<in> set rs. \<not> region_covers s (rg_addr r)" using assms(5) by (simp_all add: fresh_region_def)
  obtain c' eff where c': "buffers c' = concat (map chain_of (insert_region r rs))"
    "buffer_register env c (rg_addr r) (rg_len r) =
      out_error_unlocked env (rg_block r) (number_of_handles (rg_len r)) (rg_us r) (rg_addr r) NVSHMEMX_ERROR_INTERNAL c' eff"
    using register_runs[OF assms(1,3,4) r assms(6,7)] assms(2) by auto
  have "hd (chain_of r) \<in> set (buffers c')" using chain_not_empty[OF r(1)] unfolding c'(1) insert_region_def by auto
  then show ?thesis using c'(2) chain_head(2)[OF r(1)] assms(1) by (auto simp: out_error_unlocked_def env_good_def)
qed

theorem buffer_register_dangling_witness:
  "\<exists>c' eff. buffer_register (demo_env\<lparr>update_device_state_status := 1\<rparr>) local_mem_cache_new 0x10000 0x80000010 =
     Inr (NVSHMEMX_ERROR_INTERNAL, c', eff) \<and> Free_Handle_Array (1, 0) \<in> set eff \<and> (\<exists>h. h \<in> set (buffers c') \<and> lb_ref h = (1, 0))"
proof -
  have "env_good (demo_env\<lparr>update_device_state_status := 1\<rparr>\<lparr>update_device_state_status := 0\<rparr>)"
    "env_for (demo_env\<lparr>update_device_state_status := 1\<rparr>) demo_region"
    using demo_empty(3,4) by (simp_all add: demo_env_def env_for_def)
  from buffer_register_dangling[OF this(1) _ this(2) demo_empty(1,2)] show ?thesis
    by (simp add: demo_env_def demo_region_def local_mem_cache_new_def buf_consts)
qed

section \<open>Inner handles\<close>

lemma pieces_nth:
  "j < k \<Longrightarrow> lb_ref (pieces b us n i k a l ! j) = (b, i + j) \<and> linked_with_next (pieces b us n i k a l ! j) = (i + j \<noteq> n - 1)"
proof (induction k arbitrary: i j a l)
  case (Suc k)
  then show ?case by (cases j) (auto simp: Let_def)
qed simp

lemma pieces_drop:
  assumes "(k - 1) * 2 ^ 31 < unat l" "j < k"
  shows "\<exists>l'. drop j (pieces b us n i k a l) = pieces b us n (i + j) (k - j) (a + of_nat j * 2 ^ 31) l'"
  using assms
proof (induction j arbitrary: i k a l)
  case 0
  then show ?case by auto
next
  case (Suc j)
  then obtain k' where k: "k = Suc k'" "j < k'" by (cases k) auto
  then obtain k'' where k': "k' = Suc k''" by (cases k') auto
  have "2 ^ 31 * 1 \<le> 2 ^ 31 * k'" using k' by simp
  then have big: "2 ^ 31 < unat l" using Suc.prems(1) k(1) by (simp only: diff_Suc_1 mult.commute[of k'])
  then have m: "l > NVSHMEMI_MAX_HANDLE_LENGTH" by (simp add: word_less_nat_alt max_handle)
  have "unat (l - NVSHMEMI_MAX_HANDLE_LENGTH) = unat l - 2 ^ 31" using big max_handle by (simp add: unat_sub_nowrap)
  then have "(k' - 1) * 2 ^ 31 < unat (l - NVSHMEMI_MAX_HANDLE_LENGTH)" using Suc.prems(1) k(1) k' by (simp add: algebra_simps)
  from Suc.IH[OF this k(2), of "Suc i" "a + NVSHMEMI_MAX_HANDLE_LENGTH"]
  have "\<exists>l'. drop j (pieces b us n (Suc i) k' (a + NVSHMEMI_MAX_HANDLE_LENGTH) (l - NVSHMEMI_MAX_HANDLE_LENGTH)) =
      pieces b us n (i + Suc j) (k - Suc j) (a + NVSHMEMI_MAX_HANDLE_LENGTH + of_nat j * 2 ^ 31) l'" using k(1) by simp
  moreover have "a + NVSHMEMI_MAX_HANDLE_LENGTH + of_nat j * 2 ^ 31 = a + of_nat (Suc j) * 2 ^ 31"
    by (simp add: buf_consts algebra_simps)
  moreover have "drop (Suc j) (pieces b us n i k a l) =
      drop j (pieces b us n (Suc i) k' (a + NVSHMEMI_MAX_HANDLE_LENGTH) (l - NVSHMEMI_MAX_HANDLE_LENGTH))" using m k(1) by (simp add: Let_def)
  ultimately show ?case by metis
qed

lemma find_buf_at:
  assumes "handles_ok hs" "k < length hs"
  shows "find_buf (lb_ptr (hs ! k)) hs = Some k"
proof -
  have "lb_ptr h < lb_ptr (hs ! k)" if h: "h \<in> set (take k hs)" for h
  proof -
    obtain j where j: "j < k" "h = hs ! j" using h assms(2) by (auto simp: in_set_conv_nth)
    have "handle_ok h" using assms j by (auto simp: handles_ok_def)
    then show ?thesis using handles_okD[OF assms(1) j(1) assms(2)] handle_tests(3)[of h] j(2) by (simp add: word_less_nat_alt)
  qed
  from find_buf_skip[of "take k hs" "lb_ptr (hs ! k)" "drop k hs", OF this]
  have "find_buf (lb_ptr (hs ! k)) hs = map_option ((+) k) (find_buf (lb_ptr (hs ! k)) (hs ! k # drop (Suc k) hs))"
    using assms(2) by (simp add: Cons_nth_drop_Suc)
  then show ?thesis by simp
qed

lemma nth_middle: "ys \<noteq> [] \<Longrightarrow> (xs @ ys @ zs) ! length xs = hd ys"
  by (cases ys) simp_all

lemma release_chain_linked:
  assumes "\<And>h. h \<in> set xs \<Longrightarrow> linked_with_next h" "host_unregister_ok env"
  shows "release_chain env (xs @ ys) = (case release_chain env ys of Inl e \<Rightarrow> Inl e
    | Inr (k, eff) \<Rightarrow> Inr (length xs + k, concat (map (release_handle env) xs) @ eff))"
  using assms(1)
proof (induction xs)
  case Nil
  then show ?case by (auto split: sum.splits prod.splits)
next
  case (Cons h xs)
  then show ?case using assms(2) by (auto split: sum.splits prod.splits)
qed

text \<open>A chain, cut in front of its handle \<open>i\<close>.\<close>

lemma chain_cut:
  assumes "region_ok r" "i < handles_needed r"
  shows "\<exists>l'. chain_of r = take i (chain_of r) @
      pieces (rg_block r) (rg_us r) (handles_needed r) i (handles_needed r - i) (rg_addr r + of_nat i * 2 ^ 31) l'"
    "length (take i (chain_of r)) = i" "h \<in> set (take i (chain_of r)) \<Longrightarrow> linked_with_next h"
proof -
  let ?n = "handles_needed r"
  have ch: "chain_of r = pieces (rg_block r) (rg_us r) ?n 0 ?n (rg_addr r) (rg_len r)"
    using handles_number[OF assms(1)] by (simp add: chain_of_def Let_def)
  have len: "length (chain_of r) = ?n" unfolding ch by simp
  have "(?n - 1) * 2 ^ 31 < unat (rg_len r)" using number_of_handles(3)[OF assms(1)] handles_number[OF assms(1)] by simp
  from pieces_drop[OF this assms(2), of "rg_block r" "rg_us r" ?n 0 "rg_addr r"]
  show "\<exists>l'. chain_of r = take i (chain_of r) @ pieces (rg_block r) (rg_us r) ?n i (?n - i) (rg_addr r + of_nat i * 2 ^ 31) l'"
    unfolding ch by (metis append_take_drop_id add_0)
  show "length (take i (chain_of r)) = i" using len assms(2) by simp
  show "linked_with_next h" if h: "h \<in> set (take i (chain_of r))"
  proof -
    obtain j where j: "j < i" "h = chain_of r ! j" using h len assms(2) by (auto simp: in_set_conv_nth)
    then show ?thesis using pieces_nth[of j ?n "rg_block r" "rg_us r" ?n 0] assms(2) unfolding ch by auto
  qed
qed

lemma unregister_inner:
  assumes "cache_rep c (rs @ r # ss)" "0 < i" "i < handles_needed r" "lock_status env = 0" "host_unregister_ok env"
    "update_device_state_status env = 0"
  shows "\<exists>c' eff. buffer_unregister env c (rg_addr r + of_nat i * 2 ^ 31) = Inr (0, c', eff) \<and> Free_Handle_Array (rg_block r, i) \<in> set eff \<and>
    buffers c' = concat (map chain_of rs) @ take i (chain_of r) @ concat (map chain_of ss) \<and> array_size c' = array_size c"
proof -
  note C = cache_repD[OF assms(1)]
  have r: "region_ok r" using C(2) by (simp add: regions_ok_append regions_ok_Cons)
  let ?B = "concat (map chain_of rs)" and ?D = "concat (map chain_of ss)" and ?n = "handles_needed r"
  obtain l' where l': "chain_of r = take i (chain_of r) @ pieces (rg_block r) (rg_us r) ?n i (?n - i) (rg_addr r + of_nat i * 2 ^ 31) l'"
    using chain_cut(1)[OF r assms(3)] by blast
  let ?P = "pieces (rg_block r) (rg_us r) ?n i (?n - i) (rg_addr r + of_nat i * 2 ^ 31) l'" and ?T = "take i (chain_of r)"
  have T: "length ?T = i" by (rule chain_cut(2)[OF r assms(3)])
  have bufs: "buffers c = (?B @ ?T) @ ?P @ ?D" using C(1) l' by (metis append.assoc concat.simps(2) concat_append list.simps(9) map_append)
  have k: "length (?B @ ?T) = length ?B + i" using T by simp
  have kn: "?n - i \<noteq> 0" using assms(3) by simp
  have P: "?P \<noteq> []" "lb_ptr (hd ?P) = rg_addr r + of_nat i * 2 ^ 31" "lb_ref (hd ?P) = (rg_block r, i)"
    using pieces_head[OF kn] kn by (auto simp del: pieces.simps simp: length_greater_0_conv[symmetric])
  have at: "buffers c ! (length ?B + i) = hd ?P" unfolding bufs k[symmetric] by (rule nth_middle[OF P(1)])
  have "handles_ok (buffers c)" using chains_ok[OF C(2)] C(1) by simp
  moreover have "length ?B + i < length (buffers c)" unfolding bufs using P(1) k assms(3) by simp
  ultimately have f: "find_buf (rg_addr r + of_nat i * 2 ^ 31) (buffers c) = Some (length ?B + i)"
    using find_buf_at[of "buffers c" "length ?B + i"] at P(2) by simp
  have d: "drop (length ?B + i) (buffers c) = ?P @ ?D" unfolding bufs k[symmetric] by simp
  have rc: "release_chain env (?P @ ?D) = Inr (?n - i, concat (map (release_handle env) ?P))"
    by (rule release_pieces) (use assms(3,5) in simp_all)
  have t: "take (length ?B + i) (buffers c) @ drop (length ?B + i + (?n - i)) (buffers c) = ?B @ ?T @ ?D"
    unfolding bufs k[symmetric] using T by (simp add: min_def split: if_splits)
  have "buffer_unregister env c (rg_addr r + of_nat i * 2 ^ 31) =
      Inr (0, c\<lparr>buffers := ?B @ ?T @ ?D\<rparr>, concat (map (release_handle env) ?P) @ [Free_Handle_Array (rg_block r, i)])"
    unfolding buffer_unregister_def f option.case d rc sum.case prod.case t at P(3) using assms(4,6) by simp
  then show ?thesis by auto
qed

text \<open>
  C40: Removal accepts an address inside a region that it should refuse. The address of any handle of a region but the
  first is found; the removal then succeeds, frees a pointer into the middle of the region's array of handles, and leaves a
  handle whose successor is gone linked to whatever comes next. Removing the region afterwards runs past the used
  entries if it was the last one; otherwise it also releases the handles of the next region and takes that one out of the
  cache.
\<close>

theorem buffer_unregister_inner_handle:
  assumes "cache_rep c (rs @ r # ss)" "0 < i" "i < handles_needed r" "lock_status env = 0" "host_unregister_ok env"
    "update_device_state_status env = 0"
  shows "\<exists>c' eff. buffer_unregister env c (rg_addr r + of_nat i * 2 ^ 31) = Inr (0, c', eff) \<and> Free_Handle_Array (rg_block r, i) \<in> set eff \<and>
    (case ss of
       [] \<Rightarrow> buffer_unregister env c' (rg_addr r) = Inl Out_Of_Bounds
     | q # qs \<Rightarrow> (\<exists>c'' eff'. buffer_unregister env c' (rg_addr r) = Inr (0, c'', eff') \<and> cache_rep c'' (rs @ qs) \<and>
         (has_release_mem env \<longrightarrow> Release_Mem_Handle (rg_block q, 0) \<in> set eff')))"
proof -
  note C = cache_repD[OF assms(1)]
  have ok: "region_ok r" "regions_ok (rs @ ss)" using C(2) by (simp_all add: regions_ok_append regions_ok_Cons)
  let ?B = "concat (map chain_of rs)" and ?D = "concat (map chain_of ss)" and ?T = "take i (chain_of r)"
  obtain c' eff where c': "buffer_unregister env c (rg_addr r + of_nat i * 2 ^ 31) = Inr (0, c', eff)" "Free_Handle_Array (rg_block r, i) \<in> set eff"
    "buffers c' = ?B @ ?T @ ?D" "array_size c' = array_size c" using unregister_inner[OF assms] by blast
  have T: "length ?T = i" "\<And>h. h \<in> set ?T \<Longrightarrow> linked_with_next h" using chain_cut(2,3)[OF ok(1) assms(3)] by blast+
  have ne: "?T \<noteq> []" "hd ?T = hd (chain_of r)" using T(1) assms(2) chain_not_empty[OF ok(1)] by (auto simp: hd_take)
  have "handles_ok (?B @ chain_of r @ ?D)" using chains_ok[OF C(2)] by simp
  then have "handles_ok (?B @ (?T @ drop i (chain_of r)) @ ?D)" by (simp only: append_take_drop_id)
  then have hk: "handles_ok (?B @ ?T @ ?D)" unfolding handles_ok_append by (simp only: set_append Un_iff) blast
  have at: "(?B @ ?T @ ?D) ! length ?B = hd (chain_of r)" using nth_middle[OF ne(1)] ne(2) by simp
  have lt: "length ?B < length (?B @ ?T @ ?D)" using T(1) assms(2) by simp
  have f: "find_buf (rg_addr r) (buffers c') = Some (length ?B)"
    using find_buf_at[OF hk lt] at chain_head(1)[OF ok(1)] c'(3) by simp
  have d: "drop (length ?B) (buffers c') = ?T @ ?D" unfolding c'(3) by simp
  have rc: "release_chain env (?T @ ?D) = (case release_chain env ?D of Inl e \<Rightarrow> Inl e
      | Inr (k, eff) \<Rightarrow> Inr (i + k, concat (map (release_handle env) ?T) @ eff))"
    using release_chain_linked[of ?T env ?D, OF T(2) assms(5)] unfolding T(1) .
  show ?thesis
  proof (cases ss)
    case Nil
    have "buffer_unregister env c' (rg_addr r) = Inl Out_Of_Bounds"
      unfolding buffer_unregister_def f option.case d rc using Nil assms(4) by simp
    then show ?thesis using c' Nil by auto
  next
    case (Cons q qs)
    have q: "region_ok q" using ok(2) Cons by (simp add: regions_ok_append regions_ok_Cons)
    have rq: "release_chain env ?D = Inr (length (chain_of q), concat (map (release_handle env) (chain_of q)))"
      using release_chain_of[of q env "concat (map chain_of qs)"] assms(5) q Cons by simp
    have t: "take (length ?B) (buffers c') @ drop (length ?B + (i + length (chain_of q))) (buffers c') = concat (map chain_of (rs @ qs))"
      unfolding c'(3) using T(1) Cons by simp
    let ?eff = "(concat (map (release_handle env) ?T) @ concat (map (release_handle env) (chain_of q))) @ [Free_Handle_Array (lb_ref (buffers c' ! length ?B))]"
    have run: "buffer_unregister env c' (rg_addr r) = Inr (0, c'\<lparr>buffers := concat (map chain_of (rs @ qs))\<rparr>, ?eff)"
      unfolding buffer_unregister_def f option.case d rc rq sum.case prod.case t using assms(4,6) by simp
    have "length (concat (map chain_of (rs @ qs))) \<le> array_used c" using C(1) Cons by (simp del: length_concat)
    then have rep: "cache_rep (c'\<lparr>buffers := concat (map chain_of (rs @ qs))\<rparr>) (rs @ qs)"
      using C(3) c'(4) ok(2) Cons by (simp add: cache_rep_def regions_ok_append regions_ok_Cons del: length_concat)
    have "Release_Mem_Handle (rg_block q, 0) \<in> set ?eff" if "has_release_mem env"
    proof -
      have "hd (chain_of q) \<in> set (chain_of q)" using chain_not_empty[OF q] by simp
      moreover have "Release_Mem_Handle (rg_block q, 0) \<in> set (release_handle env (hd (chain_of q)))"
        using that chain_head(2)[OF q] by (simp add: release_handle_def)
      ultimately show ?thesis by (simp only: set_append set_concat set_map Un_iff) blast
    qed
    then show ?thesis using c' Cons run rep by auto
  qed
qed

theorem buffer_unregister_inner_handle_witness:
  "\<exists>c' eff. buffer_unregister demo_env demo_cache 0x80010000 = Inr (0, c', eff) \<and>
     Free_Handle_Array (1, 1) \<in> set eff \<and> buffer_unregister demo_env c' 0x10000 = Inl Out_Of_Bounds"
proof -
  have a: "rg_addr demo_region = 0x10000" "handles_needed demo_region = 2" "rg_block demo_region = 1" by (simp_all add: demo_region_def handles_needed_def)
  have "cache_rep demo_cache ([] @ demo_region # [])" using demo_rep by simp
  from buffer_unregister_inner_handle[OF this, of 1 demo_env] show ?thesis using a by (simp add: demo_env_def)
qed

end
