(* ===== verification/Proxy_Channel.thy ===== *)
theory Proxy_Channel
  imports Nvshmem_Prelude
begin

text \<open>
  The request format of the proxy channel: what GPU threads store into the ring buffer
  (\<open>proxy_device.cuh\<close>) and the packed structures through which the host reads it
  (\<open>nvshmem_proxy_channel.h\<close>). A request is a sequence of 8-byte entries; the low byte of every entry
  is a flag that tells whether the entry belongs to the current lap over the ring. The device
  functions are modelled by the payloads they store, entry by entry, to which the store adds the
  flag; the host's structures are records with a reader from the 64-bit entry.
\<close>

section \<open>Constants\<close>

definition CHANNEL_BUF_SIZE_LOG :: nat where "CHANNEL_BUF_SIZE_LOG = 22"
definition CHANNEL_BUF_SIZE :: u64 where "CHANNEL_BUF_SIZE = push_bit CHANNEL_BUF_SIZE_LOG 1"
definition CHANNEL_ENTRY_BYTES :: u64 where "CHANNEL_ENTRY_BYTES = 8"
definition PROXY_DMA_REQ_BYTES :: u64 where "PROXY_DMA_REQ_BYTES = 32"
definition PROXY_AMO_REQ_BYTES :: u64 where "PROXY_AMO_REQ_BYTES = 40"
definition PROXY_INLINE_REQ_BYTES :: u64 where "PROXY_INLINE_REQ_BYTES = 24"
definition PROXY_PUT_WITH_SIG_REQ_BYTES :: u64 where "PROXY_PUT_WITH_SIG_REQ_BYTES = 48"

text \<open>\<open>nvshmemi_op_t\<close>; the \<open>QP\<close> variants are offset by \<open>NVSHMEMI_OP_QP_OP_OFFSET\<close>.\<close>

definition NVSHMEMI_OP_PUT :: u64 where "NVSHMEMI_OP_PUT = 1"
definition NVSHMEMI_OP_P :: u64 where "NVSHMEMI_OP_P = 2"
definition NVSHMEMI_OP_PUT_SIGNAL :: u64 where "NVSHMEMI_OP_PUT_SIGNAL = 3"
definition NVSHMEMI_OP_GET :: u64 where "NVSHMEMI_OP_GET = 4"
definition NVSHMEMI_OP_G :: u64 where "NVSHMEMI_OP_G = 5"
definition NVSHMEMI_OP_FENCE :: u64 where "NVSHMEMI_OP_FENCE = 6"
definition NVSHMEMI_OP_AMO :: u64 where "NVSHMEMI_OP_AMO = 7"
definition NVSHMEMI_OP_QP_OP_OFFSET :: u64 where "NVSHMEMI_OP_QP_OP_OFFSET = 100"
definition NVSHMEMI_OP_PUT_QP :: u64 where "NVSHMEMI_OP_PUT_QP = 101"
definition NVSHMEMI_OP_P_QP :: u64 where "NVSHMEMI_OP_P_QP = 102"
definition NVSHMEMI_OP_PUT_SIGNAL_QP :: u64 where "NVSHMEMI_OP_PUT_SIGNAL_QP = 103"
definition NVSHMEMI_OP_GET_QP :: u64 where "NVSHMEMI_OP_GET_QP = 104"
definition NVSHMEMI_OP_G_QP :: u64 where "NVSHMEMI_OP_G_QP = 105"
definition NVSHMEMI_OP_FENCE_QP :: u64 where "NVSHMEMI_OP_FENCE_QP = 106"
definition NVSHMEMI_OP_AMO_QP :: u64 where "NVSHMEMI_OP_AMO_QP = 107"
definition NVSHMEMI_OP_QUIET_QP :: u64 where "NVSHMEMI_OP_QUIET_QP = 108"
definition NVSHMEMX_QP_DEFAULT :: u32 where "NVSHMEMX_QP_DEFAULT = 1"
definition NVSHMEMX_PE_ALL :: u32 where "NVSHMEMX_PE_ALL = 0x8000"
definition NVSHMEMI_AMO_END_OF_NONFETCH :: u8 where "NVSHMEMI_AMO_END_OF_NONFETCH = 11"
definition NVSHMEMI_AMO_COMPARE_SWAP :: u8 where "NVSHMEMI_AMO_COMPARE_SWAP = 19"

lemmas op_defs = NVSHMEMI_OP_PUT_def NVSHMEMI_OP_P_def NVSHMEMI_OP_PUT_SIGNAL_def NVSHMEMI_OP_GET_def
  NVSHMEMI_OP_G_def NVSHMEMI_OP_FENCE_def NVSHMEMI_OP_AMO_def NVSHMEMI_OP_QP_OP_OFFSET_def
  NVSHMEMI_OP_PUT_QP_def NVSHMEMI_OP_P_QP_def NVSHMEMI_OP_PUT_SIGNAL_QP_def NVSHMEMI_OP_GET_QP_def
  NVSHMEMI_OP_G_QP_def NVSHMEMI_OP_FENCE_QP_def NVSHMEMI_OP_AMO_QP_def NVSHMEMI_OP_QUIET_QP_def

section \<open>The structures the host reads\<close>

record base_request =
  br_flag :: u8
  br_groupsize :: u8
  br_op :: u8
  br_roffset_low :: u8
  br_roffset_high :: u32

definition base_request_of :: "u64 \<Rightarrow> base_request" where
  "base_request_of w = \<lparr>br_flag = ucast w, br_groupsize = ucast (drop_bit 8 w), br_op = ucast (drop_bit 16 w),
     br_roffset_low = ucast (drop_bit 24 w), br_roffset_high = ucast (drop_bit 32 w)\<rparr>"

record qp_sync_base_request =
  qb_flag :: u8
  qb_op :: u8
  qp_count :: u32

definition qp_sync_base_request_of :: "u64 \<Rightarrow> qp_sync_base_request" where
  "qp_sync_base_request_of w =
     \<lparr>qb_flag = ucast w, qb_op = ucast (drop_bit 16 w), qp_count = ucast (drop_bit 32 w)\<rparr>"

record qp_sync_request_0 =
  qs_flag :: u8
  qs_op :: u8
  qs_pe :: u16
  qs_qp_index :: u32

definition qp_sync_request_0_of :: "u64 \<Rightarrow> qp_sync_request_0" where
  "qp_sync_request_0_of w = \<lparr>qs_flag = ucast w, qs_op = ucast (drop_bit 8 w), qs_pe = ucast (drop_bit 16 w),
     qs_qp_index = ucast (drop_bit 32 w)\<rparr>"

record put_dma_request_0 =
  d0_flag :: u8
  laddr_2 :: u8
  laddr_3 :: u16
  laddr_high :: u32

definition put_dma_request_0_of :: "u64 \<Rightarrow> put_dma_request_0" where
  "put_dma_request_0_of w = \<lparr>d0_flag = ucast w, laddr_2 = ucast (drop_bit 8 w),
     laddr_3 = ucast (drop_bit 16 w), laddr_high = ucast (drop_bit 32 w)\<rparr>"

record put_dma_request_1 =
  d1_flag :: u8
  laddr_low :: u8
  size_low :: u16
  size_high :: u32

definition put_dma_request_1_of :: "u64 \<Rightarrow> put_dma_request_1" where
  "put_dma_request_1_of w = \<lparr>d1_flag = ucast w, laddr_low = ucast (drop_bit 8 w),
     size_low = ucast (drop_bit 16 w), size_high = ucast (drop_bit 32 w)\<rparr>"

record put_dma_request_2 =
  d2_flag :: u8
  d2_pe :: u16
  d2_qp_index :: u32

definition put_dma_request_2_of :: "u64 \<Rightarrow> put_dma_request_2" where
  "put_dma_request_2_of w =
     \<lparr>d2_flag = ucast w, d2_pe = ucast (drop_bit 16 w), d2_qp_index = ucast (drop_bit 32 w)\<rparr>"

record put_inline_request_0 =
  i0_flag :: u8
  i0_pe :: u16
  lvalue_low :: u32

definition put_inline_request_0_of :: "u64 \<Rightarrow> put_inline_request_0" where
  "put_inline_request_0_of w =
     \<lparr>i0_flag = ucast w, i0_pe = ucast (drop_bit 16 w), lvalue_low = ucast (drop_bit 32 w)\<rparr>"

record put_inline_request_1 =
  i1_flag :: u8
  i1_size :: u16
  lvalue_high :: u32

definition put_inline_request_1_of :: "u64 \<Rightarrow> put_inline_request_1" where
  "put_inline_request_1_of w =
     \<lparr>i1_flag = ucast w, i1_size = ucast (drop_bit 16 w), lvalue_high = ucast (drop_bit 32 w)\<rparr>"

record put_inline_request_2 =
  i2_flag :: u8
  i2_qp_index :: u32

definition put_inline_request_2_of :: "u64 \<Rightarrow> put_inline_request_2" where
  "put_inline_request_2_of w = \<lparr>i2_flag = ucast w, i2_qp_index = ucast (drop_bit 32 w)\<rparr>"

record amo_request_0 =
  a0_flag :: u8
  a0_amo :: u8
  a0_pe :: u16
  swap_add_low :: u32

definition amo_request_0_of :: "u64 \<Rightarrow> amo_request_0" where
  "amo_request_0_of w = \<lparr>a0_flag = ucast w, a0_amo = ucast (drop_bit 8 w), a0_pe = ucast (drop_bit 16 w),
     swap_add_low = ucast (drop_bit 32 w)\<rparr>"

record amo_request_1 =
  a1_flag :: u8
  compare_low :: u8
  a1_size :: u16
  swap_add_high :: u32

definition amo_request_1_of :: "u64 \<Rightarrow> amo_request_1" where
  "amo_request_1_of w = \<lparr>a1_flag = ucast w, compare_low = ucast (drop_bit 8 w), a1_size = ucast (drop_bit 16 w),
     swap_add_high = ucast (drop_bit 32 w)\<rparr>"

record put_signal_request_0 =
  s0_flag :: u8
  laddr_write_2 :: u8
  laddr_write_3 :: u16
  laddr_write_high :: u32

definition put_signal_request_0_of :: "u64 \<Rightarrow> put_signal_request_0" where
  "put_signal_request_0_of w = \<lparr>s0_flag = ucast w, laddr_write_2 = ucast (drop_bit 8 w),
     laddr_write_3 = ucast (drop_bit 16 w), laddr_write_high = ucast (drop_bit 32 w)\<rparr>"

record put_signal_request_1 =
  s1_flag :: u8
  laddr_write_low :: u8
  write_size_low :: u16
  write_size_high :: u32

definition put_signal_request_1_of :: "u64 \<Rightarrow> put_signal_request_1" where
  "put_signal_request_1_of w = \<lparr>s1_flag = ucast w, laddr_write_low = ucast (drop_bit 8 w),
     write_size_low = ucast (drop_bit 16 w), write_size_high = ucast (drop_bit 32 w)\<rparr>"

record put_signal_request_2 =
  s2_flag :: u8
  s2_pe :: u16
  s2_qp_index :: u32

definition put_signal_request_2_of :: "u64 \<Rightarrow> put_signal_request_2" where
  "put_signal_request_2_of w =
     \<lparr>s2_flag = ucast w, s2_pe = ucast (drop_bit 16 w), s2_qp_index = ucast (drop_bit 32 w)\<rparr>"

record put_signal_request_3 =
  s3_flag :: u8
  sigval_low :: u8
  s3_sig_op :: u8
  rsigoffset_low :: u8
  rsigoffset_high :: u32

definition put_signal_request_3_of :: "u64 \<Rightarrow> put_signal_request_3" where
  "put_signal_request_3_of w = \<lparr>s3_flag = ucast w, sigval_low = ucast (drop_bit 8 w),
     s3_sig_op = ucast (drop_bit 16 w), rsigoffset_low = ucast (drop_bit 24 w),
     rsigoffset_high = ucast (drop_bit 32 w)\<rparr>"

record put_signal_request_4 =
  s4_flag :: u8
  sigval_2 :: u8
  sigval_3 :: u16
  sigval_high :: u32

definition put_signal_request_4_of :: "u64 \<Rightarrow> put_signal_request_4" where
  "put_signal_request_4_of w = \<lparr>s4_flag = ucast w, sigval_2 = ucast (drop_bit 8 w),
     sigval_3 = ucast (drop_bit 16 w), sigval_high = ucast (drop_bit 32 w)\<rparr>"

lemmas request_readers = base_request_of_def qp_sync_base_request_of_def qp_sync_request_0_of_def
  put_dma_request_0_of_def put_dma_request_1_of_def put_dma_request_2_of_def
  put_inline_request_0_of_def put_inline_request_1_of_def put_inline_request_2_of_def
  amo_request_0_of_def amo_request_1_of_def put_signal_request_0_of_def put_signal_request_1_of_def
  put_signal_request_2_of_def put_signal_request_3_of_def put_signal_request_4_of_def

section \<open>What the device stores\<close>

text \<open>The flag of the entry at byte counter \<open>idx\<close>: 1 on even laps over the ring, 0 on odd ones.\<close>

definition curr_flag :: "u64 \<Rightarrow> u64" where
  "curr_flag idx = (if drop_bit CHANNEL_BUF_SIZE_LOG idx AND 1 = 0 then 1 else 0)"

text \<open>
  \<open>transfer_dma\<close>: the payloads of its four entries. \<open>op\<close>, \<open>pe\<close> and \<open>qp_index\<close> are C \<open>int\<close>s, kept at
  their width; \<open>pe\<close> is cut to 16 bits as in the code.
\<close>

definition transfer_dma :: "u64 \<Rightarrow> u64 \<Rightarrow> u64 \<Rightarrow> u64 \<Rightarrow> u32 \<Rightarrow> u64 \<Rightarrow> u32 \<Rightarrow> u64 list" where
  "transfer_dma base_ptr rptr lptr bytes pe channel_op qp_index =
     (let channel_op = (if qp_index \<noteq> NVSHMEMX_QP_DEFAULT then channel_op + NVSHMEMI_OP_QP_OP_OFFSET
                        else channel_op);
          roffset = rptr - base_ptr;
          laddr = lptr;
          op = channel_op;
          pe_u16 = (ucast pe :: u16);
          size_u64 = bytes;
          laddr_high = laddr AND 0xFFFFFFFFFFFFFF00;
          laddr_low = laddr AND 0x00000000000000FF
      in [push_bit 24 roffset OR push_bit 16 op OR push_bit 8 1,
          laddr_high,
          push_bit 16 size_u64 OR push_bit 8 laddr_low,
          push_bit 32 (ucast qp_index) OR push_bit 16 (ucast pe_u16)])"

text \<open>\<open>nvshmemi_proxy_rma_nbi\<close> posts nothing for an empty transfer.\<close>

definition nvshmemi_proxy_rma_nbi :: "u64 \<Rightarrow> u64 \<Rightarrow> u64 \<Rightarrow> u64 \<Rightarrow> u32 \<Rightarrow> u64 \<Rightarrow> u32 \<Rightarrow> u64 list option" where
  "nvshmemi_proxy_rma_nbi base_ptr rptr lptr bytes pe op qp_index =
     (if bytes = 0 then None else Some (transfer_dma base_ptr rptr lptr bytes pe op qp_index))"

definition nvshmemi_proxy_put_signal_nbi ::
  "u64 \<Rightarrow> u64 \<Rightarrow> u64 \<Rightarrow> u64 \<Rightarrow> u32 \<Rightarrow> u64 \<Rightarrow> u64 \<Rightarrow> u64 \<Rightarrow> u64 \<Rightarrow> u32 \<Rightarrow> u64 list" where
  "nvshmemi_proxy_put_signal_nbi base_ptr rwrite_ptr lwrite_ptr write_bytes pe channel_op sig_addr sig_val
     sig_op qp_index =
     (let channel_op = (if qp_index \<noteq> NVSHMEMX_QP_DEFAULT then channel_op + NVSHMEMI_OP_QP_OP_OFFSET
                        else channel_op);
          rwrite_offset = rwrite_ptr - base_ptr;
          lwrite_addr = lwrite_ptr;
          op = channel_op;
          pe_u16 = (ucast pe :: u16);
          write_size_u64 = write_bytes;
          laddr_write_high = lwrite_addr AND 0xFFFFFFFFFFFFFF00;
          lwrite_addr_low = lwrite_addr AND 0x00000000000000FF;
          rsigoffset = sig_addr - base_ptr;
          sigval_low = sig_val AND 0x00000000000000FF;
          sigval_high = sig_val AND 0xFFFFFFFFFFFFFF00
      in [push_bit 24 rwrite_offset OR push_bit 16 op OR push_bit 8 1,
          laddr_write_high,
          push_bit 16 write_size_u64 OR push_bit 8 lwrite_addr_low,
          push_bit 32 (ucast qp_index) OR push_bit 16 (ucast pe_u16),
          push_bit 24 rsigoffset OR push_bit 16 sig_op OR push_bit 8 sigval_low,
          sigval_high])"

text \<open>
  \<open>convert_val_to_uint64\<close>: the value's first \<open>size\<close> bytes, zero extended; any other size only prints a
  message and leaves the destination alone.
\<close>

definition convert_val_to_uint64 :: "u64 \<Rightarrow> u64 \<Rightarrow> u64 \<Rightarrow> u64" where
  "convert_val_to_uint64 dest val sz =
     (if sz = 1 then ucast (ucast val :: u8)
      else if sz = 2 then ucast (ucast val :: u16)
      else if sz = 4 then ucast (ucast val :: u32)
      else if sz = 8 then val
      else dest)"

definition transfer_inline :: "u64 \<Rightarrow> u64 \<Rightarrow> u64 \<Rightarrow> u64 \<Rightarrow> u32 \<Rightarrow> u64 \<Rightarrow> u32 \<Rightarrow> u64 list" where
  "transfer_inline base_ptr rptr val sizeof_T pe optype qp_index =
     (let roffset = rptr - base_ptr;
          op = optype;
          pe_u16 = (ucast pe :: u16);
          size_u64 = sizeof_T;
          lvalue_buffer = convert_val_to_uint64 0 val sizeof_T;
          lvalue_low = lvalue_buffer AND 0x00000000ffffffff;
          lvalue_high = lvalue_buffer AND NOT 0x00000000ffffffff
      in [push_bit 24 roffset OR push_bit 16 op OR push_bit 8 1,
          push_bit 32 lvalue_low OR push_bit 16 (ucast pe_u16),
          lvalue_high OR push_bit 16 size_u64] @
         (if qp_index \<noteq> NVSHMEMX_QP_DEFAULT then [push_bit 32 (ucast qp_index)] else []))"

definition nvshmemi_proxy_rma_p :: "u64 \<Rightarrow> u64 \<Rightarrow> u64 \<Rightarrow> u64 \<Rightarrow> u32 \<Rightarrow> u32 \<Rightarrow> u64 list" where
  "nvshmemi_proxy_rma_p base_ptr rptr val sizeof_T pe qp_index =
     (if qp_index \<noteq> NVSHMEMX_QP_DEFAULT
      then transfer_inline base_ptr rptr val sizeof_T pe NVSHMEMI_OP_P_QP qp_index
      else transfer_inline base_ptr rptr val sizeof_T pe NVSHMEMI_OP_P qp_index)"

text \<open>
  \<open>amo\<close>: \<open>junk\<close> is the content of its two uninitialised 64-bit locals, which
  \<open>convert_val_to_uint64\<close> leaves alone for a size other than 1, 2, 4 and 8.
\<close>

definition amo :: "u64 \<Rightarrow> u64 \<Rightarrow> u64 \<Rightarrow> u64 \<Rightarrow> u64 \<Rightarrow> u64 \<Rightarrow> u64 \<Rightarrow> u32 \<Rightarrow> u64 \<Rightarrow> u32 \<Rightarrow> u64 list" where
  "amo junk base_ptr rptr g_buf_counter swap_add compare sizeof_T pe amo_op qp_index =
     (let roffset = rptr - base_ptr;
          pe_u16 = (ucast pe :: u16);
          size_u64 = sizeof_T;
          op = (if qp_index \<noteq> NVSHMEMX_QP_DEFAULT then NVSHMEMI_OP_AMO_QP else NVSHMEMI_OP_AMO);
          swap_add_buffer = convert_val_to_uint64 junk swap_add sizeof_T;
          compare_buffer = convert_val_to_uint64 junk compare sizeof_T;
          swap_add_low = swap_add_buffer AND 0x00000000FFFFFFFF;
          swap_add_high = swap_add_buffer AND NOT 0x00000000FFFFFFFF;
          compare_low = compare_buffer AND 0x00000000000000FF;
          compare_high = compare_buffer AND NOT 0x00000000000000FF;
          g_buf_counter_low = g_buf_counter AND 0x00FFFFFFFFFFFFFF
      in [push_bit 24 roffset OR push_bit 16 op OR push_bit 8 1,
          push_bit 32 swap_add_low OR push_bit 16 (ucast pe_u16) OR push_bit 8 amo_op,
          swap_add_high OR push_bit 16 size_u64 OR push_bit 8 compare_low,
          compare_high,
          push_bit 8 g_buf_counter_low] @
         (if qp_index \<noteq> NVSHMEMX_QP_DEFAULT then [push_bit 32 (ucast qp_index)] else []))"

definition proxy_fence :: "u64 list" where
  "proxy_fence = [push_bit 16 NVSHMEMI_OP_FENCE]"

text \<open>The two synchronisation requests that name queue pairs. \<open>num_qps\<close> is the length of the handle array.\<close>

definition proxy_qp_quiet :: "u32 \<Rightarrow> u32 list \<Rightarrow> u64 list" where
  "proxy_qp_quiet pe qp_handle =
     (let op = NVSHMEMI_OP_QUIET_QP; qp_count = of_nat (length qp_handle); pe_u16 = (ucast pe :: u16)
      in (push_bit 32 qp_count OR push_bit 16 op) #
         map (\<lambda>qp. push_bit 32 (ucast qp) OR push_bit 16 (ucast pe_u16) OR push_bit 8 op) qp_handle)"

definition proxy_fence_qp :: "u32 \<Rightarrow> u32 list \<Rightarrow> u64 list" where
  "proxy_fence_qp pe qp_handle =
     (let op = NVSHMEMI_OP_FENCE_QP; qp_count = of_nat (length qp_handle)
      in (push_bit 32 qp_count OR push_bit 16 op) #
         map (\<lambda>qp. push_bit 32 (ucast qp) OR push_bit 16 op OR push_bit 8 (scast pe)) qp_handle)"

definition nvshmemi_proxy_fence :: "u32 \<Rightarrow> u32 list option \<Rightarrow> u64 list" where
  "nvshmemi_proxy_fence pe qp_handle =
     (case qp_handle of
        None \<Rightarrow> proxy_fence
      | Some qps \<Rightarrow> if pe = NVSHMEMX_PE_ALL then proxy_fence else proxy_fence_qp pe qps)"

section \<open>What the host makes of it\<close>

text \<open>The fields of \<open>process_channel_dma\<close>, from the four entries it waits for.\<close>

record dma_fields =
  dma_desc :: u64
  dma_roffset :: u64
  dma_laddr :: u64
  dma_size :: u64
  dma_pe :: u16
  dma_qp :: u32

definition read_roffset :: "base_request \<Rightarrow> u64" where
  "read_roffset b = push_bit 8 (ucast (br_roffset_high b)) OR ucast (br_roffset_low b)"

definition read_dma :: "u64 \<Rightarrow> u64 \<Rightarrow> u64 \<Rightarrow> u64 \<Rightarrow> dma_fields" where
  "read_dma w0 w1 w2 w3 =
     (let base_req = base_request_of w0;
          dma_req_0 = put_dma_request_0_of w1;
          dma_req_1 = put_dma_request_1_of w2;
          dma_req_2 = put_dma_request_2_of w3;
          op = (ucast (br_op base_req) :: u64)
      in \<lparr>dma_desc = (if op > NVSHMEMI_OP_QP_OP_OFFSET then op - NVSHMEMI_OP_QP_OP_OFFSET else op),
          dma_roffset = read_roffset base_req,
          dma_laddr = push_bit 32 (ucast (laddr_high dma_req_0)) OR push_bit 16 (ucast (laddr_3 dma_req_0)) OR
            push_bit 8 (ucast (laddr_2 dma_req_0)) OR ucast (laddr_low dma_req_1),
          dma_size = push_bit 16 (ucast (size_high dma_req_1)) OR ucast (size_low dma_req_1),
          dma_pe = d2_pe dma_req_2,
          dma_qp = (if op \<ge> NVSHMEMI_OP_QP_OP_OFFSET then d2_qp_index dma_req_2 else NVSHMEMX_QP_DEFAULT)\<rparr>)"

record inline_fields =
  inl_roffset :: u64
  inl_lvalue :: u64
  inl_size :: u64
  inl_pe :: u16
  inl_qp :: u32

definition read_inline :: "u64 \<Rightarrow> u64 \<Rightarrow> u64 \<Rightarrow> u64 option \<Rightarrow> inline_fields" where
  "read_inline w0 w1 w2 w3 =
     (let inline_req_0 = put_inline_request_0_of w1;
          inline_req_1 = put_inline_request_1_of w2;
          sz = (ucast (i1_size inline_req_1) :: u64);
          lvalue = (ucast (lvalue_low inline_req_0) :: u64)
      in \<lparr>inl_roffset = read_roffset (base_request_of w0),
          inl_lvalue = (if sz = 8 then lvalue OR push_bit 32 (ucast (lvalue_high inline_req_1)) else lvalue),
          inl_size = sz,
          inl_pe = i0_pe inline_req_0,
          inl_qp = (case w3 of None \<Rightarrow> NVSHMEMX_QP_DEFAULT
                    | Some w \<Rightarrow> i2_qp_index (put_inline_request_2_of w))\<rparr>)"

record amo_fields =
  amo_op :: u8
  amo_roffset :: u64
  amo_lvalue :: u64
  amo_cvalue :: u64
  amo_g_counter :: u64
  amo_size :: u64
  amo_pe :: u16
  amo_qp :: u32

definition read_amo :: "u64 \<Rightarrow> u64 \<Rightarrow> u64 \<Rightarrow> u64 \<Rightarrow> u64 \<Rightarrow> u64 option \<Rightarrow> amo_fields" where
  "read_amo w0 w1 w2 w3 w4 w5 =
     (let req_0 = amo_request_0_of w1;
          req_1 = amo_request_1_of w2;
          lvalue = (ucast (swap_add_low req_0) :: u64)
      in \<lparr>amo_op = a0_amo req_0,
          amo_roffset = read_roffset (base_request_of w0),
          amo_lvalue = lvalue OR push_bit 32 (ucast (swap_add_high req_1)),
          amo_cvalue = (if a0_amo req_0 = NVSHMEMI_AMO_COMPARE_SWAP
                        then (w3 AND 0xFFFFFFFFFFFFFF00) OR ucast (compare_low req_1) else 0),
          amo_g_counter = drop_bit 8 (w4 AND 0xFFFFFFFFFFFFFF00),
          amo_size = ucast (a1_size req_1),
          amo_pe = a0_pe req_0,
          amo_qp = (case w5 of None \<Rightarrow> NVSHMEMX_QP_DEFAULT
                    | Some w \<Rightarrow> i2_qp_index (put_inline_request_2_of w))\<rparr>)"

record put_signal_fields =
  ps_roffset :: u64
  ps_laddr :: u64
  ps_size :: u64
  ps_pe :: u16
  ps_qp :: u32
  ps_sig_op :: u8
  ps_rsig_offset :: u64
  ps_sig_val :: u64

definition read_put_signal :: "u64 \<Rightarrow> u64 \<Rightarrow> u64 \<Rightarrow> u64 \<Rightarrow> u64 \<Rightarrow> u64 \<Rightarrow> put_signal_fields" where
  "read_put_signal w0 w1 w2 w3 w4 w5 =
     (let base_req = base_request_of w0;
          ps_req_0 = put_signal_request_0_of w1;
          ps_req_1 = put_signal_request_1_of w2;
          ps_req_2 = put_signal_request_2_of w3;
          ps_req_3 = put_signal_request_3_of w4;
          ps_req_4 = put_signal_request_4_of w5;
          op = (ucast (br_op base_req) :: u64)
      in \<lparr>ps_roffset = read_roffset base_req,
          ps_laddr = push_bit 32 (ucast (laddr_write_high ps_req_0)) OR
            push_bit 16 (ucast (laddr_write_3 ps_req_0)) OR push_bit 8 (ucast (laddr_write_2 ps_req_0)) OR
            ucast (laddr_write_low ps_req_1),
          ps_size = push_bit 16 (ucast (write_size_high ps_req_1)) OR ucast (write_size_low ps_req_1),
          ps_pe = s2_pe ps_req_2,
          ps_qp = (if op \<ge> NVSHMEMI_OP_QP_OP_OFFSET then s2_qp_index ps_req_2 else NVSHMEMX_QP_DEFAULT),
          ps_sig_op = s3_sig_op ps_req_3,
          ps_rsig_offset = push_bit 8 (ucast (rsigoffset_high ps_req_3)) OR ucast (rsigoffset_low ps_req_3),
          ps_sig_val = push_bit 32 (ucast (sigval_high ps_req_4)) OR push_bit 16 (ucast (sigval_3 ps_req_4)) OR
            push_bit 8 (ucast (sigval_2 ps_req_4)) OR ucast (sigval_low ps_req_3)\<rparr>)"

text \<open>The number of queue pairs of a synchronisation request, and one of its (PE, queue pair) entries.\<close>

definition read_qp_count :: "u64 \<Rightarrow> int" where
  "read_qp_count w = sint (qp_count (qp_sync_base_request_of w))"

definition read_qp_sync :: "u64 \<Rightarrow> u16 \<times> u32" where
  "read_qp_sync w = (let r = qp_sync_request_0_of w in (qs_pe r, qs_qp_index r))"

end
