(* ===== verification/Proxy_Ring.thy ===== *)
theory Proxy_Ring
  imports Proxy_Channel
begin

text \<open>
  The lock-free ring between GPU threads and the host proxy: reservation by \<open>atomicAdd\<close>, flow control
  by \<open>check_channel_availability\<close>, entry-wise stores in any interleaving of the GPU threads, and the
  host that consumes whole requests in order and publishes its progress by
  \<open>proxy_update_processed\<close>. Each action is a function on \<open>ring_state\<close>; \<open>ring_step\<close> interleaves them.
\<close>

section \<open>The channel\<close>

record proxy_channel =
  buf :: "u64 \<Rightarrow> u64"
  issue :: u64
  complete :: u64
  quiet_issue :: u64
  quiet_ack :: u64
  last_quiet_issue :: u64
  cst_issue :: u64
  cst_ack :: u64
  last_cst_issue :: u64
  processed :: u64
  last_sync :: u64

text \<open>\<open>nvshmemi_proxy_create_channels\<close>: everything zeroed.\<close>

definition proxy_channel_new :: proxy_channel where
  "proxy_channel_new = \<lparr>buf = (\<lambda>_. 0), issue = 0, complete = 0, quiet_issue = 0, quiet_ack = 0,
     last_quiet_issue = 0, cst_issue = 0, cst_ack = 0, last_cst_issue = 0, processed = 0, last_sync = 0\<rparr>"

definition COUNTER_TO_FLAG :: "u64 \<Rightarrow> u8" where
  "COUNTER_TO_FLAG counter = (if drop_bit CHANNEL_BUF_SIZE_LOG counter AND 1 = 0 then 1 else 0)"

text \<open>The buffer is addressed by the byte offset of an 8-byte entry.\<close>

definition WRAPPED_CHANNEL_BUF :: "u64 \<Rightarrow> u64" where
  "WRAPPED_CHANNEL_BUF counter = counter AND (CHANNEL_BUF_SIZE - 1)"

definition proxy_update_processed :: "proxy_channel \<Rightarrow> u64 \<Rightarrow> bool \<Rightarrow> proxy_channel" where
  "proxy_update_processed ch bytes force_update =
     (let ch = ch\<lparr>processed := processed ch + bytes\<rparr>
      in if processed ch - last_sync ch \<ge> 1024 \<or> force_update
         then ch\<lparr>complete := processed ch, last_sync := processed ch\<rparr>
         else ch)"

text \<open>
  \<open>check_channel_availability\<close>: the cached counter is tried first; otherwise the thread spins on the
  host's counter (\<open>None\<close>) and, once it suffices, raises the cache.
\<close>

definition check_channel_availability :: "u64 \<Rightarrow> u64 \<Rightarrow> u64 \<Rightarrow> u64 option" where
  "check_channel_availability complete_local complete_host tail_idx =
     (if complete_local + CHANNEL_BUF_SIZE - 1 < tail_idx
      then if complete_host + (CHANNEL_BUF_SIZE - 1) < tail_idx then None
           else Some (max complete_local complete_host)
      else Some complete_local)"

text \<open>
  The number of entries of a request, from its base entry: the sizes that the branches of
  \<open>progress_channels\<close> hand to \<open>proxy_update_processed\<close>. \<open>None\<close> is the exit on an invalid operation, and
  also a negative number of queue pairs, which would move the host's counter backwards.
\<close>

definition request_entries :: "u64 \<Rightarrow> nat option" where
  "request_entries w =
     (let op = (ucast (br_op (base_request_of w)) :: u64)
      in if op \<in> {NVSHMEMI_OP_PUT, NVSHMEMI_OP_PUT_QP, NVSHMEMI_OP_G, NVSHMEMI_OP_G_QP, NVSHMEMI_OP_GET, NVSHMEMI_OP_GET_QP}
         then Some 4
         else if op = NVSHMEMI_OP_P then Some 3
         else if op = NVSHMEMI_OP_P_QP then Some 4
         else if op = NVSHMEMI_OP_AMO then Some 5
         else if op = NVSHMEMI_OP_AMO_QP then Some 6
         else if op = NVSHMEMI_OP_FENCE then Some 1
         else if op \<in> {NVSHMEMI_OP_FENCE_QP, NVSHMEMI_OP_QUIET_QP}
         then if read_qp_count w < 0 then None else Some (nat (read_qp_count w) + 1)
         else if op \<in> {NVSHMEMI_OP_PUT_SIGNAL, NVSHMEMI_OP_PUT_SIGNAL_QP} then Some 6
         else None)"

section \<open>The interleaved system\<close>

text \<open>A GPU thread between its \<open>atomicAdd\<close> and its last store.\<close>

record dev_thread =
  t_idx :: u64
  t_words :: "u64 list"
  t_ready :: bool

text \<open>
  \<open>posted\<close> and \<open>delivered\<close> are histories: the requests in the order of their reservation, and the
  entries the host has read, request by request.
\<close>

record ring_state =
  chan :: proxy_channel
  complete_local :: u64
  threads :: "dev_thread list"
  posted :: "u64 list list"
  delivered :: "u64 list list"

definition ring_new :: ring_state where
  "ring_new = \<lparr>chan = proxy_channel_new, complete_local = 0, threads = [], posted = [], delivered = []\<rparr>"

definition req_bytes :: "u64 list \<Rightarrow> u64" where
  "req_bytes ws = of_nat (length ws) * CHANNEL_ENTRY_BYTES"

definition reserve :: "u64 list \<Rightarrow> ring_state \<Rightarrow> ring_state" where
  "reserve ws s =
     (let idx = issue (chan s)
      in s\<lparr>chan := (chan s)\<lparr>issue := idx + req_bytes ws\<rparr>,
           threads := threads s @ [\<lparr>t_idx = idx, t_words = ws, t_ready = False\<rparr>],
           posted := posted s @ [ws]\<rparr>)"

definition admit :: "nat \<Rightarrow> ring_state \<Rightarrow> ring_state option" where
  "admit i s =
     (if i < length (threads s) \<and> \<not> t_ready (threads s ! i) then
        (let t = threads s ! i; tail_idx = t_idx t + (req_bytes (t_words t) - 1)
         in case check_channel_availability (complete_local s) (complete (chan s)) tail_idx of
              None \<Rightarrow> None
            | Some c \<Rightarrow> Some (s\<lparr>complete_local := c, threads := (threads s)[i := t\<lparr>t_ready := True\<rparr>]\<rparr>))
      else None)"

definition store_entry :: "nat \<Rightarrow> ring_state \<Rightarrow> ring_state option" where
  "store_entry i s =
     (if i < length (threads s) \<and> t_ready (threads s ! i) then
        (let t = threads s ! i
         in case t_words t of
              [] \<Rightarrow> None
            | w # ws \<Rightarrow>
                Some (s\<lparr>chan := (chan s)\<lparr>buf := (buf (chan s))(WRAPPED_CHANNEL_BUF (t_idx t) := w OR curr_flag (t_idx t))\<rparr>,
                        threads := (threads s)[i := t\<lparr>t_idx := t_idx t + CHANNEL_ENTRY_BYTES, t_words := ws\<rparr>]\<rparr>))
      else None)"

definition read_entry :: "proxy_channel \<Rightarrow> u64 \<Rightarrow> u64" where
  "read_entry ch counter = buf ch (WRAPPED_CHANNEL_BUF counter)"

text \<open>The test of \<open>progress_channels\<close> on the base entry looks at the flag's lowest bit only.\<close>

definition base_ready :: "proxy_channel \<Rightarrow> bool" where
  "base_ready ch \<longleftrightarrow> br_flag (base_request_of (read_entry ch (processed ch))) AND 1 = COUNTER_TO_FLAG (processed ch)"

definition entry_ready :: "proxy_channel \<Rightarrow> u64 \<Rightarrow> bool" where
  "entry_ready ch counter \<longleftrightarrow> (ucast (read_entry ch counter) :: u8) = COUNTER_TO_FLAG counter"

text \<open>
  One iteration of the loop of \<open>progress_channels\<close> as far as the ring is concerned: with a base entry
  at hand, wait for the other entries, take the request, and account for it. The waits are spins, so
  an entry that is not there yet makes the step impossible for now.
\<close>

definition host_take :: "ring_state \<Rightarrow> ring_state option" where
  "host_take s =
     (let ch = chan s; counter = processed ch; w = read_entry ch counter
      in if base_ready ch then
           (case request_entries w of
              None \<Rightarrow> None
            | Some n \<Rightarrow>
                if \<forall>i \<in> {1..<n}. entry_ready ch (counter + of_nat i * CHANNEL_ENTRY_BYTES) then
                  Some (s\<lparr>chan := proxy_update_processed ch (of_nat n * CHANNEL_ENTRY_BYTES)
                             ((ucast (br_op (base_request_of w)) :: u64) = NVSHMEMI_OP_QUIET_QP),
                          delivered := delivered s @
                            [map (\<lambda>i. read_entry ch (counter + of_nat i * CHANNEL_ENTRY_BYTES)) [0..<n]]\<rparr>)
                else None)
         else None)"

text \<open>A request the device may post: no flag bits, and a base entry that tells the host its length.\<close>

definition valid_request :: "u64 list \<Rightarrow> bool" where
  "valid_request ws \<longleftrightarrow>
     ws \<noteq> [] \<and> (\<forall>w \<in> set ws. w AND 0xFF = 0) \<and>
     (\<forall>f. request_entries (hd ws OR of_bool f) = Some (length ws)) \<and>
     8 * length ws + 1024 \<le> 2 ^ 22"

inductive ring_step :: "ring_state \<Rightarrow> ring_state \<Rightarrow> bool" where
  step_reserve: "valid_request ws \<Longrightarrow> ring_step s (reserve ws s)"
| step_admit: "admit i s = Some s' \<Longrightarrow> ring_step s s'"
| step_store: "store_entry i s = Some s' \<Longrightarrow> ring_step s s'"
| step_take: "host_take s = Some s' \<Longrightarrow> ring_step s s'"

inductive_cases ring_stepE: "ring_step s s'"

text \<open>The entries of a request as they stand in the buffer, from counter \<open>idx\<close> on.\<close>

fun stamp :: "u64 \<Rightarrow> u64 list \<Rightarrow> u64 list" where
  "stamp idx [] = []"
| "stamp idx (w # ws) = (w OR curr_flag idx) # stamp (idx + CHANNEL_ENTRY_BYTES) ws"

fun stamp_all :: "u64 \<Rightarrow> u64 list list \<Rightarrow> u64 list list" where
  "stamp_all idx [] = []"
| "stamp_all idx (ws # rs) = stamp idx ws # stamp_all (idx + req_bytes ws) rs"

end
