(* ===== verification/Heap_Handles.thy ===== *)
theory Heap_Handles
  imports Local_Buf_Cache
begin

text \<open>
  From an address to the transport's memory handle: the tables of the symmetric heap
  (\<open>nvshmemi_symmetric_heap.hpp\<close>), the address translation macros of \<open>util.h\<close>, and the helpers of
  \<open>nvshmem_internal.h\<close> that look up handles and cut a transfer into pieces that a single handle and a
  single transport operation can carry. PE numbers are \<open>nat\<close>; addresses and sizes are 64-bit words.
\<close>

section \<open>Data\<close>

text \<open>
  A handle is a position in the table it lives in: \<open>remote_handles_[i][sub]\<close>,
  \<open>remote_mmap_handles_[i][sub]\<close>, or a handle of the registered-buffer cache.
\<close>

datatype mem_handle = Heap_Handle nat nat | Mmap_Handle nat nat | Buf_Handle handle_ref

datatype host_exit = Assert_Handle | Uncaught_Out_Of_Range | Table_Out_Of_Bounds | Transport_Failed | Invalid_Op | Null_Transport
  | Flush_Failed | Global_Exit int | Device_Timeout

text \<open>
  An entry of \<open>idx_in_handles\<close> tells, for a granule of the heap, the handle, the start and the size of
  the allocation it belongs to; \<open>idx_in_mmap_handles\<close> is a map, whose \<open>operator[]\<close> default-constructs a
  missing entry. The two dimension fields are the sizes of the handle tables.
\<close>

record heap_obj =
  heap_base :: u64
  heap_size :: u64
  log2_mem_granularity :: nat
  mmap_allocated_range :: u64
  idx_in_handles :: "(nat \<times> u64 \<times> u64) list"
  idx_in_mmap_handles :: "nat \<Rightarrow> (nat \<times> u64 \<times> u64) option"
  remote_mmap_dims :: "nat list"
  remote_pe_base :: "nat \<Rightarrow> u64"

record proxy_env =
  heap :: heap_obj
  enable_rail_opt :: bool
  npes :: nat
  mype :: nat
  npes_node :: nat
  mype_node :: nat
  num_initialized_transports :: nat
  max_op_len :: "nat \<Rightarrow> u64"
  buf_caches :: "nat \<Rightarrow> local_buf_cache"

section \<open>The tables of the heap\<close>

definition get_transport_mem_handle ::
  "heap_obj \<Rightarrow> nat \<Rightarrow> u64 \<Rightarrow> nat \<Rightarrow> nat \<Rightarrow> host_exit + (mem_handle \<times> u64) option" where
  "get_transport_mem_handle h num_transports addr pe transport_idx =
     (if addr < heap_base h \<or> addr > heap_base h + heap_size h then Inr None
      else
        let offset = addr - heap_base h;
            addr_idx = unat (drop_bit (log2_mem_granularity h) offset);
            handle_sub_index = pe * num_transports + transport_idx
        in if addr \<ge> heap_base h + (heap_size h - mmap_allocated_range h)
           then (let (handle_idx, handle_start_addr, handle_size) =
                       (case idx_in_mmap_handles h addr_idx of None \<Rightarrow> (0, 0, 0) | Some e \<Rightarrow> e)
                 in if handle_idx < length (remote_mmap_dims h) \<and> handle_sub_index < remote_mmap_dims h ! handle_idx
                    then Inr (Some (Mmap_Handle handle_idx handle_sub_index, handle_size - (addr - handle_start_addr)))
                    else Inl Uncaught_Out_Of_Range)
           else if addr_idx < length (idx_in_handles h)
           then (let (handle_idx, handle_start_addr, handle_size) = idx_in_handles h ! addr_idx
                 in Inr (Some (Heap_Handle handle_idx handle_sub_index, handle_size - (addr - handle_start_addr))))
           else Inl Table_Out_Of_Bounds)"

definition get_mem_handle_addr_offset :: "heap_obj \<Rightarrow> u64 \<Rightarrow> host_exit + u64" where
  "get_mem_handle_addr_offset h addr =
     (let heap_offset = addr - heap_base h; addr_idx = unat (drop_bit (log2_mem_granularity h) heap_offset)
      in if addr_idx < length (idx_in_handles h)
         then Inr (addr - fst (snd (idx_in_handles h ! addr_idx)))
         else Inl Table_Out_Of_Bounds)"

section \<open>Address translation\<close>

definition NVSHMEMU_PE_TRANSLATE :: "proxy_env \<Rightarrow> nat \<Rightarrow> nat" where
  "NVSHMEMU_PE_TRANSLATE env peer =
     (if enable_rail_opt env then (peer div npes_node env) * npes_node env + mype_node env else peer)"

text \<open>
  The macro assigns two variables: the pointer and, with rail optimisation, \<open>peer\<close> itself. The signed
  distance of the two ranks on their node is multiplied modulo 2^64.
\<close>

definition NVSHMEMU_UNMAPPED_PTR_PE_TRANSLATE :: "proxy_env \<Rightarrow> u64 \<Rightarrow> nat \<Rightarrow> u64 \<times> nat" where
  "NVSHMEMU_UNMAPPED_PTR_PE_TRANSLATE env fromPtr peer =
     (if enable_rail_opt env then
        (let proxy_pe = (peer div npes_node env) * npes_node env + mype_node env
         in (remote_pe_base (heap env) proxy_pe +
               of_int (int (peer mod npes_node env) - int (mype_node env)) * heap_size (heap env) +
               (fromPtr - heap_base (heap env)), proxy_pe))
      else (remote_pe_base (heap env) peer + (fromPtr - heap_base (heap env)), peer))"

section \<open>Handles for a transfer\<close>

text \<open>
  \<open>nvshmemi_get_local_mem_handle\<close> with a length: the heap's tables first, then the registered buffers of
  the transport. A hit in the heap sets the length to what is left of the allocation; the cache only lowers
  it. The read lock of the cache is taken to succeed.
\<close>

definition nvshmemi_get_local_mem_handle :: "proxy_env \<Rightarrow> u64 \<Rightarrow> u64 \<Rightarrow> nat \<Rightarrow> host_exit + mem_handle \<times> u64" where
  "nvshmemi_get_local_mem_handle env len addr transport_idx =
     (case get_transport_mem_handle (heap env) (num_initialized_transports env) addr (mype env) transport_idx of
        Inl e \<Rightarrow> Inl e
      | Inr (Some (handle, len)) \<Rightarrow> Inr (handle, min len (max_op_len env transport_idx))
      | Inr None \<Rightarrow>
          (case nvshmemi_get_registered_buffer_handle 0 (buf_caches env transport_idx) addr len of
             (None, len) \<Rightarrow> Inl Assert_Handle
           | (Some ref, len) \<Rightarrow> Inr (Buf_Handle ref, min len (max_op_len env transport_idx))))"

text \<open>\<open>nvshmemi_get_remote_mem_handle\<close> with a length: the handle, the offset in it and the length.\<close>

definition nvshmemi_get_remote_mem_handle :: "proxy_env \<Rightarrow> u64 \<Rightarrow> nat \<Rightarrow> nat \<Rightarrow> host_exit + mem_handle \<times> u64 \<times> u64" where
  "nvshmemi_get_remote_mem_handle env addr pe transport_idx =
     (case get_transport_mem_handle (heap env) (num_initialized_transports env) addr pe transport_idx of
        Inl e \<Rightarrow> Inl e
      | Inr None \<Rightarrow> (case get_mem_handle_addr_offset (heap env) addr of Inl e \<Rightarrow> Inl e | Inr _ \<Rightarrow> Inl Assert_Handle)
      | Inr (Some (handle, len)) \<Rightarrow>
          (case get_mem_handle_addr_offset (heap env) addr of
             Inl e \<Rightarrow> Inl e
           | Inr off \<Rightarrow> Inr (handle, off, min len (max_op_len env transport_idx))))"

section \<open>Cutting a transfer into pieces\<close>

record rma_call =
  rc_transport :: nat
  rc_pe :: nat
  rc_desc :: u64
  rc_remote_ptr :: u64
  rc_remote_offset :: u64
  rc_remote_handle :: mem_handle
  rc_local_ptr :: u64
  rc_local_handle :: mem_handle
  rc_nelems :: u64
  rc_qp :: u32

text \<open>
  One round of the loop of \<open>nvshmemi_process_multisend_rma\<close>, shared by \<open>process_channel_put_signal\<close>: the
  piece at \<open>lptr\<close>/\<open>rptr\<close>, and the value of \<open>pe\<close> that the macro leaves for the next round.
\<close>

definition rma_piece ::
  "proxy_env \<Rightarrow> nat \<Rightarrow> u64 \<Rightarrow> u64 \<Rightarrow> u64 \<Rightarrow> u64 \<Rightarrow> u32 \<Rightarrow> nat \<Rightarrow> host_exit + rma_call \<times> nat" where
  "rma_piece env transport_id desc rptr lptr size_remaining qp_index pe =
     (let (remote_ptr, pe) = NVSHMEMU_UNMAPPED_PTR_PE_TRANSLATE env rptr pe
      in case nvshmemi_get_local_mem_handle env size_remaining lptr transport_id of
           Inl e \<Rightarrow> Inl e
         | Inr (lhandle, local_chunk_size) \<Rightarrow>
             (case nvshmemi_get_remote_mem_handle env rptr pe transport_id of
                Inl e \<Rightarrow> Inl e
              | Inr (rhandle, off, remote_chunk_size) \<Rightarrow>
                  let chunk_size = min local_chunk_size (min remote_chunk_size size_remaining)
                  in Inr (\<lparr>rc_transport = transport_id, rc_pe = pe, rc_desc = desc, rc_remote_ptr = remote_ptr,
                           rc_remote_offset = off, rc_remote_handle = rhandle, rc_local_ptr = lptr,
                           rc_local_handle = lhandle, rc_nelems = chunk_size, rc_qp = qp_index\<rparr>, pe)))"

text \<open>
  The whole loop. \<open>ok\<close> is the transport's answer to each operation; an operation that fails ends the
  process. The loop need not end: with a piece of length 0 it goes round for ever, which is \<open>None\<close>.
\<close>

partial_function (option) nvshmemi_process_multisend_rma ::
  "proxy_env \<Rightarrow> (rma_call \<Rightarrow> bool) \<Rightarrow> nat \<Rightarrow> u64 \<Rightarrow> u32 \<Rightarrow> nat \<Rightarrow> u64 \<Rightarrow> u64 \<Rightarrow> u64 \<Rightarrow>
     (host_exit + rma_call list) option" where
  "nvshmemi_process_multisend_rma env ok transport_id desc qp_index pe rptr lptr size_remaining =
     (if size_remaining = 0 then Some (Inr [])
      else case rma_piece env transport_id desc rptr lptr size_remaining qp_index pe of
             Inl e \<Rightarrow> Some (Inl e)
           | Inr (call, pe) \<Rightarrow>
               if \<not> ok call then Some (Inl Transport_Failed)
               else let n = rc_nelems call in
                 Option.bind (nvshmemi_process_multisend_rma env ok transport_id desc qp_index pe
                                (rptr + n) (lptr + n) (size_remaining - n))
                   (\<lambda>r. Some (map_sum (\<lambda>e. e) ((#) call) r)))"

declare nvshmemi_process_multisend_rma.simps [code]

end
