(* ===== verification/Proxy_Progress.thy ===== *)
theory Proxy_Progress
  imports Proxy_Ring Heap_Handles
begin

text \<open>
  The host proxy (\<open>proxy.cpp\<close>): what it does with each request, and its progress engine. The operations
  of a transport are recorded in the order they are issued, and a parameter tells whether each succeeds; a
  failure ends the process, as in the code. \<open>None\<close> is a wait that is not over, or a loop that does not end.
  The platform is the x86 build. There is one channel (\<open>CHANNEL_COUNT\<close>); \<open>channel_req\<close> is NULL between
  requests, because every processing function either consumes the request or does not return.
\<close>

section \<open>State\<close>

record amo_call =
  ac_transport :: nat
  ac_pe :: nat
  ac_op :: u8
  ac_remote_ptr :: u64
  ac_remote_offset :: u64
  ac_remote_handle :: mem_handle
  ac_val :: u64
  ac_cmp :: u64
  ac_ret :: "(u64 \<times> u64 \<times> mem_handle) option"
  ac_bytes :: u64
  ac_qp :: u32

record p_call =
  pc_transport :: nat
  pc_pe :: nat
  pc_remote_ptr :: u64
  pc_remote_offset :: u64
  pc_remote_handle :: mem_handle
  pc_value :: u64
  pc_bytes :: u64
  pc_qp :: u32

datatype transport_call =
    Rma rma_call
  | P_Rma p_call
  | Amo amo_call
  | Put_Signal nat nat "rma_call list" amo_call u32
  | Fence nat nat u32 bool
  | Quiet nat nat u32
  | Enforce_Cst nat
  | Cu_Flush
  | Transport_Progress nat

datatype quiet_status = QUIET_INACTIVE | QUIET_IN_PROGRESS | QUIET_DONE

datatype cst_status = CST_INACTIVE | CST_ACTIVE

text \<open>
  What does not change while the proxy runs. \<open>transport_at\<close> is \<open>transport[pe]\<close> (\<open>None\<close> for NULL, and for a
  PE outside the table); the \<open>has_\<close> fields say which entries of a transport's operation table are set;
  \<open>call_ok\<close> is the status of a call.
\<close>

record proxy_params =
  penv :: proxy_env
  transport_at :: "nat \<Rightarrow> nat option"
  has_fence :: "nat \<Rightarrow> bool"
  has_quiet :: "nat \<Rightarrow> bool"
  has_enforce_cst :: "nat \<Rightarrow> bool"
  has_progress :: "nat \<Rightarrow> bool"
  transport_bit :: "nat \<Rightarrow> bool"
  proxy_transport_bit :: "nat \<Rightarrow> bool"
  transport_connected :: "nat \<Rightarrow> bool"
  transport_is_ibgda :: "nat \<Rightarrow> bool"
  call_ok :: "transport_call \<Rightarrow> bool"
  g_buf :: u64
  g_buf_size :: u64
  g_buf_log_size :: nat
  atomics_complete_on_quiet :: bool
  BYPASS_FLUSH :: bool
  is_consistency_api_supported :: bool
  gdr_device_native_ordering :: int
  has_cuFlush :: bool
  timeout_polling :: bool
  PROXY_REQUEST_BATCH_MAX :: nat

record host_state =
  hchan :: proxy_channel
  quiet_in_progress :: quiet_status
  cst_in_progress :: cst_status
  issued_get :: bool
  calls :: "transport_call list"
  global_exit_request_state :: int
  global_exit_code :: int
  timeout_signal :: bool

definition NVSHMEMX_QP_ALL :: u32 where "NVSHMEMX_QP_ALL = 0x7FFFFFFF"
definition CU_FLUSH_GPU_DIRECT_RDMA_WRITES_TO_OWNER :: int where "CU_FLUSH_GPU_DIRECT_RDMA_WRITES_TO_OWNER = 100"
definition PROXY_GLOBAL_EXIT_NOT_REQUESTED :: int where "PROXY_GLOBAL_EXIT_NOT_REQUESTED = 0"
definition PROXY_GLOBAL_EXIT_INIT :: int where "PROXY_GLOBAL_EXIT_INIT = 1"
definition PROXY_GLOBAL_EXIT_REQUESTED :: int where "PROXY_GLOBAL_EXIT_REQUESTED = 2"

text \<open>
  The state \<open>nvshmemi_proxy_init\<close> starts the progress thread with. The two words of the global exit are
  allocated by \<open>cudaMallocHost\<close> and not written: \<open>req\<close> and \<open>code\<close> are what they happen to contain.
\<close>

definition proxy_init_state :: "int \<Rightarrow> int \<Rightarrow> host_state" where
  "proxy_init_state req code = \<lparr>hchan = proxy_channel_new, quiet_in_progress = QUIET_INACTIVE, cst_in_progress = CST_INACTIVE,
     issued_get = False, calls = [], global_exit_request_state = req, global_exit_code = code,
     timeout_signal = False\<rparr>"

text \<open>
  Make calls one after the other; the first that fails ends the process. \<open>None\<close> stands for a call through
  a NULL pointer, which ends it as well.
\<close>

fun call_failure :: "transport_call \<Rightarrow> host_exit" where
  "call_failure Cu_Flush = Flush_Failed"
| "call_failure _ = Transport_Failed"

fun issue_steps :: "proxy_params \<Rightarrow> transport_call option list \<Rightarrow> host_state \<Rightarrow> host_exit + host_state" where
  "issue_steps p [] st = Inr st"
| "issue_steps p (None # cs) st = Inl Null_Transport"
| "issue_steps p (Some c # cs) st =
     (if call_ok p c then issue_steps p cs (st\<lparr>calls := calls st @ [c]\<rparr>) else Inl (call_failure c))"

definition hentry :: "host_state \<Rightarrow> nat \<Rightarrow> u64" where
  "hentry st i = read_entry (hchan st) (processed (hchan st) + of_nat i * CHANNEL_ENTRY_BYTES)"

text \<open>Entries 1 to \<open>n - 1\<close> of the request are there.\<close>

definition hentries_ready :: "host_state \<Rightarrow> nat \<Rightarrow> bool" where
  "hentries_ready st n \<longleftrightarrow> (\<forall>i \<in> {1..<n}. entry_ready (hchan st) (processed (hchan st) + of_nat i * CHANNEL_ENTRY_BYTES))"

definition is_qp_op :: "u64 \<Rightarrow> bool" where
  "is_qp_op w \<longleftrightarrow> (ucast (br_op (base_request_of w)) :: u64) \<ge> NVSHMEMI_OP_QP_OP_OFFSET"

abbreviation transport_id :: "proxy_params \<Rightarrow> nat \<Rightarrow> nat" where
  "transport_id p pe \<equiv> (case transport_at p pe of None \<Rightarrow> 0 | Some t \<Rightarrow> t)"

section \<open>Requests\<close>

definition process_channel_dma :: "proxy_params \<Rightarrow> host_state \<Rightarrow> (host_exit + host_state) option" where
  "process_channel_dma p st =
     (if \<not> hentries_ready st 4 then None
      else
        let r = read_dma (hentry st 0) (hentry st 1) (hentry st 2) (hentry st 3);
            pe = unat (dma_pe r);
            rptr = heap_base (heap (penv p)) + dma_roffset r
        in case nvshmemi_process_multisend_rma (penv p) (\<lambda>c. transport_at p pe \<noteq> None \<and> call_ok p (Rma c)) (transport_id p pe)
                  (dma_desc r) (dma_qp r) pe rptr (dma_laddr r) (dma_size r) of
             None \<Rightarrow> None
           | Some (Inl e) \<Rightarrow> Some (Inl (if e = Transport_Failed \<and> transport_at p pe = None then Null_Transport else e))
           | Some (Inr cs) \<Rightarrow>
               Some (Inr (st\<lparr>calls := calls st @ map Rma cs,
                              hchan := proxy_update_processed (hchan st) PROXY_DMA_REQ_BYTES False\<rparr>)))"

definition process_channel_inline :: "proxy_params \<Rightarrow> host_state \<Rightarrow> (host_exit + host_state) option" where
  "process_channel_inline p st =
     (let qp = is_qp_op (hentry st 0)
      in if \<not> hentries_ready st (if qp then 4 else 3) then None
         else
           let r = read_inline (hentry st 0) (hentry st 1) (hentry st 2) (if qp then Some (hentry st 3) else None);
               remote = heap_base (heap (penv p)) + inl_roffset r;
               (remote_actual, pe) = NVSHMEMU_UNMAPPED_PTR_PE_TRANSLATE (penv p) remote (unat (inl_pe r));
               t = transport_id p pe
           in case nvshmemi_get_remote_mem_handle (penv p) remote pe t of
                Inl e \<Rightarrow> Some (Inl e)
              | Inr (handle, off, _) \<Rightarrow>
                  (case issue_steps p [if transport_at p pe = None then None else Some (P_Rma \<lparr>pc_transport = t, pc_pe = pe, pc_remote_ptr = remote_actual,
                              pc_remote_offset = off, pc_remote_handle = handle, pc_value = inl_lvalue r,
                              pc_bytes = inl_size r, pc_qp = inl_qp r\<rparr>)] st of
                     Inl e \<Rightarrow> Some (Inl e)
                   | Inr st \<Rightarrow>
                       Some (Inr (st\<lparr>hchan := proxy_update_processed (hchan st)
                         (if qp then PROXY_INLINE_REQ_BYTES + CHANNEL_ENTRY_BYTES else PROXY_INLINE_REQ_BYTES) False\<rparr>))))"

text \<open>
  The spot in the buffer of fetched values, its flag and its handle; \<open>sizeof(g_elem_t)\<close> is 16. The handle
  lookup has no length to lower, so a hit in the registered buffers dereferences NULL.
\<close>

definition amo_retptr :: "proxy_params \<Rightarrow> u64 \<Rightarrow> u64" where
  "amo_retptr p g_buf_counter = g_buf p + ((g_buf_counter * 16) AND (g_buf_size p - 1))"

definition amo_retflag :: "proxy_params \<Rightarrow> u64 \<Rightarrow> u64" where
  "amo_retflag p g_buf_counter = drop_bit (g_buf_log_size p) (g_buf_counter * 16) * 2 + 1"

definition amo_fetch_slot :: "proxy_params \<Rightarrow> nat \<Rightarrow> u64 \<Rightarrow> host_exit + u64 \<times> u64 \<times> mem_handle" where
  "amo_fetch_slot p t g_buf_counter =
     (let retptr = amo_retptr p g_buf_counter;
          retflag = amo_retflag p g_buf_counter;
          env = penv p
      in case get_transport_mem_handle (heap env) (num_initialized_transports env) retptr (mype env) t of
           Inl e \<Rightarrow> Inl e
         | Inr (Some (handle, _)) \<Rightarrow> Inr (retptr, retflag, handle)
         | Inr None \<Rightarrow> (case nvshmemi_get_registered_buffer_handle 0 (buf_caches env t) retptr 0 of
                          (None, _) \<Rightarrow> Inl Assert_Handle | (Some _, _) \<Rightarrow> Inl Null_Transport))"

definition process_channel_amo :: "proxy_params \<Rightarrow> host_state \<Rightarrow> (host_exit + host_state) option" where
  "process_channel_amo p st =
     (let qp = is_qp_op (hentry st 0)
      in if \<not> hentries_ready st (if qp then 6 else 5) then None
         else
           let r = read_amo (hentry st 0) (hentry st 1) (hentry st 2) (hentry st 3) (hentry st 4)
                     (if qp then Some (hentry st 5) else None);
               pe = unat (amo_pe r);
               remote = heap_base (heap (penv p)) + amo_roffset r;
               remote_actual = remote_pe_base (heap (penv p)) pe + amo_roffset r;
               t = transport_id p pe;
               fetch = amo_op r > NVSHMEMI_AMO_END_OF_NONFETCH
           in case nvshmemi_get_remote_mem_handle (penv p) remote pe t of
                Inl e \<Rightarrow> Some (Inl e)
              | Inr (handle, off, _) \<Rightarrow>
                  (case (if fetch then map_sum (\<lambda>e. e) Some (amo_fetch_slot p t (amo_g_counter r)) else Inr None) of
                     Inl e \<Rightarrow> Some (Inl e)
                   | Inr ret \<Rightarrow>
                       (case issue_steps p [if transport_at p pe = None then None else Some (Amo \<lparr>ac_transport = t, ac_pe = pe, ac_op = amo_op r, ac_remote_ptr = remote_actual,
                                   ac_remote_offset = off, ac_remote_handle = handle, ac_val = amo_lvalue r,
                                   ac_cmp = amo_cvalue r, ac_ret = ret, ac_bytes = amo_size r, ac_qp = amo_qp r\<rparr>)] st of
                              Inl e \<Rightarrow> Some (Inl e)
                            | Inr st \<Rightarrow>
                                Some (Inr (st\<lparr>hchan := proxy_update_processed (hchan st)
                                    (if qp then PROXY_AMO_REQ_BYTES + CHANNEL_ENTRY_BYTES else PROXY_AMO_REQ_BYTES) False,
                                  issued_get := issued_get st \<or> fetch \<and> atomics_complete_on_quiet p\<rparr>)))))"

text \<open>The pieces of a put-with-signal; the transport is looked up again for the PE of each round.\<close>

partial_function (option) put_signal_pieces ::
  "proxy_params \<Rightarrow> u32 \<Rightarrow> nat \<Rightarrow> u64 \<Rightarrow> u64 \<Rightarrow> u64 \<Rightarrow> (host_exit + rma_call list \<times> nat) option" where
  "put_signal_pieces p qp pe rwrite_ptr lwrite_ptr size_remaining =
     (if size_remaining = 0 then Some (Inr ([], pe))
      else case rma_piece (penv p) (transport_id p (snd (NVSHMEMU_UNMAPPED_PTR_PE_TRANSLATE (penv p) rwrite_ptr pe)))
                  NVSHMEMI_OP_PUT rwrite_ptr lwrite_ptr size_remaining qp pe of
             Inl e \<Rightarrow> Some (Inl e)
           | Inr (call, pe) \<Rightarrow>
               let n = rc_nelems call in
                 Option.bind (put_signal_pieces p qp pe (rwrite_ptr + n) (lwrite_ptr + n) (size_remaining - n))
                   (\<lambda>r. Some (map_sum (\<lambda>e. e) (\<lambda>(cs, pe). (call # cs, pe)) r)))"

declare put_signal_pieces.simps [code]

definition process_channel_put_signal :: "proxy_params \<Rightarrow> host_state \<Rightarrow> (host_exit + host_state) option" where
  "process_channel_put_signal p st =
     (if \<not> hentries_ready st 6 then None
      else
        let r = read_put_signal (hentry st 0) (hentry st 1) (hentry st 2) (hentry st 3) (hentry st 4) (hentry st 5);
            base = heap_base (heap (penv p))
        in case put_signal_pieces p (ps_qp r) (unat (ps_pe r)) (base + ps_roffset r) (ps_laddr r) (ps_size r) of
             None \<Rightarrow> None
           | Some (Inl e) \<Rightarrow> Some (Inl e)
           | Some (Inr (pieces, pe)) \<Rightarrow>
               let rsig_ptr = base + ps_rsig_offset r;
                   (sig_ptr, pe) = NVSHMEMU_UNMAPPED_PTR_PE_TRANSLATE (penv p) rsig_ptr pe;
                   t = transport_id p pe
               in (case nvshmemi_get_remote_mem_handle (penv p) rsig_ptr pe t of
                     Inl e \<Rightarrow> Some (Inl e)
                   | Inr (handle, off, _) \<Rightarrow>
                       (case issue_steps p [if transport_at p pe = None then None else Some (Put_Signal t pe pieces
                                   \<lparr>ac_transport = t, ac_pe = pe, ac_op = ps_sig_op r, ac_remote_ptr = sig_ptr,
                                    ac_remote_offset = off, ac_remote_handle = handle, ac_val = ps_sig_val r, ac_cmp = 0,
                                    ac_ret = None, ac_bytes = 8, ac_qp = ps_qp r\<rparr> (ps_qp r))] st of
                              Inl e \<Rightarrow> Some (Inl e)
                            | Inr st \<Rightarrow>
                                Some (Inr (st\<lparr>hchan := proxy_update_processed (hchan st) PROXY_PUT_WITH_SIG_REQ_BYTES False\<rparr>)))))"

section \<open>Synchronisation requests\<close>

text \<open>The calls of a loop over PEs.\<close>

definition fence_steps :: "proxy_params \<Rightarrow> u32 \<Rightarrow> bool \<Rightarrow> nat list \<Rightarrow> transport_call option list" where
  "fence_steps p qp multi pes =
     concat (map (\<lambda>pe. case transport_at p pe of
       None \<Rightarrow> [None] | Some t \<Rightarrow> if has_fence p t then [Some (Fence t pe qp multi)] else []) pes)"

definition quiet_steps :: "proxy_params \<Rightarrow> u32 \<Rightarrow> nat list \<Rightarrow> transport_call option list" where
  "quiet_steps p qp pes =
     concat (map (\<lambda>pe. case transport_at p pe of
       None \<Rightarrow> [None] | Some t \<Rightarrow> if has_quiet p t then [Some (Quiet t pe qp)] else []) pes)"

definition process_channel_fence :: "proxy_params \<Rightarrow> host_state \<Rightarrow> (host_exit + host_state) option" where
  "process_channel_fence p st =
     (case issue_steps p (fence_steps p NVSHMEMX_QP_DEFAULT False (filter (\<lambda>i. i \<noteq> mype (penv p)) [0..<npes (penv p)])) st of
        Inl e \<Rightarrow> Some (Inl e)
      | Inr st \<Rightarrow> Some (Inr (st\<lparr>hchan := proxy_update_processed (hchan st) CHANNEL_ENTRY_BYTES False\<rparr>)))"

text \<open>The PEs of one entry of a queue-pair fence, and of a queue-pair quiet.\<close>

definition qp_fence_pes :: "proxy_params \<Rightarrow> u16 \<Rightarrow> nat list" where
  "qp_fence_pes p pe =
     map (NVSHMEMU_PE_TRANSLATE (penv p)) (if ucast pe = NVSHMEMX_PE_ALL then [0..<npes (penv p)] else [unat pe])"

definition qp_quiet_pes :: "proxy_params \<Rightarrow> u16 \<Rightarrow> nat list" where
  "qp_quiet_pes p pe =
     map (\<lambda>j. NVSHMEMU_PE_TRANSLATE (penv p) (j mod npes (penv p)))
       (if ucast pe = NVSHMEMX_PE_ALL then [0..<npes (penv p)] else [unat pe])"

definition qp_sync_bytes :: "int \<Rightarrow> u64" where
  "qp_sync_bytes num_qps = of_int (8 * num_qps + 8)"

definition process_channel_qp_fence :: "proxy_params \<Rightarrow> host_state \<Rightarrow> (host_exit + host_state) option" where
  "process_channel_qp_fence p st =
     (let num_qps = read_qp_count (hentry st 0)
      in if \<not> hentries_ready st (Suc (nat num_qps)) then None
         else case issue_steps p (concat (map (\<lambda>i. case read_qp_sync (hentry st (Suc i)) of
                       (pe, qp) \<Rightarrow> fence_steps p qp (num_qps > 1) (qp_fence_pes p pe)) [0..<nat num_qps])) st of
                Inl e \<Rightarrow> Some (Inl e)
              | Inr st \<Rightarrow> Some (Inr (st\<lparr>hchan := proxy_update_processed (hchan st) (qp_sync_bytes num_qps) False\<rparr>)))"

section \<open>Consistency\<close>

text \<open>\<open>enforce_cst\<close>: the calls it makes.\<close>

definition cst_calls :: "proxy_params \<Rightarrow> transport_call list" where
  "cst_calls p =
     (if BYPASS_FLUSH p then []
      else if is_consistency_api_supported p
      then if CU_FLUSH_GPU_DIRECT_RDMA_WRITES_TO_OWNER > gdr_device_native_ordering p \<and> has_cuFlush p then [Cu_Flush] else []
      else map Enforce_Cst (filter (\<lambda>i. transport_bit p i \<and> has_enforce_cst p i \<and> transport_connected p i)
             [0..<num_initialized_transports (penv p)]))"

definition enforce_cst :: "proxy_params \<Rightarrow> host_state \<Rightarrow> host_exit + host_state" where
  "enforce_cst p st = issue_steps p (map Some (cst_calls p)) st"

definition process_channel_qp_quiet :: "proxy_params \<Rightarrow> host_state \<Rightarrow> (host_exit + host_state) option" where
  "process_channel_qp_quiet p st =
     (let num_qps = read_qp_count (hentry st 0)
      in if \<not> hentries_ready st (Suc (nat num_qps)) then None
         else case issue_steps p (concat (map (\<lambda>i. case read_qp_sync (hentry st (Suc i)) of
                       (pe, qp) \<Rightarrow> quiet_steps p qp (qp_quiet_pes p pe)) [0..<nat num_qps])) st of
                Inl e \<Rightarrow> Some (Inl e)
              | Inr st \<Rightarrow>
                  (case (if issued_get st then enforce_cst p st else Inr st) of
                     Inl e \<Rightarrow> Some (Inl e)
                   | Inr st \<Rightarrow> Some (Inr (st\<lparr>hchan := proxy_update_processed (hchan st) (qp_sync_bytes num_qps) True\<rparr>))))"

section \<open>Quiet and consistency on behalf of the device\<close>

definition quiet_channels_check :: "proxy_channel \<Rightarrow> bool \<times> proxy_channel" where
  "quiet_channels_check ch =
     (if quiet_issue ch > last_quiet_issue ch then (True, ch\<lparr>last_quiet_issue := quiet_issue ch\<rparr>) else (False, ch))"

definition quiet_channels_test :: "proxy_channel \<Rightarrow> bool" where
  "quiet_channels_test ch \<longleftrightarrow> \<not> processed ch < last_quiet_issue ch"

definition quiet_ack_channels :: "proxy_channel \<Rightarrow> proxy_channel" where
  "quiet_ack_channels ch = ch\<lparr>quiet_ack := last_quiet_issue ch\<rparr>"

text \<open>The quiet on all connections: PEs without a transport are skipped, the operation itself is not tested.\<close>

definition quiet_all_steps :: "proxy_params \<Rightarrow> nat list \<Rightarrow> transport_call option list" where
  "quiet_all_steps p is =
     concat (map (\<lambda>i. case transport_at p i of
       None \<Rightarrow> [] | Some t \<Rightarrow> [if has_quiet p t then Some (Quiet t i NVSHMEMX_QP_ALL) else None]) is)"

definition progress_quiet_done :: "proxy_params \<Rightarrow> host_state \<Rightarrow> host_exit + host_state" where
  "progress_quiet_done p st =
     (case issue_steps p (quiet_all_steps p [0..<npes (penv p)]) st of
        Inl e \<Rightarrow> Inl e
      | Inr st \<Rightarrow>
          (case (if issued_get st then map_sum (\<lambda>e. e) (\<lambda>st. st\<lparr>issued_get := False\<rparr>) (enforce_cst p st) else Inr st) of
             Inl e \<Rightarrow> Inl e
           | Inr st \<Rightarrow> Inr (st\<lparr>hchan := quiet_ack_channels (hchan st), quiet_in_progress := QUIET_INACTIVE\<rparr>)))"

definition progress_quiet :: "proxy_params \<Rightarrow> host_state \<Rightarrow> host_exit + host_state" where
  "progress_quiet p st =
     (let st = (if quiet_in_progress st = QUIET_INACTIVE
                then case quiet_channels_check (hchan st) of
                       (start, ch) \<Rightarrow> st\<lparr>hchan := ch, quiet_in_progress := (if start then QUIET_IN_PROGRESS else QUIET_INACTIVE)\<rparr>
                else st);
          st = (if quiet_in_progress st = QUIET_IN_PROGRESS \<and> quiet_channels_test (hchan st)
                then st\<lparr>quiet_in_progress := QUIET_DONE\<rparr> else st)
      in if quiet_in_progress st = QUIET_DONE then progress_quiet_done p st else Inr st)"

definition cst_channels_check :: "proxy_channel \<Rightarrow> bool \<times> proxy_channel" where
  "cst_channels_check ch =
     (if cst_issue ch > last_cst_issue ch then (True, ch\<lparr>last_cst_issue := cst_issue ch\<rparr>) else (False, ch))"

definition cst_ack_channels :: "proxy_channel \<Rightarrow> proxy_channel" where
  "cst_ack_channels ch = ch\<lparr>cst_ack := last_cst_issue ch\<rparr>"

definition progress_cst :: "proxy_params \<Rightarrow> host_state \<Rightarrow> host_exit + host_state" where
  "progress_cst p st =
     (let st = (if cst_in_progress st = CST_INACTIVE
                then case cst_channels_check (hchan st) of
                       (start, ch) \<Rightarrow> st\<lparr>hchan := ch, cst_in_progress := (if start then CST_ACTIVE else CST_INACTIVE)\<rparr>
                else st)
      in if cst_in_progress st = CST_ACTIVE
         then case enforce_cst p st of
                Inl e \<Rightarrow> Inl e
              | Inr st \<Rightarrow> Inr (st\<lparr>hchan := cst_ack_channels (hchan st), cst_in_progress := CST_INACTIVE\<rparr>)
         else Inr st)"

section \<open>The progress engine\<close>

definition progress_global_exit :: "host_state \<Rightarrow> host_exit + host_state" where
  "progress_global_exit st =
     (if global_exit_request_state st = PROXY_GLOBAL_EXIT_REQUESTED then Inl (Global_Exit (global_exit_code st)) else Inr st)"

definition progress_timeout_polling :: "host_state \<Rightarrow> host_exit + host_state" where
  "progress_timeout_polling st = (if timeout_signal st then Inl Device_Timeout else Inr st)"

text \<open>The \<open>switch\<close> of \<open>progress_channels\<close> on the operation of the base entry.\<close>

definition process_request :: "proxy_params \<Rightarrow> host_state \<Rightarrow> (host_exit + host_state) option" where
  "process_request p st =
     (let op = (ucast (br_op (base_request_of (hentry st 0))) :: u64)
      in if op \<in> {NVSHMEMI_OP_PUT, NVSHMEMI_OP_PUT_QP} then process_channel_dma p st
         else if op \<in> {NVSHMEMI_OP_G, NVSHMEMI_OP_G_QP, NVSHMEMI_OP_GET, NVSHMEMI_OP_GET_QP}
         then map_option (map_sum (\<lambda>e. e) (\<lambda>st. st\<lparr>issued_get := True\<rparr>)) (process_channel_dma p st)
         else if op \<in> {NVSHMEMI_OP_P, NVSHMEMI_OP_P_QP} then process_channel_inline p st
         else if op \<in> {NVSHMEMI_OP_AMO, NVSHMEMI_OP_AMO_QP} then process_channel_amo p st
         else if op = NVSHMEMI_OP_FENCE then process_channel_fence p st
         else if op = NVSHMEMI_OP_FENCE_QP then process_channel_qp_fence p st
         else if op = NVSHMEMI_OP_QUIET_QP then process_channel_qp_quiet p st
         else if op \<in> {NVSHMEMI_OP_PUT_SIGNAL, NVSHMEMI_OP_PUT_SIGNAL_QP} then process_channel_put_signal p st
         else Some (Inl Invalid_Op))"

fun progress_channels :: "nat \<Rightarrow> proxy_params \<Rightarrow> host_state \<Rightarrow> (host_exit + host_state) option" where
  "progress_channels 0 p st = Some (Inr st)"
| "progress_channels (Suc j) p st =
     (if base_ready (hchan st)
      then case process_request p st of
             None \<Rightarrow> None
           | Some (Inl e) \<Rightarrow> Some (Inl e)
           | Some (Inr st) \<Rightarrow> progress_channels j p st
      else Some (Inr st))"

definition progress_transports :: "proxy_params \<Rightarrow> host_state \<Rightarrow> host_exit + host_state" where
  "progress_transports p st =
     issue_steps p (map (\<lambda>i. Some (Transport_Progress i))
       (filter (\<lambda>i. (proxy_transport_bit p i \<or> transport_is_ibgda p i) \<and> has_progress p i)
         [0..<num_initialized_transports (penv p)])) st"

definition progress :: "proxy_params \<Rightarrow> host_state \<Rightarrow> (host_exit + host_state) option" where
  "progress p st =
     (case progress_global_exit st of Inl e \<Rightarrow> Some (Inl e) | Inr st \<Rightarrow>
      (case progress_quiet p st of Inl e \<Rightarrow> Some (Inl e) | Inr st \<Rightarrow>
       (case progress_cst p st of Inl e \<Rightarrow> Some (Inl e) | Inr st \<Rightarrow>
        (case (if timeout_polling p then progress_timeout_polling st else Inr st) of Inl e \<Rightarrow> Some (Inl e) | Inr st \<Rightarrow>
         (case progress_channels (PROXY_REQUEST_BATCH_MAX p) p st of
            None \<Rightarrow> None
          | Some (Inl e) \<Rightarrow> Some (Inl e)
          | Some (Inr st) \<Rightarrow> Some (progress_transports p st))))))"

text \<open>\<open>nvshmemi_proxy_progress\<close>: the rounds up to the one after which \<open>stop\<close> is seen.\<close>

fun nvshmemi_proxy_progress :: "nat \<Rightarrow> proxy_params \<Rightarrow> host_state \<Rightarrow> (host_exit + host_state) option" where
  "nvshmemi_proxy_progress 0 p st = progress p st"
| "nvshmemi_proxy_progress (Suc n) p st =
     (case progress p st of
        None \<Rightarrow> None
      | Some (Inl e) \<Rightarrow> Some (Inl e)
      | Some (Inr st) \<Rightarrow> nvshmemi_proxy_progress n p st)"

text \<open>\<open>nvshmemi_proxy_progress_minimal\<close>, for a job that needs no network.\<close>

fun nvshmemi_proxy_progress_minimal :: "nat \<Rightarrow> proxy_params \<Rightarrow> host_state \<Rightarrow> host_exit + host_state" where
  "nvshmemi_proxy_progress_minimal n p st =
     (case progress_global_exit st of
        Inl e \<Rightarrow> Inl e
      | Inr st \<Rightarrow>
          (case (if timeout_polling p then progress_timeout_polling st else Inr st) of
             Inl e \<Rightarrow> Inl e
           | Inr st \<Rightarrow> (case n of 0 \<Rightarrow> Inr st | Suc n \<Rightarrow> nvshmemi_proxy_progress_minimal n p st)))"

text \<open>
  Whether the consistency API is used, and the native ordering of the device, from the answers of the two
  attribute queries (\<open>None\<close> for a query that fails).
\<close>

definition consistency_api :: "int option \<Rightarrow> int option \<Rightarrow> bool \<times> int" where
  "consistency_api write_options native_ordering =
     (case write_options of
        None \<Rightarrow> (False, 0)
      | Some w \<Rightarrow> (w AND 1 \<noteq> 0, case native_ordering of None \<Rightarrow> 0 | Some v \<Rightarrow> v))"

section \<open>Connections\<close>

text \<open>
  \<open>nvshmemi_proxy_setup_connections\<close>: for each PE the first initialised transport that can write or read
  from the CPU. \<open>cap i j\<close> is \<open>transports[i]->cap[j]\<close> restricted to the two capabilities, \<open>connected\<close> the
  attribute that the code asserts, \<open>calloc_ok\<close> the answers of the two allocations and \<open>barrier\<close> that of the bootstrap. The
  result is the status and, unless they are given up, the transport of each PE and the bitmap of those used.
\<close>

fun first_transport :: "(nat \<Rightarrow> bool) \<Rightarrow> (nat \<Rightarrow> bool) \<Rightarrow> nat list \<Rightarrow> nat option" where
  "first_transport bit_set capable [] = None"
| "first_transport bit_set capable (i # is) =
     (if \<not> bit_set i then first_transport bit_set capable is
      else if \<not> capable i then first_transport bit_set capable is
      else Some i)"

definition nvshmemi_proxy_setup_connections ::
  "bool \<times> bool \<Rightarrow> int \<Rightarrow> nat \<Rightarrow> nat \<Rightarrow> (nat \<Rightarrow> bool) \<Rightarrow> (nat \<Rightarrow> nat \<Rightarrow> bool) \<Rightarrow> (nat \<Rightarrow> bool) \<Rightarrow>
     host_exit + int \<times> (nat option list \<times> u32) option" where
  "nvshmemi_proxy_setup_connections calloc_ok barrier n num_transports bit_set cap connected =
     (let ts = map (\<lambda>j. first_transport bit_set (\<lambda>i. cap i j) [0..<num_transports]) [0..<n]
      in if \<not> fst calloc_ok then Inr (NVSHMEMX_ERROR_OUT_OF_MEMORY, None)
         else if \<not> snd calloc_ok then Inr (NVSHMEMX_ERROR_OUT_OF_MEMORY, None)
         else if list_ex (\<lambda>t. case t of None \<Rightarrow> False | Some i \<Rightarrow> \<not> connected i) ts then Inl Assert_Handle
         else if barrier \<noteq> 0 then Inr (NVSHMEMX_ERROR_INTERNAL, None)
         else Inr (0, Some (ts, fold (\<lambda>t bm. case t of None \<Rightarrow> bm | Some i \<Rightarrow> bm OR push_bit i 1) ts 0)))"

end
