(* ===== verification/Proxy_Codec.thy ===== *)
theory Proxy_Codec
  imports Proxy_Channel
begin

text \<open>
  The proxy channel's format round trips: whatever flag each entry carries, the host reads back the
  operation, addresses, sizes, values, PE and queue pair that the device packed, as long as they fit
  the fields. The lemmas work on the bits of the entries, lane by lane.
\<close>

section \<open>Packing and unpacking\<close>

lemma bit_below: "(w :: u64) < 2 ^ k \<Longrightarrow> bit w n \<Longrightarrow> n < k"
  by (metis bit_take_bit_iff less_mask_eq take_bit_eq_mask)

lemma bit_below32: "(w :: u32) < 2 ^ k \<Longrightarrow> bit w n \<Longrightarrow> n < k"
  by (metis bit_take_bit_iff less_mask_eq take_bit_eq_mask)

lemma byte_masks:
  "(0xFFFFFFFFFFFFFF00 :: u64) = NOT (mask 8)" "(0xFF :: u64) = mask 8"
  "(0xFFFFFFFF :: u64) = mask 32" "(0x00FFFFFFFFFFFFFF :: u64) = mask 56"
  by (simp_all add: mask_eq_exp_minus_1)

lemma base_entry:
  assumes r: "roffset < 2 ^ 40" and op: "(op :: u64) < 2 ^ 8"
  shows "read_roffset (base_request_of (push_bit 24 roffset OR push_bit 16 op OR push_bit 8 1 OR of_bool f)) = roffset"
    and "(ucast (br_op (base_request_of (push_bit 24 roffset OR push_bit 16 op OR push_bit 8 1 OR of_bool f))) :: u64) = op"
  by (simp_all only: read_roffset_def base_request_of_def base_request.simps)
    (rule bit_word_eqI; auto simp: bit_simps dest: bit_below[OF r] bit_below[OF op])+

lemma u64_eq_lanes:
  fixes a b :: u64
  assumes "\<And>n. n < 8 \<Longrightarrow> bit a n = bit b n" "\<And>n. 8 \<le> n \<Longrightarrow> n < 16 \<Longrightarrow> bit a n = bit b n"
    "\<And>n. 16 \<le> n \<Longrightarrow> n < 24 \<Longrightarrow> bit a n = bit b n" "\<And>n. 24 \<le> n \<Longrightarrow> n < 32 \<Longrightarrow> bit a n = bit b n"
    "\<And>n. 32 \<le> n \<Longrightarrow> n < 40 \<Longrightarrow> bit a n = bit b n" "\<And>n. 40 \<le> n \<Longrightarrow> n < 48 \<Longrightarrow> bit a n = bit b n"
    "\<And>n. 48 \<le> n \<Longrightarrow> n < 56 \<Longrightarrow> bit a n = bit b n" "\<And>n. 56 \<le> n \<Longrightarrow> n < 64 \<Longrightarrow> bit a n = bit b n"
  shows "a = b"
proof (rule bit_word_eqI)
  fix n assume "n < LENGTH(64)"
  then consider "n < 8" | "8 \<le> n \<and> n < 16" | "16 \<le> n \<and> n < 24" | "24 \<le> n \<and> n < 32" |
    "32 \<le> n \<and> n < 40" | "40 \<le> n \<and> n < 48" | "48 \<le> n \<and> n < 56" | "56 \<le> n \<and> n < 64" by fastforce
  then show "bit a n = bit b n" by cases (use assms in auto)
qed

lemma addr_entries:
  "push_bit 32 (ucast (ucast (drop_bit 32 (a AND 0xFFFFFFFFFFFFFF00 OR of_bool f)) :: u32)) OR
   push_bit 16 (ucast (ucast (drop_bit 16 (a AND 0xFFFFFFFFFFFFFF00 OR of_bool f)) :: u16)) OR
   push_bit 8 (ucast (ucast (drop_bit 8 (a AND 0xFFFFFFFFFFFFFF00 OR of_bool f)) :: u8)) OR
   ucast (ucast (drop_bit 8 (push_bit 16 s OR push_bit 8 (a AND 0xFF) OR of_bool g)) :: u8) = (a :: u64)"
  unfolding byte_masks
  by (rule u64_eq_lanes) (simp_all add: bit_simps less_diff_conv2)

lemma size_entry:
  assumes s: "s < 2 ^ 48" and l: "(l :: u64) < 2 ^ 8"
  shows "push_bit 16 (ucast (ucast (drop_bit 32 (push_bit 16 s OR push_bit 8 l OR of_bool f)) :: u32)) OR
    ucast (ucast (drop_bit 16 (push_bit 16 s OR push_bit 8 l OR of_bool f)) :: u16) = (s :: u64)"
  by (rule u64_eq_lanes) (auto simp: bit_simps less_diff_conv2 dest: bit_below[OF s] bit_below[OF l])

lemma pe_qp_entry:
  shows "(ucast (drop_bit 16 (push_bit 32 (ucast (q :: u32)) OR push_bit 16 (ucast (p :: u16)) OR of_bool f :: u64)) :: u16) = p"
    and "(ucast (drop_bit 32 (push_bit 32 (ucast (q :: u32)) OR push_bit 16 (ucast (p :: u16)) OR of_bool f :: u64)) :: u32) = q"
  by (rule bit_word_eqI; simp add: bit_simps; auto dest: bit_imp_le_length)+

lemma low_byte_lt: "(a AND 0xFF :: u64) < 2 ^ 8"
  using and_mask_less_size[of 8 a] unfolding byte_masks by (simp add: word_size)

definition dma_op :: "u64 \<Rightarrow> bool" where
  "dma_op op \<longleftrightarrow> op = NVSHMEMI_OP_PUT \<or> op = NVSHMEMI_OP_GET \<or> op = NVSHMEMI_OP_G"

definition qp_op :: "u32 \<Rightarrow> u64 \<Rightarrow> u64" where
  "qp_op qp op = (if qp \<noteq> NVSHMEMX_QP_DEFAULT then op + NVSHMEMI_OP_QP_OP_OFFSET else op)"

lemma qp_op_read:
  assumes "0 < op" "op < 2 ^ 4"
  shows "qp_op qp op < 2 ^ 8"
    and "(if qp_op qp op > NVSHMEMI_OP_QP_OP_OFFSET then qp_op qp op - NVSHMEMI_OP_QP_OP_OFFSET else qp_op qp op) = op"
    and "(if qp_op qp op \<ge> NVSHMEMI_OP_QP_OP_OFFSET then qp else NVSHMEMX_QP_DEFAULT) = qp"
  using assms by (auto simp: qp_op_def NVSHMEMI_OP_QP_OP_OFFSET_def word_less_nat_alt word_le_nat_alt unat_word_ariths)

lemma dma_round_trip:
  assumes r: "rptr - base < 2 ^ 40" and s: "bytes < 2 ^ 48" and op: "dma_op op"
    and w: "transfer_dma base rptr lptr bytes pe op qp = [w0, w1, w2, w3]"
  shows "read_dma (w0 OR of_bool f0) (w1 OR of_bool f1) (w2 OR of_bool f2) (w3 OR of_bool f3) =
    \<lparr>dma_desc = op, dma_roffset = rptr - base, dma_laddr = lptr, dma_size = bytes, dma_pe = ucast pe, dma_qp = qp\<rparr>"
proof -
  have "0 < op" "op < 2 ^ 4" using op by (auto simp: dma_op_def op_defs)
  note Q = qp_op_read[OF this, of qp]
  have ws: "w0 = push_bit 24 (rptr - base) OR push_bit 16 (qp_op qp op) OR push_bit 8 1"
    "w1 = lptr AND 0xFFFFFFFFFFFFFF00" "w2 = push_bit 16 bytes OR push_bit 8 (lptr AND 0xFF)"
    "w3 = push_bit 32 (ucast qp) OR push_bit 16 (ucast (ucast pe :: u16))"
    using w by (simp_all add: transfer_dma_def Let_def qp_op_def)
  show ?thesis
    unfolding read_dma_def Let_def ws or.assoc base_entry[OF r Q(1)] Q(2)
      put_dma_request_0_of_def put_dma_request_1_of_def put_dma_request_2_of_def
      put_dma_request_0.simps put_dma_request_1.simps put_dma_request_2.simps
      addr_entries size_entry[OF s low_byte_lt] pe_qp_entry Q(3) by (simp only: simp_thms)
qed

lemma value_low_entry:
  assumes a: "(a :: u64) < 2 ^ 8"
  shows "(ucast (ucast (drop_bit 32 (push_bit 32 (v AND 0xFFFFFFFF) OR push_bit 16 (ucast (p :: u16)) OR push_bit 8 a OR of_bool f)) :: u32) :: u64) =
      v AND 0xFFFFFFFF" (is ?low)
    and "(ucast (drop_bit 16 (push_bit 32 (v AND 0xFFFFFFFF) OR push_bit 16 (ucast (p :: u16)) OR push_bit 8 a OR of_bool f)) :: u16) = p" (is ?pe)
    and "(ucast (drop_bit 8 (push_bit 32 (v AND 0xFFFFFFFF) OR push_bit 16 (ucast (p :: u16)) OR push_bit 8 a OR of_bool f)) :: u8) = ucast a" (is ?amo)
proof -
  show ?low unfolding byte_masks
    by (rule u64_eq_lanes) (auto simp: bit_simps less_diff_conv2 dest: bit_imp_le_length bit_below[OF a])
  show ?pe unfolding byte_masks
    by (rule bit_word_eqI) (auto simp: bit_simps dest: bit_below[OF a])
  show ?amo unfolding byte_masks
    by (rule bit_word_eqI) (auto simp: bit_simps)
qed

lemma value_high_entry:
  assumes s: "(s :: u64) < 2 ^ 16" and c: "(c :: u64) < 2 ^ 8"
  shows "push_bit 32 (ucast (ucast (drop_bit 32 ((v AND NOT 0xFFFFFFFF) OR push_bit 16 s OR push_bit 8 c OR of_bool f)) :: u32)) =
      (v AND NOT 0xFFFFFFFF :: u64)" (is ?high)
    and "(ucast (ucast (drop_bit 16 ((v AND NOT 0xFFFFFFFF) OR push_bit 16 s OR push_bit 8 c OR of_bool f)) :: u16) :: u64) = s" (is ?size)
    and "(ucast (ucast (drop_bit 8 ((v AND NOT 0xFFFFFFFF) OR push_bit 16 s OR push_bit 8 c OR of_bool f)) :: u8) :: u64) = c" (is ?cmp)
proof -
  show ?high unfolding byte_masks
    by (rule u64_eq_lanes) (auto simp: bit_simps less_diff_conv2 dest: bit_below[OF s] bit_below[OF c])
  show ?size unfolding byte_masks
    by (rule u64_eq_lanes) (auto simp: bit_simps less_diff_conv2 dest: bit_below[OF s] bit_below[OF c])
  show ?cmp unfolding byte_masks
    by (rule u64_eq_lanes) (auto simp: bit_simps less_diff_conv2 dest: bit_below[OF s] bit_below[OF c])
qed

lemma join_halves: "(v AND 0xFFFFFFFF) OR (v AND NOT 0xFFFFFFFF) = (v :: u64)"
  by (rule bit_word_eqI) (auto simp: bit_simps)

lemma join_low_byte: "((c AND NOT 0xFF) OR of_bool f) AND 0xFFFFFFFFFFFFFF00 OR (c AND 0xFF) = (c :: u64)"
  unfolding byte_masks by (rule bit_word_eqI) (auto simp: bit_simps)

lemma counter_entry:
  assumes g: "(g :: u64) < 2 ^ 56"
  shows "drop_bit 8 ((push_bit 8 (g AND 0x00FFFFFFFFFFFFFF) OR of_bool f) AND 0xFFFFFFFFFFFFFF00) = g"
  unfolding byte_masks by (rule u64_eq_lanes) (auto simp: bit_simps dest: bit_below[OF g])

lemma qp_entry: "(ucast (drop_bit 32 (push_bit 32 (ucast (q :: u32)) OR of_bool f :: u64)) :: u32) = q"
  by (rule bit_word_eqI) (auto simp: bit_simps dest: bit_imp_le_length)

lemma qp_entry_plain: "(ucast (drop_bit 32 (push_bit 32 (ucast (q :: u32)) :: u64)) :: u32) = q"
  using qp_entry[of q False] by simp

lemma inline_low_entry:
  "(ucast (ucast (drop_bit 32 (push_bit 32 (v AND 0xFFFFFFFF) OR push_bit 16 (ucast (p :: u16)) OR of_bool f)) :: u32) :: u64) =
      v AND 0xFFFFFFFF"
  "(ucast (drop_bit 16 (push_bit 32 (v AND 0xFFFFFFFF :: u64) OR push_bit 16 (ucast (p :: u16)) OR of_bool f)) :: u16) = p"
  using value_low_entry[of 0 v p f] by simp_all

lemma inline_high_entry:
  assumes s: "(s :: u64) < 2 ^ 16"
  shows "push_bit 32 (ucast (ucast (drop_bit 32 ((v AND NOT 0xFFFFFFFF) OR push_bit 16 s OR of_bool f)) :: u32)) =
      (v AND NOT 0xFFFFFFFF :: u64)"
    and "(ucast (ucast (drop_bit 16 ((v AND NOT 0xFFFFFFFF) OR push_bit 16 s OR of_bool f)) :: u16) :: u64) = s"
  using value_high_entry[OF s, of 0 v f] by simp_all

definition elem_size :: "u64 \<Rightarrow> bool" where
  "elem_size sz \<longleftrightarrow> sz = 1 \<or> sz = 2 \<or> sz = 4 \<or> sz = 8"

lemma elem_size_lt: "elem_size sz \<Longrightarrow> sz < 2 ^ 16"
  by (auto simp: elem_size_def)

lemma small_value_low: "elem_size sz \<Longrightarrow> sz \<noteq> 8 \<Longrightarrow> convert_val_to_uint64 d v sz AND 0xFFFFFFFF = convert_val_to_uint64 d v sz"
  unfolding elem_size_def byte_masks
  by (elim disjE) (simp_all add: convert_val_to_uint64_def, (rule bit_word_eqI, auto simp: bit_simps dest: bit_imp_le_length)+)

lemma inline_round_trip:
  assumes r: "rptr - base < 2 ^ 40" and sz: "elem_size sz" and op: "op < 2 ^ 8"
    and w: "transfer_inline base rptr val sz pe op qp = w0 # w1 # w2 # ws"
  shows "read_inline (w0 OR of_bool f0) (w1 OR of_bool f1) (w2 OR of_bool f2)
      (case ws of [] \<Rightarrow> None | w3 # _ \<Rightarrow> Some (w3 OR of_bool f3)) =
    \<lparr>inl_roffset = rptr - base, inl_lvalue = convert_val_to_uint64 0 val sz, inl_size = sz, inl_pe = ucast pe, inl_qp = qp\<rparr>"
proof -
  let ?v = "convert_val_to_uint64 0 val sz"
  have ws: "w0 = push_bit 24 (rptr - base) OR push_bit 16 op OR push_bit 8 1"
    "w1 = push_bit 32 (?v AND 0xFFFFFFFF) OR push_bit 16 (ucast (ucast pe :: u16))"
    "w2 = (?v AND NOT 0xFFFFFFFF) OR push_bit 16 sz"
    "ws = (if qp \<noteq> NVSHMEMX_QP_DEFAULT then [push_bit 32 (ucast qp)] else [])"
    using w by (simp_all add: transfer_inline_def Let_def)
  have v: "(if sz = 8 then (?v AND 0xFFFFFFFF) OR (?v AND NOT 0xFFFFFFFF) else ?v AND 0xFFFFFFFF) = ?v"
  proof (cases "sz = 8")
    case True
    show ?thesis unfolding if_P[OF True] by (rule join_halves)
  next
    case False
    show ?thesis unfolding if_not_P[OF False] by (rule small_value_low[OF sz False])
  qed
  have q: "(case (case ws of [] \<Rightarrow> None | w3 # _ \<Rightarrow> Some (w3 OR of_bool f3)) of None \<Rightarrow> NVSHMEMX_QP_DEFAULT
      | Some w \<Rightarrow> i2_qp_index (put_inline_request_2_of w)) = qp"
    by (simp add: ws(4) put_inline_request_2_of_def qp_entry qp_entry_plain)
  show ?thesis
    unfolding read_inline_def Let_def q ws(1-3) or.assoc base_entry[OF r op]
      put_inline_request_0_of_def put_inline_request_1_of_def
      put_inline_request_0.simps put_inline_request_1.simps
      inline_low_entry inline_high_entry[OF elem_size_lt[OF sz]] v
    by (simp only: simp_thms)
qed

lemma amo_round_trip:
  assumes r: "rptr - base < 2 ^ 40" and sz: "elem_size sz" and am: "am < 2 ^ 8" and g: "g < 2 ^ 56"
    and w: "amo junk base rptr g swap cmp sz pe am qp = w0 # w1 # w2 # w3 # w4 # ws"
  shows "read_amo (w0 OR of_bool f0) (w1 OR of_bool f1) (w2 OR of_bool f2) (w3 OR of_bool f3) (w4 OR of_bool f4)
      (case ws of [] \<Rightarrow> None | w5 # _ \<Rightarrow> Some (w5 OR of_bool f5)) =
    \<lparr>amo_op = ucast am, amo_roffset = rptr - base, amo_lvalue = convert_val_to_uint64 junk swap sz,
     amo_cvalue = (if (ucast am :: u8) = NVSHMEMI_AMO_COMPARE_SWAP then convert_val_to_uint64 junk cmp sz else 0),
     amo_g_counter = g, amo_size = sz, amo_pe = ucast pe, amo_qp = qp\<rparr>"
proof -
  let ?v = "convert_val_to_uint64 junk swap sz" and ?c = "convert_val_to_uint64 junk cmp sz"
  let ?op = "if qp \<noteq> NVSHMEMX_QP_DEFAULT then NVSHMEMI_OP_AMO_QP else NVSHMEMI_OP_AMO"
  have op: "?op < 2 ^ 8" by (simp add: op_defs)
  have ws: "w0 = push_bit 24 (rptr - base) OR push_bit 16 ?op OR push_bit 8 1"
    "w1 = push_bit 32 (?v AND 0xFFFFFFFF) OR push_bit 16 (ucast (ucast pe :: u16)) OR push_bit 8 am"
    "w2 = (?v AND NOT 0xFFFFFFFF) OR push_bit 16 sz OR push_bit 8 (?c AND 0xFF)"
    "w3 = ?c AND NOT 0xFF" "w4 = push_bit 8 (g AND 0x00FFFFFFFFFFFFFF)"
    "ws = (if qp \<noteq> NVSHMEMX_QP_DEFAULT then [push_bit 32 (ucast qp)] else [])"
    using w by (simp_all add: amo_def Let_def)
  have q: "(case (case ws of [] \<Rightarrow> None | w5 # _ \<Rightarrow> Some (w5 OR of_bool f5)) of None \<Rightarrow> NVSHMEMX_QP_DEFAULT
      | Some w \<Rightarrow> i2_qp_index (put_inline_request_2_of w)) = qp"
    by (simp add: ws(6) put_inline_request_2_of_def qp_entry qp_entry_plain)
  show ?thesis
    unfolding read_amo_def Let_def q ws(1-5) or.assoc base_entry[OF r op]
      amo_request_0_of_def amo_request_1_of_def amo_request_0.simps amo_request_1.simps
      value_low_entry[OF am] value_high_entry[OF elem_size_lt[OF sz] low_byte_lt] join_halves
      join_low_byte counter_entry[OF g]
    by (simp only: simp_thms)
qed

lemma sig_entry:
  assumes r: "(r :: u64) < 2 ^ 40" and o8: "(op :: u64) < 2 ^ 8" and l: "(l :: u64) < 2 ^ 8"
  shows "push_bit 8 (ucast (ucast (drop_bit 32 (push_bit 24 r OR push_bit 16 op OR push_bit 8 l OR of_bool f)) :: u32)) OR
      ucast (ucast (drop_bit 24 (push_bit 24 r OR push_bit 16 op OR push_bit 8 l OR of_bool f)) :: u8) = r" (is ?off)
    and "(ucast (drop_bit 16 (push_bit 24 r OR push_bit 16 op OR push_bit 8 l OR of_bool f)) :: u8) = ucast op" (is ?op)
    and "(ucast (ucast (drop_bit 8 (push_bit 24 r OR push_bit 16 op OR push_bit 8 l OR of_bool f)) :: u8) :: u64) = l" (is ?low)
proof -
  show ?off by (rule u64_eq_lanes) (auto simp: bit_simps less_diff_conv2 dest: bit_below[OF r] bit_below[OF o8] bit_below[OF l])
  show ?op by (rule bit_word_eqI) (auto simp: bit_simps dest: bit_below[OF l])
  show ?low by (rule u64_eq_lanes) (auto simp: bit_simps less_diff_conv2 dest: bit_below[OF l] bit_below[OF o8])
qed

lemma signal_value_entries:
  "push_bit 32 (ucast (ucast (drop_bit 32 (a AND 0xFFFFFFFFFFFFFF00 OR of_bool f)) :: u32)) OR
   push_bit 16 (ucast (ucast (drop_bit 16 (a AND 0xFFFFFFFFFFFFFF00 OR of_bool f)) :: u16)) OR
   push_bit 8 (ucast (ucast (drop_bit 8 (a AND 0xFFFFFFFFFFFFFF00 OR of_bool f)) :: u8)) OR (a AND 0xFF) = (a :: u64)"
  unfolding byte_masks by (rule u64_eq_lanes) (simp_all add: bit_simps less_diff_conv2)

lemma put_signal_round_trip:
  assumes r: "rptr - base < 2 ^ 40" and s: "bytes < 2 ^ 48" and sr: "sig - base < 2 ^ 40" and so: "sop < 2 ^ 8"
    and w: "nvshmemi_proxy_put_signal_nbi base rptr lptr bytes pe NVSHMEMI_OP_PUT_SIGNAL sig sval sop qp =
      [w0, w1, w2, w3, w4, w5]"
  shows "read_put_signal (w0 OR of_bool f0) (w1 OR of_bool f1) (w2 OR of_bool f2) (w3 OR of_bool f3)
      (w4 OR of_bool f4) (w5 OR of_bool f5) =
    \<lparr>ps_roffset = rptr - base, ps_laddr = lptr, ps_size = bytes, ps_pe = ucast pe, ps_qp = qp,
     ps_sig_op = ucast sop, ps_rsig_offset = sig - base, ps_sig_val = sval\<rparr>"
proof -
  have "0 < NVSHMEMI_OP_PUT_SIGNAL" "NVSHMEMI_OP_PUT_SIGNAL < 2 ^ 4" by (simp_all add: op_defs)
  note Q = qp_op_read[OF this, of qp]
  have ws: "w0 = push_bit 24 (rptr - base) OR push_bit 16 (qp_op qp NVSHMEMI_OP_PUT_SIGNAL) OR push_bit 8 1"
    "w1 = lptr AND 0xFFFFFFFFFFFFFF00" "w2 = push_bit 16 bytes OR push_bit 8 (lptr AND 0xFF)"
    "w3 = push_bit 32 (ucast qp) OR push_bit 16 (ucast (ucast pe :: u16))"
    "w4 = push_bit 24 (sig - base) OR push_bit 16 sop OR push_bit 8 (sval AND 0xFF)"
    "w5 = sval AND 0xFFFFFFFFFFFFFF00"
    using w by (simp_all add: nvshmemi_proxy_put_signal_nbi_def Let_def qp_op_def)
  show ?thesis
    unfolding read_put_signal_def Let_def ws or.assoc base_entry[OF r Q(1)]
      put_signal_request_0_of_def put_signal_request_1_of_def put_signal_request_2_of_def
      put_signal_request_3_of_def put_signal_request_4_of_def
      put_signal_request_0.simps put_signal_request_1.simps put_signal_request_2.simps
      put_signal_request_3.simps put_signal_request_4.simps
      addr_entries size_entry[OF s low_byte_lt] pe_qp_entry Q(3) sig_entry[OF sr so low_byte_lt] signal_value_entries
    by (simp only: simp_thms)
qed

lemma qp_quiet_entry:
  "read_qp_sync (push_bit 32 (ucast (q :: u32)) OR push_bit 16 (ucast (p :: u16)) OR push_bit 8 NVSHMEMI_OP_QUIET_QP OR of_bool f) = (p, q)"
proof -
  have op: "NVSHMEMI_OP_QUIET_QP < 2 ^ 8" by (simp add: op_defs)
  show ?thesis unfolding read_qp_sync_def Let_def qp_sync_request_0_of_def qp_sync_request_0.simps prod.inject
    by (intro conjI; rule bit_word_eqI) (auto simp: bit_simps dest: bit_below[OF op] bit_imp_le_length)
qed

lemma qp_count_entry:
  assumes "n < 2 ^ 31" and op: "(op :: u64) < 2 ^ 8"
  shows "read_qp_count (push_bit 32 (of_nat n) OR push_bit 16 op OR of_bool f) = int n"
proof -
  have n: "(of_nat n :: u64) < 2 ^ 31"
    using assms(1) by (simp add: word_less_nat_alt unat_of_nat)
  have "(ucast (drop_bit 32 (push_bit 32 (of_nat n) OR push_bit 16 op OR of_bool f :: u64)) :: u32) = of_nat n"
    by (rule bit_word_eqI) (auto simp: bit_simps dest: bit_below[OF op])
  then show ?thesis using assms(1)
    by (simp add: read_qp_count_def qp_sync_base_request_of_def sint_uint uint_nat unat_of_nat signed_take_bit_eq_if_positive
        bit_iff_odd take_bit_eq_mod)
qed

lemma qp_fence_entry:
  assumes p: "pe < 2 ^ 8"
  shows "read_qp_sync (push_bit 32 (ucast (q :: u32)) OR push_bit 16 NVSHMEMI_OP_FENCE_QP OR push_bit 8 (scast (pe :: u32)) OR of_bool f) =
    (106, q)"
proof -
  have "(scast pe :: u64) = ucast pe"
    by (rule bit_word_eqI) (auto simp: bit_simps min_def dest: bit_below32[OF p])
  moreover have "(ucast pe :: u64) < 2 ^ 8"
    using p by (simp add: word_less_nat_alt unsigned_ucast_eq take_bit_nat_eq_self)
  ultimately have s: "(scast pe :: u64) < 2 ^ 8" by simp
  have e: "106 = (ucast NVSHMEMI_OP_FENCE_QP :: u16)" by (simp add: op_defs)
  have op: "NVSHMEMI_OP_FENCE_QP < 2 ^ 8" by (simp add: op_defs)
  show ?thesis unfolding e read_qp_sync_def Let_def qp_sync_request_0_of_def qp_sync_request_0.simps prod.inject
    by (intro conjI; rule bit_word_eqI) (auto simp: bit_simps min_def split: if_splits dest: bit_below[OF op] bit_below32[OF p] bit_imp_le_length)
qed

end
