(* ===== verification/Ring_Invariant.thy ===== *)
theory Ring_Invariant
  imports Proxy_Ring
begin

text \<open>
  Why the ring of \<open>Proxy_Ring\<close> works. Counters are read as entry positions; \<open>ring_inv\<close> says which
  position is in which slot: inside the window of one lap from the host's position, a slot holds its
  entry if and only if its flag is the one of the current lap. It is kept by every step; flow control
  is what keeps a store from hitting a slot that has not been consumed. \<open>ring_progress\<close> shows that the
  lazily published \<open>complete\<close> counter cannot block the ring.
\<close>

section \<open>Counters as entry positions\<close>

abbreviation ring_size :: nat where "ring_size \<equiv> 2 ^ 19"

definition idx :: "nat \<Rightarrow> u64" where "idx k = of_nat (8 * k)"
definition pos :: "u64 \<Rightarrow> nat" where "pos w = unat w div 8"
definition lap_flag :: "nat \<Rightarrow> bool" where "lap_flag k \<longleftrightarrow> even (k div ring_size)"

lemma idx_0: "idx 0 = 0" by (simp add: idx_def)

lemma idx_add: "idx a + of_nat n * CHANNEL_ENTRY_BYTES = idx (a + n)"
  by (simp add: idx_def CHANNEL_ENTRY_BYTES_def algebra_simps)

lemma idx_Suc: "idx a + CHANNEL_ENTRY_BYTES = idx (Suc a)"
  by (simp add: idx_def CHANNEL_ENTRY_BYTES_def algebra_simps)

lemma idx_req: "idx a + req_bytes ws = idx (a + length ws)"
  by (simp add: req_bytes_def idx_add)

lemma unat_idx: "8 * k < 2 ^ 64 \<Longrightarrow> unat (idx k) = 8 * k"
  unfolding idx_def by (subst unat_of_nat) (rule mod_less, simp)

lemma pos_idx: "8 * k < 2 ^ 64 \<Longrightarrow> pos (idx k) = k"
  by (simp add: pos_def unat_idx)

lemma buf_mask: "CHANNEL_BUF_SIZE - 1 = mask 22"
  by (simp add: CHANNEL_BUF_SIZE_def CHANNEL_BUF_SIZE_LOG_def mask_eq_exp_minus_1)

lemma unat_wrapped:
  assumes "8 * k < 2 ^ 64"
  shows "unat (WRAPPED_CHANNEL_BUF (idx k)) = 8 * (k mod ring_size)"
proof -
  have "unat (idx k AND mask 22) = take_bit 22 (unat (idx k))"
    by (simp only: take_bit_eq_mask[symmetric] unsigned_take_bit_eq)
  also have "\<dots> = (8 * k) mod (8 * 2 ^ 19)" using assms by (simp add: unat_idx take_bit_eq_mod)
  also have "\<dots> = 8 * (k mod ring_size)" by (rule mult_mod_right[symmetric])
  finally show ?thesis unfolding WRAPPED_CHANNEL_BUF_def buf_mask .
qed

lemma wrapped_eq_iff:
  assumes "8 * j < 2 ^ 64" "8 * k < 2 ^ 64"
  shows "WRAPPED_CHANNEL_BUF (idx j) = WRAPPED_CHANNEL_BUF (idx k) \<longleftrightarrow> j mod ring_size = k mod ring_size"
  using unat_wrapped[OF assms(1)] unat_wrapped[OF assms(2)] by (simp add: word_unat_eq_iff)

lemma lap_bit:
  assumes "8 * k < 2 ^ 64"
  shows "drop_bit CHANNEL_BUF_SIZE_LOG (idx k) AND 1 = (0 :: u64) \<longleftrightarrow> lap_flag k"
proof -
  have "even (unat (drop_bit 22 (idx k))) \<longleftrightarrow> even (8 * k div 2 ^ 22)"
    using assms by (simp add: drop_bit_eq_div unat_div unat_idx)
  moreover have "8 * k div 2 ^ 22 = k div ring_size"
    using div_mult_mult1[of 8 k "2 ^ 19"] by simp
  moreover have "drop_bit 22 (idx k) AND 1 = (0 :: u64) \<longleftrightarrow> even (drop_bit 22 (idx k))"
    by (simp add: and_one_eq even_iff_mod_2_eq_zero)
  moreover have "even (drop_bit 22 (idx k) :: u64) \<longleftrightarrow> even (unat (drop_bit 22 (idx k)))"
    using bit_unsigned_iff[of "drop_bit 22 (idx k)" 0, where ?'a = nat] by (simp add: bit_0)
  ultimately show ?thesis by (simp add: CHANNEL_BUF_SIZE_LOG_def lap_flag_def)
qed

lemma flag_idx:
  assumes "8 * k < 2 ^ 64"
  shows "curr_flag (idx k) = of_bool (lap_flag k)" "COUNTER_TO_FLAG (idx k) = of_bool (lap_flag k)"
  using lap_bit[OF assms] by (simp_all add: curr_flag_def COUNTER_TO_FLAG_def)

lemma lap_flag_next: "lap_flag (k + ring_size) \<longleftrightarrow> \<not> lap_flag k"
  by (simp add: lap_flag_def div_add_self2)

lemma same_slot:
  assumes "j mod ring_size = k mod ring_size" "P \<le> j" "j < P + ring_size" "P \<le> k" "k < P + ring_size"
  shows "j = k"
proof (rule ccontr)
  assume "j \<noteq> k"
  moreover have "ring_size dvd (if j \<le> k then k - j else j - k)"
    using mod_eq_dvd_iff_nat[of j k ring_size] mod_eq_dvd_iff_nat[of k j ring_size] assms(1) by auto
  ultimately show False using assms dvd_imp_le[of ring_size "if j \<le> k then k - j else j - k"]
    by (auto split: if_splits)
qed

text \<open>Flags in entries.\<close>

lemma low_byte_stamped: "w AND 0xFF = 0 \<Longrightarrow> (ucast (w OR of_bool b :: u64) :: u8) = of_bool b"
proof -
  assume w: "w AND 0xFF = 0"
  have "\<not> bit w n" if "n < 8" for n
  proof -
    have m: "(0xFF :: u64) = mask 8" by (simp add: mask_eq_exp_minus_1)
    have "bit (w AND mask 8) n = bit w n" using that by (simp add: bit_simps)
    then show ?thesis using w unfolding m by simp
  qed
  then show ?thesis by (intro bit_word_eqI) (auto simp: bit_simps)
qed

lemma ucast_bit0: "bit (ucast (w :: u64) :: u8) 0 = bit w 0"
  by (simp add: bit_simps)

lemma bit0_stamped: "w AND 0xFF = 0 \<Longrightarrow> bit (w OR of_bool b :: u64) 0 = b"
  using low_byte_stamped[of w b] ucast_bit0[of "w OR of_bool b"] by (cases b) (simp_all del: bit_0 add: bit_1_iff)

lemma and_1_bit: "(x :: u8) AND 1 = of_bool (bit x 0)"
  by (simp add: and_one_eq bit_0 mod_2_eq_odd)

lemma byte_and_1: "(ucast w :: u8) AND 1 = of_bool b \<longleftrightarrow> bit (w :: u64) 0 = b"
  unfolding and_1_bit ucast_bit0 by (cases b; simp del: bit_0)

section \<open>The invariant\<close>

abbreviation log_of :: "ring_state \<Rightarrow> u64 list" where
  "log_of s \<equiv> concat (posted s)"

definition covers :: "dev_thread \<Rightarrow> nat set" where
  "covers t = {pos (t_idx t) ..< pos (t_idx t) + length (t_words t)}"

definition unwritten :: "ring_state \<Rightarrow> nat set" where
  "unwritten s = (\<Union>t \<in> set (threads s). covers t)"

definition written :: "ring_state \<Rightarrow> nat \<Rightarrow> bool" where
  "written s k \<longleftrightarrow> k < length (log_of s) \<and> k \<notin> unwritten s"

text \<open>No counter has wrapped and none is about to.\<close>

definition in_range :: "ring_state \<Rightarrow> bool" where
  "in_range s \<longleftrightarrow> 8 * (length (log_of s) + ring_size) < 2 ^ 64"

definition thread_ok :: "nat \<Rightarrow> nat \<Rightarrow> u64 list \<Rightarrow> dev_thread \<Rightarrow> bool" where
  "thread_ok P C lg t \<longleftrightarrow>
     t_idx t = idx (pos (t_idx t)) \<and>
     pos (t_idx t) + length (t_words t) \<le> length lg \<and>
     t_words t = take (length (t_words t)) (drop (pos (t_idx t)) lg) \<and>
     (t_words t \<noteq> [] \<longrightarrow> P \<le> pos (t_idx t)) \<and>
     (t_ready t \<or> t_words t \<noteq> []) \<and>
     (t_ready t \<longrightarrow> pos (t_idx t) + length (t_words t) \<le> C + ring_size)"

definition slot_ok :: "ring_state \<Rightarrow> nat \<Rightarrow> bool" where
  "slot_ok s k \<longleftrightarrow>
     (let e = buf (chan s) (WRAPPED_CHANNEL_BUF (idx k))
      in if written s k then e = (log_of s ! k) OR of_bool (lap_flag k) else bit e 0 \<noteq> lap_flag k)"

definition counters_ok :: "nat \<Rightarrow> nat \<Rightarrow> nat \<Rightarrow> ring_state \<Rightarrow> bool" where
  "counters_ok P C L s \<longleftrightarrow>
     issue (chan s) = idx (length (log_of s)) \<and> processed (chan s) = idx P \<and>
     complete (chan s) = idx C \<and> last_sync (chan s) = idx C \<and> complete_local s = idx L \<and>
     L \<le> C \<and> C \<le> P \<and> P \<le> length (log_of s) \<and> P < C + 128"

definition history_ok :: "nat \<Rightarrow> ring_state \<Rightarrow> bool" where
  "history_ok P s \<longleftrightarrow>
     length (delivered s) \<le> length (posted s) \<and>
     P = length (concat (take (length (delivered s)) (posted s))) \<and>
     delivered s = stamp_all 0 (take (length (delivered s)) (posted s)) \<and>
     (\<forall>r \<in> set (posted s). valid_request r)"

definition ring_inv :: "nat \<Rightarrow> nat \<Rightarrow> nat \<Rightarrow> ring_state \<Rightarrow> bool" where
  "ring_inv P C L s \<longleftrightarrow>
     counters_ok P C L s \<and> history_ok P s \<and>
     (\<forall>t \<in> set (threads s). thread_ok P C (log_of s) t) \<and>
     (\<forall>i j. i < length (threads s) \<longrightarrow> j < length (threads s) \<longrightarrow> i \<noteq> j \<longrightarrow>
        covers (threads s ! i) \<inter> covers (threads s ! j) = {}) \<and>
     (\<forall>k. P \<le> k \<longrightarrow> k < P + ring_size \<longrightarrow> slot_ok s k) \<and>
     (\<forall>k. written s k \<longrightarrow> k < C + ring_size)"

lemma ring_invD:
  assumes "ring_inv P C L s"
  shows "counters_ok P C L s" "history_ok P s" "t \<in> set (threads s) \<Longrightarrow> thread_ok P C (log_of s) t"
    "i < length (threads s) \<Longrightarrow> j < length (threads s) \<Longrightarrow> i \<noteq> j \<Longrightarrow> covers (threads s ! i) \<inter> covers (threads s ! j) = {}"
    "P \<le> k \<Longrightarrow> k < P + ring_size \<Longrightarrow> slot_ok s k" "written s k \<Longrightarrow> k < C + ring_size"
  using assms unfolding ring_inv_def by blast+

lemma ring_invI:
  assumes "counters_ok P C L s" "history_ok P s" "\<And>t. t \<in> set (threads s) \<Longrightarrow> thread_ok P C (log_of s) t"
    "\<And>i j. i < length (threads s) \<Longrightarrow> j < length (threads s) \<Longrightarrow> i \<noteq> j \<Longrightarrow> covers (threads s ! i) \<inter> covers (threads s ! j) = {}"
    "\<And>k. P \<le> k \<Longrightarrow> k < P + ring_size \<Longrightarrow> slot_ok s k" "\<And>k. written s k \<Longrightarrow> k < C + ring_size"
  shows "ring_inv P C L s"
  using assms unfolding ring_inv_def by blast

lemma thread_okD:
  assumes "thread_ok P C lg t"
  shows "t_idx t = idx (pos (t_idx t))" "pos (t_idx t) + length (t_words t) \<le> length lg"
    "t_words t = take (length (t_words t)) (drop (pos (t_idx t)) lg)"
    "t_words t \<noteq> [] \<Longrightarrow> P \<le> pos (t_idx t)" "\<not> t_ready t \<Longrightarrow> t_words t \<noteq> []"
    "t_ready t \<Longrightarrow> pos (t_idx t) + length (t_words t) \<le> C + ring_size"
  using assms by (auto simp: thread_ok_def)

lemma one_le_8: "0 < n \<Longrightarrow> 1 \<le> 8 * (a + n :: nat)"
  by simp

lemma unwritten_ge: "ring_inv P C L s \<Longrightarrow> k \<in> unwritten s \<Longrightarrow> P \<le> k"
  using ring_invD(3) by (fastforce simp: unwritten_def covers_def thread_ok_def)

lemma unwritten_lt: "ring_inv P C L s \<Longrightarrow> k \<in> unwritten s \<Longrightarrow> k < length (log_of s)"
  using ring_invD(3) by (fastforce simp: unwritten_def covers_def thread_ok_def)

lemma slot_ok_cong:
  assumes "slot_ok s k" "buf (chan s') (WRAPPED_CHANNEL_BUF (idx k)) = buf (chan s) (WRAPPED_CHANNEL_BUF (idx k))"
    "written s' k = written s k" "written s k \<Longrightarrow> log_of s' ! k = log_of s ! k"
  shows "slot_ok s' k"
  using assms unfolding slot_ok_def Let_def by (cases "written s k") simp_all

lemma ring_inv_new: "ring_inv 0 0 0 ring_new"
  by (rule ring_invI)
    (auto simp: ring_new_def counters_ok_def proxy_channel_new_def idx_0 history_ok_def slot_ok_def written_def
       unwritten_def lap_flag_def)

section \<open>Preservation\<close>

lemma valid_length: "valid_request ws \<Longrightarrow> 0 < length ws \<and> length ws \<le> ring_size - 128"
  by (simp add: valid_request_def)

lemma reserve_inv:
  assumes inv: "ring_inv P C L s" and ws: "valid_request ws" and rng: "in_range (reserve ws s)"
  shows "ring_inv P C L (reserve ws s)"
proof -
  let ?N = "length (log_of s)" and ?s = "reserve ws s"
  let ?t = "\<lparr>t_idx = idx ?N, t_words = ws, t_ready = False\<rparr>"
  have cnt: "counters_ok P C L s" using ring_invD(1)[OF inv] .
  then have iss: "issue (chan s) = idx ?N" and PN: "P \<le> ?N" by (simp_all add: counters_ok_def)
  have s: "threads ?s = threads s @ [?t]" "posted ?s = posted s @ [ws]" "log_of ?s = log_of s @ ws"
    "buf (chan ?s) = buf (chan s)" "delivered ?s = delivered s"
    by (simp_all add: reserve_def Let_def iss)
  have N8: "8 * ?N < 2 ^ 64" using rng s(3) by (simp add: in_range_def)
  have cov: "covers ?t = {?N ..< ?N + length ws}" using N8 by (simp add: covers_def pos_idx)
  have unw: "unwritten ?s = unwritten s \<union> {?N ..< ?N + length ws}"
    using cov by (auto simp: unwritten_def s(1))
  have wr: "written ?s k \<longleftrightarrow> written s k" for k
    unfolding written_def unw s(3) by auto
  have old: "covers t \<inter> {?N ..< ?N + length ws} = {}" if "t \<in> set (threads s)" for t
    using ring_invD(3)[OF inv that] by (auto simp: covers_def thread_ok_def)
  show ?thesis
  proof (rule ring_invI)
    show "counters_ok P C L ?s"
      using cnt s(3) by (simp add: counters_ok_def reserve_def Let_def idx_req)
    show "history_ok P ?s"
      using ring_invD(2)[OF inv] ws s by (auto simp: history_ok_def)
    show "thread_ok P C (log_of ?s) t" if "t \<in> set (threads ?s)" for t
    proof (cases "t \<in> set (threads s)")
      case True
      from ring_invD(3)[OF inv this] show ?thesis by (auto simp: thread_ok_def s(3))
    next
      case False
      then have t: "t = ?t" using that s(1) by simp
      show ?thesis using PN N8 ws unfolding t by (simp add: thread_ok_def s(3) pos_idx valid_request_def)
    qed
    show "covers (threads ?s ! i) \<inter> covers (threads ?s ! j) = {}"
      if "i < length (threads ?s)" "j < length (threads ?s)" "i \<noteq> j" for i j
      using that ring_invD(4)[OF inv, of i j] old[OF nth_mem, of i] old[OF nth_mem, of j] cov
      unfolding s(1) by (cases "i < length (threads s)"; cases "j < length (threads s)") (auto simp: nth_append less_Suc_eq)
    show "slot_ok ?s k" if "P \<le> k" "k < P + ring_size" for k
      by (rule slot_ok_cong[OF ring_invD(5)[OF inv that]])
        (use wr[of k] in \<open>simp_all add: s(3,4) nth_append written_def\<close>)
    show "k < C + ring_size" if "written ?s k" for k
      using ring_invD(6)[OF inv] wr that by blast
  qed
qed

lemma unwritten_update:
  assumes "i < length (threads s)" "covers t = covers (threads s ! i)" "threads s' = (threads s)[i := t]"
  shows "unwritten s' = unwritten s"
proof -
  have "map covers ((threads s)[i := t]) = map covers (threads s)"
    using assms(1,2) by (simp add: map_update list_update_same_conv)
  then have "covers ` set ((threads s)[i := t]) = covers ` set (threads s)" by (metis list.set_map)
  then show ?thesis unfolding unwritten_def assms(3) by simp
qed

lemma disjoint_update:
  assumes "i < length xs" "f u \<subseteq> f (xs ! i)"
    and "\<And>k j. k < length xs \<Longrightarrow> j < length xs \<Longrightarrow> k \<noteq> j \<Longrightarrow> f (xs ! k) \<inter> f (xs ! j) = {}"
    and "k < length (xs[i := u])" "j < length (xs[i := u])" "k \<noteq> j"
  shows "f (xs[i := u] ! k) \<inter> f (xs[i := u] ! j) = {}"
proof -
  have "f (xs[i := u] ! l) \<subseteq> f (xs ! l)" if "l < length xs" for l
    using that assms(1,2) by (cases "l = i") simp_all
  then show ?thesis using assms(3)[of k j] assms(4-6) by fastforce
qed

lemma avail_spec:
  assumes "check_channel_availability (idx L) (idx C) tail = Some c" "L \<le> C" "8 * (C + ring_size) < 2 ^ 64"
  shows "\<exists>L'. c = idx L' \<and> L' \<le> C" and "unat tail < 8 * (C + ring_size)"
proof -
  have bs: "unat CHANNEL_BUF_SIZE = 8 * ring_size" by (simp add: CHANNEL_BUF_SIZE_def CHANNEL_BUF_SIZE_LOG_def)
  have u: "unat (idx k + CHANNEL_BUF_SIZE - 1) = 8 * (k + ring_size) - 1"
    "idx k + (CHANNEL_BUF_SIZE - 1) = idx k + CHANNEL_BUF_SIZE - 1" if "k \<le> C" for k
  proof -
    have "unat (idx k + CHANNEL_BUF_SIZE) = 8 * (k + ring_size)"
      using assms(3) that bs by (subst unat_add_nowrap) (simp_all add: unat_idx)
    then show "unat (idx k + CHANNEL_BUF_SIZE - 1) = 8 * (k + ring_size) - 1"
      by (subst unat_sub_nowrap) simp_all
  qed simp
  show "\<exists>L'. c = idx L' \<and> L' \<le> C"
    using assms(1,2) by (auto simp: check_channel_availability_def max_def split: if_splits)
  show "unat tail < 8 * (C + ring_size)"
    using assms(1,2) u(1)[of L] u(1)[of C] unfolding check_channel_availability_def u(2)[OF order_refl]
    by (auto simp: word_less_nat_alt not_less split: if_splits)
qed

lemma admit_inv:
  assumes inv: "ring_inv P C L s" and run: "admit i s = Some s'" and rng: "in_range s"
  shows "\<exists>L'. ring_inv P C L' s'"
proof -
  let ?t = "threads s ! i" and ?N = "length (log_of s)"
  from run obtain c where i: "i < length (threads s)" "\<not> t_ready ?t"
    and c: "check_channel_availability (complete_local s) (complete (chan s)) (t_idx ?t + (req_bytes (t_words ?t) - 1)) = Some c"
    and s': "s' = s\<lparr>complete_local := c, threads := (threads s)[i := ?t\<lparr>t_ready := True\<rparr>]\<rparr>"
    by (auto simp: admit_def Let_def split: if_splits option.splits)
  have tok: "thread_ok P C (log_of s) ?t" using ring_invD(3)[OF inv] i by simp
  have cnt: "counters_ok P C L s" using ring_invD(1)[OF inv] .
  have C: "8 * (C + ring_size) < 2 ^ 64" using cnt rng by (auto simp: counters_ok_def in_range_def)
  have cc: "check_channel_availability (idx L) (idx C) (t_idx ?t + (req_bytes (t_words ?t) - 1)) = Some c" and LC: "L \<le> C"
    using c cnt by (simp_all add: counters_ok_def)
  note A = avail_spec[OF cc LC C]
  obtain L' where L': "c = idx L'" "L' \<le> C" using A(1) by blast
  let ?a = "pos (t_idx ?t)" and ?n = "length (t_words ?t)"
  have n: "0 < ?n" "?a + ?n \<le> ?N" "t_idx ?t = idx ?a" using thread_okD[OF tok] i by simp_all
  have tl: "t_idx ?t + (req_bytes (t_words ?t) - 1) = idx (?a + ?n) - 1"
    using n(3) idx_req[of ?a "t_words ?t"] by (simp add: algebra_simps)
  have "unat (idx (?a + ?n) - 1) = 8 * (?a + ?n) - 1"
  proof -
    have u: "unat (idx (?a + ?n)) = 8 * (?a + ?n)" using n(2) rng by (intro unat_idx) (simp add: in_range_def)
    have "1 \<le> 8 * (?a + ?n)" by (rule one_le_8[OF n(1)])
    then show ?thesis using u by (subst unat_sub_nowrap) simp_all
  qed
  then have ready: "?a + ?n \<le> C + ring_size" using A(2)[unfolded tl] by simp
  let ?u = "?t\<lparr>t_ready := True\<rparr>"
  have cov: "covers ?u = covers ?t" by (simp add: covers_def)
  have th: "threads s' = (threads s)[i := ?u]" and same: "log_of s' = log_of s" "buf (chan s') = buf (chan s)" using s' by simp_all
  have unw: "unwritten s' = unwritten s" using i(1) cov th by (rule unwritten_update)
  then have wr: "written s' = written s" by (simp add: written_def same fun_eq_iff)
  have "ring_inv P C L' s'"
  proof (rule ring_invI)
    show "counters_ok P C L' s'" using cnt L' s' by (simp add: counters_ok_def)
    show "history_ok P s'" using ring_invD(2)[OF inv] s' by (simp add: history_ok_def)
    show "thread_ok P C (log_of s') t" if "t \<in> set (threads s')" for t
      using that ring_invD(3)[OF inv, of t] tok ready unfolding th same
      by (auto simp: thread_ok_def dest!: set_update_subset_insert[THEN subsetD])
    show "covers (threads s' ! k) \<inter> covers (threads s' ! j) = {}"
      if "k < length (threads s')" "j < length (threads s')" "k \<noteq> j" for k j
      using that unfolding th by (intro disjoint_update[OF i(1)] ring_invD(4)[OF inv]) (simp_all add: cov)
    show "slot_ok s' k" if "P \<le> k" "k < P + ring_size" for k
      by (rule slot_ok_cong[OF ring_invD(5)[OF inv that]]) (simp_all add: same wr)
    show "k < C + ring_size" if "written s' k" for k using ring_invD(6)[OF inv, of k] that wr by simp
  qed
  then show ?thesis ..
qed

lemma UN_shrink:
  assumes "i < length xs" "\<And>j. j < length xs \<Longrightarrow> j \<noteq> i \<Longrightarrow> f (xs ! j) \<inter> f (xs ! i) = {}"
    and "f (xs ! i) = insert a (f u)" "a \<notin> f u"
  shows "(\<Union>x \<in> set (xs[i := u]). f x) = (\<Union>x \<in> set xs. f x) - {a}"
proof (intro set_eqI iffI)
  fix x assume "x \<in> (\<Union>x \<in> set (xs[i := u]). f x)"
  then obtain j where j: "j < length xs" "x \<in> f (xs[i := u] ! j)" by (auto simp: in_set_conv_nth)
  then have "x \<in> f (xs ! j)" "x \<noteq> a"
    using assms(2)[of j] assms(3,4) by (cases "j = i"; auto)+
  then show "x \<in> (\<Union>x \<in> set xs. f x) - {a}" using j(1) nth_mem by blast
next
  fix x assume "x \<in> (\<Union>x \<in> set xs. f x) - {a}"
  then obtain j where j: "j < length xs" "x \<in> f (xs ! j)" "x \<noteq> a" by (auto simp: in_set_conv_nth)
  then have "x \<in> f (xs[i := u] ! j)" using assms(1,3) by (cases "j = i") auto
  then show "x \<in> (\<Union>x \<in> set (xs[i := u]). f x)" using j(1) nth_mem[of j "xs[i := u]"] by auto
qed

lemma store_inv:
  assumes inv: "ring_inv P C L s" and run: "store_entry i s = Some s'" and rng: "in_range s"
  shows "ring_inv P C L s'"
proof -
  let ?t = "threads s ! i" and ?N = "length (log_of s)" and ?a = "pos (t_idx (threads s ! i))"
  from run obtain w ws where i: "i < length (threads s)" "t_ready ?t" and w: "t_words ?t = w # ws"
    and s': "s' = s\<lparr>chan := (chan s)\<lparr>buf := (buf (chan s))(WRAPPED_CHANNEL_BUF (t_idx ?t) := w OR curr_flag (t_idx ?t))\<rparr>,
        threads := (threads s)[i := ?t\<lparr>t_idx := t_idx ?t + CHANNEL_ENTRY_BYTES, t_words := ws\<rparr>]\<rparr>"
    by (auto simp: store_entry_def Let_def split: if_splits list.splits)
  have tok: "thread_ok P C (log_of s) ?t" using ring_invD(3)[OF inv] i by simp
  note T = thread_okD[OF tok]
  have a: "t_idx ?t = idx ?a" "?a < ?N" "P \<le> ?a" "?a + length (t_words ?t) \<le> C + ring_size" "?a + length (t_words ?t) \<le> ?N"
    using T(1) T(2) T(4) T(6)[OF i(2)] w by simp_all
  have lw: "w # ws = take (Suc (length ws)) (drop ?a (log_of s))" using T(3) unfolding w by simp
  have lga: "log_of s ! ?a = w" and lws: "ws = take (length ws) (drop (Suc ?a) (log_of s))"
    using lw a(2) by (simp_all add: Cons_nth_drop_Suc[symmetric])
  have cnt: "counters_ok P C L s" using ring_invD(1)[OF inv] .
  have k8: "8 * k < 2 ^ 64" if "k < ?N + ring_size" for k using that rng by (simp add: in_range_def)
  let ?u = "?t\<lparr>t_idx := t_idx ?t + CHANNEL_ENTRY_BYTES, t_words := ws\<rparr>"
  have ui: "t_idx ?u = idx (Suc ?a)" "pos (t_idx ?u) = Suc ?a"
    using a(1) idx_Suc[of ?a] k8[of "Suc ?a"] a(2) by (simp_all add: pos_idx)
  have covt: "covers ?t = insert ?a (covers ?u)" and anu: "?a \<notin> covers ?u"
    using w ui by (auto simp: covers_def)
  have th: "threads s' = (threads s)[i := ?u]" and same: "log_of s' = log_of s" using s' by simp_all
  have dis: "covers (threads s ! j) \<inter> covers ?t = {}" if "j < length (threads s)" "j \<noteq> i" for j
    using ring_invD(4)[OF inv that(1) i(1) that(2)] .
  have unw: "unwritten s' = unwritten s - {?a}"
    unfolding unwritten_def th by (rule UN_shrink[OF i(1) dis covt anu])
  have wr: "written s' k \<longleftrightarrow> written s k \<or> k = ?a" for k
    using a(2) unfolding written_def unw same by auto
  have ain: "?a \<in> unwritten s" using covt i(1) unfolding unwritten_def by (metis UN_I insertI1 nth_mem)
  show ?thesis
  proof (rule ring_invI)
    show "counters_ok P C L s'" using cnt s' by (simp add: counters_ok_def)
    show "history_ok P s'" using ring_invD(2)[OF inv] s' by (simp add: history_ok_def)
    show "thread_ok P C (log_of s') t" if "t \<in> set (threads s')" for t
    proof (cases "t = ?u")
      case True
      show ?thesis using a w i ui lws unfolding True thread_ok_def same by simp
    next
      case False
      then have "t \<in> set (threads s)" using that set_update_subset_insert[of "threads s" i ?u] unfolding th by blast
      from ring_invD(3)[OF inv this] show ?thesis by (simp add: same)
    qed
    show "covers (threads s' ! k) \<inter> covers (threads s' ! j) = {}"
      if "k < length (threads s')" "j < length (threads s')" "k \<noteq> j" for k j
      using that covt unfolding th by (intro disjoint_update[OF i(1)] ring_invD(4)[OF inv]) auto
    show "slot_ok s' k" if k: "P \<le> k" "k < P + ring_size" for k
    proof (cases "k = ?a")
      case True
      have "buf (chan s') (WRAPPED_CHANNEL_BUF (idx ?a)) = w OR of_bool (lap_flag ?a)"
        using s' a(1) flag_idx(1)[OF k8, of ?a] a(2) by simp
      then show ?thesis using True lga wr[of ?a] by (simp add: slot_ok_def same)
    next
      case False
      have bnd: "k < ?N + ring_size" "?a < P + ring_size"
        using k cnt a(4) w by (auto simp: counters_ok_def)
      have "k mod ring_size \<noteq> ?a mod ring_size" using same_slot[of k ?a P] False k a(3) bnd(2) by blast
      then have "WRAPPED_CHANNEL_BUF (idx k) \<noteq> WRAPPED_CHANNEL_BUF (t_idx ?t)"
        using wrapped_eq_iff[OF k8[OF bnd(1)] k8, of ?a] a(1,2) by simp
      then have "buf (chan s') (WRAPPED_CHANNEL_BUF (idx k)) = buf (chan s) (WRAPPED_CHANNEL_BUF (idx k))"
        using s' by simp
      then show ?thesis by (rule slot_ok_cong[OF ring_invD(5)[OF inv k]]) (simp_all add: False wr[of k] same)
    qed
    show "k < C + ring_size" if "written s' k" for k
      using ring_invD(6)[OF inv, of k] that wr[of k] a(4) w by auto
  qed
qed

lemma stamp_nth: "stamp (idx a) ws = map (\<lambda>i. ws ! i OR curr_flag (idx (a + i))) [0..<length ws]"
proof (induction ws arbitrary: a)
  case (Cons w ws)
  show ?case using Cons.IH[of "Suc a"] by (simp add: idx_Suc upt_conv_Cons map_Suc_upt[symmetric] del: upt_Suc)
qed simp

lemma stamp_all_snoc:
  "stamp_all (idx a) (rs @ [ws]) = stamp_all (idx a) rs @ [stamp (idx (a + length (concat rs))) ws]"
  by (induction rs arbitrary: a) (simp_all add: idx_req add.assoc)

lemma written_slot:
  assumes inv: "ring_inv P C L s" and k: "P \<le> k" "k < P + ring_size" and rng: "in_range s"
    and flag: "bit (buf (chan s) (WRAPPED_CHANNEL_BUF (idx k))) 0 = lap_flag k"
  shows "written s k" "buf (chan s) (WRAPPED_CHANNEL_BUF (idx k)) = log_of s ! k OR of_bool (lap_flag k)"
  using ring_invD(5)[OF inv k] flag by (auto simp: slot_ok_def Let_def split: if_splits)

lemma range_bound: "in_range s \<Longrightarrow> ring_inv P C L s \<Longrightarrow> k < P + ring_size \<Longrightarrow> 8 * k < 2 ^ 64"
  using ring_invD(1)[of P C L s] by (auto simp: in_range_def counters_ok_def)

lemma next_request:
  assumes "history_ok P s" "P < length (log_of s)"
  obtains ws where "length (delivered s) < length (posted s)" "ws = posted s ! length (delivered s)"
    "valid_request ws" "\<And>i. i < length ws \<Longrightarrow> log_of s ! (P + i) = ws ! i" "P + length ws \<le> length (log_of s)"
    "P + length ws = length (concat (take (Suc (length (delivered s))) (posted s)))"
    "stamp_all 0 (take (Suc (length (delivered s))) (posted s)) = delivered s @ [stamp (idx P) ws]"
proof -
  let ?k = "length (delivered s)"
  have H: "?k \<le> length (posted s)" "P = length (concat (take ?k (posted s)))"
    "delivered s = stamp_all 0 (take ?k (posted s))" "\<forall>r \<in> set (posted s). valid_request r"
    using assms(1) by (simp_all add: history_ok_def)
  have k: "?k < length (posted s)"
  proof (rule ccontr)
    assume "\<not> ?k < length (posted s)"
    then have "take ?k (posted s) = posted s" by simp
    then show False using H(2) assms(2) by simp
  qed
  let ?ws = "posted s ! ?k"
  have split: "posted s = take ?k (posted s) @ ?ws # drop (Suc ?k) (posted s)"
    using k by (rule id_take_nth_drop)
  have log: "log_of s = concat (take ?k (posted s)) @ ?ws @ concat (drop (Suc ?k) (posted s))"
    by (subst split) simp
  have tk: "take (Suc ?k) (posted s) = take ?k (posted s) @ [?ws]" using k by (rule take_Suc_conv_app_nth)
  show ?thesis
  proof (rule that[OF k refl])
    show "valid_request ?ws" using H(4) k by simp
    show "log_of s ! (P + i) = ?ws ! i" if "i < length ?ws" for i
      unfolding log H(2) using that by (simp add: nth_append)
    show "P + length ?ws \<le> length (log_of s)" unfolding log using H(2) by simp
    show "P + length ?ws = length (concat (take (Suc ?k) (posted s)))" unfolding tk using H(2) by simp
    show "stamp_all 0 (take (Suc ?k) (posted s)) = delivered s @ [stamp (idx P) ?ws]"
      using stamp_all_snoc[of 0 "take ?k (posted s)" ?ws] H(2,3) unfolding tk idx_0 by simp
  qed
qed

lemma update_counters:
  assumes c: "counters_ok P C L s" and n: "P + n \<le> length (log_of s)" and rng: "in_range s"
    and ch: "ch = proxy_update_processed (chan s) (of_nat n * CHANNEL_ENTRY_BYTES) force"
  obtains C' where "counters_ok (P + n) C' L (s\<lparr>chan := ch, delivered := d\<rparr>)" "C \<le> C'"
proof -
  have P: "processed (chan s) + of_nat n * CHANNEL_ENTRY_BYTES = idx (P + n)" "last_sync (chan s) = idx C"
    "C \<le> P" "L \<le> C" using c by (simp_all add: counters_ok_def idx_add)
  have "unat (idx (P + n)) = 8 * (P + n)" using n rng by (intro unat_idx) (simp add: in_range_def)
  moreover have "unat (idx C) = 8 * C" using n P(3) rng by (intro unat_idx) (simp add: in_range_def)
  ultimately have d: "unat (idx (P + n) - idx C) = 8 * (P + n) - 8 * C" using P(3) by (simp add: unat_sub_nowrap)
  show ?thesis
  proof (cases "idx (P + n) - idx C \<ge> 1024 \<or> force")
    case True
    then have "ch = (chan s)\<lparr>processed := idx (P + n), complete := idx (P + n), last_sync := idx (P + n)\<rparr>"
      using P by (simp add: ch proxy_update_processed_def Let_def)
    then show ?thesis using that[of "P + n"] c n P(3,4) by (simp add: counters_ok_def)
  next
    case False
    then have "ch = (chan s)\<lparr>processed := idx (P + n)\<rparr>"
      using P by (simp add: ch proxy_update_processed_def Let_def)
    moreover have "unat (idx (P + n) - idx C) < 1024" using False by (simp add: word_le_nat_alt not_le)
    then have "8 * (P + n) < 1024 + 8 * C" using less_diff_conv2[of "8 * C" "8 * (P + n)" 1024] d P(3) by simp
    then have "P + n < C + 128" by simp
    ultimately show ?thesis using that[of C] c n P(3) by (simp add: counters_ok_def)
  qed
qed

lemma take_reads:
  assumes inv: "ring_inv P C L s" and run: "host_take s = Some s'" and rng: "in_range s"
  obtains ws force where "length (delivered s) < length (posted s)" "ws = posted s ! length (delivered s)"
    "valid_request ws" "\<And>i. i < length ws \<Longrightarrow> written s (P + i)" "P + length ws \<le> length (log_of s)"
    "\<And>i. i < length ws \<Longrightarrow> buf (chan s) (WRAPPED_CHANNEL_BUF (idx (P + i))) = ws ! i OR of_bool (lap_flag (P + i))"
    "s' = s\<lparr>chan := proxy_update_processed (chan s) (of_nat (length ws) * CHANNEL_ENTRY_BYTES) force,
            delivered := delivered s @ [stamp (idx P) ws]\<rparr>"
    "history_ok (P + length ws) s'"
proof -
  have c: "counters_ok P C L s" and h: "history_ok P s" using ring_invD(1,2)[OF inv] .
  then have pr: "processed (chan s) = idx P" by (simp add: counters_ok_def)
  from run obtain n where base: "base_ready (chan s)"
    and n: "request_entries (read_entry (chan s) (idx P)) = Some n"
    and rest: "\<forall>i \<in> {1..<n}. entry_ready (chan s) (idx (P + i))"
    and s': "s' = s\<lparr>chan := proxy_update_processed (chan s) (of_nat n * CHANNEL_ENTRY_BYTES)
                             ((ucast (br_op (base_request_of (read_entry (chan s) (idx P)))) :: u64) = NVSHMEMI_OP_QUIET_QP),
        delivered := delivered s @ [map (\<lambda>i. read_entry (chan s) (idx (P + i))) [0..<n]]\<rparr>"
    by (auto simp: host_take_def Let_def pr idx_add split: if_splits option.splits)
  have P8: "8 * P < 2 ^ 64" by (rule range_bound[OF rng inv]) simp
  have "bit (buf (chan s) (WRAPPED_CHANNEL_BUF (idx P))) 0 = lap_flag P"
    using base flag_idx(2)[OF P8] by (simp add: base_ready_def pr read_entry_def base_request_of_def byte_and_1)
  note W = written_slot[OF inv le_refl _ rng this, simplified]
  then have PN: "P < length (log_of s)" by (simp add: written_def)
  obtain ws where ws: "length (delivered s) < length (posted s)" "ws = posted s ! length (delivered s)"
    "valid_request ws" "\<And>i. i < length ws \<Longrightarrow> log_of s ! (P + i) = ws ! i" "P + length ws \<le> length (log_of s)"
    "P + length ws = length (concat (take (Suc (length (delivered s))) (posted s)))"
    "stamp_all 0 (take (Suc (length (delivered s))) (posted s)) = delivered s @ [stamp (idx P) ws]"
    by (rule next_request[OF h PN]) (rule that; assumption)
  have len: "0 < length ws" "length ws \<le> ring_size - 128" using valid_length[OF ws(3)] by simp_all
  have "hd ws = log_of s ! P" using ws(4)[of 0] len(1) by (simp add: hd_conv_nth)
  then have nws: "n = length ws" using n W(2) ws(3) by (simp add: read_entry_def valid_request_def)
  have all: "written s (P + i)" "buf (chan s) (WRAPPED_CHANNEL_BUF (idx (P + i))) = ws ! i OR of_bool (lap_flag (P + i))"
    if i: "i < length ws" for i
  proof -
    have iK: "P + i < P + ring_size" using i len by linarith
    have b: "bit (buf (chan s) (WRAPPED_CHANNEL_BUF (idx (P + i)))) 0 = lap_flag (P + i)"
    proof (cases "i = 0")
      case True
      then show ?thesis using \<open>bit (buf (chan s) (WRAPPED_CHANNEL_BUF (idx P))) 0 = lap_flag P\<close> by simp
    next
      case False
      then have "entry_ready (chan s) (idx (P + i))" using rest i nws by simp
      then have "(ucast (buf (chan s) (WRAPPED_CHANNEL_BUF (idx (P + i)))) :: u8) = of_bool (lap_flag (P + i))"
        using flag_idx(2)[OF range_bound[OF rng inv iK]] by (simp add: entry_ready_def read_entry_def)
      then have "bit (ucast (buf (chan s) (WRAPPED_CHANNEL_BUF (idx (P + i)))) :: u8) 0 = bit (of_bool (lap_flag (P + i)) :: u8) 0"
        by (rule arg_cong)
      then show ?thesis unfolding ucast_bit0 by (simp del: bit_0 add: bit_of_bool_iff)
    qed
    show "written s (P + i)" "buf (chan s) (WRAPPED_CHANNEL_BUF (idx (P + i))) = ws ! i OR of_bool (lap_flag (P + i))"
      using written_slot[OF inv _ iK rng b] ws(4)[OF i] by simp_all
  qed
  have "read_entry (chan s) (idx (P + i)) = ws ! i OR curr_flag (idx (P + i))" if "i < length ws" for i
    using all(2)[OF that] flag_idx(1)[OF range_bound[OF rng inv, of "P + i"]] that len
    by (simp add: read_entry_def)
  then have map: "map (\<lambda>i. read_entry (chan s) (idx (P + i))) [0..<n] = stamp (idx P) ws"
    unfolding nws stamp_nth by simp
  have hist: "history_ok (P + length ws) s'"
    using h ws(1,6,7) s' map by (simp add: history_ok_def)
  note s'' = s'[unfolded map, unfolded nws]
  show ?thesis by (rule that[OF ws(1-3) _ ws(5) _ s'' hist]) (simp_all add: all)
qed

lemma take_inv:
  assumes inv: "ring_inv P C L s" and run: "host_take s = Some s'" and rng: "in_range s"
  shows "\<exists>P' C'. ring_inv P' C' L s' \<and> P < P'"
proof -
  obtain ws force where T: "length (delivered s) < length (posted s)" "ws = posted s ! length (delivered s)"
    "valid_request ws" "\<And>i. i < length ws \<Longrightarrow> written s (P + i)" "P + length ws \<le> length (log_of s)"
    "\<And>i. i < length ws \<Longrightarrow> buf (chan s) (WRAPPED_CHANNEL_BUF (idx (P + i))) = ws ! i OR of_bool (lap_flag (P + i))"
    "s' = s\<lparr>chan := proxy_update_processed (chan s) (of_nat (length ws) * CHANNEL_ENTRY_BYTES) force,
            delivered := delivered s @ [stamp (idx P) ws]\<rparr>"
    "history_ok (P + length ws) s'"
    using take_reads[OF inv run rng] by blast
  let ?P = "P + length ws" and ?N = "length (log_of s)"
  obtain C' where C': "counters_ok ?P C' L s'" "C \<le> C'"
    using update_counters[OF ring_invD(1)[OF inv] T(5) rng refl] T(7) by metis
  have len: "0 < length ws" "length ws \<le> ring_size - 128" using valid_length[OF T(3)] by simp_all
  have buf': "buf (chan s') = buf (chan s)" using T(7) by (simp add: proxy_update_processed_def Let_def)
  have same: "threads s' = threads s" "log_of s' = log_of s" using T(7) by simp_all
  then have wr: "written s' = written s" by (simp add: written_def unwritten_def fun_eq_iff)
  have wP: "k < ?P \<Longrightarrow> P \<le> k \<Longrightarrow> written s k" for k using T(4)[of "k - P"] by simp
  have CP: "C \<le> P" "C' \<le> ?P" using ring_invD(1)[OF inv] C'(1) by (simp_all add: counters_ok_def)
  have "ring_inv ?P C' L s'"
  proof (rule ring_invI[OF C'(1) T(8)])
    show "thread_ok ?P C' (log_of s') t" if "t \<in> set (threads s')" for t
    proof -
      have t: "t \<in> set (threads s)" and tok: "thread_ok P C (log_of s) t"
        using that same ring_invD(3)[OF inv] by simp_all
      have "?P \<le> pos (t_idx t)" if ne: "t_words t \<noteq> []"
      proof -
        have "pos (t_idx t) \<in> unwritten s" using t ne by (auto simp: unwritten_def covers_def intro!: bexI[of _ t])
        then have "\<not> written s (pos (t_idx t))" by (simp add: written_def)
        then show ?thesis using wP[of "pos (t_idx t)"] thread_okD(4)[OF tok ne] by linarith
      qed
      then show ?thesis using tok C'(2) unfolding thread_ok_def same(2) by auto
    qed
    show "covers (threads s' ! i) \<inter> covers (threads s' ! j) = {}"
      if "i < length (threads s')" "j < length (threads s')" "i \<noteq> j" for i j
      using that ring_invD(4)[OF inv, of i j] by (simp add: same)
    show "slot_ok s' k" if k: "?P \<le> k" "k < ?P + ring_size" for k
    proof (cases "k < P + ring_size")
      case True
      with k have "slot_ok s k" using ring_invD(5)[OF inv, of k] by simp
      then show ?thesis by (rule slot_ok_cong) (simp_all add: same wr buf')
    next
      case False
      let ?j = "k - ring_size"
      have j: "P \<le> ?j" "?j < ?P" "k = ?j + ring_size" using False k by simp_all
      have k8: "8 * k < 2 ^ 64" using k T(5) rng by (simp add: in_range_def)
      have e: "WRAPPED_CHANNEL_BUF (idx k) = WRAPPED_CHANNEL_BUF (idx ?j)"
        using wrapped_eq_iff[OF k8, of ?j] k8 j(3) by (metis mod_add_self2 add_leD1 le_less_trans mult_le_mono2 le_add1)
      have "slot_ok s ?j" using ring_invD(5)[OF inv j(1)] j(2) len by simp
      then have "buf (chan s) (WRAPPED_CHANNEL_BUF (idx ?j)) = log_of s ! ?j OR of_bool (lap_flag ?j)"
        using wP[OF j(2,1)] by (simp add: slot_ok_def)
      moreover have "?j < ?N" "log_of s ! ?j AND 0xFF = 0"
      proof -
        show "?j < ?N" using j(2) T(5) by simp
        then have "log_of s ! ?j \<in> set (log_of s)" by (rule nth_mem)
        then obtain r where "r \<in> set (posted s)" "log_of s ! ?j \<in> set r" by auto
        then show "log_of s ! ?j AND 0xFF = 0"
          using ring_invD(2)[OF inv] by (auto simp: history_ok_def valid_request_def)
      qed
      ultimately have "bit (buf (chan s') (WRAPPED_CHANNEL_BUF (idx k))) 0 = lap_flag ?j"
        unfolding buf' e using bit0_stamped by metis
      moreover have "lap_flag k \<noteq> lap_flag ?j" using lap_flag_next[of ?j] j(3) by metis
      moreover have "\<not> written s' k" using ring_invD(6)[OF inv, of k] False CP(1) wr by auto
      ultimately show ?thesis by (simp add: slot_ok_def Let_def)
    qed
    show "k < C' + ring_size" if "written s' k" for k
      using ring_invD(6)[OF inv, of k] that C'(2) wr by simp
  qed
  then show ?thesis using len(1) by (intro exI[of _ ?P] exI[of _ C']) simp
qed

section \<open>Reachable states\<close>

definition inner_step :: "ring_state \<Rightarrow> ring_state \<Rightarrow> bool" where
  "inner_step s s' \<longleftrightarrow> (\<exists>i. admit i s = Some s') \<or> (\<exists>i. store_entry i s = Some s') \<or> host_take s = Some s'"

lemma ring_step_iff: "ring_step s s' \<longleftrightarrow> (\<exists>ws. valid_request ws \<and> s' = reserve ws s) \<or> inner_step s s'"
  by (auto simp: inner_step_def elim: ring_stepE intro: ring_step.intros)

lemma admit_eq:
  assumes "admit i s = Some s'"
  obtains c where "i < length (threads s)" "\<not> t_ready (threads s ! i)"
    "s' = s\<lparr>complete_local := c, threads := (threads s)[i := (threads s ! i)\<lparr>t_ready := True\<rparr>]\<rparr>"
  using assms by (auto simp: admit_def Let_def split: if_splits option.splits)

lemma store_eq:
  assumes "store_entry i s = Some s'"
  obtains w ws b where "i < length (threads s)" "t_ready (threads s ! i)" "t_words (threads s ! i) = w # ws"
    "s' = s\<lparr>chan := (chan s)\<lparr>buf := b\<rparr>,
       threads := (threads s)[i := (threads s ! i)\<lparr>t_idx := t_idx (threads s ! i) + CHANNEL_ENTRY_BYTES, t_words := ws\<rparr>]\<rparr>"
  using assms by (auto simp: store_entry_def Let_def split: if_splits list.splits)

lemma take_eq:
  assumes "host_take s = Some s'"
  obtains ch d where "s' = s\<lparr>chan := ch, delivered := delivered s @ [d]\<rparr>"
  using assms by (auto simp: host_take_def Let_def split: if_splits option.splits)

lemma inner_posted: "inner_step s s' \<Longrightarrow> posted s' = posted s"
  unfolding inner_step_def by (auto elim!: admit_eq store_eq take_eq)

lemma step_range: "ring_step s s' \<Longrightarrow> in_range s' \<Longrightarrow> in_range s"
  by (auto simp: ring_step_iff inner_posted in_range_def reserve_def Let_def)

lemma step_inv:
  assumes step: "ring_step s s'" and rng: "in_range s'" and inv: "ring_inv P C L s"
  shows "\<exists>P' C' L'. ring_inv P' C' L' s'"
  using step
proof (cases rule: ring_step.cases)
  case (step_reserve ws)
  then show ?thesis using reserve_inv[OF inv] rng by blast
qed (use admit_inv[OF inv _ step_range[OF step rng]] store_inv[OF inv _ step_range[OF step rng]]
      take_inv[OF inv _ step_range[OF step rng]] in blast)+

text \<open>A thread that has not passed flow control still holds a whole request.\<close>

definition starts_ok :: "ring_state \<Rightarrow> bool" where
  "starts_ok s \<longleftrightarrow> (\<forall>t \<in> set (threads s). \<not> t_ready t \<longrightarrow>
     (\<exists>j < length (posted s). t_idx t = idx (length (concat (take j (posted s)))) \<and> t_words t = posted s ! j))"

lemma starts_step:
  assumes "ring_step s s'" "starts_ok s" "ring_inv P C L s"
  shows "starts_ok s'"
  using assms(1)
proof (cases rule: ring_step.cases)
  case (step_reserve ws)
  have iss: "issue (chan s) = idx (length (log_of s))" using ring_invD(1)[OF assms(3)] by (simp add: counters_ok_def)
  show ?thesis unfolding starts_ok_def
  proof (intro ballI impI)
    fix t assume t: "t \<in> set (threads s')" "\<not> t_ready t"
    show "\<exists>j < length (posted s'). t_idx t = idx (length (concat (take j (posted s')))) \<and> t_words t = posted s' ! j"
    proof (cases "t \<in> set (threads s)")
      case True
      with assms(2) t(2) obtain j where "j < length (posted s)" "t_idx t = idx (length (concat (take j (posted s))))"
        "t_words t = posted s ! j" unfolding starts_ok_def by blast
      then show ?thesis using step_reserve by (intro exI[of _ j]) (simp add: reserve_def Let_def nth_append)
    next
      case False
      then show ?thesis using t step_reserve iss
        by (intro exI[of _ "length (posted s)"]) (simp add: reserve_def Let_def)
    qed
  qed
next
  case (step_admit i)
  then show ?thesis using assms(2)
    by (elim admit_eq) (auto simp: starts_ok_def dest!: set_update_subset_insert[THEN subsetD])
next
  case (step_store i)
  then show ?thesis using assms(2)
    by (elim store_eq) (auto simp: starts_ok_def dest!: set_update_subset_insert[THEN subsetD])
next
  case step_take
  then show ?thesis using assms(2) by (elim take_eq) (simp add: starts_ok_def)
qed

lemma reachable_inv:
  assumes "ring_step\<^sup>*\<^sup>* ring_new s" "in_range s"
  shows "\<exists>P C L. ring_inv P C L s \<and> starts_ok s"
  using assms
proof (induction rule: rtranclp_induct)
  case base
  then show ?case using ring_inv_new by (auto simp: starts_ok_def ring_new_def)
next
  case (step s s')
  then show ?case using step_range step_inv starts_step by metis
qed

section \<open>Progress\<close>

lemma concat_take_mono: "i \<le> j \<Longrightarrow> length (concat (take i xs)) \<le> length (concat (take j xs))"
proof -
  assume "i \<le> j"
  then have "take j xs = take i xs @ take (j - i) (drop i xs)" by (metis le_add_diff_inverse take_add)
  then show ?thesis by simp
qed

lemma host_enabled:
  assumes inv: "ring_inv P C L s" and rng: "in_range s" and ws: "valid_request ws"
    and at: "\<And>i. i < length ws \<Longrightarrow> log_of s ! (P + i) = ws ! i" and wr: "\<And>i. i < length ws \<Longrightarrow> written s (P + i)"
  shows "\<exists>s'. host_take s = Some s'"
proof -
  have pr: "processed (chan s) = idx P" using ring_invD(1)[OF inv] by (simp add: counters_ok_def)
  have len: "0 < length ws" "length ws \<le> ring_size - 128" using valid_length[OF ws] by simp_all
  have e: "read_entry (chan s) (idx (P + i)) = ws ! i OR of_bool (lap_flag (P + i))"
    "COUNTER_TO_FLAG (idx (P + i)) = of_bool (lap_flag (P + i))" "ws ! i AND 0xFF = 0" if "i < length ws" for i
  proof -
    have k: "P + i < P + ring_size" using that len by linarith
    show "read_entry (chan s) (idx (P + i)) = ws ! i OR of_bool (lap_flag (P + i))"
      using ring_invD(5)[OF inv _ k] wr[OF that] at[OF that] by (simp add: slot_ok_def read_entry_def)
    show "COUNTER_TO_FLAG (idx (P + i)) = of_bool (lap_flag (P + i))" by (rule flag_idx(2)[OF range_bound[OF rng inv k]])
    show "ws ! i AND 0xFF = 0" using ws that by (simp add: valid_request_def)
  qed
  have "base_ready (chan s)"
    using e(1,2)[of 0] bit0_stamped[OF e(3)[of 0]] len(1)
    by (simp add: base_ready_def pr base_request_of_def byte_and_1 del: bit_0)
  moreover have "request_entries (read_entry (chan s) (idx P)) = Some (length ws)"
    using e(1)[of 0] len(1) ws by (simp add: valid_request_def hd_conv_nth)
  moreover have "entry_ready (chan s) (idx (P + i))" if "i < length ws" for i
    using e[OF that] by (simp add: entry_ready_def low_byte_stamped)
  ultimately show ?thesis by (simp add: host_take_def Let_def pr idx_add)
qed

lemma admit_enabled:
  assumes inv: "ring_inv P C L s" and rng: "in_range s" and i: "i < length (threads s)" "\<not> t_ready (threads s ! i)"
    and fit: "pos (t_idx (threads s ! i)) + length (t_words (threads s ! i)) \<le> C + ring_size"
  shows "\<exists>s'. admit i s = Some s'"
proof -
  let ?t = "threads s ! i" and ?a = "pos (t_idx (threads s ! i))" and ?n = "length (t_words (threads s ! i))"
  have cnt: "counters_ok P C L s" using ring_invD(1)[OF inv] .
  note T = thread_okD[OF ring_invD(3)[OF inv nth_mem[OF i(1)]]]
  have n: "0 < ?n" using T(5)[OF i(2)] by simp
  have tl: "t_idx ?t + (req_bytes (t_words ?t) - 1) = idx (?a + ?n) - 1"
    using T(1) idx_req[of ?a "t_words ?t"] by (simp add: algebra_simps)
  have u: "unat (idx (?a + ?n)) = 8 * (?a + ?n)" using T(2) rng by (intro unat_idx) (simp add: in_range_def)
  have t: "unat (idx (?a + ?n) - 1) = 8 * (?a + ?n) - 1"
    using one_le_8[OF n, of ?a] u by (subst unat_sub_nowrap) simp_all
  have C: "8 * (C + ring_size) < 2 ^ 64" using cnt rng by (auto simp: counters_ok_def in_range_def)
  have bs: "unat CHANNEL_BUF_SIZE = 8 * ring_size" by (simp add: CHANNEL_BUF_SIZE_def CHANNEL_BUF_SIZE_LOG_def)
  have "unat (idx C + (CHANNEL_BUF_SIZE - 1)) = 8 * (C + ring_size) - 1"
    using C bs by (subst unat_add_nowrap; subst unat_sub_nowrap) (simp_all add: unat_idx)
  then have "\<not> idx C + (CHANNEL_BUF_SIZE - 1) < idx (?a + ?n) - 1"
    using t fit by (simp add: word_less_nat_alt)
  moreover have "complete (chan s) = idx C" using cnt by (simp add: counters_ok_def)
  ultimately show ?thesis using i by (simp add: admit_def Let_def tl check_channel_availability_def)
qed

lemma store_enabled:
  "i < length (threads s) \<Longrightarrow> t_ready (threads s ! i) \<Longrightarrow> t_words (threads s ! i) \<noteq> [] \<Longrightarrow> \<exists>s'. store_entry i s = Some s'"
  by (cases "t_words (threads s ! i)") (simp_all add: store_entry_def Let_def)

lemma ring_progress:
  assumes inv: "ring_inv P C L s" and st: "starts_ok s" and rng: "in_range s"
    and left: "length (delivered s) < length (posted s)"
  shows "\<exists>s'. inner_step s s'"
proof -
  let ?k = "length (delivered s)"
  have cnt: "counters_ok P C L s" and h: "history_ok P s" using ring_invD(1,2)[OF inv] .
  have PN: "P < length (log_of s)"
  proof -
    have v: "valid_request (posted s ! ?k)" using h left by (simp add: history_ok_def)
    have "length (concat (take (Suc ?k) (posted s))) = P + length (posted s ! ?k)"
      using h left by (simp add: history_ok_def take_Suc_conv_app_nth)
    moreover have "length (concat (take (Suc ?k) (posted s))) \<le> length (log_of s)"
      using concat_take_mono[of "Suc ?k" "length (posted s)" "posted s"] left by simp
    ultimately show ?thesis using conjunct1[OF valid_length[OF v]] by linarith
  qed
  obtain ws where ws: "?k < length (posted s)" "ws = posted s ! ?k"
    "valid_request ws" "\<And>i. i < length ws \<Longrightarrow> log_of s ! (P + i) = ws ! i" "P + length ws \<le> length (log_of s)"
    "P + length ws = length (concat (take (Suc ?k) (posted s)))"
    "stamp_all 0 (take (Suc ?k) (posted s)) = delivered s @ [stamp (idx P) ws]"
    by (rule next_request[OF h PN]) (rule that; assumption)
  show ?thesis
  proof (cases "\<forall>i < length ws. written s (P + i)")
    case True
    then show ?thesis using host_enabled[OF inv rng ws(3,4)] by (auto simp: inner_step_def)
  next
    case False
    then obtain q where q: "q < length ws" "\<not> written s (P + q)" by blast
    define p where "p = P + q"
    have p: "P \<le> p" "p < P + length ws" "p \<in> unwritten s"
      using q ws(5) by (simp_all add: written_def p_def)
    then obtain i where i: "i < length (threads s)" "p \<in> covers (threads s ! i)"
      by (auto simp: unwritten_def in_set_conv_nth)
    let ?t = "threads s ! i"
    have ne: "t_words ?t \<noteq> []" using i(2) by (auto simp: covers_def)
    show ?thesis
    proof (cases "t_ready ?t")
      case True
      then show ?thesis using store_enabled[OF i(1) True ne] by (auto simp: inner_step_def)
    next
      case False
      then obtain j where j: "j < length (posted s)" "t_idx ?t = idx (length (concat (take j (posted s))))" "t_words ?t = posted s ! j"
        using st nth_mem[OF i(1)] unfolding starts_ok_def by blast
      let ?a = "length (concat (take j (posted s)))"
      have aN: "?a \<le> length (log_of s)" using concat_take_mono[of j "length (posted s)" "posted s"] j(1) by simp
      have a: "pos (t_idx ?t) = ?a" unfolding j(2) using aN rng by (intro pos_idx) (simp add: in_range_def)
      have pa: "?a \<le> p" "p < length (concat (take (Suc j) (posted s)))"
        using i(2) a j(3) by (simp_all add: covers_def take_Suc_conv_app_nth[OF j(1)])
      have Pk: "P = length (concat (take ?k (posted s)))" using h by (simp add: history_ok_def)
      have "j = ?k"
      proof (rule ccontr)
        assume "j \<noteq> ?k"
        then consider "Suc j \<le> ?k" | "Suc ?k \<le> j" by linarith
        then show False
        proof cases
          case 1
          then show False using concat_take_mono[OF 1, of "posted s"] pa(2) p(1) Pk by simp
        next
          case 2
          then show False using concat_take_mono[OF 2, of "posted s"] pa(1) p(2) ws(6) by simp
        qed
      qed
      then have "pos (t_idx ?t) + length (t_words ?t) = P + length ws" using a j(3) Pk ws(2) by simp
      then have "pos (t_idx ?t) + length (t_words ?t) \<le> C + ring_size"
        using valid_length[OF ws(3)] cnt by (simp add: counters_ok_def)
      then show ?thesis using admit_enabled[OF inv rng i(1) False] by (auto simp: inner_step_def)
    qed
  qed
qed

definition ring_work :: "ring_state \<Rightarrow> nat" where
  "ring_work s = (\<Sum>t \<leftarrow> threads s. length (t_words t) + of_bool (\<not> t_ready t)) +
     (length (posted s) - length (delivered s))"

lemma sum_list_update_less:
  "i < length xs \<Longrightarrow> (f y :: nat) < f (xs ! i) \<Longrightarrow> sum_list (map f (xs[i := y])) < sum_list (map f xs)"
  by (induction xs arbitrary: i) (auto split: nat.splits)

lemma inner_work:
  assumes "inner_step s s'" "ring_inv P C L s" "in_range s"
  shows "ring_work s' < ring_work s"
  using assms(1) unfolding inner_step_def
proof (elim disjE exE)
  fix i assume "admit i s = Some s'"
  then show ?thesis
    by (elim admit_eq) (simp add: ring_work_def sum_list_update_less)
next
  fix i assume "store_entry i s = Some s'"
  then show ?thesis
    by (elim store_eq) (simp add: ring_work_def sum_list_update_less)
next
  assume t: "host_take s = Some s'"
  then have "length (delivered s) < length (posted s)" using take_reads[OF assms(2) t assms(3)] by metis
  then show ?thesis using t by (elim take_eq) (simp add: ring_work_def diff_less_mono2)
qed

lemma ring_drains:
  assumes "ring_inv P C L s" "starts_ok s" "in_range s"
  shows "\<exists>s'. inner_step\<^sup>*\<^sup>* s s' \<and> posted s' = posted s \<and> delivered s' = stamp_all 0 (posted s)"
  using assms
proof (induction "ring_work s" arbitrary: s P C L rule: less_induct)
  case less
  show ?case
  proof (cases "length (delivered s) < length (posted s)")
    case False
    then have "delivered s = stamp_all 0 (posted s)"
      using ring_invD(2)[OF less.prems(1)] by (auto simp: history_ok_def)
    then show ?thesis by blast
  next
    case True
    obtain s1 where s1: "inner_step s s1" using ring_progress[OF less.prems True] by blast
    have p: "posted s1 = posted s" by (rule inner_posted[OF s1])
    then have rng: "in_range s1" using less.prems(3) by (simp add: in_range_def)
    have step: "ring_step s s1" using s1 by (simp add: ring_step_iff)
    obtain P' C' L' where "ring_inv P' C' L' s1" using step_inv[OF step rng less.prems(1)] by blast
    from less.hyps[OF inner_work[OF s1 less.prems(1,3)] this starts_step[OF step less.prems(2,1)] rng] p s1
    show ?thesis by (metis converse_rtranclp_into_rtranclp)
  qed
qed

end
