(* ===== verification/Ring_Delivery.thy ===== *)
theory Ring_Delivery
  imports Proxy_Codec Ring_Invariant
begin

text \<open>
  From the device's call to the host's request. The locale \<open>request_codec\<close> is what a request type
  needs to travel over the ring: its payloads are valid, and reading them back gives a known view of the
  request. The client lemma, proved once, says what the host obtains from the ring; it is instantiated for
  the four data-carrying requests, where the view is the request itself, and for the two requests that
  name queue pairs.
\<close>

section \<open>Payloads leave the flag byte alone\<close>

lemma clear_push: "8 \<le> n \<Longrightarrow> push_bit n x AND 0xFF = (0 :: u64)"
  unfolding byte_masks by (rule bit_word_eqI) (auto simp: bit_simps)

lemma clear_masks:
  "(x AND 0xFFFFFFFFFFFFFF00) AND 0xFF = (0 :: u64)" "(x AND NOT 0xFFFFFFFF) AND 0xFF = (0 :: u64)"
  "(x AND NOT 0xFF) AND 0xFF = (0 :: u64)"
  unfolding byte_masks by (rule bit_word_eqI, auto simp: bit_simps)+

lemma clear_or: "a AND 0xFF = (0 :: u64) \<Longrightarrow> b AND 0xFF = 0 \<Longrightarrow> (a OR b) AND 0xFF = 0"
  by (simp add: bit.conj_disj_distrib2)

lemmas clear_intros = clear_or clear_push clear_masks

lemma curr_flag_bool: "curr_flag i = of_bool (drop_bit CHANNEL_BUF_SIZE_LOG i AND 1 = 0)"
  by (simp add: curr_flag_def)

lemma base_op:
  assumes "r < 2 ^ 40" "op < 2 ^ 8"
  shows "(ucast (br_op (base_request_of ((push_bit 24 r OR push_bit 16 op OR push_bit 8 1) OR of_bool f))) :: u64) = op"
  using base_entry(2)[OF assms, of f] unfolding or.assoc .

section \<open>The interface\<close>

locale request_codec =
  fixes words :: "'r \<Rightarrow> u64 list"
    and fetch :: "u64 list \<Rightarrow> 'v"
    and sendable :: "'r \<Rightarrow> bool"
    and view :: "'r \<Rightarrow> 'v"
  assumes words_valid: "sendable r \<Longrightarrow> valid_request (words r)"
    and fetch_words: "sendable r \<Longrightarrow> fetch (stamp i (words r)) = view r"
begin

lemma stamp_all_nth: "k < length rs \<Longrightarrow> \<exists>i. stamp_all a rs ! k = stamp i (rs ! k)"
  by (induction rs arbitrary: a k) (auto simp: nth_Cons split: nat.splits)

lemma delivered_request:
  assumes "ring_step\<^sup>*\<^sup>* ring_new s" "in_range s" "k < length (delivered s)" "posted s ! k = words r" "sendable r"
  shows "fetch (delivered s ! k) = view r"
proof -
  obtain P C L where "ring_inv P C L s" using reachable_inv[OF assms(1,2)] by blast
  then have h: "length (delivered s) \<le> length (posted s)"
    "delivered s = stamp_all 0 (take (length (delivered s)) (posted s))"
    using ring_invD(2) by (auto simp: history_ok_def)
  then obtain i where "delivered s ! k = stamp i (posted s ! k)"
    using stamp_all_nth[of k "take (length (delivered s)) (posted s)" 0] assms(3) by (auto simp: min_absorb2)
  then show ?thesis using assms(4,5) fetch_words by simp
qed

end

section \<open>The four data-carrying requests\<close>

definition dma_words :: "u64 \<Rightarrow> dma_fields \<Rightarrow> u64 list" where
  "dma_words base r = transfer_dma base (base + dma_roffset r) (dma_laddr r) (dma_size r) (ucast (dma_pe r)) (dma_desc r) (dma_qp r)"

definition fetch_dma :: "u64 list \<Rightarrow> dma_fields" where
  "fetch_dma ws = read_dma (ws ! 0) (ws ! 1) (ws ! 2) (ws ! 3)"

definition sendable_dma :: "dma_fields \<Rightarrow> bool" where
  "sendable_dma r \<longleftrightarrow> dma_roffset r < 2 ^ 40 \<and> dma_size r < 2 ^ 48 \<and> dma_op (dma_desc r)"

lemma ucast_pe: "(ucast (ucast (p :: u16) :: u32) :: u16) = p"
  by (rule bit_word_eqI) (simp add: bit_simps)

lemma dma_codec:
  assumes "sendable_dma r"
  shows "valid_request (dma_words base r)" "fetch_dma (stamp i (dma_words base r)) = r"
proof -
  let ?op = "qp_op (dma_qp r) (dma_desc r)"
  have op: "0 < dma_desc r" "dma_desc r < 2 ^ 4" using assms by (auto simp: sendable_dma_def dma_op_def op_defs)
  have r: "dma_roffset r < 2 ^ 40" using assms by (simp add: sendable_dma_def)
  have ws: "dma_words base r = [push_bit 24 (dma_roffset r) OR push_bit 16 ?op OR push_bit 8 1,
      dma_laddr r AND 0xFFFFFFFFFFFFFF00, push_bit 16 (dma_size r) OR push_bit 8 (dma_laddr r AND 0xFF),
      push_bit 32 (ucast (dma_qp r)) OR push_bit 16 (ucast (ucast (ucast (dma_pe r) :: u32) :: u16))]"
    by (simp add: dma_words_def transfer_dma_def Let_def qp_op_def)
  have "?op \<in> {NVSHMEMI_OP_PUT, NVSHMEMI_OP_PUT_QP, NVSHMEMI_OP_G, NVSHMEMI_OP_G_QP, NVSHMEMI_OP_GET, NVSHMEMI_OP_GET_QP}"
    using assms by (auto simp: sendable_dma_def dma_op_def qp_op_def op_defs)
  then have "request_entries (hd (dma_words base r) OR of_bool f) = Some 4" for f
    unfolding request_entries_def Let_def ws list.sel base_op[OF r qp_op_read(1)[OF op]] by simp
  moreover have "\<forall>w \<in> set (dma_words base r). w AND 0xFF = 0"
    unfolding ws list.set ball_simps by (intro conjI TrueI clear_intros) simp_all
  ultimately show "valid_request (dma_words base r)" unfolding valid_request_def by (simp add: ws)
  have "transfer_dma base (base + dma_roffset r) (dma_laddr r) (dma_size r) (ucast (dma_pe r)) (dma_desc r) (dma_qp r) =
      [dma_words base r ! 0, dma_words base r ! 1, dma_words base r ! 2, dma_words base r ! 3]"
    by (simp add: dma_words_def transfer_dma_def Let_def)
  from dma_round_trip[OF _ _ _ this] assms show "fetch_dma (stamp i (dma_words base r)) = r"
    unfolding fetch_dma_def ws stamp.simps curr_flag_bool by (simp add: sendable_dma_def ucast_pe)
qed

text \<open>The phase of the ring a counter is in, as the test that \<open>curr_flag\<close> makes.\<close>

abbreviation phase :: "u64 \<Rightarrow> bool" where
  "phase i \<equiv> drop_bit CHANNEL_BUF_SIZE_LOG i AND 1 = 0"

lemma valid_requestI:
  assumes "\<And>f. request_entries (w OR of_bool f) = Some (Suc (length ws))" "w AND 0xFF = 0"
    "\<And>v. v \<in> set ws \<Longrightarrow> v AND 0xFF = 0" "length ws \<le> 8"
  shows "valid_request (w # ws)"
  unfolding valid_request_def list.sel list.size(4) add_Suc_right add_0_right
  by (intro conjI allI assms(1)) (use assms(2-4) in auto)

definition inline_words :: "u64 \<Rightarrow> inline_fields \<Rightarrow> u64 list" where
  "inline_words base r =
     nvshmemi_proxy_rma_p base (base + inl_roffset r) (inl_lvalue r) (inl_size r) (ucast (inl_pe r)) (inl_qp r)"

definition fetch_inline :: "u64 list \<Rightarrow> inline_fields" where
  "fetch_inline ws = read_inline (ws ! 0) (ws ! 1) (ws ! 2) (if length ws > 3 then Some (ws ! 3) else None)"

definition sendable_inline :: "inline_fields \<Rightarrow> bool" where
  "sendable_inline r \<longleftrightarrow> inl_roffset r < 2 ^ 40 \<and> elem_size (inl_size r) \<and>
     convert_val_to_uint64 0 (inl_lvalue r) (inl_size r) = inl_lvalue r"

lemma inline_codec:
  assumes "sendable_inline r"
  shows "valid_request (inline_words base r)" "fetch_inline (stamp i (inline_words base r)) = r"
proof -
  let ?op = "if inl_qp r \<noteq> NVSHMEMX_QP_DEFAULT then NVSHMEMI_OP_P_QP else NVSHMEMI_OP_P"
  let ?last = "if inl_qp r \<noteq> NVSHMEMX_QP_DEFAULT then [push_bit 32 (ucast (inl_qp r))] else []"
  have op: "?op < 2 ^ 8" by (simp add: op_defs)
  have r: "inl_roffset r < 2 ^ 40" and sz: "elem_size (inl_size r)"
    and v: "convert_val_to_uint64 0 (inl_lvalue r) (inl_size r) = inl_lvalue r"
    using assms by (simp_all add: sendable_inline_def)
  define w0 w1 w2 where "w0 = push_bit 24 (inl_roffset r) OR push_bit 16 ?op OR push_bit 8 1"
    and "w1 = push_bit 32 (inl_lvalue r AND 0xFFFFFFFF) OR push_bit 16 (ucast (ucast (ucast (inl_pe r) :: u32) :: u16))"
    and "w2 = (inl_lvalue r AND NOT 0xFFFFFFFF) OR push_bit 16 (inl_size r)"
  have ti: "transfer_inline base (base + inl_roffset r) (inl_lvalue r) (inl_size r) (ucast (inl_pe r)) ?op (inl_qp r) =
      w0 # w1 # w2 # ?last"
    unfolding transfer_inline_def Let_def w0_def w1_def w2_def v by simp
  have ws: "inline_words base r = w0 # w1 # w2 # ?last"
    unfolding ti[symmetric] by (simp add: inline_words_def nvshmemi_proxy_rma_p_def)
  have e: "request_entries (w0 OR of_bool f) = Some (Suc (length (w1 # w2 # ?last)))" for f
    unfolding request_entries_def Let_def w0_def base_op[OF r op] by (simp add: op_defs)
  have "w0 AND 0xFF = 0" "w1 AND 0xFF = 0" "w2 AND 0xFF = 0" "push_bit 32 (ucast (inl_qp r) :: u64) AND 0xFF = 0"
    unfolding w0_def w1_def w2_def by (intro clear_intros; simp)+
  then show "valid_request (inline_words base r)"
    unfolding ws by (intro valid_requestI e) (auto split: if_splits)
  show "fetch_inline (stamp i (inline_words base r)) = r"
    unfolding fetch_inline_def ws stamp.simps curr_flag_bool
    using inline_round_trip[OF _ sz op ti, of "phase (i)"
        "phase (i + CHANNEL_ENTRY_BYTES)"
        "phase (i + CHANNEL_ENTRY_BYTES + CHANNEL_ENTRY_BYTES)"
        "phase (i + CHANNEL_ENTRY_BYTES + CHANNEL_ENTRY_BYTES + CHANNEL_ENTRY_BYTES)"] r
    by (cases "inl_qp r = NVSHMEMX_QP_DEFAULT") (simp_all add: curr_flag_bool v ucast_pe)
qed

definition amo_words :: "u64 \<Rightarrow> amo_fields \<Rightarrow> u64 list" where
  "amo_words base r = amo 0 base (base + amo_roffset r) (amo_g_counter r) (amo_lvalue r) (amo_cvalue r) (amo_size r)
     (ucast (amo_pe r)) (ucast (amo_op r)) (amo_qp r)"

definition fetch_amo :: "u64 list \<Rightarrow> amo_fields" where
  "fetch_amo ws = read_amo (ws ! 0) (ws ! 1) (ws ! 2) (ws ! 3) (ws ! 4) (if length ws > 5 then Some (ws ! 5) else None)"

definition sendable_amo :: "amo_fields \<Rightarrow> bool" where
  "sendable_amo r \<longleftrightarrow> amo_roffset r < 2 ^ 40 \<and> elem_size (amo_size r) \<and> amo_g_counter r < 2 ^ 56 \<and>
     convert_val_to_uint64 0 (amo_lvalue r) (amo_size r) = amo_lvalue r \<and>
     convert_val_to_uint64 0 (amo_cvalue r) (amo_size r) = amo_cvalue r \<and>
     (amo_op r \<noteq> NVSHMEMI_AMO_COMPARE_SWAP \<longrightarrow> amo_cvalue r = 0)"

lemma ucast_u8: "(ucast (ucast (a :: u8) :: u64) :: u8) = a" "(ucast (a :: u8) :: u64) < 2 ^ 8"
proof -
  show "(ucast (ucast a :: u64) :: u8) = a" by (rule bit_word_eqI) (simp add: bit_simps)
  have "unat (ucast a :: u64) < 2 ^ 8" using unsigned_less[of a, where ?'a = nat] by (simp add: unsigned_ucast_eq take_bit_nat_eq_self)
  then show "(ucast a :: u64) < 2 ^ 8" by (simp add: word_less_nat_alt)
qed

lemma amo_codec:
  assumes "sendable_amo r"
  shows "valid_request (amo_words base r)" "fetch_amo (stamp i (amo_words base r)) = r"
proof -
  let ?op = "if amo_qp r \<noteq> NVSHMEMX_QP_DEFAULT then NVSHMEMI_OP_AMO_QP else NVSHMEMI_OP_AMO"
  let ?last = "if amo_qp r \<noteq> NVSHMEMX_QP_DEFAULT then [push_bit 32 (ucast (amo_qp r))] else []"
  have op: "?op < 2 ^ 8" by (simp add: op_defs)
  have r: "amo_roffset r < 2 ^ 40" and sz: "elem_size (amo_size r)" and g: "amo_g_counter r < 2 ^ 56"
    and v: "convert_val_to_uint64 0 (amo_lvalue r) (amo_size r) = amo_lvalue r"
      "convert_val_to_uint64 0 (amo_cvalue r) (amo_size r) = amo_cvalue r"
    and c: "amo_op r \<noteq> NVSHMEMI_AMO_COMPARE_SWAP \<longrightarrow> amo_cvalue r = 0"
    using assms by (simp_all add: sendable_amo_def)
  define w0 w1 w2 w3 w4 where "w0 = push_bit 24 (amo_roffset r) OR push_bit 16 ?op OR push_bit 8 1"
    and "w1 = push_bit 32 (amo_lvalue r AND 0xFFFFFFFF) OR push_bit 16 (ucast (ucast (ucast (amo_pe r) :: u32) :: u16)) OR
      push_bit 8 (ucast (amo_op r))"
    and "w2 = (amo_lvalue r AND NOT 0xFFFFFFFF) OR push_bit 16 (amo_size r) OR push_bit 8 (amo_cvalue r AND 0xFF)"
    and "w3 = amo_cvalue r AND NOT 0xFF" and "w4 = push_bit 8 (amo_g_counter r AND 0x00FFFFFFFFFFFFFF)"
  have ta: "amo 0 base (base + amo_roffset r) (amo_g_counter r) (amo_lvalue r) (amo_cvalue r) (amo_size r)
      (ucast (amo_pe r)) (ucast (amo_op r)) (amo_qp r) = w0 # w1 # w2 # w3 # w4 # ?last"
    unfolding amo_def Let_def v w0_def w1_def w2_def w3_def w4_def by simp
  have ws: "amo_words base r = w0 # w1 # w2 # w3 # w4 # ?last" using ta by (simp add: amo_words_def)
  have e: "request_entries (w0 OR of_bool f) = Some (Suc (length (w1 # w2 # w3 # w4 # ?last)))" for f
    unfolding request_entries_def Let_def w0_def base_op[OF r op] by (simp add: op_defs)
  have "w0 AND 0xFF = 0" "w1 AND 0xFF = 0" "w2 AND 0xFF = 0" "w3 AND 0xFF = 0" "w4 AND 0xFF = 0"
    "push_bit 32 (ucast (amo_qp r) :: u64) AND 0xFF = 0"
    unfolding w0_def w1_def w2_def w3_def w4_def by (intro clear_intros; simp)+
  then show "valid_request (amo_words base r)" unfolding ws by (intro valid_requestI e) (auto split: if_splits)
  have "fetch_amo (stamp i (amo_words base r)) =
      \<lparr>amo_op = amo_op r, amo_roffset = amo_roffset r, amo_lvalue = amo_lvalue r,
       amo_cvalue = (if amo_op r = NVSHMEMI_AMO_COMPARE_SWAP then amo_cvalue r else 0),
       amo_g_counter = amo_g_counter r, amo_size = amo_size r, amo_pe = amo_pe r, amo_qp = amo_qp r\<rparr>"
    unfolding fetch_amo_def ws stamp.simps curr_flag_bool
    using amo_round_trip[OF _ sz ucast_u8(2) g ta, of "phase (i)"
        "phase (i + CHANNEL_ENTRY_BYTES)"
        "phase (i + CHANNEL_ENTRY_BYTES + CHANNEL_ENTRY_BYTES)"
        "phase (i + CHANNEL_ENTRY_BYTES + CHANNEL_ENTRY_BYTES + CHANNEL_ENTRY_BYTES)"
        "phase (i + CHANNEL_ENTRY_BYTES + CHANNEL_ENTRY_BYTES + CHANNEL_ENTRY_BYTES + CHANNEL_ENTRY_BYTES)"
        "phase (i + CHANNEL_ENTRY_BYTES + CHANNEL_ENTRY_BYTES + CHANNEL_ENTRY_BYTES + CHANNEL_ENTRY_BYTES + CHANNEL_ENTRY_BYTES)"] r
    by (cases "amo_qp r = NVSHMEMX_QP_DEFAULT") (simp_all add: curr_flag_bool v ucast_pe ucast_u8(1))
  then show "fetch_amo (stamp i (amo_words base r)) = r" using c by (cases "amo_op r = NVSHMEMI_AMO_COMPARE_SWAP") simp_all
qed

definition put_signal_words :: "u64 \<Rightarrow> put_signal_fields \<Rightarrow> u64 list" where
  "put_signal_words base r = nvshmemi_proxy_put_signal_nbi base (base + ps_roffset r) (ps_laddr r) (ps_size r)
     (ucast (ps_pe r)) NVSHMEMI_OP_PUT_SIGNAL (base + ps_rsig_offset r) (ps_sig_val r) (ucast (ps_sig_op r)) (ps_qp r)"

definition fetch_put_signal :: "u64 list \<Rightarrow> put_signal_fields" where
  "fetch_put_signal ws = read_put_signal (ws ! 0) (ws ! 1) (ws ! 2) (ws ! 3) (ws ! 4) (ws ! 5)"

definition sendable_put_signal :: "put_signal_fields \<Rightarrow> bool" where
  "sendable_put_signal r \<longleftrightarrow> ps_roffset r < 2 ^ 40 \<and> ps_size r < 2 ^ 48 \<and> ps_rsig_offset r < 2 ^ 40"

lemma put_signal_codec:
  assumes "sendable_put_signal r"
  shows "valid_request (put_signal_words base r)" "fetch_put_signal (stamp i (put_signal_words base r)) = r"
proof -
  let ?op = "qp_op (ps_qp r) NVSHMEMI_OP_PUT_SIGNAL"
  have op: "0 < NVSHMEMI_OP_PUT_SIGNAL" "NVSHMEMI_OP_PUT_SIGNAL < 2 ^ 4" by (simp_all add: op_defs)
  have r: "ps_roffset r < 2 ^ 40" "ps_size r < 2 ^ 48" "ps_rsig_offset r < 2 ^ 40"
    using assms by (simp_all add: sendable_put_signal_def)
  define w0 w1 w2 w3 w4 w5 where "w0 = push_bit 24 (ps_roffset r) OR push_bit 16 ?op OR push_bit 8 1"
    and "w1 = ps_laddr r AND 0xFFFFFFFFFFFFFF00"
    and "w2 = push_bit 16 (ps_size r) OR push_bit 8 (ps_laddr r AND 0xFF)"
    and "w3 = (push_bit 32 (ucast (ps_qp r)) :: u64) OR push_bit 16 (ucast (ucast (ucast (ps_pe r) :: u32) :: u16))"
    and "w4 = push_bit 24 (ps_rsig_offset r) OR push_bit 16 (ucast (ps_sig_op r)) OR push_bit 8 (ps_sig_val r AND 0xFF)"
    and "w5 = ps_sig_val r AND 0xFFFFFFFFFFFFFF00"
  have tp: "nvshmemi_proxy_put_signal_nbi base (base + ps_roffset r) (ps_laddr r) (ps_size r)
     (ucast (ps_pe r)) NVSHMEMI_OP_PUT_SIGNAL (base + ps_rsig_offset r) (ps_sig_val r) (ucast (ps_sig_op r)) (ps_qp r) =
     [w0, w1, w2, w3, w4, w5]"
    unfolding nvshmemi_proxy_put_signal_nbi_def Let_def qp_op_def w0_def w1_def w2_def w3_def w4_def w5_def by simp
  have ws: "put_signal_words base r = [w0, w1, w2, w3, w4, w5]" using tp by (simp add: put_signal_words_def)
  have o: "?op \<in> {NVSHMEMI_OP_PUT_SIGNAL, NVSHMEMI_OP_PUT_SIGNAL_QP}" by (simp add: qp_op_def op_defs)
  have e: "request_entries (w0 OR of_bool f) = Some (Suc (length [w1, w2, w3, w4, w5]))" for f
    unfolding request_entries_def Let_def w0_def base_op[OF r(1) qp_op_read(1)[OF op]] using o by (auto simp: op_defs)
  have "w0 AND 0xFF = 0" "w1 AND 0xFF = 0" "w2 AND 0xFF = 0" "w3 AND 0xFF = 0" "w4 AND 0xFF = 0" "w5 AND 0xFF = 0"
    unfolding w0_def w1_def w2_def w3_def w4_def w5_def by (intro clear_intros; simp)+
  then show "valid_request (put_signal_words base r)" unfolding ws by (intro valid_requestI e) auto
  show "fetch_put_signal (stamp i (put_signal_words base r)) = r"
    using put_signal_round_trip[OF _ r(2) _ ucast_u8(2) tp] r
    unfolding fetch_put_signal_def ws by (simp add: curr_flag_bool ucast_pe ucast_u8(1))
qed

text \<open>
  The two requests with a list of queue pairs: a base entry with the count, then an entry per pair.
\<close>

lemma qp_base_op:
  assumes op: "(op :: u64) < 2 ^ 8"
  shows "(ucast (br_op (base_request_of (push_bit 32 c OR push_bit 16 op OR of_bool f))) :: u64) = op"
  unfolding base_request_of_def base_request.simps
  by (rule bit_word_eqI) (auto simp: bit_simps dest: bit_below[OF op] bit_imp_le_length)

definition qp_quiet_words :: "u16 \<times> u32 list \<Rightarrow> u64 list" where
  "qp_quiet_words r = proxy_qp_quiet (ucast (fst r)) (snd r)"

definition qp_fence_words :: "u16 \<times> u32 list \<Rightarrow> u64 list" where
  "qp_fence_words r = proxy_fence_qp (ucast (fst r)) (snd r)"

definition fetch_qps :: "u64 list \<Rightarrow> (u16 \<times> u32) list" where
  "fetch_qps ws = map read_qp_sync (take (nat (read_qp_count (ws ! 0))) (tl ws))"

definition sendable_qps :: "u16 \<times> u32 list \<Rightarrow> bool" where
  "sendable_qps r \<longleftrightarrow> 8 * (length (snd r) + 1) + 1024 \<le> 2 ^ 22"

lemma stamp_map_read:
  "(\<And>q f. read (g q OR of_bool f) = h q) \<Longrightarrow> map read (stamp i (map g qs)) = map h qs"
  by (induction qs arbitrary: i) (simp_all add: curr_flag_bool)

lemma stamp_length [simp]: "length (stamp i ws) = length ws"
  by (induction ws arbitrary: i) simp_all

lemma qp_request_valid:
  assumes "op \<in> {NVSHMEMI_OP_FENCE_QP, NVSHMEMI_OP_QUIET_QP}" "8 * (length qs + 1) + 1024 \<le> 2 ^ 22"
    "\<And>q. g q AND 0xFF = 0"
  shows "valid_request ((push_bit 32 (of_nat (length qs)) OR push_bit 16 op) # map g qs)"
proof -
  have op: "op < 2 ^ 8" using assms(1) by (auto simp: op_defs)
  have n: "length qs < 2 ^ 31" using assms(2) by simp
  have "request_entries ((push_bit 32 (of_nat (length qs)) OR push_bit 16 op) OR of_bool f) = Some (Suc (length qs))" for f
    unfolding request_entries_def Let_def or.assoc qp_base_op[OF op] qp_count_entry[OF n op]
    using assms(1) by (auto simp: op_defs)
  moreover have "(push_bit 32 (of_nat (length qs)) OR push_bit 16 op) AND 0xFF = 0"
    by (intro clear_intros) simp_all
  ultimately show ?thesis unfolding valid_request_def list.sel list.size(4) length_map
    using assms(2,3) by (intro conjI allI) auto
qed

lemma qp_quiet_codec:
  assumes "sendable_qps r"
  shows "valid_request (qp_quiet_words r)" "fetch_qps (stamp i (qp_quiet_words r)) = map (Pair (fst r)) (snd r)"
proof -
  let ?op = "NVSHMEMI_OP_QUIET_QP"
  let ?g = "\<lambda>q. push_bit 32 (ucast q) OR push_bit 16 (ucast (ucast (ucast (fst r) :: u32) :: u16)) OR push_bit 8 ?op"
  have ws: "qp_quiet_words r = (push_bit 32 (of_nat (length (snd r))) OR push_bit 16 ?op) # map ?g (snd r)"
    by (simp add: qp_quiet_words_def proxy_qp_quiet_def Let_def)
  have n: "length (snd r) < 2 ^ 31" using assms by (simp add: sendable_qps_def)
  show "valid_request (qp_quiet_words r)" unfolding ws
    using assms by (intro qp_request_valid clear_intros) (simp_all add: sendable_qps_def)
  have g: "read_qp_sync (?g q OR of_bool f) = (fst r, q)" for q f
    using qp_quiet_entry[of q "ucast (ucast (fst r) :: u32)" f] unfolding or.assoc ucast_pe .
  have c: "read_qp_count ((push_bit 32 (of_nat (length (snd r))) OR push_bit 16 ?op) OR of_bool f) = int (length (snd r))" for f
    using qp_count_entry[OF n, of ?op f] unfolding or.assoc by (simp add: op_defs)
  show "fetch_qps (stamp i (qp_quiet_words r)) = map (Pair (fst r)) (snd r)"
    unfolding fetch_qps_def ws stamp.simps nth_Cons_0 list.sel curr_flag_bool c nat_int
    using stamp_map_read[where read = read_qp_sync and g = ?g and h = "Pair (fst r)", OF g] by simp
qed

lemma qp_fence_codec:
  assumes "sendable_qps r" "fst r < 2 ^ 8"
  shows "valid_request (qp_fence_words r)" "fetch_qps (stamp i (qp_fence_words r)) = map (Pair 106) (snd r)"
proof -
  let ?op = "NVSHMEMI_OP_FENCE_QP" and ?pe = "ucast (fst r) :: u32"
  let ?g = "\<lambda>q. push_bit 32 (ucast q) OR push_bit 16 ?op OR push_bit 8 (scast ?pe)"
  have ws: "qp_fence_words r = (push_bit 32 (of_nat (length (snd r))) OR push_bit 16 ?op) # map ?g (snd r)"
    by (simp add: qp_fence_words_def proxy_fence_qp_def Let_def)
  have n: "length (snd r) < 2 ^ 31" using assms by (simp add: sendable_qps_def)
  have pe: "?pe < 2 ^ 8" using assms(2) by (simp add: word_less_nat_alt unsigned_ucast_eq take_bit_nat_eq_self)
  show "valid_request (qp_fence_words r)" unfolding ws
    using assms by (intro qp_request_valid clear_intros) (simp_all add: sendable_qps_def)
  have g: "read_qp_sync (?g q OR of_bool f) = (106, q)" for q f
    using qp_fence_entry[OF pe, of q f] unfolding or.assoc .
  have c: "read_qp_count ((push_bit 32 (of_nat (length (snd r))) OR push_bit 16 ?op) OR of_bool f) = int (length (snd r))" for f
    using qp_count_entry[OF n, of ?op f] unfolding or.assoc by (simp add: op_defs)
  show "fetch_qps (stamp i (qp_fence_words r)) = map (Pair 106) (snd r)"
    unfolding fetch_qps_def ws stamp.simps nth_Cons_0 list.sel curr_flag_bool c nat_int
    using stamp_map_read[where read = read_qp_sync and g = ?g and h = "Pair 106", OF g] by simp
qed

lemma fence_valid: "valid_request proxy_fence"
proof -
  have op: "NVSHMEMI_OP_FENCE < 2 ^ 8" by (simp add: op_defs)
  have e: "request_entries (push_bit 16 NVSHMEMI_OP_FENCE OR of_bool f) = Some (Suc (length []))" for f
    using qp_base_op[OF op, of 0 f] unfolding request_entries_def Let_def by (simp add: op_defs)
  show ?thesis unfolding proxy_fence_def by (intro valid_requestI e clear_intros) simp_all
qed

interpretation dma: request_codec "dma_words base" fetch_dma sendable_dma "\<lambda>r. r" for base
  by unfold_locales (simp_all add: dma_codec)

interpretation inl: request_codec "inline_words base" fetch_inline sendable_inline "\<lambda>r. r" for base
  by unfold_locales (simp_all add: inline_codec)

interpretation atomics: request_codec "amo_words base" fetch_amo sendable_amo "\<lambda>r. r" for base
  by unfold_locales (simp_all add: amo_codec)

interpretation put_sig: request_codec "put_signal_words base" fetch_put_signal sendable_put_signal "\<lambda>r. r" for base
  by unfold_locales (simp_all add: put_signal_codec)

interpretation qp_quiet: request_codec qp_quiet_words fetch_qps sendable_qps "\<lambda>r. map (Pair (fst r)) (snd r)"
  by unfold_locales (simp_all add: qp_quiet_codec)

interpretation qp_fence: request_codec qp_fence_words fetch_qps "\<lambda>r. sendable_qps r \<and> fst r < 2 ^ 8"
  "\<lambda>r. map (Pair 106) (snd r)"
  by unfold_locales (simp_all add: qp_fence_codec)

end
