(* ===== verification/Proxy_Refines.thy ===== *)
theory Proxy_Refines
  imports Proxy_Progress Ring_Delivery "HOL-Library.Sublist"
begin

text \<open>
  What one iteration of the host's loop does to the channel is what \<open>host_take\<close> of the ring model says:
  whatever the request, the processing functions read the same entries and move the same counters. So the
  ring's theorems hold of the progress engine. The calls they make are appended to the log.
\<close>

lemma issue_steps_frame:
  assumes "issue_steps p cs st = Inr st'"
  shows "st' = st\<lparr>calls := calls st @ map the cs\<rparr> \<and> None \<notin> set cs"
  using assms by (induction p cs st rule: issue_steps.induct) (auto split: if_splits)

lemma enforce_cst_frame:
  "enforce_cst p st = Inr st' \<Longrightarrow> st' = st\<lparr>calls := calls st @ cst_calls p\<rparr>"
  unfolding enforce_cst_def by (drule issue_steps_frame) (simp add: comp_def)

lemma map_sum_Inr: "map_sum f g x = Inr y \<longleftrightarrow> (\<exists>z. x = Inr z \<and> y = g z)"
  by (cases x) auto

text \<open>What a processing function leaves alone, and what it does to the channel.\<close>

definition takes :: "nat \<Rightarrow> bool \<Rightarrow> host_state \<Rightarrow> host_state \<Rightarrow> bool" where
  "takes n force st st' \<longleftrightarrow>
     hentries_ready st n \<and> hchan st' = proxy_update_processed (hchan st) (of_nat n * CHANNEL_ENTRY_BYTES) force \<and>
     prefix (calls st) (calls st') \<and> quiet_in_progress st' = quiet_in_progress st \<and> cst_in_progress st' = cst_in_progress st \<and>
     global_exit_request_state st' = global_exit_request_state st \<and> global_exit_code st' = global_exit_code st \<and>
     (issued_get st \<longrightarrow> issued_get st')"

lemmas req_bytes_defs = PROXY_DMA_REQ_BYTES_def PROXY_INLINE_REQ_BYTES_def PROXY_AMO_REQ_BYTES_def
  PROXY_PUT_WITH_SIG_REQ_BYTES_def CHANNEL_ENTRY_BYTES_def

lemma dma_takes: "process_channel_dma p st = Some (Inr st') \<Longrightarrow> takes 4 False st st'"
  by (auto simp: process_channel_dma_def takes_def Let_def req_bytes_defs split: if_splits option.splits sum.splits)

lemma inline_takes:
  "process_channel_inline p st = Some (Inr st') \<Longrightarrow> takes (if is_qp_op (hentry st 0) then 4 else 3) False st st'"
  by (auto simp: process_channel_inline_def takes_def Let_def req_bytes_defs split: if_splits option.splits sum.splits prod.splits
      dest!: issue_steps_frame)

lemma amo_takes:
  "process_channel_amo p st = Some (Inr st') \<Longrightarrow> takes (if is_qp_op (hentry st 0) then 6 else 5) False st st'"
  by (auto simp: process_channel_amo_def takes_def Let_def req_bytes_defs split: if_splits option.splits sum.splits prod.splits
      dest!: issue_steps_frame)

lemma put_signal_takes: "process_channel_put_signal p st = Some (Inr st') \<Longrightarrow> takes 6 False st st'"
  by (auto simp: process_channel_put_signal_def takes_def Let_def req_bytes_defs split: if_splits option.splits sum.splits prod.splits
      dest!: issue_steps_frame)

lemma fence_takes: "process_channel_fence p st = Some (Inr st') \<Longrightarrow> takes 1 False st st'"
  by (auto simp: process_channel_fence_def takes_def hentries_ready_def req_bytes_defs split: sum.splits dest!: issue_steps_frame)

lemma qp_bytes:
  assumes "0 \<le> k"
  shows "qp_sync_bytes k = of_nat (Suc (nat k)) * CHANNEL_ENTRY_BYTES"
proof -
  have "8 * k + 8 = int (Suc (nat k)) * 8" using assms by simp
  then show ?thesis by (simp add: qp_sync_bytes_def CHANNEL_ENTRY_BYTES_def del: of_nat_Suc)
qed

lemma qp_fence_takes:
  assumes "process_channel_qp_fence p st = Some (Inr st')" "0 \<le> read_qp_count (hentry st 0)"
  shows "takes (Suc (nat (read_qp_count (hentry st 0)))) False st st'"
  using assms(1) unfolding process_channel_qp_fence_def Let_def qp_bytes[OF assms(2)]
  by (auto simp: takes_def split: if_splits sum.splits dest!: issue_steps_frame)

lemma qp_quiet_takes:
  assumes "process_channel_qp_quiet p st = Some (Inr st')" "0 \<le> read_qp_count (hentry st 0)"
  shows "takes (Suc (nat (read_qp_count (hentry st 0)))) True st st'"
  using assms(1) unfolding process_channel_qp_quiet_def Let_def qp_bytes[OF assms(2)]
  by (auto simp: takes_def split: if_splits sum.splits dest!: issue_steps_frame enforce_cst_frame)

lemma request_takes:
  assumes run: "process_request p st = Some (Inr st')" and n: "request_entries (hentry st 0) = Some n"
  shows "takes n ((ucast (br_op (base_request_of (hentry st 0))) :: u64) = NVSHMEMI_OP_QUIET_QP) st st'"
proof -
  define op where "op = (ucast (br_op (base_request_of (hentry st 0))) :: u64)"
  have r: "process_request p st = (if op \<in> {1, 101} then process_channel_dma p st
      else if op \<in> {5, 105, 4, 104} then map_option (map_sum (\<lambda>e. e) (\<lambda>st. st\<lparr>issued_get := True\<rparr>)) (process_channel_dma p st)
      else if op \<in> {2, 102} then process_channel_inline p st else if op \<in> {7, 107} then process_channel_amo p st
      else if op = 6 then process_channel_fence p st else if op = 106 then process_channel_qp_fence p st
      else if op = 108 then process_channel_qp_quiet p st else if op \<in> {3, 103} then process_channel_put_signal p st
      else Some (Inl Invalid_Op))"
    unfolding process_request_def Let_def op_def[symmetric] op_defs ..
  have e: "request_entries (hentry st 0) = (if op \<in> {1, 101, 5, 105, 4, 104} then Some 4 else if op = 2 then Some 3
      else if op = 102 then Some 4 else if op = 7 then Some 5 else if op = 107 then Some 6 else if op = 6 then Some 1
      else if op \<in> {106, 108} then if read_qp_count (hentry st 0) < 0 then None else Some (nat (read_qp_count (hentry st 0)) + 1)
      else if op \<in> {3, 103} then Some 6 else None)"
    unfolding request_entries_def Let_def op_def[symmetric] op_defs ..
  have q: "is_qp_op (hentry st 0) \<longleftrightarrow> 100 \<le> op"
    unfolding is_qp_op_def op_def[symmetric] op_defs ..
  note defs = r e q NVSHMEMI_OP_QUIET_QP_def
  consider "op \<in> {1, 101}" | "op \<in> {5, 105, 4, 104}" | "op = 2" | "op = 102" | "op = 7" | "op = 107" | "op = 6" | "op = 106"
    | "op = 108" | "op \<in> {3, 103}"
    using n unfolding e by (auto split: if_splits)
  then have "takes n (op = 108) st st'"
  proof cases
    case 1
    then show ?thesis using run n dma_takes by (auto simp: defs)
  next
    case 2
    then obtain st1 where "process_channel_dma p st = Some (Inr st1)" "st' = st1\<lparr>issued_get := True\<rparr>" "n = 4"
      using run n by (auto simp: defs map_sum_Inr)
    then show ?thesis using dma_takes[of p st st1] 2 by (auto simp: takes_def defs)
  next
    case 3
    then show ?thesis using run n inline_takes[of p st st'] by (simp add: defs)
  next
    case 4
    then show ?thesis using run n inline_takes[of p st st'] by (simp add: defs)
  next
    case 5
    then show ?thesis using run n amo_takes[of p st st'] by (simp add: defs)
  next
    case 6
    then show ?thesis using run n amo_takes[of p st st'] by (simp add: defs)
  next
    case 7
    then show ?thesis using run n fence_takes[of p st st'] by (auto simp: defs)
  next
    case 8
    then show ?thesis using run n qp_fence_takes[of p st st'] by (auto simp: defs split: if_splits)
  next
    case 9
    then show ?thesis using run n qp_quiet_takes[of p st st'] by (auto simp: defs split: if_splits)
  next
    case 10
    then show ?thesis using run n put_signal_takes by (auto simp: defs)
  qed
  then show ?thesis unfolding op_def NVSHMEMI_OP_QUIET_QP_def .
qed

text \<open>The entries a request is read from, as they stand in the buffer.\<close>

definition taken_entries :: "host_state \<Rightarrow> nat \<Rightarrow> u64 list" where
  "taken_entries st n = map (hentry st) [0..<n]"

lemma process_request_refines:
  assumes run: "process_request p st = Some (Inr st')" and b: "base_ready (hchan st)" and c: "chan r = hchan st"
    and n: "request_entries (hentry st 0) = Some n"
  shows "host_take r = Some (r\<lparr>chan := hchan st', delivered := delivered r @ [taken_entries st n]\<rparr>)"
  using request_takes[OF run n] b n
  by (simp add: host_take_def Let_def takes_def c hentry_def hentries_ready_def taken_entries_def)

end
