(* ===== verification/Proxy_System.thy ===== *)
theory Proxy_System
  imports Proxy_Refines
begin

text \<open>
  GPU threads and the host proxy together. The threads post requests and ask for quiet
  (\<open>proxy_quiet\<close> of \<open>proxy_device.cuh\<close>, in its separate reads and atomic operations); the host runs the
  parts of its progress loop. \<open>sync_inv\<close> is the invariant of the quiet protocol: an acknowledgement is
  published only after every request it covers was handed to a transport and, after that, a quiet was
  issued on every connection.
\<close>

section \<open>The system\<close>

text \<open>
  A thread inside \<open>proxy_quiet\<close>: the value of \<open>issue\<close> it read, whether it has raised \<open>quiet_issue\<close>, and,
  as history, how many requests were posted when it read the counter.
\<close>

record quiet_thread =
  q_val :: u64
  q_asked :: bool
  q_posted :: nat

text \<open>\<open>done_at\<close> is history: the length of the host's log of calls when it was done with each request.\<close>

record proxy_sys =
  ring :: ring_state
  host :: host_state
  quiets :: "quiet_thread list"
  done_at :: "nat list"

definition sys_new :: proxy_sys where
  "sys_new = \<lparr>ring = ring_new, host = proxy_init_state PROXY_GLOBAL_EXIT_NOT_REQUESTED 0, quiets = [], done_at = []\<rparr>"

text \<open>Both sides see the same channel.\<close>

definition set_ring :: "ring_state \<Rightarrow> proxy_sys \<Rightarrow> proxy_sys" where
  "set_ring r s = s\<lparr>ring := r, host := (host s)\<lparr>hchan := chan r\<rparr>\<rparr>"

definition set_host :: "host_state \<Rightarrow> proxy_sys \<Rightarrow> proxy_sys" where
  "set_host h s = s\<lparr>host := h, ring := (ring s)\<lparr>chan := hchan h\<rparr>\<rparr>"

definition proxy_quiet_read :: "proxy_sys \<Rightarrow> proxy_sys" where
  "proxy_quiet_read s =
     s\<lparr>quiets := quiets s @ [\<lparr>q_val = issue (chan (ring s)), q_asked = False, q_posted = length (posted (ring s))\<rparr>]\<rparr>"

definition proxy_quiet_ask :: "nat \<Rightarrow> proxy_sys \<Rightarrow> proxy_sys" where
  "proxy_quiet_ask i s =
     (let q = quiets s ! i; ch = chan (ring s)
      in (set_ring ((ring s)\<lparr>chan := ch\<lparr>quiet_issue := max (quiet_issue ch) (q_val q)\<rparr>\<rparr>) s)
           \<lparr>quiets := (quiets s)[i := q\<lparr>q_asked := True\<rparr>]\<rparr>)"

text \<open>The wait of \<open>proxy_quiet\<close> is over.\<close>

definition proxy_quiet_returns :: "proxy_sys \<Rightarrow> quiet_thread \<Rightarrow> bool" where
  "proxy_quiet_returns s q \<longleftrightarrow> q_asked q \<and> quiet_ack (chan (ring s)) \<ge> q_val q"

definition taken :: "host_state \<Rightarrow> host_state \<Rightarrow> proxy_sys \<Rightarrow> proxy_sys" where
  "taken h h' s =
     (let n = (case request_entries (hentry h 0) of None \<Rightarrow> 0 | Some n \<Rightarrow> n)
      in s\<lparr>host := h', ring := (ring s)\<lparr>chan := hchan h', delivered := delivered (ring s) @ [taken_entries h n]\<rparr>,
           done_at := done_at s @ [length (calls h')]\<rparr>)"

inductive sys_step :: "proxy_params \<Rightarrow> proxy_sys \<Rightarrow> proxy_sys \<Rightarrow> bool" for p :: proxy_params where
  sys_reserve: "valid_request ws \<Longrightarrow> sys_step p s (set_ring (reserve ws (ring s)) s)"
| sys_admit: "admit i (ring s) = Some r \<Longrightarrow> sys_step p s (set_ring r s)"
| sys_store: "store_entry i (ring s) = Some r \<Longrightarrow> sys_step p s (set_ring r s)"
| sys_quiet_read: "sys_step p s (proxy_quiet_read s)"
| sys_quiet_ask: "i < length (quiets s) \<Longrightarrow> sys_step p s (proxy_quiet_ask i s)"
| sys_progress_quiet: "progress_quiet p (host s) = Inr h \<Longrightarrow> sys_step p s (set_host h s)"
| sys_progress_cst: "progress_cst p (host s) = Inr h \<Longrightarrow> sys_step p s (set_host h s)"
| sys_take: "base_ready (hchan (host s)) \<Longrightarrow> process_request p (host s) = Some (Inr h) \<Longrightarrow> sys_step p s (taken (host s) h s)"
| sys_transports: "progress_transports p (host s) = Inr h \<Longrightarrow> sys_step p s (set_host h s)"

inductive_cases sys_stepE: "sys_step p s s'"

section \<open>The invariant\<close>

text \<open>The quiets on all connections, in the order of the PEs.\<close>

definition all_quiets :: "proxy_params \<Rightarrow> transport_call list" where
  "all_quiets p = concat (map (\<lambda>i. case transport_at p i of None \<Rightarrow> [] | Some t \<Rightarrow> [Quiet t i NVSHMEMX_QP_ALL])
     [0..<npes (penv p)])"

text \<open>After request \<open>k\<close> the host issued the quiets on all connections, followed by \<open>cs\<close>.\<close>

definition covered :: "proxy_params \<Rightarrow> proxy_sys \<Rightarrow> transport_call list \<Rightarrow> nat \<Rightarrow> bool" where
  "covered p s cs k \<longleftrightarrow> (\<exists>pre post. calls (host s) = pre @ all_quiets p @ cs @ post \<and> done_at s ! k \<le> length pre)"

definition end_of :: "proxy_sys \<Rightarrow> nat \<Rightarrow> u64" where
  "end_of s k = idx (length (concat (take (Suc k) (posted (ring s)))))"

definition is_get :: "u64 list \<Rightarrow> bool" where
  "is_get ws \<longleftrightarrow> (ucast (br_op (base_request_of (hd ws))) :: u64) \<in>
     {NVSHMEMI_OP_G, NVSHMEMI_OP_G_QP, NVSHMEMI_OP_GET, NVSHMEMI_OP_GET_QP}"

definition quiet_ok :: "host_state \<Rightarrow> bool" where
  "quiet_ok h \<longleftrightarrow>
     quiet_ack (hchan h) \<le> last_quiet_issue (hchan h) \<and> last_quiet_issue (hchan h) \<le> quiet_issue (hchan h) \<and>
     quiet_issue (hchan h) \<le> issue (hchan h) \<and> quiet_ack (hchan h) \<le> processed (hchan h) \<and>
     quiet_in_progress h \<noteq> QUIET_DONE \<and>
     (quiet_in_progress h = QUIET_INACTIVE \<longrightarrow> quiet_ack (hchan h) = last_quiet_issue (hchan h))"

definition waiter_ok :: "proxy_sys \<Rightarrow> quiet_thread \<Rightarrow> bool" where
  "waiter_ok s q \<longleftrightarrow>
     q_posted q \<le> length (posted (ring s)) \<and> q_val q = idx (length (concat (take (q_posted q) (posted (ring s))))) \<and>
     (q_asked q \<longrightarrow> q_val q \<le> quiet_issue (hchan (host s)))"

definition log_ok :: "proxy_params \<Rightarrow> proxy_sys \<Rightarrow> bool" where
  "log_ok p s \<longleftrightarrow>
     length (done_at s) = length (delivered (ring s)) \<and>
     (\<forall>k < length (delivered (ring s)).
        done_at s ! k \<le> length (calls (host s)) \<and>
        (end_of s k \<le> quiet_ack (hchan (host s)) \<longrightarrow> covered p s [] k) \<and>
        (is_get (posted (ring s) ! k) \<longrightarrow>
           covered p s (cst_calls p) k \<or> issued_get (host s) \<and> \<not> end_of s k \<le> quiet_ack (hchan (host s))))"

definition sync_inv :: "proxy_params \<Rightarrow> proxy_sys \<Rightarrow> bool" where
  "sync_inv p s \<longleftrightarrow> chan (ring s) = hchan (host s) \<and> quiet_ok (host s) \<and> log_ok p s \<and> (\<forall>q \<in> set (quiets s). waiter_ok s q)"

section \<open>Preservation\<close>

lemma idx_le: "8 * b < 2 ^ 64 \<Longrightarrow> 8 * a < 2 ^ 64 \<Longrightarrow> idx a \<le> idx b \<longleftrightarrow> a \<le> b"
  by (simp add: word_le_nat_alt unat_idx)

lemma covered_mono:
  assumes "covered p s cs k" "prefix (calls (host s)) (calls (host s'))" "done_at s' ! k = done_at s ! k"
  shows "covered p s' cs k"
proof -
  obtain pre post zs where "calls (host s) = pre @ all_quiets p @ cs @ post" "done_at s ! k \<le> length pre"
    "calls (host s') = calls (host s) @ zs"
    using assms(1,2) by (auto simp: covered_def prefix_def)
  then show ?thesis unfolding covered_def using assms(3) by (intro exI[of _ pre] exI[of _ "post @ zs"]) simp
qed

lemma end_of_posted:
  "posted (ring s') = posted (ring s) @ xs \<Longrightarrow> k < length (posted (ring s)) \<Longrightarrow> end_of s' k = end_of s k"
  by (simp add: end_of_def)

lemma waiter_frame:
  assumes "waiter_ok s q" "posted (ring s') = posted (ring s) @ xs" "quiet_issue (hchan (host s)) \<le> quiet_issue (hchan (host s'))"
  shows "waiter_ok s' q"
  using assms by (auto simp: waiter_ok_def)

text \<open>Steps that take no request and acknowledge nothing.\<close>

lemma log_frame:
  assumes "log_ok p s" "posted (ring s') = posted (ring s) @ xs" "delivered (ring s') = delivered (ring s)"
    "done_at s' = done_at s" "prefix (calls (host s)) (calls (host s'))" "issued_get (host s') = issued_get (host s)"
    "quiet_ack (hchan (host s')) = quiet_ack (hchan (host s))" "length (delivered (ring s)) \<le> length (posted (ring s))"
  shows "log_ok p s'"
proof -
  have "end_of s' k = end_of s k \<and> posted (ring s') ! k = posted (ring s) ! k" if "k < length (delivered (ring s))" for k
    using assms(2,8) that end_of_posted[OF assms(2)] by (auto simp: nth_append)
  moreover have "covered p s' cs k" if "covered p s cs k" for cs k
    by (rule covered_mono[OF that assms(5)]) (simp add: assms(4))
  moreover have "length (calls (host s)) \<le> length (calls (host s'))" using assms(5) by (rule prefix_length_le)
  ultimately show ?thesis using assms(1) unfolding log_ok_def assms(3,4,6,7) by (metis le_trans)
qed

lemma frame_sync:
  assumes "sync_inv p s" "chan (ring s') = hchan (host s')" "quiet_ok (host s')"
    "posted (ring s') = posted (ring s) @ xs" "delivered (ring s') = delivered (ring s)"
    "done_at s' = done_at s" "prefix (calls (host s)) (calls (host s'))" "issued_get (host s') = issued_get (host s)"
    "quiet_ack (hchan (host s')) = quiet_ack (hchan (host s))" "length (delivered (ring s)) \<le> length (posted (ring s))"
    "quiet_issue (hchan (host s)) \<le> quiet_issue (hchan (host s'))" "quiets s' = quiets s"
  shows "sync_inv p s'"
  using assms waiter_frame[OF _ assms(4,11)] log_frame[OF _ assms(4-10)] unfolding sync_inv_def by auto

end
