(* ===== verification/Sync_Invariant.thy ===== *)
theory Sync_Invariant
  imports Proxy_System
begin

text \<open>
  The invariant of the system of GPU threads and host: \<open>sys_inv\<close> joins the ring's invariant with the one of
  the quiet protocol, and every step keeps it as long as no counter wraps.
\<close>

section \<open>The quiet of the host\<close>

lemma all_quiets_steps:
  assumes "None \<notin> set (quiet_all_steps p [0..<npes (penv p)])"
  shows "map the (quiet_all_steps p [0..<npes (penv p)]) = all_quiets p"
proof -
  have "map the (quiet_all_steps p is) =
      concat (map (\<lambda>i. case transport_at p i of None \<Rightarrow> [] | Some t \<Rightarrow> [Quiet t i NVSHMEMX_QP_ALL]) is)"
    if "None \<notin> set (quiet_all_steps p is)" for "is"
    using that by (induction "is") (auto simp: quiet_all_steps_def split: option.splits if_splits)
  then show ?thesis using assms by (simp add: all_quiets_def)
qed

lemma quiet_done_eq:
  assumes "progress_quiet_done p h = Inr h'"
  shows "h' = h\<lparr>calls := calls h @ all_quiets p @ (if issued_get h then cst_calls p else []), issued_get := False,
    hchan := quiet_ack_channels (hchan h), quiet_in_progress := QUIET_INACTIVE\<rparr>"
proof -
  obtain h1 where h1: "issue_steps p (quiet_all_steps p [0..<npes (penv p)]) h = Inr h1"
    using assms by (auto simp: progress_quiet_done_def split: sum.splits)
  have "h1 = h\<lparr>calls := calls h @ all_quiets p\<rparr>" using issue_steps_frame[OF h1] all_quiets_steps by auto
  then show ?thesis using assms h1
    by (auto simp: progress_quiet_done_def map_sum_Inr split: sum.splits if_splits dest!: enforce_cst_frame)
qed

lemma progress_quiet_eq:
  assumes "quiet_in_progress h \<noteq> QUIET_DONE"
  shows "progress_quiet p h =
    (if quiet_in_progress h = QUIET_INACTIVE \<and> \<not> last_quiet_issue (hchan h) < quiet_issue (hchan h) then Inr h
     else let v = (if quiet_in_progress h = QUIET_INACTIVE then quiet_issue (hchan h) else last_quiet_issue (hchan h));
              h1 = h\<lparr>hchan := (hchan h)\<lparr>last_quiet_issue := v\<rparr>\<rparr>
          in if processed (hchan h) < v then Inr (h1\<lparr>quiet_in_progress := QUIET_IN_PROGRESS\<rparr>)
             else progress_quiet_done p (h1\<lparr>quiet_in_progress := QUIET_DONE\<rparr>))"
  using assms by (cases "quiet_in_progress h") (auto simp: progress_quiet_def quiet_channels_check_def quiet_channels_test_def Let_def)

section \<open>Framing\<close>

text \<open>The counters the ring depends on.\<close>

definition same_ring :: "proxy_channel \<Rightarrow> proxy_channel \<Rightarrow> bool" where
  "same_ring ch ch' \<longleftrightarrow> buf ch' = buf ch \<and> issue ch' = issue ch \<and> complete ch' = complete ch \<and>
     processed ch' = processed ch \<and> last_sync ch' = last_sync ch"

lemma ring_inv_cong:
  assumes "ring_inv P C L r" "same_ring (chan r) ch"
  shows "ring_inv P C L (r\<lparr>chan := ch\<rparr>)"
proof -
  let ?r = "r\<lparr>chan := ch\<rparr>"
  have "written ?r = written r" by (rule ext) (simp add: written_def unwritten_def)
  moreover have "slot_ok ?r k" if "slot_ok r k" for k
    by (rule slot_ok_cong[OF that]) (use assms(2) calculation in \<open>simp_all add: same_ring_def\<close>)
  ultimately show ?thesis using ring_invD[OF assms(1)] assms(2)
    by (intro ring_invI) (simp_all add: counters_ok_def history_ok_def same_ring_def)
qed

lemma base_ready_request:
  assumes inv: "ring_inv P C L r" and rng: "in_range r" and b: "base_ready (chan r)"
  obtains ws where "length (delivered r) < length (posted r)" "ws = posted r ! length (delivered r)" "valid_request ws"
    "read_entry (chan r) (processed (chan r)) = hd ws OR of_bool (lap_flag P)"
    "P + length ws = length (concat (take (Suc (length (delivered r))) (posted r)))" "P + length ws \<le> length (log_of r)"
proof -
  have h: "history_ok P r" and pr: "processed (chan r) = idx P" using ring_invD(1,2)[OF inv] by (simp_all add: counters_ok_def)
  have P8: "8 * P < 2 ^ 64" by (rule range_bound[OF rng inv]) simp
  have "bit (buf (chan r) (WRAPPED_CHANNEL_BUF (idx P))) 0 = lap_flag P"
    using b flag_idx(2)[OF P8] by (simp add: base_ready_def pr read_entry_def base_request_of_def byte_and_1)
  note W = written_slot[OF inv le_refl _ rng this, simplified]
  then have PN: "P < length (log_of r)" by (simp add: written_def)
  obtain ws where ws: "length (delivered r) < length (posted r)" "ws = posted r ! length (delivered r)"
    "valid_request ws" "\<And>i. i < length ws \<Longrightarrow> log_of r ! (P + i) = ws ! i" "P + length ws \<le> length (log_of r)"
    "P + length ws = length (concat (take (Suc (length (delivered r))) (posted r)))"
    by (rule next_request[OF h PN]) (rule that; assumption)
  have "hd ws = log_of r ! P" using ws(4)[of 0] valid_length[OF ws(3)] by (simp add: hd_conv_nth)
  then show ?thesis using that[OF ws(1-3) _ ws(6,5)] W(2) by (simp add: read_entry_def pr)
qed

lemma base_op_flag: "br_op (base_request_of (w OR of_bool b)) = br_op (base_request_of w)"
  unfolding base_request_of_def base_request.simps by (rule bit_word_eqI) (auto simp: bit_simps)

lemma frame_quiet_ok:
  "quiet_ok h \<Longrightarrow> issue (hchan h) \<le> issue ch \<Longrightarrow> processed (hchan h) \<le> processed ch \<Longrightarrow>
   quiet_issue ch = quiet_issue (hchan h) \<Longrightarrow> quiet_ack ch = quiet_ack (hchan h) \<Longrightarrow>
   last_quiet_issue ch = last_quiet_issue (hchan h) \<Longrightarrow> quiet_in_progress h' = quiet_in_progress h \<Longrightarrow> hchan h' = ch \<Longrightarrow> quiet_ok h'"
  unfolding quiet_ok_def by (auto intro: order_trans)

definition sys_inv :: "proxy_params \<Rightarrow> proxy_sys \<Rightarrow> bool" where
  "sys_inv p s \<longleftrightarrow> (\<exists>P C L. ring_inv P C L (ring s)) \<and> sync_inv p s"

lemma sys_inv_new: "sys_inv p sys_new"
  unfolding sys_inv_def using ring_inv_new
  by (auto simp: sys_new_def sync_inv_def ring_new_def proxy_init_state_def quiet_ok_def log_ok_def proxy_channel_new_def)

lemma delivered_le: "ring_inv P C L r \<Longrightarrow> length (delivered r) \<le> length (posted r)"
  using ring_invD(2) by (auto simp: history_ok_def)

text \<open>The device's steps.\<close>

lemma device_inv:
  assumes inv: "sys_inv p s" and step: "ring_step (ring s) r" and rng: "in_range r"
    and ch: "issue (chan (ring s)) \<le> issue (chan r)" "processed (chan r) = processed (chan (ring s))"
      "quiet_issue (chan r) = quiet_issue (chan (ring s))" "quiet_ack (chan r) = quiet_ack (chan (ring s))"
      "last_quiet_issue (chan r) = last_quiet_issue (chan (ring s))"
    and "posted r = posted (ring s) @ xs" "delivered r = delivered (ring s)"
  shows "sys_inv p (set_ring r s)"
proof -
  obtain P C L where i: "ring_inv P C L (ring s)" using inv by (auto simp: sys_inv_def)
  have sy: "sync_inv p s" "chan (ring s) = hchan (host s)" "quiet_ok (host s)" using inv by (auto simp: sys_inv_def sync_inv_def)
  have "quiet_ok (host (set_ring r s))"
    by (rule frame_quiet_ok[OF sy(3), of "chan r"]) (use ch sy(2) in \<open>simp_all add: set_ring_def\<close>)
  then have "sync_inv p (set_ring r s)"
    by (intro frame_sync[OF sy(1), where xs = xs]) (use assms delivered_le[OF i] sy(2) in \<open>simp_all add: set_ring_def\<close>)
  then show ?thesis using step_inv[OF step rng i] by (simp add: sys_inv_def set_ring_def)
qed

lemma reserve_step:
  assumes "sys_inv p s" "valid_request ws" "in_range (reserve ws (ring s))"
  shows "sys_inv p (set_ring (reserve ws (ring s)) s)"
proof -
  obtain P C L where i: "ring_inv P C L (ring s)" using assms(1) by (auto simp: sys_inv_def)
  have "issue (chan (ring s)) \<le> issue (chan (ring s)) + req_bytes ws"
    using assms(3) ring_invD(1)[OF i] by (simp add: counters_ok_def idx_req idx_le in_range_def reserve_def Let_def)
  then show ?thesis
    by (intro device_inv[where xs = "[ws]"] assms(1,3) ring_step.step_reserve assms(2)) (simp_all add: reserve_def Let_def)
qed

lemma admit_step:
  assumes "sys_inv p s" "admit i (ring s) = Some r" "in_range r"
  shows "sys_inv p (set_ring r s)"
  using assms(2) by (elim admit_eq, intro device_inv[where xs = "[]"] assms(1,3) ring_step.step_admit[OF assms(2)]) simp_all

lemma store_step:
  assumes "sys_inv p s" "store_entry i (ring s) = Some r" "in_range r"
  shows "sys_inv p (set_ring r s)"
  using assms(2) by (elim store_eq, intro device_inv[where xs = "[]"] assms(1,3) ring_step.step_store[OF assms(2)]) simp_all

lemma quiet_read_step: "sys_inv p s \<Longrightarrow> sys_inv p (proxy_quiet_read s)"
  using ring_invD(1)
  by (fastforce simp: sys_inv_def sync_inv_def proxy_quiet_read_def waiter_ok_def log_ok_def covered_def end_of_def counters_ok_def)

lemma quiet_ask_step:
  assumes "sys_inv p s" "i < length (quiets s)" "in_range (ring s)"
  shows "sys_inv p (proxy_quiet_ask i s)"
proof -
  obtain P C L where r: "ring_inv P C L (ring s)" using assms(1) by (auto simp: sys_inv_def)
  have sy: "chan (ring s) = hchan (host s)" "quiet_ok (host s)" "log_ok p s" "\<forall>q \<in> set (quiets s). waiter_ok s q"
    using assms(1) by (auto simp: sys_inv_def sync_inv_def)
  let ?q = "quiets s ! i" and ?s = "proxy_quiet_ask i s"
  have w: "waiter_ok s ?q" using sy(4) assms(2) by simp
  have p: "posted (ring ?s) = posted (ring s) @ []" "delivered (ring ?s) = delivered (ring s)" "done_at ?s = done_at s"
    "prefix (calls (host s)) (calls (host ?s))" "issued_get (host ?s) = issued_get (host s)"
    "quiet_ack (hchan (host ?s)) = quiet_ack (hchan (host s))" "quiet_issue (hchan (host ?s)) = max (quiet_issue (hchan (host s))) (q_val ?q)"
    "chan (ring ?s) = hchan (host ?s)" "quiets ?s = (quiets s)[i := ?q\<lparr>q_asked := True\<rparr>]"
    by (simp_all add: proxy_quiet_ask_def Let_def set_ring_def sy(1))
  have "q_val ?q \<le> issue (hchan (host s))"
  proof -
    have "length (concat (take (q_posted ?q) (posted (ring s)))) \<le> length (log_of (ring s))"
      using concat_take_mono[of "q_posted ?q" "length (posted (ring s))" "posted (ring s)"] w by (simp add: waiter_ok_def)
    then show ?thesis using w ring_invD(1)[OF r] assms(3) by (simp add: waiter_ok_def counters_ok_def sy(1) idx_le in_range_def)
  qed
  then have q: "quiet_ok (host ?s)" using sy(1,2)
    by (auto simp: quiet_ok_def proxy_quiet_ask_def Let_def set_ring_def le_max_iff_disj)
  have l: "log_ok p ?s" by (rule log_frame[OF sy(3) p(1-6) delivered_le[OF r]])
  have "waiter_ok ?s q" if "q \<in> set (quiets ?s)" for q
  proof (cases "q \<in> set (quiets s)")
    case True
    then show ?thesis using waiter_frame[OF _ p(1)] sy(4) p(7) by simp
  next
    case False
    then have "q = ?q\<lparr>q_asked := True\<rparr>" using that p(9) set_update_subset_insert[of "quiets s" i] by auto
    then show ?thesis using w p(1,7) by (simp add: waiter_ok_def)
  qed
  moreover have "ring_inv P C L (ring ?s)"
    using ring_inv_cong[OF r, of "chan (ring ?s)"] by (simp add: same_ring_def proxy_quiet_ask_def Let_def set_ring_def)
  ultimately show ?thesis using q l p(8) by (auto simp: sys_inv_def sync_inv_def)
qed

text \<open>The host's steps.\<close>

lemma host_inv:
  assumes inv: "sys_inv p s" and "same_ring (hchan (host s)) (hchan h)" "quiet_ok h" "prefix (calls (host s)) (calls h)"
    "issued_get h = issued_get (host s)" "quiet_ack (hchan h) = quiet_ack (hchan (host s))"
    "quiet_issue (hchan h) = quiet_issue (hchan (host s))"
  shows "sys_inv p (set_host h s)"
proof -
  obtain P C L where i: "ring_inv P C L (ring s)" using inv by (auto simp: sys_inv_def)
  have sy: "sync_inv p s" "chan (ring s) = hchan (host s)" using inv by (auto simp: sys_inv_def sync_inv_def)
  have "sync_inv p (set_host h s)"
    by (rule frame_sync[OF sy(1), where xs = "[]"]) (use assms delivered_le[OF i] in \<open>simp_all add: set_host_def\<close>)
  moreover have "ring_inv P C L (ring (set_host h s))"
    using ring_inv_cong[OF i] assms(2) sy(2) by (simp add: set_host_def)
  ultimately show ?thesis by (auto simp: sys_inv_def)
qed

lemma ack_step:
  assumes inv: "sys_inv p s" and v: "quiet_ack (hchan (host s)) \<le> v" "v \<le> processed (hchan (host s))"
      "v \<le> quiet_issue (hchan (host s))"
    and h: "h = (host s)\<lparr>calls := calls (host s) @ all_quiets p @ (if issued_get (host s) then cst_calls p else []), issued_get := False,
      hchan := (hchan (host s))\<lparr>last_quiet_issue := v, quiet_ack := v\<rparr>, quiet_in_progress := QUIET_INACTIVE\<rparr>"
  shows "sys_inv p (set_host h s)"
proof -
  let ?s = "set_host h s"
  obtain P C L where i: "ring_inv P C L (ring s)" using inv by (auto simp: sys_inv_def)
  have sy: "chan (ring s) = hchan (host s)" "quiet_ok (host s)" "log_ok p s" "\<forall>q \<in> set (quiets s). waiter_ok s q"
    using inv by (auto simp: sys_inv_def sync_inv_def)
  have q: "quiet_ok (host ?s)" using sy(2) v by (simp add: set_host_def h quiet_ok_def)
  have c: "covered p ?s [] k" if "k < length (delivered (ring s))" for k
    using sy(3) that unfolding covered_def log_ok_def
    by (intro exI[of _ "calls (host s)"] exI[of _ "if issued_get (host s) then cst_calls p else []"]) (auto simp: set_host_def h)
  have g: "covered p ?s (cst_calls p) k" if k: "k < length (delivered (ring s))" "is_get (posted (ring s) ! k)" for k
  proof (cases "issued_get (host s)")
    case True
    then show ?thesis using sy(3) k unfolding covered_def log_ok_def
      by (intro exI[of _ "calls (host s)"] exI[of _ "[]"]) (auto simp: set_host_def h)
  next
    case False
    then have "covered p s (cst_calls p) k" using sy(3) k by (auto simp: log_ok_def)
    then show ?thesis by (rule covered_mono) (simp_all add: set_host_def h)
  qed
  have "log_ok p ?s" unfolding log_ok_def
  proof (intro conjI allI impI)
    show "length (done_at ?s) = length (delivered (ring ?s))" using sy(3) by (simp add: log_ok_def set_host_def)
    fix k assume k: "k < length (delivered (ring ?s))"
    then show "done_at ?s ! k \<le> length (calls (host ?s))" using sy(3) by (force simp: log_ok_def set_host_def h)
    show "covered p ?s [] k" if "end_of ?s k \<le> quiet_ack (hchan (host ?s))" using c k by (simp add: set_host_def)
    show "covered p ?s (cst_calls p) k \<or> issued_get (host ?s) \<and> \<not> end_of ?s k \<le> quiet_ack (hchan (host ?s))"
      if "is_get (posted (ring ?s) ! k)" using g k that by (simp add: set_host_def)
  qed
  moreover have "waiter_ok ?s q" if "q \<in> set (quiets ?s)" for q
    by (rule waiter_frame[of s q ?s "[]"]) (use sy(4) that in \<open>simp_all add: set_host_def h\<close>)
  moreover have "ring_inv P C L (ring ?s)"
    using ring_inv_cong[OF i, of "hchan h"] sy(1) by (simp add: set_host_def h same_ring_def)
  ultimately show ?thesis using q by (auto simp: sys_inv_def sync_inv_def set_host_def)
qed

lemma progress_quiet_step:
  assumes inv: "sys_inv p s" and run: "progress_quiet p (host s) = Inr h"
  shows "sys_inv p (set_host h s)"
proof -
  let ?h = "host s" and ?v = "if quiet_in_progress (host s) = QUIET_INACTIVE then quiet_issue (hchan (host s)) else last_quiet_issue (hchan (host s))"
  have q: "quiet_ok ?h" using inv by (auto simp: sys_inv_def sync_inv_def)
  have v: "quiet_ack (hchan ?h) \<le> ?v" "?v \<le> quiet_issue (hchan ?h)" using q by (auto simp: quiet_ok_def intro: order_trans)
  have r: "progress_quiet p ?h = Inr h" "quiet_in_progress ?h \<noteq> QUIET_DONE" using run q by (auto simp: quiet_ok_def)
  consider (idle) "h = ?h"
    | (wait) "h = ?h\<lparr>hchan := (hchan ?h)\<lparr>last_quiet_issue := ?v\<rparr>, quiet_in_progress := QUIET_IN_PROGRESS\<rparr>"
    | (ack) "\<not> processed (hchan ?h) < ?v"
        "progress_quiet_done p (?h\<lparr>hchan := (hchan ?h)\<lparr>last_quiet_issue := ?v\<rparr>, quiet_in_progress := QUIET_DONE\<rparr>) = Inr h"
    using r(1) unfolding progress_quiet_eq[OF r(2)] Let_def by (auto split: if_splits)
  then show ?thesis
  proof cases
    case idle
    then show ?thesis using q by (intro host_inv[OF inv]) (simp_all add: same_ring_def)
  next
    case wait
    then show ?thesis using q v by (intro host_inv[OF inv]) (simp_all add: same_ring_def quiet_ok_def)
  next
    case ack
    have "h = ?h\<lparr>calls := calls ?h @ all_quiets p @ (if issued_get ?h then cst_calls p else []), issued_get := False,
        hchan := (hchan ?h)\<lparr>last_quiet_issue := ?v, quiet_ack := ?v\<rparr>, quiet_in_progress := QUIET_INACTIVE\<rparr>"
      using quiet_done_eq[OF ack(2)] by (simp add: quiet_ack_channels_def)
    then show ?thesis using ack_step[OF inv v(1) _ v(2)] ack(1) by (simp add: not_less)
  qed
qed

lemma progress_cst_step:
  assumes inv: "sys_inv p s" and run: "progress_cst p (host s) = Inr h"
  shows "sys_inv p (set_host h s)"
proof -
  have q: "quiet_ok (host s)" using inv by (auto simp: sys_inv_def sync_inv_def)
  have "same_ring (hchan (host s)) (hchan h) \<and> quiet_ok h \<and> prefix (calls (host s)) (calls h) \<and>
      issued_get h = issued_get (host s) \<and> quiet_ack (hchan h) = quiet_ack (hchan (host s)) \<and>
      quiet_issue (hchan h) = quiet_issue (hchan (host s))"
    using run q by (auto simp: progress_cst_def cst_channels_check_def cst_ack_channels_def Let_def same_ring_def quiet_ok_def
        split: if_splits sum.splits dest!: enforce_cst_frame)
  then show ?thesis using host_inv[OF inv] by blast
qed

lemma progress_transports_step:
  assumes inv: "sys_inv p s" and run: "progress_transports p (host s) = Inr h"
  shows "sys_inv p (set_host h s)"
proof -
  have q: "quiet_ok (host s)" using inv by (auto simp: sys_inv_def sync_inv_def)
  show ?thesis
    by (rule host_inv[OF inv]) (use q issue_steps_frame[OF run[unfolded progress_transports_def]] in \<open>auto simp: same_ring_def quiet_ok_def\<close>)
qed

lemma get_issued:
  assumes run: "process_request p h = Some (Inr h')"
    and op: "(ucast (br_op (base_request_of (hentry h 0))) :: u64) \<in> {NVSHMEMI_OP_G, NVSHMEMI_OP_G_QP, NVSHMEMI_OP_GET, NVSHMEMI_OP_GET_QP}"
  shows "issued_get h'"
  using run op unfolding process_request_def Let_def by (auto simp: op_defs map_sum_Inr)

lemma take_step:
  assumes inv: "sys_inv p s" and rng: "in_range (ring s)" and b: "base_ready (hchan (host s))"
    and run: "process_request p (host s) = Some (Inr h)"
  shows "sys_inv p (taken (host s) h s)"
proof -
  let ?n = "length (delivered (ring s))"
  obtain P C L where i: "ring_inv P C L (ring s)" using inv by (auto simp: sys_inv_def)
  have sy: "chan (ring s) = hchan (host s)" "quiet_ok (host s)" "log_ok p s" "\<forall>q \<in> set (quiets s). waiter_ok s q"
    using inv by (auto simp: sys_inv_def sync_inv_def)
  have pr: "processed (hchan (host s)) = idx P" using ring_invD(1)[OF i] by (simp add: counters_ok_def sy(1))
  obtain ws where ws: "?n < length (posted (ring s))" "ws = posted (ring s) ! ?n" "valid_request ws"
    "read_entry (chan (ring s)) (processed (chan (ring s))) = hd ws OR of_bool (lap_flag P)"
    "P + length ws = length (concat (take (Suc ?n) (posted (ring s))))" "P + length ws \<le> length (log_of (ring s))"
    using base_ready_request[OF i rng] b sy(1) by metis
  have e: "hentry (host s) 0 = hd ws OR of_bool (lap_flag P)" using ws(4) by (simp add: hentry_def sy(1))
  have n: "request_entries (hentry (host s) 0) = Some (length ws)" using ws(3) unfolding e valid_request_def by blast
  let ?s = "taken (host s) h s"
  have T: "takes (length ws) (ucast (br_op (base_request_of (hentry (host s) 0))) = NVSHMEMI_OP_QUIET_QP) (host s) h"
    by (rule request_takes[OF run n])
  have ht: "host_take (ring s) = Some (ring ?s)"
    using process_request_refines[OF run b sy(1) n] n by (simp add: taken_def)
  obtain P' C' where i': "ring_inv P' C' L (ring ?s)" using take_inv[OF i ht rng] by blast
  have fit: "8 * (P + length ws) < 2 ^ 64" using ws(6) rng by (simp add: in_range_def)
  have pr': "processed (hchan h) = idx (P + length ws)" using T pr by (simp add: takes_def proxy_update_processed_def Let_def idx_add)
  have q: "quiet_ok h"
    by (rule frame_quiet_ok[OF sy(2), of "hchan h"]) (use T pr pr' fit in \<open>auto simp: takes_def proxy_update_processed_def Let_def idx_le\<close>)
  have f: "ring ?s = (ring s)\<lparr>chan := hchan h, delivered := delivered (ring s) @ [taken_entries (host s) (length ws)]\<rparr>"
    "host ?s = h" "done_at ?s = done_at s @ [length (calls h)]" "quiets ?s = quiets s"
    using n by (simp_all add: taken_def)
  have pre: "prefix (calls (host s)) (calls h)" and get: "issued_get (host s) \<longrightarrow> issued_get h"
    and qi: "quiet_issue (hchan h) = quiet_issue (hchan (host s))" "quiet_ack (hchan h) = quiet_ack (hchan (host s))"
    using T by (auto simp: takes_def proxy_update_processed_def Let_def)
  have en: "end_of ?s k = end_of s k" for k by (simp add: end_of_def f)
  have ld: "length (done_at s) = ?n" using sy(3) by (simp add: log_ok_def)
  have mono: "covered p ?s cs k" if "covered p s cs k" "k < ?n" for cs k
    by (rule covered_mono[OF that(1)]) (use pre that(2) ld in \<open>simp_all add: f nth_append\<close>)
  have P0: "\<not> end_of s ?n \<le> quiet_ack (hchan (host s))"
  proof
    assume "end_of s ?n \<le> quiet_ack (hchan (host s))"
    then have "idx (P + length ws) \<le> idx P" using sy(2) pr ws(5) by (auto simp: end_of_def quiet_ok_def)
    then show False using fit valid_length[OF ws(3)] by (simp add: idx_le)
  qed
  have "log_ok p ?s" unfolding log_ok_def
  proof (intro conjI allI impI)
    show "length (done_at ?s) = length (delivered (ring ?s))" by (simp add: f ld)
    fix k assume k: "k < length (delivered (ring ?s))"
    then have kn: "k < ?n \<or> k = ?n" by (auto simp: f)
    show "done_at ?s ! k \<le> length (calls (host ?s))"
      using kn sy(3) prefix_length_le[OF pre] ld by (fastforce simp: f nth_append log_ok_def)
    show "covered p ?s [] k" if "end_of ?s k \<le> quiet_ack (hchan (host ?s))"
      using kn sy(3) that mono P0 by (auto simp: log_ok_def en f qi)
    show "covered p ?s (cst_calls p) k \<or> issued_get (host ?s) \<and> \<not> end_of ?s k \<le> quiet_ack (hchan (host ?s))"
      if g: "is_get (posted (ring ?s) ! k)"
    proof (cases "k < ?n")
      case True
      then show ?thesis using sy(3) g mono get by (auto simp: log_ok_def en f qi)
    next
      case False
      then have k: "k = ?n" using kn by simp
      then have "issued_get h" using g get_issued[OF run] by (simp add: f is_get_def e base_op_flag ws(2))
      then show ?thesis using P0 k by (simp add: en f qi)
    qed
  qed
  moreover have "waiter_ok ?s q" if "q \<in> set (quiets ?s)" for q
    by (rule waiter_frame[of s q ?s "[]"]) (use sy(4) that qi in \<open>simp_all add: f\<close>)
  ultimately show ?thesis using i' q by (auto simp: sys_inv_def sync_inv_def f)
qed

lemma sys_range: "sys_step p s s' \<Longrightarrow> in_range (ring s') \<Longrightarrow> in_range (ring s)"
  by (erule sys_stepE)
    (auto simp: in_range_def set_ring_def set_host_def proxy_quiet_read_def proxy_quiet_ask_def taken_def Let_def reserve_def
      elim!: admit_eq store_eq)

lemma sys_step_inv:
  assumes "sys_step p s s'" "sys_inv p s" "in_range (ring s')"
  shows "sys_inv p s'"
  using assms(1)
proof (cases rule: sys_step.cases)
  case (sys_reserve ws)
  then show ?thesis using reserve_step[OF assms(2)] assms(3) by (simp add: set_ring_def)
next
  case (sys_admit i r)
  then show ?thesis using admit_step[OF assms(2)] assms(3) by (simp add: set_ring_def)
next
  case (sys_store i r)
  then show ?thesis using store_step[OF assms(2)] assms(3) by (simp add: set_ring_def)
qed (use assms(2) sys_range[OF assms(1,3)] quiet_read_step quiet_ask_step progress_quiet_step progress_cst_step take_step
      progress_transports_step in blast)+

lemma sys_reachable_inv:
  assumes "(sys_step p)\<^sup>*\<^sup>* sys_new s" "in_range (ring s)"
  shows "sys_inv p s"
  using assms by (induction rule: rtranclp_induct) (auto simp: sys_inv_new intro: sys_step_inv sys_range)

end
