(* ===== verification/Multisend.thy ===== *)
theory Multisend
  imports Heap_Handles Buf_Cache_Props
begin

text \<open>
  Transfers are cut correctly: on handle tables that cover the addresses involved, the loop of
  \<open>nvshmemi_process_multisend_rma\<close> ends, and its operations are contiguous, non-empty, within one handle
  and one transport operation each, and add up to the transfer.
\<close>

section \<open>Tables that cover the heap\<close>

definition tables_ok :: "heap_obj \<Rightarrow> bool" where
  "tables_ok h \<longleftrightarrow>
     unat (heap_base h) + unat (heap_size h) < 2 ^ 64 \<and> mmap_allocated_range h \<le> heap_size h \<and>
     (\<forall>i < length (idx_in_handles h). case idx_in_handles h ! i of (k, start, sz) \<Rightarrow>
        unat start \<le> unat (heap_base h) + i * 2 ^ log2_mem_granularity h \<and>
        unat (heap_base h) + Suc i * 2 ^ log2_mem_granularity h \<le> unat start + unat sz \<and> unat start + unat sz < 2 ^ 64)"

text \<open>An address of the heap proper, below the mmap range, in a granule that is in the table.\<close>

definition heap_backed :: "heap_obj \<Rightarrow> u64 \<Rightarrow> bool" where
  "heap_backed h a \<longleftrightarrow> heap_base h \<le> a \<and> unat a < unat (heap_base h) + (unat (heap_size h) - unat (mmap_allocated_range h)) \<and>
     unat a < unat (heap_base h) + length (idx_in_handles h) * 2 ^ log2_mem_granularity h"

lemma heap_lookup:
  assumes "tables_ok h" "heap_backed h a"
  obtains i k start sz where "i < length (idx_in_handles h)" "idx_in_handles h ! i = (k, start, sz)"
    "unat start \<le> unat a" "unat a < unat start + unat sz"
    "get_transport_mem_handle h nt a pe t = Inr (Some (Heap_Handle k (pe * nt + t), sz - (a - start)))"
    "get_mem_handle_addr_offset h a = Inr (a - start)" "unat (sz - (a - start)) = unat start + unat sz - unat a"
    "unat (a - start) = unat a - unat start"
proof -
  let ?g = "log2_mem_granularity h"
  have bk: "heap_base h \<le> a" "unat a < unat (heap_base h) + (unat (heap_size h) - unat (mmap_allocated_range h))"
    "unat a < unat (heap_base h) + length (idx_in_handles h) * 2 ^ ?g"
    using assms(2) by (simp_all add: heap_backed_def)
  have tk: "unat (heap_base h) + unat (heap_size h) < 2 ^ 64" "mmap_allocated_range h \<le> heap_size h"
    using assms(1) by (simp_all add: tables_ok_def)
  define off where "off = unat a - unat (heap_base h)"
  have off: "unat (a - heap_base h) = off" using bk(1) by (simp add: off_def unat_sub_nowrap word_le_nat_alt)
  define i where "i = off div 2 ^ ?g"
  have "off < 2 ^ 64" using off unat_u64_bound[of "a - heap_base h"] by simp
  then have idx: "unat (drop_bit ?g (a - heap_base h)) = i" unfolding i_def unsigned_drop_bit_eq off
    by (simp add: drop_bit_eq_div take_bit_nat_eq_self)
  have il: "i < length (idx_in_handles h)"
    using bk(1,3) unfolding i_def off_def word_le_nat_alt by (intro less_mult_imp_div_less) linarith
  obtain k start sz where e: "idx_in_handles h ! i = (k, start, sz)" by (cases "idx_in_handles h ! i")
  have s: "unat start \<le> unat (heap_base h) + i * 2 ^ ?g" "unat (heap_base h) + Suc i * 2 ^ ?g \<le> unat start + unat sz"
    "unat start + unat sz < 2 ^ 64" using assms(1) il e by (auto simp: tables_ok_def)
  have "i * 2 ^ ?g \<le> off" "off < Suc i * 2 ^ ?g"
    unfolding i_def by (simp_all add: dividend_less_div_times[of "2 ^ ?g" off] add.commute)
  then have r: "unat start \<le> unat a" "unat a < unat start + unat sz"
    using s bk(1) off_def by (auto simp: word_le_nat_alt)
  have sub: "unat (a - start) = unat a - unat start" using r(1) by (rule unat_sub_nowrap)
  have rest: "unat (sz - (a - start)) = unat start + unat sz - unat a"
    using sub r by (subst unat_sub_nowrap) simp_all
  have "unat (heap_base h + heap_size h) = unat (heap_base h) + unat (heap_size h)" using tk(1) by (rule unat_add_nowrap)
  then have n1: "\<not> a > heap_base h + heap_size h" using bk(2) by (simp add: word_less_nat_alt)
  have "unat (heap_size h - mmap_allocated_range h) = unat (heap_size h) - unat (mmap_allocated_range h)"
    using tk(2) by (simp add: unat_sub_nowrap word_le_nat_alt)
  moreover from this have "unat (heap_base h + (heap_size h - mmap_allocated_range h)) =
      unat (heap_base h) + (unat (heap_size h) - unat (mmap_allocated_range h))"
    using tk(1) by (subst unat_add_nowrap) simp_all
  ultimately have n2: "\<not> a \<ge> heap_base h + (heap_size h - mmap_allocated_range h)"
    using bk(2) by (simp add: word_le_nat_alt)
  have g: "get_transport_mem_handle h nt a pe t = Inr (Some (Heap_Handle k (pe * nt + t), sz - (a - start)))"
    unfolding get_transport_mem_handle_def Let_def idx using n1 n2 bk(1) il e by (simp add: not_less)
  have o: "get_mem_handle_addr_offset h a = Inr (a - start)"
    unfolding get_mem_handle_addr_offset_def Let_def idx using il e by simp
  show ?thesis using that[OF il e r g o rest sub] .
qed

text \<open>An address a transfer may start from locally: in the heap, or in a registered region outside it.\<close>

definition local_backed :: "proxy_env \<Rightarrow> nat \<Rightarrow> region list \<Rightarrow> u64 \<Rightarrow> bool" where
  "local_backed env t rs a \<longleftrightarrow> heap_backed (heap env) a \<or>
     (a < heap_base (heap env) \<or> a > heap_base (heap env) + heap_size (heap env)) \<and> (\<exists>r \<in> set rs. region_covers r a)"

text \<open>
  A local range lies inside what its handle stands for: an allocation of the heap with the handle of the own PE, or a handle of a
  registered buffer.
\<close>

definition local_fits :: "proxy_env \<Rightarrow> nat \<Rightarrow> mem_handle \<Rightarrow> u64 \<Rightarrow> u64 \<Rightarrow> bool" where
  "local_fits env t handle a n \<longleftrightarrow>
     (\<exists>i < length (idx_in_handles (heap env)). case idx_in_handles (heap env) ! i of (k, start, sz) \<Rightarrow>
        handle = Heap_Handle k (mype env * num_initialized_transports env + t) \<and>
        unat start \<le> unat a \<and> unat a + unat n \<le> unat start + unat sz) \<or>
     (\<exists>h \<in> set (buffers (buf_caches env t)). handle = Buf_Handle (lb_ref h) \<and> unat (lb_ptr h) \<le> unat a \<and> unat a + unat n \<le> h_end h)"

lemma local_fits_less: "local_fits env t handle a n \<Longrightarrow> m \<le> n \<Longrightarrow> local_fits env t handle a m"
  unfolding local_fits_def word_le_nat_alt by fastforce

lemma registered_handle:
  assumes "cache_rep c rs" "r \<in> set rs" "region_covers r a" "0 < len"
  obtains h l where "h \<in> set (buffers c)" "nvshmemi_get_registered_buffer_handle 0 c a len = (Some (lb_ref h), l)" "0 < l"
    "unat (lb_ptr h) \<le> unat a" "unat a + unat l \<le> h_end h"
proof -
  note C = cache_repD[OF assms(1)]
  obtain i l where "nvshmemi_get_registered_buffer_handle 0 c a len = (Some (rg_block r, i), l)" "0 < l"
    using buf_cache.find_inside[OF assms(1-3), of len] assms(4) by blast
  with lookup_spec[OF assms(1), of a len] obtain h where h: "h \<in> set (buffers c)" "handle_covers h a"
    "nvshmemi_get_registered_buffer_handle 0 c a len = (Some (lb_ref h), l)" "l = min len (lb_ptr h + lb_length h - a)" "0 < l"
    unfolding lookup_result_def by auto
  have "handle_ok h" using h(1) chains_ok[OF C(2)] unfolding C(1) handles_ok_def by blast
  then have "unat (lb_ptr h + lb_length h - a) = h_end h - unat a"
    using handle_end h(2) by (subst unat_sub_nowrap) (simp_all add: handle_covers_def)
  moreover have "unat l \<le> unat (lb_ptr h + lb_length h - a)" using h(4) by (simp add: min_def word_le_nat_alt)
  moreover have "unat (lb_ptr h) \<le> unat a" "unat a < h_end h" using h(2) by (simp_all add: handle_covers_def)
  ultimately have "unat a + unat l \<le> h_end h" by linarith
  then show ?thesis using that h by (simp add: handle_covers_def)
qed

lemma local_handle:
  assumes "tables_ok (heap env)" "cache_rep (buf_caches env t) rs" "local_backed env t rs a"
    and "0 < len" "0 < max_op_len env t"
  shows "\<exists>hd l. nvshmemi_get_local_mem_handle env len a t = Inr (hd, l) \<and> 0 < l \<and> l \<le> max_op_len env t \<and> local_fits env t hd a l"
proof (cases "heap_backed (heap env) a")
  case True
  show ?thesis
  proof (rule heap_lookup[OF assms(1) True, of "num_initialized_transports env" "mype env" t])
    fix i k start sz
    assume h: "i < length (idx_in_handles (heap env))" "idx_in_handles (heap env) ! i = (k, start, sz)"
      "unat start \<le> unat a" "unat a < unat start + unat sz"
      "get_transport_mem_handle (heap env) (num_initialized_transports env) a (mype env) t =
        Inr (Some (Heap_Handle k (mype env * num_initialized_transports env + t), sz - (a - start)))"
      "unat (sz - (a - start)) = unat start + unat sz - unat a"
    let ?h = "Heap_Handle k (mype env * num_initialized_transports env + t)"
    have "local_fits env t ?h a (sz - (a - start))" unfolding local_fits_def using h by auto
    then have "local_fits env t ?h a (min (sz - (a - start)) (max_op_len env t))" by (rule local_fits_less) simp
    moreover have "0 < min (sz - (a - start)) (max_op_len env t)" using h(4,6) assms(5) by (simp add: min_def word_less_nat_alt)
    ultimately show ?thesis using h(5) by (simp add: nvshmemi_get_local_mem_handle_def)
  qed
next
  case False
  then obtain r where r: "r \<in> set rs" "region_covers r a"
    and o: "a < heap_base (heap env) \<or> a > heap_base (heap env) + heap_size (heap env)" using assms(3) by (auto simp: local_backed_def)
  obtain h l where h: "h \<in> set (buffers (buf_caches env t))"
    "nvshmemi_get_registered_buffer_handle 0 (buf_caches env t) a len = (Some (lb_ref h), l)" "0 < l"
    "unat (lb_ptr h) \<le> unat a" "unat a + unat l \<le> h_end h" using registered_handle[OF assms(2) r assms(4)] .
  have "local_fits env t (Buf_Handle (lb_ref h)) a l" unfolding local_fits_def using h by blast
  then have "local_fits env t (Buf_Handle (lb_ref h)) a (min l (max_op_len env t))" by (rule local_fits_less) simp
  moreover have "0 < min l (max_op_len env t)" using h(3) assms(5) by (simp add: min_def)
  ultimately show ?thesis using h(2) o by (auto simp: nvshmemi_get_local_mem_handle_def get_transport_mem_handle_def)
qed

section \<open>The pieces of a transfer\<close>

text \<open>
  A piece that stays in one operation of the transport, in its local handle, and in its remote handle, at the offset of \<open>rptr\<close> in
  the allocation.
\<close>

definition piece_fits :: "proxy_env \<Rightarrow> u64 \<Rightarrow> rma_call \<Rightarrow> bool" where
  "piece_fits env rptr c \<longleftrightarrow> rc_nelems c \<le> max_op_len env (rc_transport c) \<and>
     local_fits env (rc_transport c) (rc_local_handle c) (rc_local_ptr c) (rc_nelems c) \<and>
     (\<exists>i < length (idx_in_handles (heap env)). case idx_in_handles (heap env) ! i of (k, start, sz) \<Rightarrow>
        rc_remote_handle c = Heap_Handle k (rc_pe c * num_initialized_transports env + rc_transport c) \<and>
        unat start \<le> unat rptr \<and> rc_remote_offset c = rptr - start \<and> unat (rc_remote_offset c) + unat (rc_nelems c) \<le> unat sz)"

text \<open>The operations of a transfer, in order, with the PE that each round hands to the next.\<close>

fun transfer_split :: "proxy_env \<Rightarrow> nat \<Rightarrow> u64 \<Rightarrow> u32 \<Rightarrow> nat \<Rightarrow> u64 \<Rightarrow> u64 \<Rightarrow> u64 \<Rightarrow> rma_call list \<Rightarrow> bool" where
  "transfer_split env t desc qp pe rptr lptr n [] \<longleftrightarrow> n = 0"
| "transfer_split env t desc qp pe rptr lptr n (c # cs) \<longleftrightarrow>
     rc_transport c = t \<and> rc_desc c = desc \<and> rc_qp c = qp \<and> rc_local_ptr c = lptr \<and>
     (rc_remote_ptr c, rc_pe c) = NVSHMEMU_UNMAPPED_PTR_PE_TRANSLATE env rptr pe \<and>
     0 < rc_nelems c \<and> rc_nelems c \<le> n \<and> piece_fits env rptr c \<and>
     transfer_split env t desc qp (rc_pe c) (rptr + rc_nelems c) (lptr + rc_nelems c) (n - rc_nelems c) cs"

lemma piece_spec:
  assumes "tables_ok (heap env)" "cache_rep (buf_caches env t) rs" "0 < max_op_len env t"
    and "heap_backed (heap env) rptr" "local_backed env t rs lptr" "0 < n"
  shows "\<exists>c. rma_piece env t desc rptr lptr n qp pe = Inr (c, rc_pe c) \<and>
    rc_transport c = t \<and> rc_desc c = desc \<and> rc_qp c = qp \<and> rc_local_ptr c = lptr \<and>
    (rc_remote_ptr c, rc_pe c) = NVSHMEMU_UNMAPPED_PTR_PE_TRANSLATE env rptr pe \<and>
    0 < rc_nelems c \<and> rc_nelems c \<le> n \<and> piece_fits env rptr c"
proof -
  obtain rp p where tr: "NVSHMEMU_UNMAPPED_PTR_PE_TRANSLATE env rptr pe = (rp, p)" by force
  obtain lh ll where l: "nvshmemi_get_local_mem_handle env n lptr t = Inr (lh, ll)" "0 < ll" "ll \<le> max_op_len env t"
    "local_fits env t lh lptr ll"
    using local_handle[OF assms(1,2,5,6,3)] by blast
  obtain i k start sz where h: "i < length (idx_in_handles (heap env))" "idx_in_handles (heap env) ! i = (k, start, sz)"
    "unat start \<le> unat rptr" "unat rptr < unat start + unat sz"
    "get_transport_mem_handle (heap env) (num_initialized_transports env) rptr p t =
       Inr (Some (Heap_Handle k (p * num_initialized_transports env + t), sz - (rptr - start)))"
    "get_mem_handle_addr_offset (heap env) rptr = Inr (rptr - start)"
    "unat (sz - (rptr - start)) = unat start + unat sz - unat rptr" "unat (rptr - start) = unat rptr - unat start"
    by (rule heap_lookup[OF assms(1,4), of "num_initialized_transports env" p t]) (rule that; assumption)
  define rl where "rl = min (sz - (rptr - start)) (max_op_len env t)"
  have rl: "0 < rl" "unat rl \<le> unat start + unat sz - unat rptr"
    using h(4,7) assms(3) by (auto simp: rl_def min_def word_less_nat_alt word_le_nat_alt)
  define m where "m = min ll (min rl n)"
  have m: "0 < m" "m \<le> n" "m \<le> rl" "m \<le> max_op_len env t" "m \<le> ll" using l(2,3) rl(1) assms(6) by (auto simp: m_def min_def)
  have fit: "unat (rptr - start) + unat m \<le> unat sz" using h(3,4,8) m(3) rl(2) by (simp add: word_le_nat_alt)
  let ?c = "\<lparr>rc_transport = t, rc_pe = p, rc_desc = desc, rc_remote_ptr = rp, rc_remote_offset = rptr - start,
    rc_remote_handle = Heap_Handle k (p * num_initialized_transports env + t), rc_local_ptr = lptr, rc_local_handle = lh,
    rc_nelems = m, rc_qp = qp\<rparr>"
  have "rma_piece env t desc rptr lptr n qp pe = Inr (?c, p)"
    unfolding rma_piece_def nvshmemi_get_remote_mem_handle_def tr prod.case l(1) h(5,6) Let_def
    by (simp add: m_def rl_def)
  moreover have "piece_fits env rptr ?c" unfolding piece_fits_def using h(1-3) fit m(4) local_fits_less[OF l(4) m(5)] by auto
  ultimately show ?thesis using m tr by (intro exI[of _ ?c]) simp
qed

lemma multisend_splits:
  assumes "tables_ok (heap env)" "cache_rep (buf_caches env t) rs" "0 < max_op_len env t" "\<And>c. ok c"
    and "\<And>k. unat k < unat n \<Longrightarrow> heap_backed (heap env) (rptr + k) \<and> local_backed env t rs (lptr + k)"
  shows "\<exists>cs. nvshmemi_process_multisend_rma env ok t desc qp pe rptr lptr n = Some (Inr cs) \<and>
    transfer_split env t desc qp pe rptr lptr n cs"
  using assms(5)
proof (induction "unat n" arbitrary: n pe rptr lptr rule: less_induct)
  case less
  show ?case
  proof (cases "n = 0")
    case True
    then show ?thesis by (subst nvshmemi_process_multisend_rma.simps) (auto intro!: exI[of _ "[]"])
  next
    case False
    then have n: "0 < n" by (simp add: word_neq_0_conv)
    have b: "heap_backed (heap env) rptr" "local_backed env t rs lptr"
      using less.prems[of 0] n by (simp_all add: word_less_nat_alt)
    obtain c where p: "rma_piece env t desc rptr lptr n qp pe = Inr (c, rc_pe c)"
      and c: "rc_transport c = t" "rc_desc c = desc" "rc_qp c = qp" "rc_local_ptr c = lptr"
        "(rc_remote_ptr c, rc_pe c) = NVSHMEMU_UNMAPPED_PTR_PE_TRANSLATE env rptr pe" "0 < rc_nelems c" "rc_nelems c \<le> n"
        "piece_fits env rptr c"
      using piece_spec[OF assms(1-3) b n] by blast
    let ?m = "rc_nelems c"
    have m: "unat (n - ?m) = unat n - unat ?m" "unat ?m \<le> unat n" "0 < unat ?m"
      using c(6,7) by (simp_all add: unat_sub_nowrap word_le_nat_alt word_less_nat_alt)
    have "\<exists>cs. nvshmemi_process_multisend_rma env ok t desc qp (rc_pe c) (rptr + ?m) (lptr + ?m) (n - ?m) = Some (Inr cs) \<and>
        transfer_split env t desc qp (rc_pe c) (rptr + ?m) (lptr + ?m) (n - ?m) cs"
    proof (rule less.hyps)
      show "unat (n - ?m) < unat n" using m by linarith
      fix k :: u64 assume "unat k < unat (n - ?m)"
      then have "unat (?m + k) < unat n" using m(1,2) unat_u64_bound[of n] by (subst unat_add_nowrap) linarith+
      then show "heap_backed (heap env) (rptr + ?m + k) \<and> local_backed env t rs (lptr + ?m + k)"
        using less.prems[of "?m + k"] by (simp only: add.assoc)
    qed
    then obtain cs where "nvshmemi_process_multisend_rma env ok t desc qp (rc_pe c) (rptr + ?m) (lptr + ?m) (n - ?m) = Some (Inr cs)"
      "transfer_split env t desc qp (rc_pe c) (rptr + ?m) (lptr + ?m) (n - ?m) cs" by blast
    then show ?thesis using p c assms(4) False
      by (subst nvshmemi_process_multisend_rma.simps) (auto simp: Let_def intro!: exI[of _ "c # cs"])
  qed
qed

lemma transfer_split_sum:
  "transfer_split env t desc qp pe rptr lptr n cs \<Longrightarrow> (\<Sum>c\<leftarrow>cs. unat (rc_nelems c)) = unat n"
proof (induction cs arbitrary: pe rptr lptr n)
  case (Cons c cs)
  then have "(\<Sum>c\<leftarrow>cs. unat (rc_nelems c)) = unat (n - rc_nelems c)" "unat (rc_nelems c) \<le> unat n"
    by (auto simp: word_le_nat_alt)
  then show ?case by (simp add: unat_sub_nowrap)
qed simp

lemma transfer_split_direct:
  assumes "\<not> enable_rail_opt env" "transfer_split env t desc qp pe rptr lptr n cs" "c \<in> set cs"
  shows "rc_pe c = pe \<and> rc_remote_ptr c - rc_local_ptr c = remote_pe_base (heap env) pe + (rptr - heap_base (heap env)) - lptr"
  using assms(2,3)
proof (induction cs arbitrary: pe rptr lptr n)
  case (Cons d cs)
  then have d: "rc_remote_ptr d = remote_pe_base (heap env) pe + (rptr - heap_base (heap env))" "rc_pe d = pe" "rc_local_ptr d = lptr"
    and rest: "transfer_split env t desc qp pe (rptr + rc_nelems d) (lptr + rc_nelems d) (n - rc_nelems d) cs"
    using assms(1) by (auto simp: NVSHMEMU_UNMAPPED_PTR_PE_TRANSLATE_def)
  show ?case
  proof (cases "c = d")
    case False
    then show ?thesis using Cons.IH[OF rest] Cons.prems(2) by (simp add: algebra_simps)
  qed (simp add: d)
qed simp

lemma map_sum_Inr_iff: "map_sum f g r = Inr y \<longleftrightarrow> (\<exists>x. r = Inr x \<and> y = g x)"
  by (cases r) auto

lemma multisend_Cons:
  assumes "nvshmemi_process_multisend_rma env ok t desc qp pe rptr lptr n = Some (Inr (c # cs))"
  shows "(rc_remote_ptr c, rc_pe c) = NVSHMEMU_UNMAPPED_PTR_PE_TRANSLATE env rptr pe \<and>
    nvshmemi_process_multisend_rma env ok t desc qp (rc_pe c) (rptr + rc_nelems c) (lptr + rc_nelems c) (n - rc_nelems c) = Some (Inr cs)"
proof -
  obtain p where p: "rma_piece env t desc rptr lptr n qp pe = Inr (c, p)"
    "nvshmemi_process_multisend_rma env ok t desc qp p (rptr + rc_nelems c) (lptr + rc_nelems c) (n - rc_nelems c) = Some (Inr cs)"
    using assms unfolding nvshmemi_process_multisend_rma.simps[of env ok t desc qp pe rptr lptr n]
    by (auto simp: Let_def bind_eq_Some_conv map_sum_Inr_iff split: if_splits sum.splits)
  moreover have "rc_pe c = p \<and> (rc_remote_ptr c, p) = NVSHMEMU_UNMAPPED_PTR_PE_TRANSLATE env rptr pe"
    using p(1) by (auto simp: rma_piece_def Let_def split: prod.splits sum.splits)
  ultimately show ?thesis by simp
qed

section \<open>Properties\<close>

text \<open>A heap of four granules of 16 bytes in two allocations, and a registered buffer elsewhere.\<close>

definition demo_heap_obj :: heap_obj where
  "demo_heap_obj = \<lparr>heap_base = 0x1000, heap_size = 64, log2_mem_granularity = 4, mmap_allocated_range = 0,
     idx_in_handles = [(0, 0x1000, 32), (0, 0x1000, 32), (1, 0x1020, 32), (1, 0x1020, 32)],
     idx_in_mmap_handles = (\<lambda>_. None), remote_mmap_dims = [], remote_pe_base = (\<lambda>pe. of_nat pe * 0x10000)\<rparr>"

definition demo_proxy_env :: "bool \<Rightarrow> proxy_env" where
  "demo_proxy_env rail = \<lparr>heap = demo_heap_obj, enable_rail_opt = rail, npes = 4, mype = 0, npes_node = 2, mype_node = 0,
     num_initialized_transports = 1, max_op_len = (\<lambda>_. 0x100), buf_caches = (\<lambda>_. demo_cache)\<rparr>"

lemma demo_tables: "tables_ok demo_heap_obj"
  by (auto simp: tables_ok_def demo_heap_obj_def less_Suc_eq)

lemma demo_backed: "unat a < 64 \<Longrightarrow> heap_backed demo_heap_obj (0x1000 + a)"
  by (simp add: heap_backed_def demo_heap_obj_def unat_add_nowrap word_le_nat_alt)

text \<open>
  C24: A transfer is sent completely and exactly once. Without rail optimisation, for a remote range
  inside the table of the heap and a local range inside the heap or registered buffers, the loop of
  \<open>nvshmemi_process_multisend_rma\<close> ends; its operations follow each other without gap or overlap, each is
  non-empty, stays below the transport's maximum, inside one local handle (an allocation of the heap or a handle of a registered
  buffer) and inside one remote handle, at the offset of its address, goes to the PE asked for with remote and local address
  advancing together, and their lengths add up to the size.
\<close>

theorem multisend_correct:
  assumes "tables_ok (heap env)" "cache_rep (buf_caches env t) rs" "0 < max_op_len env t" "\<not> enable_rail_opt env"
    and "\<And>k. unat k < unat n \<Longrightarrow> heap_backed (heap env) (rptr + k) \<and> local_backed env t rs (lptr + k)"
  shows "\<exists>cs. nvshmemi_process_multisend_rma env (\<lambda>_. True) t desc qp pe rptr lptr n = Some (Inr cs) \<and>
    transfer_split env t desc qp pe rptr lptr n cs \<and> (\<Sum>c\<leftarrow>cs. unat (rc_nelems c)) = unat n \<and>
    (\<forall>c. c \<in> set cs \<longrightarrow> rc_pe c = pe \<and>
       rc_remote_ptr c - rc_local_ptr c = remote_pe_base (heap env) pe + (rptr - heap_base (heap env)) - lptr)"
proof -
  have "\<exists>cs. nvshmemi_process_multisend_rma env (\<lambda>_. True) t desc qp pe rptr lptr n = Some (Inr cs) \<and>
      transfer_split env t desc qp pe rptr lptr n cs"
    by (rule multisend_splits[OF assms(1-3) TrueI assms(5)])
  then show ?thesis using transfer_split_sum transfer_split_direct[OF assms(4)] by blast
qed

theorem multisend_correct_witness:
  "\<exists>cs. nvshmemi_process_multisend_rma (demo_proxy_env False) (\<lambda>_. True) 0 1 1 3 0x1010 0x1000 32 = Some (Inr cs) \<and>
     (\<Sum>c\<leftarrow>cs. unat (rc_nelems c)) = 32"
proof -
  have "heap_backed demo_heap_obj (0x1010 + k) \<and> local_backed (demo_proxy_env False) 0 [demo_region] (0x1000 + k)"
    if "unat (k :: u64) < 32" for k
  proof -
    have "unat (0x10 + k) < 64" using that by (subst unat_add_nowrap) simp_all
    then show ?thesis using that demo_backed[of "0x10 + k"] demo_backed[of k]
      by (simp add: local_backed_def demo_proxy_env_def)
  qed
  then show ?thesis
    using multisend_correct[of "demo_proxy_env False" 0 "[demo_region]" 32 "0x1010" "0x1000" 1 1 3] demo_tables demo_rep
    by (auto simp: demo_proxy_env_def)
qed

text \<open>
  C36: With rail optimisation a transfer of several pieces goes astray. The translation macro overwrites
  the PE with the proxy PE of the rail, and the loop translates the next piece from there: the second
  operation addresses the heap of the proxy PE itself, which is not the address that the macro computes
  for the target of the transfer, whenever the target is another rank of its node and the heap is not a
  multiple of the address space.
\<close>

theorem multisend_rail_wrong_target:
  assumes "enable_rail_opt env" "mype_node env < npes_node env"
    and "nvshmemi_process_multisend_rma env ok t desc qp pe rptr lptr n = Some (Inr (c0 # c1 # cs))"
    and "of_int (int (pe mod npes_node env) - int (mype_node env)) * heap_size (heap env) \<noteq> (0 :: u64)"
  shows "rc_remote_ptr c0 = fst (NVSHMEMU_UNMAPPED_PTR_PE_TRANSLATE env rptr pe) \<and>
    rc_remote_ptr c1 = remote_pe_base (heap env) (rc_pe c1) + (rptr + rc_nelems c0 - heap_base (heap env)) \<and>
    rc_remote_ptr c1 \<noteq> fst (NVSHMEMU_UNMAPPED_PTR_PE_TRANSLATE env (rptr + rc_nelems c0) pe)"
proof -
  let ?p = "(pe div npes_node env) * npes_node env + mype_node env"
  note M0 = multisend_Cons[OF assms(3)]
  have M1: "(rc_remote_ptr c1, rc_pe c1) = NVSHMEMU_UNMAPPED_PTR_PE_TRANSLATE env (rptr + rc_nelems c0) (rc_pe c0)"
    using multisend_Cons[of env ok t desc qp "rc_pe c0"] M0 by blast
  have p0: "rc_pe c0 = ?p" "rc_remote_ptr c0 = fst (NVSHMEMU_UNMAPPED_PTR_PE_TRANSLATE env rptr pe)"
    using M0 assms(1) by (auto simp: NVSHMEMU_UNMAPPED_PTR_PE_TRANSLATE_def Let_def dest: sym)
  have "?p div npes_node env = pe div npes_node env" "?p mod npes_node env = mype_node env"
    using assms(2) by simp_all
  then have r1: "rc_pe c1 = ?p" "rc_remote_ptr c1 = remote_pe_base (heap env) ?p + (rptr + rc_nelems c0 - heap_base (heap env))"
    using M1 assms(1) p0(1) by (simp_all add: NVSHMEMU_UNMAPPED_PTR_PE_TRANSLATE_def Let_def)
  then show ?thesis using p0(2) assms(1,4) by (simp add: NVSHMEMU_UNMAPPED_PTR_PE_TRANSLATE_def Let_def)
qed

theorem multisend_rail_wrong_target_witness:
  "\<exists>c0 c1. nvshmemi_process_multisend_rma (demo_proxy_env True) (\<lambda>_. True) 0 1 1 3 0x1010 0x1000 32 = Some (Inr [c0, c1]) \<and>
     rc_remote_ptr c0 = 0x20050 \<and> rc_remote_ptr c1 = 0x20020"
proof -
  have "case nvshmemi_process_multisend_rma (demo_proxy_env True) (\<lambda>_. True) 0 1 1 3 0x1010 0x1000 32 of
      Some (Inr [c0, c1]) \<Rightarrow> rc_nelems c0 = 16 \<and> rc_pe c1 = 2 | _ \<Rightarrow> False"
    by code_simp
  then have "\<exists>c0 c1. nvshmemi_process_multisend_rma (demo_proxy_env True) (\<lambda>_. True) 0 1 1 3 0x1010 0x1000 32 = Some (Inr [c0, c1]) \<and>
      rc_nelems c0 = 16 \<and> rc_pe c1 = 2"
    by (auto split: option.splits sum.splits list.splits)
  then show ?thesis
    using multisend_rail_wrong_target[of "demo_proxy_env True" "\<lambda>_. True" 0 1 1 3 "0x1010" "0x1000" 32 _ _ "[]"]
    by (auto simp: demo_proxy_env_def demo_heap_obj_def NVSHMEMU_UNMAPPED_PTR_PE_TRANSLATE_def)
qed

end
