(* ===== verification/Ring_Properties.thy ===== *)
theory Ring_Properties
  imports Ring_Delivery
begin

text \<open>
  What the ring promises, stated from its initial state: delivery in order and unmodified, the order of
  the counters, no deadlock, and the end-to-end identity of each kind of request. The
  progress lemma itself provides the concrete runs.
\<close>

section \<open>Concrete runs\<close>

definition demo_dma :: dma_fields where
  "demo_dma = \<lparr>dma_desc = NVSHMEMI_OP_PUT, dma_roffset = 0x40, dma_laddr = 0x7F001234, dma_size = 4096, dma_pe = 3, dma_qp = 7\<rparr>"

definition demo_inline :: inline_fields where
  "demo_inline = \<lparr>inl_roffset = 0x80, inl_lvalue = 0x1122334455667788, inl_size = 8, inl_pe = 2, inl_qp = 0\<rparr>"

definition demo_amo :: amo_fields where
  "demo_amo = \<lparr>amo_op = NVSHMEMI_AMO_COMPARE_SWAP, amo_roffset = 0x88, amo_lvalue = 0xABCD, amo_cvalue = 0x1234,
     amo_g_counter = 5, amo_size = 4, amo_pe = 1, amo_qp = 9\<rparr>"

definition demo_put_signal :: put_signal_fields where
  "demo_put_signal = \<lparr>ps_roffset = 0x100, ps_laddr = 0x7F0000FF, ps_size = 512, ps_pe = 6, ps_qp = 0,
     ps_sig_op = 9, ps_rsig_offset = 0x300, ps_sig_val = 0xDEAD\<rparr>"

lemma demo_sendable:
  "sendable_dma demo_dma" "sendable_inline demo_inline" "sendable_amo demo_amo" "sendable_put_signal demo_put_signal"
  by (simp_all add: sendable_dma_def demo_dma_def dma_op_def sendable_inline_def demo_inline_def elem_size_def
      sendable_amo_def demo_amo_def sendable_put_signal_def demo_put_signal_def convert_val_to_uint64_def op_defs)

lemma inner_steps: "inner_step\<^sup>*\<^sup>* s s' \<Longrightarrow> ring_step\<^sup>*\<^sup>* s s'"
  by (erule rtranclp_mono[THEN predicate2D, rotated]) (auto simp: ring_step_iff)

text \<open>A request posted to the empty ring reaches the host.\<close>

lemma run_once:
  assumes "valid_request ws"
  shows "\<exists>s. ring_step\<^sup>*\<^sup>* ring_new s \<and> in_range s \<and> posted s = [ws] \<and> delivered s = [stamp 0 ws]"
proof -
  let ?s = "reserve ws ring_new"
  have r: "ring_step\<^sup>*\<^sup>* ring_new ?s" using step_reserve[OF assms] by blast
  have p: "posted ?s = [ws]" by (simp add: reserve_def Let_def ring_new_def)
  have g: "in_range s" if "posted s = [ws]" for s
    using valid_length[OF assms] that by (simp add: in_range_def)
  obtain P C L where "ring_inv P C L ?s" "starts_ok ?s" using reachable_inv[OF r g[OF p]] by blast
  from ring_drains[OF this g[OF p]] obtain s where "inner_step\<^sup>*\<^sup>* ?s s" "posted s = [ws]" "delivered s = [stamp 0 ws]"
    by (auto simp: p)
  with r g show ?thesis using inner_steps rtranclp_trans[of ring_step] by metis
qed

section \<open>The ring\<close>

text \<open>
  C1: The proxy ring delivers requests in order and unmodified. In every interleaving of any number of
  GPU threads with the host, the host has taken a prefix of the requests, in the order of their
  reservations, and each entry it read is the stored word with the phase bit of its position.
\<close>

theorem ring_delivers_in_order:
  assumes "ring_step\<^sup>*\<^sup>* ring_new s" "in_range s"
  shows "length (delivered s) \<le> length (posted s) \<and>
    delivered s = stamp_all 0 (take (length (delivered s)) (posted s))"
proof -
  obtain P C L where "ring_inv P C L s" using reachable_inv[OF assms] by blast
  from ring_invD(2)[OF this] show ?thesis by (simp add: history_ok_def)
qed

theorem ring_delivers_in_order_witness:
  "\<exists>s. ring_step\<^sup>*\<^sup>* ring_new s \<and> in_range s \<and> posted s = [dma_words 0x1000 demo_dma] \<and>
     delivered s = stamp_all 0 [dma_words 0x1000 demo_dma]"
proof -
  obtain s where s: "ring_step\<^sup>*\<^sup>* ring_new s" "in_range s" "posted s = [dma_words 0x1000 demo_dma]"
    "delivered s = [stamp 0 (dma_words 0x1000 demo_dma)]"
    using run_once[OF dma_codec(1)[OF demo_sendable(1)]] by blast
  then show ?thesis using ring_delivers_in_order[OF s(1,2)] by auto
qed

text \<open>
  C3: The counters of the channel stay in order, as numbers: what the GPU threads believe complete is at
  most what the host published, which is at most what it processed, which is at most what was issued. The
  host lags its own progress by less than 1024 bytes, all counters are multiples of an entry, and a thread
  that passed the availability check writes only inside one buffer length of the published counter, so it
  never overwrites an entry that has not been consumed.
\<close>

theorem ring_counters:
  assumes "ring_step\<^sup>*\<^sup>* ring_new s" "in_range s"
  shows "complete_local s \<le> complete (chan s) \<and> complete (chan s) \<le> processed (chan s) \<and>
    processed (chan s) \<le> issue (chan s) \<and> processed (chan s) - complete (chan s) < 1024 \<and>
    last_sync (chan s) = complete (chan s) \<and>
    (\<forall>t. t \<in> set (threads s) \<and> t_ready t \<longrightarrow>
       unat (t_idx t) + 8 * length (t_words t) \<le> unat (complete (chan s)) + unat CHANNEL_BUF_SIZE)"
proof -
  obtain P C L where inv: "ring_inv P C L s" using reachable_inv[OF assms] by blast
  have c: "complete_local s = idx L" "complete (chan s) = idx C" "processed (chan s) = idx P"
    "issue (chan s) = idx (length (log_of s))" "last_sync (chan s) = idx C"
    "L \<le> C" "C \<le> P" "P \<le> length (log_of s)" "P < C + 128"
    using ring_invD(1)[OF inv] by (simp_all add: counters_ok_def)
  have b: "8 * length (log_of s) < 2 ^ 64" using assms(2) by (simp add: in_range_def)
  have u: "unat (idx k) = 8 * k" if "k \<le> length (log_of s)" for k using unat_idx[of k] b that by linarith
  have m: "idx j \<le> idx k" if "j \<le> k" "k \<le> length (log_of s)" for j k
    using u[of j] u[of k] that by (simp add: word_le_nat_alt)
  have "unat (idx P - idx C) = 8 * P - 8 * C" using m[of C P] u[of P] u[of C] c(7,8) by (simp add: unat_sub)
  then have "idx P - idx C < 1024" using c(9) by (simp add: word_less_nat_alt)
  moreover have "unat (t_idx t) + 8 * length (t_words t) \<le> unat (idx C) + unat CHANNEL_BUF_SIZE"
    if "t \<in> set (threads s)" "t_ready t" for t
  proof -
    note T = thread_okD[OF ring_invD(3)[OF inv that(1)]]
    have "unat (t_idx t) = 8 * pos (t_idx t)" using T(1,2) u by (metis add_leD1)
    then show ?thesis using T(6)[OF that(2)] u[of C] c(7,8) by (simp add: CHANNEL_BUF_SIZE_def CHANNEL_BUF_SIZE_LOG_def)
  qed
  ultimately show ?thesis using m c by simp
qed

theorem ring_counters_witness:
  "\<exists>s. ring_step\<^sup>*\<^sup>* ring_new s \<and> in_range s \<and> length (delivered s) = 1 \<and> processed (chan s) \<le> issue (chan s)"
proof -
  obtain s where s: "ring_step\<^sup>*\<^sup>* ring_new s" "in_range s" "delivered s = [stamp 0 (dma_words 0x1000 demo_dma)]"
    using run_once[OF dma_codec(1)[OF demo_sendable(1)]] by blast
  then show ?thesis using ring_counters[OF s(1,2)] by auto
qed

text \<open>
  C2: The ring cannot deadlock. Whatever interleaving led to a state with an undelivered request, some
  waiting thread can be admitted, some admitted thread can store, or the host can take a request; every
  such step decreases the work left; and the work can be finished, with every posted request delivered.
\<close>

theorem ring_never_deadlocks:
  assumes "ring_step\<^sup>*\<^sup>* ring_new s" "in_range s"
  shows "(length (delivered s) < length (posted s) \<longrightarrow> (\<exists>s'. inner_step s s')) \<and>
    (\<forall>s'. inner_step s s' \<longrightarrow> ring_work s' < ring_work s) \<and>
    (\<exists>s'. inner_step\<^sup>*\<^sup>* s s' \<and> posted s' = posted s \<and> delivered s' = stamp_all 0 (posted s))"
proof -
  obtain P C L where i: "ring_inv P C L s" "starts_ok s" using reachable_inv[OF assms] by blast
  show ?thesis using ring_progress[OF i assms(2)] inner_work[OF _ i(1) assms(2)] ring_drains[OF i assms(2)] by blast
qed

theorem ring_never_deadlocks_witness:
  "\<exists>s. inner_step (reserve (dma_words 0x1000 demo_dma) ring_new) s"
proof -
  let ?w = "dma_words 0x1000 demo_dma"
  have v: "valid_request ?w" by (rule dma_codec(1)[OF demo_sendable(1)])
  have "ring_step\<^sup>*\<^sup>* ring_new (reserve ?w ring_new)" using step_reserve[OF v] by blast
  moreover have "in_range (reserve ?w ring_new)"
    using valid_length[OF v] by (simp add: in_range_def reserve_def Let_def ring_new_def)
  ultimately show ?thesis using ring_never_deadlocks[of "reserve ?w ring_new"]
    by (simp add: reserve_def Let_def ring_new_def)
qed

section \<open>Requests end to end\<close>

text \<open>
  C28: A bulk put, get or G request that a GPU thread posts is the request that the host reads: operation,
  remote offset, local address, size, PE and queue pair, for every heap base, every position in the ring and
  every interleaving. The encoding has room for offsets below 2^40 and sizes below 2^48.
\<close>

theorem dma_end_to_end:
  assumes "ring_step\<^sup>*\<^sup>* ring_new s" "in_range s" "k < length (delivered s)"
    "posted s ! k = dma_words base r" "sendable_dma r"
  shows "fetch_dma (delivered s ! k) = r"
  by (rule dma.delivered_request[OF assms])

theorem dma_end_to_end_witness:
  "\<exists>s. ring_step\<^sup>*\<^sup>* ring_new s \<and> in_range s \<and> sendable_dma demo_dma \<and> posted s ! 0 = dma_words 0x1000 demo_dma \<and>
     fetch_dma (delivered s ! 0) = demo_dma"
proof -
  obtain s where s: "ring_step\<^sup>*\<^sup>* ring_new s" "in_range s" "posted s = [dma_words 0x1000 demo_dma]"
    "delivered s = [stamp 0 (dma_words 0x1000 demo_dma)]"
    using run_once[OF dma_codec(1)[OF demo_sendable(1)]] by blast
  then show ?thesis using dma_end_to_end[OF s(1,2), of 0 "0x1000" demo_dma] demo_sendable(1) by auto
qed

text \<open>
  An inline put of a 1, 2, 4 or 8 byte value that a GPU thread posts is the request that the host
  reads, on the default queue pair (three entries) and on a named one (four).
\<close>

theorem inline_end_to_end:
  assumes "ring_step\<^sup>*\<^sup>* ring_new s" "in_range s" "k < length (delivered s)"
    "posted s ! k = inline_words base r" "sendable_inline r"
  shows "fetch_inline (delivered s ! k) = r"
  by (rule inl.delivered_request[OF assms])

theorem inline_end_to_end_witness:
  "\<exists>s. ring_step\<^sup>*\<^sup>* ring_new s \<and> in_range s \<and> sendable_inline demo_inline \<and> posted s ! 0 = inline_words 0x1000 demo_inline \<and>
     fetch_inline (delivered s ! 0) = demo_inline"
proof -
  obtain s where s: "ring_step\<^sup>*\<^sup>* ring_new s" "in_range s" "posted s = [inline_words 0x1000 demo_inline]"
    "delivered s = [stamp 0 (inline_words 0x1000 demo_inline)]"
    using run_once[OF inline_codec(1)[OF demo_sendable(2)]] by blast
  then show ?thesis using inline_end_to_end[OF s(1,2), of 0 "0x1000" demo_inline] demo_sendable(2) by auto
qed

text \<open>
  C30: An atomic operation that a GPU thread posts is the request that the host reads: the operation, both
  operands, the counter of the fetch buffer, the size, the PE and the queue pair. The compare operand
  is only sent on for a compare-and-swap.
\<close>

theorem amo_end_to_end:
  assumes "ring_step\<^sup>*\<^sup>* ring_new s" "in_range s" "k < length (delivered s)"
    "posted s ! k = amo_words base r" "sendable_amo r"
  shows "fetch_amo (delivered s ! k) = r"
  by (rule atomics.delivered_request[OF assms])

theorem amo_end_to_end_witness:
  "\<exists>s. ring_step\<^sup>*\<^sup>* ring_new s \<and> in_range s \<and> sendable_amo demo_amo \<and> posted s ! 0 = amo_words 0x1000 demo_amo \<and>
     fetch_amo (delivered s ! 0) = demo_amo"
proof -
  obtain s where s: "ring_step\<^sup>*\<^sup>* ring_new s" "in_range s" "posted s = [amo_words 0x1000 demo_amo]"
    "delivered s = [stamp 0 (amo_words 0x1000 demo_amo)]"
    using run_once[OF amo_codec(1)[OF demo_sendable(3)]] by blast
  then show ?thesis using amo_end_to_end[OF s(1,2), of 0 "0x1000" demo_amo] demo_sendable(3) by auto
qed

text \<open>
  C29: A put-with-signal that a GPU thread posts is the request that the host reads: both remote offsets,
  the local address, the size, the signal value and operation, the PE and the queue pair.
\<close>

theorem put_signal_end_to_end:
  assumes "ring_step\<^sup>*\<^sup>* ring_new s" "in_range s" "k < length (delivered s)"
    "posted s ! k = put_signal_words base r" "sendable_put_signal r"
  shows "fetch_put_signal (delivered s ! k) = r"
  by (rule put_sig.delivered_request[OF assms])

theorem put_signal_end_to_end_witness:
  "\<exists>s. ring_step\<^sup>*\<^sup>* ring_new s \<and> in_range s \<and> sendable_put_signal demo_put_signal \<and> posted s ! 0 = put_signal_words 0x1000 demo_put_signal \<and>
     fetch_put_signal (delivered s ! 0) = demo_put_signal"
proof -
  obtain s where s: "ring_step\<^sup>*\<^sup>* ring_new s" "in_range s" "posted s = [put_signal_words 0x1000 demo_put_signal]"
    "delivered s = [stamp 0 (put_signal_words 0x1000 demo_put_signal)]"
    using run_once[OF put_signal_codec(1)[OF demo_sendable(4)]] by blast
  then show ?thesis using put_signal_end_to_end[OF s(1,2), of 0 "0x1000" demo_put_signal] demo_sendable(4) by auto
qed

text \<open>
  C31: A quiet on named queue pairs reaches the host as posted: one entry per queue pair, each read as the
  PE and that queue pair, in the order of the caller's array.
\<close>

theorem qp_quiet_end_to_end:
  assumes "ring_step\<^sup>*\<^sup>* ring_new s" "in_range s" "k < length (delivered s)"
    "posted s ! k = qp_quiet_words (pe, qps)" "sendable_qps (pe, qps)"
  shows "fetch_qps (delivered s ! k) = map (\<lambda>qp. (pe, qp)) qps"
  using qp_quiet.delivered_request[OF assms] by simp

theorem qp_quiet_end_to_end_witness:
  "\<exists>s. ring_step\<^sup>*\<^sup>* ring_new s \<and> in_range s \<and> posted s ! 0 = qp_quiet_words (3, [8, 9]) \<and>
     fetch_qps (delivered s ! 0) = [(3, 8), (3, 9)]"
proof -
  have q: "sendable_qps (3, [8, 9])" by (simp add: sendable_qps_def)
  obtain s where s: "ring_step\<^sup>*\<^sup>* ring_new s" "in_range s" "posted s = [qp_quiet_words (3, [8, 9])]"
    "delivered s = [stamp 0 (qp_quiet_words (3, [8, 9]))]"
    using run_once[OF qp_quiet_codec(1)[OF q]] by blast
  then show ?thesis using qp_quiet_end_to_end[OF s(1,2), of 0 3 "[8, 9]"] q by auto
qed

text \<open>
  C37: A fence on named queue pairs does not reach the host as posted. \<open>proxy_fence_qp\<close> places the
  operation code where the host expects the PE, so for every PE below 256 the host reads PE 106, the
  operation code itself, whatever PE the caller named.
\<close>

theorem qp_fence_wrong_pe:
  assumes "ring_step\<^sup>*\<^sup>* ring_new s" "in_range s" "k < length (delivered s)"
    "posted s ! k = qp_fence_words (pe, qps)" "sendable_qps (pe, qps)" "pe < 2 ^ 8"
  shows "fetch_qps (delivered s ! k) = map (\<lambda>qp. (ucast NVSHMEMI_OP_FENCE_QP, qp)) qps"
  using qp_fence.delivered_request[OF assms(1-4)] assms(5,6) by (simp add: op_defs)

theorem qp_fence_wrong_pe_witness:
  "\<exists>s. ring_step\<^sup>*\<^sup>* ring_new s \<and> in_range s \<and> posted s ! 0 = qp_fence_words (3, [8, 9]) \<and>
     fetch_qps (delivered s ! 0) = [(106, 8), (106, 9)]"
proof -
  have q: "sendable_qps (3, [8, 9])" "fst (3 :: u16, [8, 9 :: u32]) < 2 ^ 8" by (simp_all add: sendable_qps_def)
  obtain s where s: "ring_step\<^sup>*\<^sup>* ring_new s" "in_range s" "posted s = [qp_fence_words (3, [8, 9])]"
    "delivered s = [stamp 0 (qp_fence_words (3, [8, 9]))]"
    using run_once[OF qp_fence_codec(1)[OF q]] by blast
  then show ?thesis using qp_fence_wrong_pe[OF s(1,2), of 0 3 "[8, 9]"] q by (auto simp: op_defs)
qed

end
