(* ===== verification/Sync_Properties.thy ===== *)
theory Sync_Properties
  imports Sync_Invariant Multisend Ring_Properties
begin

text \<open>
  Quiet from the GPU thread's call to the transports, and the progress engine as an implementation of the
  ring. A small system that posts and handles one request provides the concrete runs.
\<close>

section \<open>A concrete system\<close>

definition demo_params :: proxy_params where
  "demo_params = \<lparr>penv = demo_proxy_env False, transport_at = (\<lambda>pe. if pe < 4 then Some 0 else None), has_fence = (\<lambda>_. True),
     has_quiet = (\<lambda>_. True), has_enforce_cst = (\<lambda>_. True), has_progress = (\<lambda>_. True), transport_bit = (\<lambda>i. i = 0),
     proxy_transport_bit = (\<lambda>i. i = 0), transport_connected = (\<lambda>_. True), transport_is_ibgda = (\<lambda>_. False), call_ok = (\<lambda>_. True),
     g_buf = 0x1000, g_buf_size = 64, g_buf_log_size = 6, atomics_complete_on_quiet = False, BYPASS_FLUSH = False,
     is_consistency_api_supported = False, gdr_device_native_ordering = 0, has_cuFlush = False, timeout_polling = False,
     PROXY_REQUEST_BATCH_MAX = 32\<rparr>"

text \<open>A fence is posted and taken; then a thread asks for quiet.\<close>

definition demo_asked :: "proxy_sys option" where
  "demo_asked =
     (let s0 = set_ring (reserve proxy_fence (ring sys_new)) sys_new
      in case admit 0 (ring s0) of None \<Rightarrow> None | Some r \<Rightarrow>
      (let s1 = set_ring r s0
       in case store_entry 0 (ring s1) of None \<Rightarrow> None | Some r \<Rightarrow>
       (let s2 = set_ring r s1
        in if base_ready (hchan (host s2))
           then case process_request demo_params (host s2) of
                  Some (Inr h) \<Rightarrow> Some (proxy_quiet_ask 0 (proxy_quiet_read (taken (host s2) h s2)))
                | _ \<Rightarrow> None
           else None)))"

lemma demo_asked_steps:
  assumes "demo_asked = Some s"
  shows "(sys_step demo_params)\<^sup>*\<^sup>* sys_new s"
proof -
  let ?R = "sys_step demo_params"
  define s0 where "s0 = set_ring (reserve proxy_fence (ring sys_new)) sys_new"
  obtain r1 where r1: "admit 0 (ring s0) = Some r1"
    using assms by (auto simp: demo_asked_def s0_def Let_def split: option.splits)
  define s1 where "s1 = set_ring r1 s0"
  obtain r2 where r2: "store_entry 0 (ring s1) = Some r2"
    using assms r1 by (auto simp: demo_asked_def s0_def s1_def Let_def split: option.splits)
  define s2 where "s2 = set_ring r2 s1"
  obtain h where h: "base_ready (hchan (host s2))" "process_request demo_params (host s2) = Some (Inr h)"
    and s: "s = proxy_quiet_ask 0 (proxy_quiet_read (taken (host s2) h s2))"
    using assms r1 r2 by (auto simp: demo_asked_def s0_def s1_def s2_def Let_def split: option.splits if_splits sum.splits)
  have "?R sys_new s0" unfolding s0_def by (rule sys_reserve[OF fence_valid])
  moreover have "?R s0 s1" unfolding s1_def by (rule sys_admit[OF r1])
  moreover have "?R s1 s2" unfolding s2_def by (rule sys_store[OF r2])
  moreover have "?R s2 (taken (host s2) h s2)" by (rule sys_take[OF h])
  moreover have "?R (taken (host s2) h s2) (proxy_quiet_read (taken (host s2) h s2))" by (rule sys_quiet_read)
  moreover have "?R (proxy_quiet_read (taken (host s2) h s2)) s" unfolding s
    by (rule sys_quiet_ask) (simp add: proxy_quiet_read_def)
  ultimately show ?thesis by (metis (no_types) rtranclp.rtrancl_into_rtrancl rtranclp.rtrancl_refl)
qed

lemma demo_asked_runs:
  "case demo_asked of None \<Rightarrow> False | Some s \<Rightarrow>
     length (posted (ring s)) = 1 \<and> length (quiets s) = 1 \<and> q_posted (quiets s ! 0) = 1 \<and> q_asked (quiets s ! 0) \<and>
     q_val (quiets s ! 0) = 8 \<and> processed (hchan (host s)) = 8 \<and> quiet_issue (hchan (host s)) = 8 \<and> quiet_in_progress (host s) = QUIET_INACTIVE \<and>
     length (concat (posted (ring s))) = 1 \<and> length (delivered (ring s)) = 1"
  by code_simp

lemma demo_asked_obtain:
  obtains s where "demo_asked = Some s" "(sys_step demo_params)\<^sup>*\<^sup>* sys_new s" "in_range (ring s)" "length (quiets s) = 1"
    "q_posted (quiets s ! 0) = 1" "q_asked (quiets s ! 0)" "q_val (quiets s ! 0) = 8" "processed (hchan (host s)) = 8"
    "length (delivered (ring s)) = 1" "quiet_issue (hchan (host s)) = 8" "quiet_in_progress (host s) = QUIET_INACTIVE"
proof -
  obtain s where s: "demo_asked = Some s" using demo_asked_runs by (cases demo_asked) simp_all
  note r = demo_asked_runs[unfolded s option.case]
  have "length (log_of (ring s)) = 1" using r by blast
  then have "in_range (ring s)" unfolding in_range_def by simp
  then show ?thesis using that[OF s demo_asked_steps[OF s]] r by blast
qed

section \<open>Rounds of the host's quiet\<close>

definition healthy :: "proxy_params \<Rightarrow> bool" where
  "healthy p \<longleftrightarrow> (\<forall>c. call_ok p c) \<and> (\<forall>pe t. transport_at p pe = Some t \<longrightarrow> has_quiet p t)"

lemma issue_steps_ok: "(\<forall>c. call_ok p c) \<Longrightarrow> None \<notin> set cs \<Longrightarrow> \<exists>h'. issue_steps p cs h = Inr h'"
  by (induction p cs h rule: issue_steps.induct) auto

lemma quiet_done_ok:
  assumes "healthy p"
  shows "\<exists>h'. progress_quiet_done p h = Inr h'"
proof -
  have "None \<notin> set (quiet_all_steps p [0..<npes (penv p)])"
    using assms by (auto simp: healthy_def quiet_all_steps_def split: option.splits)
  then obtain h1 where "issue_steps p (quiet_all_steps p [0..<npes (penv p)]) h = Inr h1"
    using issue_steps_ok[of p _ h] assms unfolding healthy_def by blast
  moreover have "\<exists>h2. enforce_cst p h1 = Inr h2"
    unfolding enforce_cst_def by (rule issue_steps_ok) (use assms in \<open>auto simp: healthy_def\<close>)
  ultimately show ?thesis by (auto simp: progress_quiet_done_def)
qed

lemma progress_quiet_ok:
  assumes "healthy p" "quiet_in_progress h \<noteq> QUIET_DONE"
  shows "\<exists>h'. progress_quiet p h = Inr h'"
  using quiet_done_ok[OF assms(1)] unfolding progress_quiet_eq[OF assms(2)] Let_def by simp

lemma progress_quiet_round:
  assumes "healthy p" "quiet_ok h" "quiet_issue (hchan h) \<le> processed (hchan h)"
  obtains h' where "progress_quiet p h = Inr h'" "quiet_ok h'" "quiet_in_progress h' = QUIET_INACTIVE"
    "quiet_in_progress h = QUIET_INACTIVE \<Longrightarrow> quiet_ack (hchan h') = quiet_issue (hchan h)"
    "quiet_issue (hchan h') = quiet_issue (hchan h)" "processed (hchan h') = processed (hchan h)"
proof -
  let ?v = "if quiet_in_progress h = QUIET_INACTIVE then quiet_issue (hchan h) else last_quiet_issue (hchan h)"
  have nd: "quiet_in_progress h \<noteq> QUIET_DONE" using assms(2) by (simp add: quiet_ok_def)
  obtain h' where h': "progress_quiet p h = Inr h'" using progress_quiet_ok[OF assms(1) nd] by blast
  have v: "\<not> processed (hchan h) < ?v" using assms(2,3) by (auto simp: quiet_ok_def)
  show ?thesis
  proof (cases "quiet_in_progress h = QUIET_INACTIVE \<and> \<not> last_quiet_issue (hchan h) < quiet_issue (hchan h)")
    case True
    then have "h' = h" using h' unfolding progress_quiet_eq[OF nd] by simp
    then show ?thesis using that[OF h'] assms(2) True by (auto simp: quiet_ok_def)
  next
    case False
    then have "progress_quiet_done p (h\<lparr>hchan := (hchan h)\<lparr>last_quiet_issue := ?v\<rparr>, quiet_in_progress := QUIET_DONE\<rparr>) = Inr h'"
      using h' v unfolding progress_quiet_eq[OF nd] Let_def by auto
    from quiet_done_eq[OF this] show ?thesis using that[OF h'] assms(2,3) v
      by (auto simp: quiet_ok_def quiet_ack_channels_def not_less)
  qed
qed

lemma demo_healthy: "healthy demo_params"
  by (simp add: healthy_def demo_params_def)

lemma sys_quiet_ok: "(sys_step p)\<^sup>*\<^sup>* sys_new s \<Longrightarrow> in_range (ring s) \<Longrightarrow> quiet_ok (host s)"
  using sys_reachable_inv by (auto simp: sys_inv_def sync_inv_def)

section \<open>Properties\<close>

text \<open>
  C14: Quiet means what it says. When \<open>proxy_quiet\<close> returns to a GPU thread, in any interleaving of threads and
  host, every request posted before the thread entered it has been handed to a transport, and after each of
  them the host has issued a quiet on every connection; after a get, the quiets were followed by the
  consistency operation that makes the fetched data visible to the GPU.
\<close>

theorem quiet_complete:
  assumes "(sys_step p)\<^sup>*\<^sup>* sys_new s" "in_range (ring s)" "q \<in> set (quiets s)" "proxy_quiet_returns s q"
  shows "q_posted q \<le> length (delivered (ring s)) \<and>
    (\<forall>k < q_posted q. covered p s [] k \<and> (is_get (posted (ring s) ! k) \<longrightarrow> covered p s (cst_calls p) k))"
proof -
  have inv: "sys_inv p s" by (rule sys_reachable_inv[OF assms(1,2)])
  then obtain P C L where i: "ring_inv P C L (ring s)" by (auto simp: sys_inv_def)
  have sy: "chan (ring s) = hchan (host s)" "quiet_ok (host s)" "log_ok p s" "waiter_ok s q"
    using inv assms(3) by (auto simp: sys_inv_def sync_inv_def)
  let ?len = "\<lambda>k. length (concat (take k (posted (ring s))))" and ?n = "length (delivered (ring s))"
  have bound: "8 * ?len k < 2 ^ 64" for k
    using concat_take_mono[of k "max k (length (posted (ring s)))" "posted (ring s)"] assms(2) by (simp add: in_range_def)
  have ack: "idx (?len (q_posted q)) \<le> quiet_ack (hchan (host s))" "q_posted q \<le> length (posted (ring s))"
    using assms(4) sy(1,4) by (simp_all add: proxy_quiet_returns_def waiter_ok_def)
  have P: "P = ?len ?n" "processed (hchan (host s)) = idx P" "\<forall>r \<in> set (posted (ring s)). valid_request r"
    using ring_invD(1,2)[OF i] by (simp_all add: counters_ok_def history_ok_def sy(1))
  have "idx (?len (q_posted q)) \<le> idx (?len ?n)"
    using ack(1) sy(2) P by (auto simp: quiet_ok_def)
  then have le: "?len (q_posted q) \<le> ?len ?n" using bound idx_le by blast
  have n: "q_posted q \<le> ?n"
  proof (rule ccontr)
    assume "\<not> q_posted q \<le> ?n"
    then have k: "?n < length (posted (ring s))" "Suc ?n \<le> q_posted q" using ack(2) by simp_all
    then have "valid_request (posted (ring s) ! ?n)" using P(3) by simp
    then have "?len ?n < ?len (Suc ?n)" using k(1) valid_length by (simp add: take_Suc_conv_app_nth)
    then show False using le concat_take_mono[OF k(2), of "posted (ring s)"] by simp
  qed
  have "end_of s k \<le> quiet_ack (hchan (host s))" if "k < q_posted q" for k
  proof -
    have "idx (?len (Suc k)) \<le> idx (?len (q_posted q))"
      using concat_take_mono[of "Suc k" "q_posted q" "posted (ring s)"] that idx_le[OF bound bound] by simp
    then show ?thesis using ack(1) unfolding end_of_def by (rule order_trans)
  qed
  then show ?thesis using sy(3) n unfolding log_ok_def by (meson order_less_le_trans)
qed

theorem quiet_complete_witness:
  "\<exists>s. (sys_step demo_params)\<^sup>*\<^sup>* sys_new s \<and> q_posted (quiets s ! 0) = 1 \<and> proxy_quiet_returns s (quiets s ! 0) \<and>
     covered demo_params s [] 0"
proof -
  obtain s where s: "(sys_step demo_params)\<^sup>*\<^sup>* sys_new s" "in_range (ring s)" "length (quiets s) = 1" "q_posted (quiets s ! 0) = 1"
    "q_asked (quiets s ! 0)" "q_val (quiets s ! 0) = 8" "processed (hchan (host s)) = 8"
    "quiet_issue (hchan (host s)) = 8" "quiet_in_progress (host s) = QUIET_INACTIVE"
    using demo_asked_obtain by metis
  obtain h where h: "progress_quiet demo_params (host s) = Inr h" "quiet_ack (hchan h) = 8"
    using progress_quiet_round[OF demo_healthy sys_quiet_ok[OF s(1,2)]] s(7-9) by (metis order_refl)
  let ?s = "set_host h s"
  have r: "(sys_step demo_params)\<^sup>*\<^sup>* sys_new ?s" using s(1) sys_progress_quiet[OF h(1)] by (rule rtranclp.rtrancl_into_rtrancl)
  have q: "quiets ?s ! 0 \<in> set (quiets ?s)" "proxy_quiet_returns ?s (quiets ?s ! 0)" "q_posted (quiets ?s ! 0) = 1"
    "in_range (ring ?s)"
    using s h(2) by (simp_all add: set_host_def proxy_quiet_returns_def in_range_def)
  show ?thesis using quiet_complete[OF r q(4,1,2)] r q by (intro exI[of _ ?s]) simp
qed

text \<open>
  C15: Quiet is answered. Once the requests that the pending quiets wait for are processed, two rounds of the
  host's \<open>progress_quiet\<close> release every waiting thread, whatever quiet was under way before, provided that
  the transports carry out the calls; a request that arrives meanwhile cannot delay them.
\<close>

theorem quiet_answered:
  assumes "(sys_step p)\<^sup>*\<^sup>* sys_new s" "in_range (ring s)" "healthy p"
    "quiet_issue (hchan (host s)) \<le> processed (hchan (host s))"
  shows "\<exists>h1 h2. progress_quiet p (host s) = Inr h1 \<and> progress_quiet p h1 = Inr h2 \<and>
    quiet_in_progress h2 = QUIET_INACTIVE \<and>
    (\<forall>q \<in> set (quiets s). q_asked q \<longrightarrow> proxy_quiet_returns (set_host h2 s) q)"
proof -
  obtain h1 where h1: "progress_quiet p (host s) = Inr h1" "quiet_ok h1" "quiet_in_progress h1 = QUIET_INACTIVE"
    "quiet_issue (hchan h1) = quiet_issue (hchan (host s))" "processed (hchan h1) = processed (hchan (host s))"
    using progress_quiet_round[OF assms(3) sys_quiet_ok[OF assms(1,2)] assms(4)] by metis
  obtain h2 where h2: "progress_quiet p h1 = Inr h2" "quiet_in_progress h2 = QUIET_INACTIVE"
    "quiet_ack (hchan h2) = quiet_issue (hchan (host s))"
    using progress_quiet_round[OF assms(3) h1(2)] assms(4) h1(3-5) by metis
  have "q_val q \<le> quiet_issue (hchan (host s))" if "q \<in> set (quiets s)" "q_asked q" for q
    using sys_reachable_inv[OF assms(1,2)] that unfolding sys_inv_def sync_inv_def waiter_ok_def by blast
  then show ?thesis using h1(1) h2 by (auto simp: proxy_quiet_returns_def set_host_def)
qed

theorem quiet_answered_witness:
  "\<exists>s h1 h2. (sys_step demo_params)\<^sup>*\<^sup>* sys_new s \<and> length (quiets s) = 1 \<and> progress_quiet demo_params (host s) = Inr h1 \<and>
     progress_quiet demo_params h1 = Inr h2 \<and> proxy_quiet_returns (set_host h2 s) (quiets s ! 0)"
proof -
  obtain s where s: "(sys_step demo_params)\<^sup>*\<^sup>* sys_new s" "in_range (ring s)" "length (quiets s) = 1"
    "q_asked (quiets s ! 0)" "processed (hchan (host s)) = 8" "quiet_issue (hchan (host s)) = 8"
    using demo_asked_obtain by metis
  then have "quiets s ! 0 \<in> set (quiets s)" by simp
  then show ?thesis using quiet_answered[OF s(1,2) demo_healthy] s by (metis order_refl)
qed

section \<open>The ring inside the system\<close>

lemma same_ring_refl: "same_ring ch ch" by (simp add: same_ring_def)

lemma reserve_sim: "same_ring (chan r) ch \<Longrightarrow> \<exists>ch'. reserve ws (r\<lparr>chan := ch\<rparr>) = (reserve ws r)\<lparr>chan := ch'\<rparr> \<and> same_ring (chan (reserve ws r)) ch'"
  by (cases r, intro exI[of _ "ch\<lparr>issue := issue ch + req_bytes ws\<rparr>"]) (simp add: reserve_def Let_def same_ring_def)

lemma admit_sim:
  assumes "same_ring (chan r) ch" "admit i r = Some r'"
  shows "\<exists>ch'. admit i (r\<lparr>chan := ch\<rparr>) = Some (r'\<lparr>chan := ch'\<rparr>) \<and> same_ring (chan r') ch'"
  using assms by (cases r, intro exI[of _ ch]) (auto simp: admit_def Let_def same_ring_def split: if_splits option.splits)

lemma store_sim:
  assumes "same_ring (chan r) ch" "store_entry i r = Some r'"
  shows "\<exists>ch'. store_entry i (r\<lparr>chan := ch\<rparr>) = Some (r'\<lparr>chan := ch'\<rparr>) \<and> same_ring (chan r') ch'"
  using assms by (cases r, intro exI[of _ "ch\<lparr>buf := buf (chan r')\<rparr>"])
    (auto simp: store_entry_def Let_def same_ring_def split: if_splits list.splits)

lemma take_sim:
  assumes c: "same_ring (chan r) ch" and "host_take r = Some r'"
  shows "\<exists>ch'. host_take (r\<lparr>chan := ch\<rparr>) = Some (r'\<lparr>chan := ch'\<rparr>) \<and> same_ring (chan r') ch'"
proof -
  have e: "read_entry ch = read_entry (chan r)" "base_ready ch = base_ready (chan r)" "entry_ready ch = entry_ready (chan r)"
    "processed ch = processed (chan r)"
    using c by (auto simp: fun_eq_iff read_entry_def base_ready_def entry_ready_def same_ring_def)
  have "same_ring (proxy_update_processed (chan r) n f) (proxy_update_processed ch n f)" for n f
    using c by (auto simp: same_ring_def proxy_update_processed_def Let_def)
  then show ?thesis using assms(2) e by (cases r) (auto simp: host_take_def Let_def split: if_splits option.splits)
qed

definition ring_sim :: "ring_state \<Rightarrow> proxy_sys \<Rightarrow> bool" where
  "ring_sim r s \<longleftrightarrow> r = (ring s)\<lparr>chan := chan r\<rparr> \<and> same_ring (chan (ring s)) (chan r)"

lemma ring_simI: "same_ring (chan (ring s)) ch \<Longrightarrow> ring_sim ((ring s)\<lparr>chan := ch\<rparr>) s"
  by (simp add: ring_sim_def)

lemma ring_sim_quiet:
  assumes "ring_sim r s" "ring s' = (ring s)\<lparr>chan := ch\<rparr>" "same_ring (chan (ring s)) ch"
  shows "ring_sim r s'"
  using assms by (simp add: ring_sim_def same_ring_def)

lemma progress_quiet_same_ring:
  assumes "progress_quiet p h = Inr h'" "quiet_in_progress h \<noteq> QUIET_DONE"
  shows "same_ring (hchan h) (hchan h')"
  using assms(1) unfolding progress_quiet_eq[OF assms(2)] Let_def
  by (auto simp: same_ring_def quiet_ack_channels_def split: if_splits dest!: quiet_done_eq)

lemma progress_cst_same_ring: "progress_cst p h = Inr h' \<Longrightarrow> same_ring (hchan h) (hchan h')"
  by (auto simp: progress_cst_def cst_channels_check_def cst_ack_channels_def Let_def same_ring_def
      split: if_splits sum.splits dest!: enforce_cst_frame)

lemma taken_host_take:
  assumes inv: "sys_inv p s" and rng: "in_range (ring s)" and b: "base_ready (hchan (host s))"
    and run: "process_request p (host s) = Some (Inr h)"
  shows "host_take (ring s) = Some (ring (taken (host s) h s))"
proof -
  obtain P C L where i: "ring_inv P C L (ring s)" using inv by (auto simp: sys_inv_def)
  have c: "chan (ring s) = hchan (host s)" using inv by (auto simp: sys_inv_def sync_inv_def)
  obtain ws where "valid_request ws" "read_entry (chan (ring s)) (processed (chan (ring s))) = hd ws OR of_bool (lap_flag P)"
    using base_ready_request[OF i rng] b c by metis
  then have n: "request_entries (hentry (host s) 0) = Some (length ws)" by (simp add: hentry_def c valid_request_def)
  show ?thesis using process_request_refines[OF run b c n] n by (simp add: taken_def)
qed

lemma sys_step_sim:
  assumes step: "sys_step p s s'" and inv: "sys_inv p s" and rng: "in_range (ring s)" and sim: "ring_sim r s"
  shows "\<exists>r'. ring_step\<^sup>*\<^sup>* r r' \<and> ring_sim r' s'"
proof -
  have r: "r = (ring s)\<lparr>chan := chan r\<rparr>" and c: "same_ring (chan (ring s)) (chan r)" using sim by (auto simp: ring_sim_def)
  have h: "chan (ring s) = hchan (host s)" "quiet_in_progress (host s) \<noteq> QUIET_DONE"
    using inv by (auto simp: sys_inv_def sync_inv_def quiet_ok_def)
  have one: ?thesis if "ring_step r (ring s'\<lparr>chan := ch\<rparr>)" "same_ring (chan (ring s')) ch" for ch
    using that ring_simI by blast
  have none: ?thesis if "ring s' = (ring s)\<lparr>chan := ch\<rparr>" "same_ring (chan (ring s)) ch" for ch
    using ring_sim_quiet[OF sim that] by blast
  show ?thesis using step
  proof (cases rule: sys_step.cases)
    case (sys_reserve ws)
    then show ?thesis using one reserve_sim[OF c, of ws] ring_step.step_reserve[of ws r] r by (auto simp: set_ring_def)
  next
    case (sys_admit i r')
    then show ?thesis using one admit_sim[OF c] ring_step.step_admit[of i r] r by (fastforce simp: set_ring_def)
  next
    case (sys_store i r')
    then show ?thesis using one store_sim[OF c] ring_step.step_store[of i r] r by (fastforce simp: set_ring_def)
  next
    case sys_quiet_read
    then show ?thesis using none[OF _ same_ring_refl] by (simp add: proxy_quiet_read_def)
  next
    case (sys_quiet_ask i)
    then show ?thesis using none by (simp add: proxy_quiet_ask_def Let_def set_ring_def same_ring_def)
  next
    case (sys_progress_quiet h')
    then show ?thesis using none progress_quiet_same_ring[OF _ h(2)] h(1) by (simp add: set_host_def)
  next
    case (sys_progress_cst h')
    then show ?thesis using none progress_cst_same_ring h(1) by (simp add: set_host_def)
  next
    case (sys_take h')
    then have "host_take (ring s) = Some (ring s')" using taken_host_take[OF inv rng] by simp
    then show ?thesis using one take_sim[OF c] ring_step.step_take[of r] r by fastforce
  next
    case (sys_transports h')
    then show ?thesis using none[OF _ same_ring_refl] h(1) issue_steps_frame[of p _ "host s" h']
      unfolding set_host_def progress_transports_def by fastforce
  qed
qed

text \<open>
  C16: The progress engine implements the ring. Every run of the system, with the requests really decoded and
  handed to transports, quiets and consistency operations interleaved, is a run of the ring model: the same
  requests posted and delivered, the same threads, and the same buffer and ring counters. So the ring's
  theorems on order, integrity and flow control hold of the whole proxy.
\<close>

theorem proxy_refines_ring:
  assumes "(sys_step p)\<^sup>*\<^sup>* sys_new s" "in_range (ring s)"
  shows "\<exists>r. ring_step\<^sup>*\<^sup>* ring_new r \<and> r = (ring s)\<lparr>chan := chan r\<rparr> \<and> same_ring (chan (ring s)) (chan r)"
proof -
  have "\<exists>r. ring_step\<^sup>*\<^sup>* ring_new r \<and> ring_sim r s" using assms
  proof (induction rule: rtranclp_induct)
    case base
    then show ?case by (intro exI[of _ ring_new]) (simp add: ring_sim_def sys_new_def same_ring_refl)
  next
    case (step s s')
    have rng: "in_range (ring s)" by (rule sys_range[OF step.hyps(2) step.prems])
    obtain r where r: "ring_step\<^sup>*\<^sup>* ring_new r" "ring_sim r s" using step.IH[OF rng] by blast
    show ?case using sys_step_sim[OF step.hyps(2) sys_reachable_inv[OF step.hyps(1) rng] rng r(2)] r(1) rtranclp_trans by metis
  qed
  then show ?thesis by (simp add: ring_sim_def)
qed

theorem proxy_refines_ring_witness:
  "\<exists>s r. (sys_step demo_params)\<^sup>*\<^sup>* sys_new s \<and> length (delivered (ring s)) = 1 \<and> ring_step\<^sup>*\<^sup>* ring_new r \<and> delivered r = delivered (ring s)"
proof -
  obtain s where s: "(sys_step demo_params)\<^sup>*\<^sup>* sys_new s" "in_range (ring s)" "length (delivered (ring s)) = 1"
    using demo_asked_obtain by metis
  then obtain r where "ring_step\<^sup>*\<^sup>* ring_new r" "r = (ring s)\<lparr>chan := chan r\<rparr>" using proxy_refines_ring[OF s(1,2)] by blast
  then show ?thesis using s(1,3) by (metis ring_state.simps(5) ring_state.ext_inject ring_state.surjective ring_state.update_convs(1))
qed

end
