(* ===== verification/Proxy_Effects.thy ===== *)
theory Proxy_Effects
  imports Sync_Properties
begin

text \<open>
  What the host does with single requests: the choice of a transport for each PE, the signal of a
  put-with-signal under rail optimisation, the consistency operation on behalf of the device, and the queue
  pair of a fetched element.
\<close>

section \<open>Connections\<close>

lemma first_transport_spec:
  "first_transport b c is = Some i \<Longrightarrow> \<exists>xs ys. is = xs @ i # ys \<and> b i \<and> c i \<and> (\<forall>k \<in> set xs. \<not> (b k \<and> c k))"
  "first_transport b c is = None \<Longrightarrow> \<forall>k \<in> set is. \<not> (b k \<and> c k)"
proof (induction "is")
  case (Cons a "is")
  { case 1
    then show ?case using Cons.IH(1) by (cases "b a \<and> c a") (auto 4 3 intro: exI[of _ "a # _"] exI[of _ "[]"] split: if_splits)
  next
    case 2
    then show ?case using Cons.IH(2) by (auto split: if_splits) }
qed simp_all

lemma bitmap_bits:
  "k < 32 \<Longrightarrow> bit (fold (\<lambda>t bm. case t of None \<Rightarrow> bm | Some i \<Rightarrow> bm OR push_bit i 1) ts bm :: u32) k \<longleftrightarrow> bit bm k \<or> Some k \<in> set ts"
  by (induction ts arbitrary: bm) (auto simp: bit_simps split: option.splits)

text \<open>
  C19: When it succeeds, \<open>nvshmemi_proxy_setup_connections\<close> picks, for every PE, the first initialised transport that can reach
  it from the CPU, or none if there is none; every transport it picks is a connected one; and the bitmap of
  transports to progress has exactly the bits of the transports picked.
\<close>

theorem setup_connections_correct:
  assumes "nvshmemi_proxy_setup_connections calloc_ok barrier n m bit_set cap connected = Inr (0, Some (ts, bm))" "m \<le> 32"
  shows "length ts = n \<and>
    (\<forall>j < n. case ts ! j of
       None \<Rightarrow> \<forall>i < m. \<not> (bit_set i \<and> cap i j)
     | Some i \<Rightarrow> i < m \<and> bit_set i \<and> cap i j \<and> connected i \<and> (\<forall>k < i. \<not> (bit_set k \<and> cap k j))) \<and>
    (\<forall>i < m. bit bm i \<longleftrightarrow> Some i \<in> set ts)"
proof -
  have ts: "ts = map (\<lambda>j. first_transport bit_set (\<lambda>i. cap i j) [0..<m]) [0..<n]"
    and bm: "bm = fold (\<lambda>t bm. case t of None \<Rightarrow> bm | Some i \<Rightarrow> bm OR push_bit i 1) ts 0"
    and ok: "\<forall>t \<in> set ts. \<not> (case t of None \<Rightarrow> False | Some i \<Rightarrow> \<not> connected i)"
    using assms(1) by (auto simp: nvshmemi_proxy_setup_connections_def Let_def list_ex_iff split: if_splits)
  have some: "i < m \<and> bit_set i \<and> cap i j \<and> connected i \<and> (\<forall>k < i. \<not> (bit_set k \<and> cap k j))"
    if j: "j < n" and t: "ts ! j = Some i" for i j
  proof -
    obtain xs ys where x: "[0..<m] = xs @ i # ys" "bit_set i" "cap i j" "\<forall>k \<in> set xs. \<not> (bit_set k \<and> cap k j)"
      using first_transport_spec(1)[of bit_set "\<lambda>i. cap i j" "[0..<m]" i] j t by (auto simp: ts)
    have l: "length xs < m" using arg_cong[OF x(1), of length] by simp
    have i: "length xs = i" using arg_cong[OF x(1), of "\<lambda>l. l ! length xs"] l by (simp add: nth_append)
    have xs: "xs = [0..<i]" using arg_cong[OF x(1), of "take (length xs)"] l i by simp
    have "j < length ts" using j by (simp add: ts)
    then have "Some i \<in> set ts" using t nth_mem by metis
    then have "connected i" using ok by auto
    moreover have "\<forall>k < i. \<not> (bit_set k \<and> cap k j)" using x(4) unfolding xs by simp
    ultimately show ?thesis using x(2,3) l i by simp
  qed
  have none: "\<forall>i < m. \<not> (bit_set i \<and> cap i j)" if j: "j < n" and t: "ts ! j = None" for j
    using first_transport_spec(2)[of bit_set "\<lambda>i. cap i j" "[0..<m]"] j t by (auto simp: ts)
  have "bit bm i \<longleftrightarrow> Some i \<in> set ts" if "i < m" for i
    using bitmap_bits[of i ts 0] that assms(2) by (simp add: bm)
  moreover have "length ts = n" by (simp add: ts)
  moreover have "case ts ! j of None \<Rightarrow> \<forall>i < m. \<not> (bit_set i \<and> cap i j)
     | Some i \<Rightarrow> i < m \<and> bit_set i \<and> cap i j \<and> connected i \<and> (\<forall>k < i. \<not> (bit_set k \<and> cap k j))" if "j < n" for j
    using some[OF that] none[OF that] by (cases "ts ! j") simp_all
  ultimately show ?thesis by blast
qed

theorem setup_connections_correct_witness:
  "nvshmemi_proxy_setup_connections (True, True) 0 3 3 (\<lambda>i. i \<noteq> 0) (\<lambda>i j. i = 0 \<or> i = 2 \<and> j = 1 \<or> i = 1 \<and> j = 2) (\<lambda>_. True) =
     Inr (0, Some ([None, Some 2, Some 1], 6)) \<and> bit (6 :: u32) 2"
proof -
  have r: "nvshmemi_proxy_setup_connections (True, True) 0 3 3 (\<lambda>i. i \<noteq> 0) (\<lambda>i j. i = 0 \<or> i = 2 \<and> j = 1 \<or> i = 1 \<and> j = 2) (\<lambda>_. True) =
     Inr (0, Some ([None, Some 2, Some 1], 6))" by code_simp
  show ?thesis using setup_connections_correct[OF r] r by simp
qed

section \<open>Put with signal\<close>

lemma translate_idem:
  assumes "enable_rail_opt env" "mype_node env < npes_node env"
  shows "snd (NVSHMEMU_UNMAPPED_PTR_PE_TRANSLATE env a (NVSHMEMU_PE_TRANSLATE env pe)) = NVSHMEMU_PE_TRANSLATE env pe"
    "fst (NVSHMEMU_UNMAPPED_PTR_PE_TRANSLATE env a (NVSHMEMU_PE_TRANSLATE env pe)) =
       remote_pe_base (heap env) (NVSHMEMU_PE_TRANSLATE env pe) + (a - heap_base (heap env))"
  using assms by (simp_all add: NVSHMEMU_UNMAPPED_PTR_PE_TRANSLATE_def NVSHMEMU_PE_TRANSLATE_def Let_def)

lemma rma_piece_pe: "rma_piece env t desc rptr lptr n qp pe = Inr (c, pe') \<Longrightarrow> pe' = snd (NVSHMEMU_UNMAPPED_PTR_PE_TRANSLATE env rptr pe)"
  by (auto simp: rma_piece_def Let_def split: prod.splits sum.splits)

lemma put_signal_pieces_pe:
  assumes "enable_rail_opt (penv p)" "mype_node (penv p) < npes_node (penv p)"
    and "put_signal_pieces p qp pe rptr lptr n = Some (Inr (cs, pe'))" "n \<noteq> 0 \<or> pe = NVSHMEMU_PE_TRANSLATE (penv p) pe0"
      "NVSHMEMU_PE_TRANSLATE (penv p) pe = NVSHMEMU_PE_TRANSLATE (penv p) pe0"
  shows "pe' = NVSHMEMU_PE_TRANSLATE (penv p) pe0"
  using assms(3-5)
proof (induction cs arbitrary: pe rptr lptr n)
  case Nil
  then show ?case using put_signal_pieces.simps[of p qp pe rptr lptr n]
    by (auto simp: Let_def map_sum_Inr split: if_splits sum.splits bind_splits)
next
  case (Cons c cs)
  let ?T = "NVSHMEMU_PE_TRANSLATE (penv p)"
  obtain pe1 where n: "n \<noteq> 0" and pe1: "rma_piece (penv p) (transport_id p (snd (NVSHMEMU_UNMAPPED_PTR_PE_TRANSLATE (penv p) rptr pe)))
      NVSHMEMI_OP_PUT rptr lptr n qp pe = Inr (c, pe1)"
    and rest: "put_signal_pieces p qp pe1 (rptr + rc_nelems c) (lptr + rc_nelems c) (n - rc_nelems c) = Some (Inr (cs, pe'))"
    using Cons.prems(1) put_signal_pieces.simps[of p qp pe rptr lptr n]
    by (auto simp: Let_def map_sum_Inr split: if_splits sum.splits bind_splits)
  have "pe1 = ?T pe0" using rma_piece_pe[OF pe1] assms(1) Cons.prems(3)
    by (simp add: NVSHMEMU_UNMAPPED_PTR_PE_TRANSLATE_def NVSHMEMU_PE_TRANSLATE_def Let_def)
  moreover have "?T (?T pe0) = ?T pe0" using assms(1,2) by (simp add: NVSHMEMU_PE_TRANSLATE_def)
  ultimately show ?case using Cons.IH[OF rest] by simp
qed


text \<open>
  C20: With rail optimisation the signal of a non-empty put-with-signal is sent to the wrong PE. Writing the
  data replaces the PE by the proxy PE of the rail, and the address of the signal is translated from there: the
  signal goes to the heap of the proxy PE itself, not to the address that the macro computes for the target.
\<close>

theorem put_signal_rail_wrong_target:
  assumes "enable_rail_opt (penv p)" "mype_node (penv p) < npes_node (penv p)"
    and "process_channel_put_signal p st = Some (Inr st')"
    and "r = read_put_signal (hentry st 0) (hentry st 1) (hentry st 2) (hentry st 3) (hentry st 4) (hentry st 5)" "ps_size r \<noteq> 0"
    and "of_int (int (unat (ps_pe r) mod npes_node (penv p)) - int (mype_node (penv p))) * heap_size (heap (penv p)) \<noteq> (0 :: u64)"
  shows "\<exists>t pieces sig. calls st' = calls st @ [Put_Signal t (NVSHMEMU_PE_TRANSLATE (penv p) (unat (ps_pe r))) pieces sig (ps_qp r)] \<and>
    ac_remote_ptr sig = remote_pe_base (heap (penv p)) (NVSHMEMU_PE_TRANSLATE (penv p) (unat (ps_pe r))) + ps_rsig_offset r \<and>
    ac_remote_ptr sig \<noteq> fst (NVSHMEMU_UNMAPPED_PTR_PE_TRANSLATE (penv p) (heap_base (heap (penv p)) + ps_rsig_offset r) (unat (ps_pe r)))"
proof -
  let ?env = "penv p" and ?pe = "unat (ps_pe r)"
  let ?T = "NVSHMEMU_PE_TRANSLATE ?env ?pe"
  obtain pieces pe where pieces: "put_signal_pieces p (ps_qp r) ?pe (heap_base (heap ?env) + ps_roffset r) (ps_laddr r) (ps_size r) = Some (Inr (pieces, pe))"
    using assms(3) unfolding assms(4) process_channel_put_signal_def Let_def by (auto split: if_splits option.splits sum.splits)
  have pe: "pe = ?T" by (rule put_signal_pieces_pe[OF assms(1,2) pieces]) (simp_all add: assms(5))
  let ?sig = "heap_base (heap ?env) + ps_rsig_offset r"
  have tr: "NVSHMEMU_UNMAPPED_PTR_PE_TRANSLATE ?env ?sig ?T = (fst (NVSHMEMU_UNMAPPED_PTR_PE_TRANSLATE ?env ?sig ?T), ?T)"
    using translate_idem(1)[OF assms(1,2)] by (simp add: prod_eq_iff)
  obtain t sig where c: "calls st' = calls st @ [Put_Signal t ?T pieces sig (ps_qp r)]"
    and sg: "ac_remote_ptr sig = fst (NVSHMEMU_UNMAPPED_PTR_PE_TRANSLATE ?env (heap_base (heap ?env) + ps_rsig_offset r) ?T)"
    using assms(3) pieces tr unfolding process_channel_put_signal_def Let_def assms(4)[symmetric] pe
    by (auto split: if_splits sum.splits prod.splits dest!: issue_steps_frame)
  have "ac_remote_ptr sig = remote_pe_base (heap ?env) ?T + ps_rsig_offset r" using sg translate_idem(2)[OF assms(1,2)] by simp
  moreover have "fst (NVSHMEMU_UNMAPPED_PTR_PE_TRANSLATE ?env (heap_base (heap ?env) + ps_rsig_offset r) ?pe) =
      remote_pe_base (heap ?env) ?T + of_int (int (?pe mod npes_node ?env) - int (mype_node ?env)) * heap_size (heap ?env) + ps_rsig_offset r"
    using assms(1) by (simp add: NVSHMEMU_UNMAPPED_PTR_PE_TRANSLATE_def NVSHMEMU_PE_TRANSLATE_def Let_def)
  ultimately show ?thesis using c assms(6) by auto
qed

definition demo_rail_params :: proxy_params where
  "demo_rail_params = demo_params\<lparr>penv := demo_proxy_env True\<rparr>"

definition demo_signal :: put_signal_fields where
  "demo_signal = \<lparr>ps_roffset = 0x10, ps_laddr = 0x1000, ps_size = 8, ps_pe = 3, ps_qp = 1, ps_sig_op = 9,
     ps_rsig_offset = 0x20, ps_sig_val = 5\<rparr>"

text \<open>A host whose channel holds the entries of \<open>demo_signal\<close>.\<close>

definition demo_signal_host :: host_state where
  "demo_signal_host = (proxy_init_state 0 0)\<lparr>hchan := proxy_channel_new\<lparr>buf := (\<lambda>w. (stamp 0 (put_signal_words 0x1000 demo_signal)) ! (unat w div 8))\<rparr>\<rparr>"

lemma demo_signal_runs:
  "case process_channel_put_signal demo_rail_params demo_signal_host of Some (Inr st') \<Rightarrow> length (calls st') = 1 | _ \<Rightarrow> False"
  "read_put_signal (hentry demo_signal_host 0) (hentry demo_signal_host 1) (hentry demo_signal_host 2) (hentry demo_signal_host 3)
     (hentry demo_signal_host 4) (hentry demo_signal_host 5) = demo_signal"
  by code_simp+

theorem put_signal_rail_wrong_target_witness:
  "\<exists>st' t pieces sig. process_channel_put_signal demo_rail_params demo_signal_host = Some (Inr st') \<and>
     calls st' = [Put_Signal t 2 pieces sig 1] \<and> ac_remote_ptr sig = 0x20020 \<and>
     fst (NVSHMEMU_UNMAPPED_PTR_PE_TRANSLATE (penv demo_rail_params) 0x1020 3) = 0x20060"
proof -
  obtain st' where st': "process_channel_put_signal demo_rail_params demo_signal_host = Some (Inr st')"
    using demo_signal_runs(1) by (auto split: option.splits sum.splits)
  have e: "penv demo_rail_params = demo_proxy_env True" "calls demo_signal_host = []"
    by (simp_all add: demo_rail_params_def demo_signal_host_def proxy_init_state_def)
  have n: "unat (ps_pe demo_signal) = 3" "ps_size demo_signal \<noteq> 0" "ps_qp demo_signal = 1" "ps_rsig_offset demo_signal = 0x20"
    by (simp_all add: demo_signal_def)
  show ?thesis
    using put_signal_rail_wrong_target[OF _ _ st' demo_signal_runs(2)[symmetric]] st'
    by (auto simp: e n demo_proxy_env_def demo_heap_obj_def NVSHMEMU_UNMAPPED_PTR_PE_TRANSLATE_def NVSHMEMU_PE_TRANSLATE_def)
qed

section \<open>Consistency at the target\<close>

text \<open>
  \<open>nvshmemi_proxy_enforce_consistency_at_target\<close>: the device's request, and the test that ends its wait.
\<close>

definition enforce_consistency_ask :: "proxy_channel \<Rightarrow> u64 \<Rightarrow> proxy_channel" where
  "enforce_consistency_ask ch v = ch\<lparr>cst_issue := max (cst_issue ch) v\<rparr>"

definition enforce_consistency_returns :: "proxy_channel \<Rightarrow> u64 \<Rightarrow> bool" where
  "enforce_consistency_returns ch v \<longleftrightarrow> cst_ack ch \<ge> v"

lemma consistency_enforced:
  assumes "cst_in_progress h = CST_INACTIVE" "last_cst_issue (hchan h) < issue (hchan h)"
    and "progress_cst p (h\<lparr>hchan := enforce_consistency_ask (hchan h) (issue (hchan h))\<rparr>) = Inr h'"
  shows "calls h' = calls h @ cst_calls p" "enforce_consistency_returns (hchan h') (issue (hchan h))"
  using assms by (auto simp: progress_cst_def enforce_consistency_ask_def enforce_consistency_returns_def cst_channels_check_def
      cst_ack_channels_def Let_def less_max_iff_disj split: if_splits sum.splits dest!: enforce_cst_frame)

text \<open>
  The counter that the device offers is the number of requests it issued itself. A PE that issued none since
  the last time, such as one that only receives, gets no consistency operation: its call returns at once, and
  the host sees nothing to do.
\<close>

lemma consistency_skipped:
  assumes "cst_in_progress h = CST_INACTIVE" "cst_issue (hchan h) = issue (hchan h)" "last_cst_issue (hchan h) = issue (hchan h)"
    "cst_ack (hchan h) = issue (hchan h)"
  shows "enforce_consistency_ask (hchan h) (issue (hchan h)) = hchan h"
    "enforce_consistency_returns (hchan h) (issue (hchan h))" "progress_cst p h = Inr h"
  using assms by (simp_all add: progress_cst_def enforce_consistency_ask_def enforce_consistency_returns_def cst_channels_check_def)

section \<open>The queue pair of a fetched element\<close>

text \<open>
  \<open>nvshmemi_proxy_rma_g\<close>: the two requests it posts, for a coalesced warp and for a single thread; \<open>elem\<close> is
  the destination of the value.
\<close>

definition nvshmemi_proxy_rma_g :: "bool \<Rightarrow> u64 \<Rightarrow> u64 \<Rightarrow> u64 \<Rightarrow> u64 \<Rightarrow> u32 \<Rightarrow> u32 \<Rightarrow> u64 list list" where
  "nvshmemi_proxy_rma_g coalesced base_ptr source elem sizeof_T pe qp_index =
     [if coalesced then transfer_dma base_ptr source elem (32 * sizeof_T) pe NVSHMEMI_OP_G qp_index
      else transfer_dma base_ptr source elem sizeof_T pe NVSHMEMI_OP_G NVSHMEMX_QP_DEFAULT,
      proxy_qp_quiet pe [qp_index]]"

lemma rma_g_queue_pairs:
  assumes "off < 2 ^ 40" "sz < 2 ^ 40"
  shows "dma_qp (fetch_dma (stamp i (nvshmemi_proxy_rma_g coalesced base (base + off) elem sz (ucast (pe :: u16)) qp ! 0))) =
      (if coalesced then qp else NVSHMEMX_QP_DEFAULT)"
    "fetch_qps (stamp j (nvshmemi_proxy_rma_g coalesced base (base + off) elem sz (ucast pe) qp ! 1)) = [(pe, qp)]"
proof -
  let ?r = "\<lparr>dma_desc = NVSHMEMI_OP_G, dma_roffset = off, dma_laddr = elem, dma_size = (if coalesced then 32 * sz else sz), dma_pe = pe,
    dma_qp = (if coalesced then qp else NVSHMEMX_QP_DEFAULT)\<rparr>"
  have "32 * sz < 2 ^ 48" "sz < 2 ^ 48" using assms(2) by (simp_all add: word_less_nat_alt unat_word_ariths)
  then have "sendable_dma ?r" using assms by (simp add: sendable_dma_def dma_op_def)
  from dma_codec(2)[OF this, of i base] show "dma_qp (fetch_dma (stamp i (nvshmemi_proxy_rma_g coalesced base (base + off) elem sz (ucast pe) qp ! 0))) =
      (if coalesced then qp else NVSHMEMX_QP_DEFAULT)"
    by (simp add: nvshmemi_proxy_rma_g_def dma_words_def split: if_splits)
  have "sendable_qps (pe, [qp])" by (simp add: sendable_qps_def)
  from qp_quiet_codec(2)[OF this, of j] show "fetch_qps (stamp j (nvshmemi_proxy_rma_g coalesced base (base + off) elem sz (ucast pe) qp ! 1)) = [(pe, qp)]"
    by (simp add: nvshmemi_proxy_rma_g_def qp_quiet_words_def)
qed

end
