(* ===== verification/Fetch_Buffer.thy ===== *)
theory Fetch_Buffer
  imports Sync_Properties
begin

text \<open>
  The buffer of fetched values. A GPU thread that fetches a word (\<open>nvshmemi_proxy_rma_g\<close>,
  \<open>nvshmemi_proxy_amo_fetch\<close>) takes the next number, which names an element of the buffer and a lap over it,
  waits until the element's flag has reached twice the lap, posts its request, and moves the flag on when it
  has read the value. The host computes the same element and the flag to store with the value
  (\<open>process_channel_amo\<close>). Elements are named by their byte offset; \<open>sizeof(g_elem_t)\<close> is 16.
\<close>

section \<open>Model\<close>

datatype g_op = Fetch_G | Fetch_AMO

text \<open>\<open>G_Early\<close>: the thread has moved the flag on although its answer is still to come.\<close>

datatype g_phase = G_Waiting | G_Holding | G_Answered | G_Finished | G_Early

record g_thread =
  g_op :: g_op
  g_counter :: u64
  g_phase :: g_phase

record g_sys =
  g_head :: u64
  g_flag :: "u64 \<Rightarrow> u64"
  g_threads :: "g_thread list"

definition g_new :: "(u64 \<Rightarrow> u64) \<Rightarrow> g_sys" where
  "g_new flags = \<lparr>g_head = 0, g_flag = flags, g_threads = []\<rparr>"

definition idx_in_buf :: "proxy_params \<Rightarrow> u64 \<Rightarrow> u64" where
  "idx_in_buf p counter = (counter * 16) AND (g_buf_size p - 1)"

definition elem_flag :: "proxy_params \<Rightarrow> u64 \<Rightarrow> u64" where
  "elem_flag p counter = drop_bit (g_buf_log_size p) (counter * 16) * 2"

definition g_start :: "g_op \<Rightarrow> g_sys \<Rightarrow> g_sys" where
  "g_start op s = s\<lparr>g_head := g_head s + 1,
     g_threads := g_threads s @ [\<lparr>g_op = op, g_counter = g_head s, g_phase = G_Waiting\<rparr>]\<rparr>"

text \<open>The wait until the element can be used; \<open>None\<close> is a spin.\<close>

definition g_acquire :: "proxy_params \<Rightarrow> nat \<Rightarrow> g_sys \<Rightarrow> g_sys option" where
  "g_acquire p i s =
     (let t = g_threads s ! i
      in if g_phase t = G_Waiting \<and> g_flag s (idx_in_buf p (g_counter t)) \<ge> elem_flag p (g_counter t)
         then Some (s\<lparr>g_threads := (g_threads s)[i := t\<lparr>g_phase := G_Holding\<rparr>]\<rparr>) else None)"

text \<open>
  The answer to an atomic: the thread's own increment after a quiet, or the flag that the transport stores at
  the place the host computed, whatever the thread has done meanwhile.
\<close>

definition g_answer :: "proxy_params \<Rightarrow> nat \<Rightarrow> g_sys \<Rightarrow> g_sys option" where
  "g_answer p i s =
     (let t = g_threads s ! i; c = g_counter t
      in if g_op t = Fetch_AMO \<and> (g_phase t = G_Holding \<or> g_phase t = G_Early)
         then Some (s\<lparr>g_flag := (if atomics_complete_on_quiet p
                                 then (g_flag s)(idx_in_buf p c := g_flag s (idx_in_buf p c) + 1)
                                 else (g_flag s)(amo_retptr p (c AND 0x00FFFFFFFFFFFFFF) - g_buf p := amo_retflag p (c AND 0x00FFFFFFFFFFFFFF))),
                      g_threads := (g_threads s)[i := t\<lparr>g_phase := if g_phase t = G_Holding then G_Answered else G_Finished\<rparr>]\<rparr>) else None)"

text \<open>
  Release: \<open>G\<close> moves the flag by 2 after its quiet. An atomic moves it by 1, after its own quiet and increment, or else when it
  sees a flag that is large enough: it cannot see who wrote it.
\<close>

definition g_release :: "proxy_params \<Rightarrow> nat \<Rightarrow> g_sys \<Rightarrow> g_sys option" where
  "g_release p i s =
     (let t = g_threads s ! i; e = idx_in_buf p (g_counter t)
      in case g_op t of
           Fetch_G \<Rightarrow>
             if g_phase t = G_Holding
             then Some (s\<lparr>g_flag := (g_flag s)(e := g_flag s e + 2), g_threads := (g_threads s)[i := t\<lparr>g_phase := G_Finished\<rparr>]\<rparr>)
             else None
         | Fetch_AMO \<Rightarrow>
             if atomics_complete_on_quiet p \<and> g_phase t = G_Answered \<or>
                \<not> atomics_complete_on_quiet p \<and> (g_phase t = G_Holding \<or> g_phase t = G_Answered) \<and> g_flag s e \<ge> elem_flag p (g_counter t) + 1
             then Some (s\<lparr>g_flag := (g_flag s)(e := g_flag s e + 1),
                          g_threads := (g_threads s)[i := t\<lparr>g_phase := if g_phase t = G_Answered then G_Finished else G_Early\<rparr>]\<rparr>)
             else None)"

inductive g_step :: "proxy_params \<Rightarrow> g_sys \<Rightarrow> g_sys \<Rightarrow> bool" for p :: proxy_params where
  g_step_start: "g_step p s (g_start op s)"
| g_step_acquire: "i < length (g_threads s) \<Longrightarrow> g_acquire p i s = Some s' \<Longrightarrow> g_step p s s'"
| g_step_answer: "i < length (g_threads s) \<Longrightarrow> g_answer p i s = Some s' \<Longrightarrow> g_step p s s'"
| g_step_release: "i < length (g_threads s) \<Longrightarrow> g_release p i s = Some s' \<Longrightarrow> g_step p s s'"

inductive_cases g_stepE: "g_step p s s'"

section \<open>Elements and laps\<close>

text \<open>The buffer holds a power of two of elements, and fewer than 2^56 numbers were given out.\<close>

definition g_buf_ok :: "proxy_params \<Rightarrow> bool" where
  "g_buf_ok p \<longleftrightarrow> 4 \<le> g_buf_log_size p \<and> g_buf_log_size p < 60 \<and> g_buf_size p = push_bit (g_buf_log_size p) 1"

definition g_range :: "g_sys \<Rightarrow> bool" where
  "g_range s \<longleftrightarrow> length (g_threads s) < 2 ^ 56"

definition slots :: "proxy_params \<Rightarrow> nat" where "slots p = 2 ^ (g_buf_log_size p - 4)"

lemma unat_num: "i < 2 ^ 56 \<Longrightarrow> unat (of_nat i :: u64) = i"
  by (simp add: unat_of_nat)

lemma unat_num16: "i < 2 ^ 56 \<Longrightarrow> unat (of_nat i * 16 :: u64) = i * 16"
  using unat_of_nat[of "i * 16", where 'a = 64] by simp

lemma unat_slot:
  assumes "g_buf_ok p" "i < 2 ^ 56"
  shows "unat (idx_in_buf p (of_nat i)) = 16 * (i mod slots p)"
proof -
  have b: "4 \<le> g_buf_log_size p" "g_buf_log_size p < 60" "g_buf_size p = push_bit (g_buf_log_size p) 1" using assms(1) by (auto simp: g_buf_ok_def)
  have "g_buf_size p - 1 = mask (g_buf_log_size p)" using b by (simp add: mask_eq_exp_minus_1 push_bit_eq_mult)
  then have "idx_in_buf p (of_nat i) = take_bit (g_buf_log_size p) (of_nat i * 16)"
    by (simp add: idx_in_buf_def take_bit_eq_mask)
  then have "unat (idx_in_buf p (of_nat i)) = (i * 16) mod 2 ^ g_buf_log_size p"
    by (simp only: unsigned_take_bit_eq unat_num16[OF assms(2)] take_bit_eq_mod[of _ "i * 16"])
  also have "(2 :: nat) ^ g_buf_log_size p = slots p * 16" using b power_add[of "2 :: nat" "g_buf_log_size p - 4" 4] by (simp add: slots_def)
  finally show ?thesis by (simp add: mult_mod_left)
qed

lemma unat_elem_flag:
  assumes "g_buf_ok p" "i < 2 ^ 56"
  shows "unat (elem_flag p (of_nat i)) = 2 * (i div slots p)"
proof -
  have b: "4 \<le> g_buf_log_size p" "g_buf_log_size p < 60" using assms(1) by (auto simp: g_buf_ok_def)
  have "unat (drop_bit (g_buf_log_size p) (of_nat i * 16 :: u64)) = (i * 16) div 2 ^ g_buf_log_size p"
    by (simp only: unat_drop_bit_eq unat_num16[OF assms(2)] drop_bit_eq_div[of _ "i * 16"])
  also have "(2 :: nat) ^ g_buf_log_size p = slots p * 16" using b power_add[of "2 :: nat" "g_buf_log_size p - 4" 4] by (simp add: slots_def)
  finally have d: "unat (drop_bit (g_buf_log_size p) (of_nat i * 16 :: u64)) = i div slots p" by simp
  have "i div slots p < 2 ^ 56" using assms(2) by (meson div_le_dividend order.strict_trans1)
  then show ?thesis unfolding elem_flag_def using d by (subst unat_mult_lem[THEN iffD1]) simp_all
qed

lemma same_elem:
  assumes "g_buf_ok p" "i < 2 ^ 56" "j < 2 ^ 56"
  shows "idx_in_buf p (of_nat i) = idx_in_buf p (of_nat j) \<longleftrightarrow> i mod slots p = j mod slots p"
  using unat_slot[OF assms(1,2)] unat_slot[OF assms(1,3)] by (metis mult_left_cancel word_unat_eq_iff zero_neq_numeral)

lemma low_56: "i < 2 ^ 56 \<Longrightarrow> (of_nat i AND 0x00FFFFFFFFFFFFFF :: u64) = of_nat i"
proof -
  assume i: "i < 2 ^ 56"
  have m: "(0x00FFFFFFFFFFFFFF :: u64) = mask 56" by (simp add: mask_eq_exp_minus_1)
  show ?thesis unfolding m take_bit_eq_mask[symmetric]
    by (rule word_unat_eq_iff[THEN iffD2]) (simp only: unsigned_take_bit_eq unat_num[OF i] take_bit_nat_eq_self[OF i])
qed


section \<open>One thread per element\<close>

text \<open>The phase of number \<open>i\<close>; numbers not given out yet count as waiting.\<close>

definition phase_of :: "g_sys \<Rightarrow> nat \<Rightarrow> g_phase" where
  "phase_of s i = (if i < length (g_threads s) then g_phase (g_threads s ! i) else G_Waiting)"

definition flag_fits :: "g_phase \<Rightarrow> nat \<Rightarrow> nat \<Rightarrow> bool" where
  "flag_fits ph lap f \<longleftrightarrow> (case ph of
     G_Waiting \<Rightarrow> f \<le> 2 * lap | G_Holding \<Rightarrow> f = 2 * lap | G_Answered \<Rightarrow> f = 2 * lap + 1
   | G_Finished \<Rightarrow> 2 * lap + 2 \<le> f | G_Early \<Rightarrow> False)"

definition g_inv :: "proxy_params \<Rightarrow> g_sys \<Rightarrow> bool" where
  "g_inv p s \<longleftrightarrow>
     g_head s = of_nat (length (g_threads s)) \<and>
     (\<forall>i < length (g_threads s). g_counter (g_threads s ! i) = of_nat i) \<and>
     (\<forall>i < 2 ^ 56. flag_fits (phase_of s i) (i div slots p) (unat (g_flag s (idx_in_buf p (of_nat i)))))"

lemma g_inv_new: "(\<And>e. flags e = 0) \<Longrightarrow> g_inv p (g_new flags)"
  by (simp add: g_inv_def g_new_def phase_of_def flag_fits_def)

lemma g_inv_start: "g_inv p s \<Longrightarrow> g_inv p (g_start op s)"
  by (auto simp: g_inv_def g_start_def phase_of_def nth_append less_Suc_eq)

text \<open>A step of thread \<open>i\<close> that leaves the flag, or moves it as the new phase demands.\<close>

lemma g_inv_update:
  assumes ok: "g_buf_ok p" and inv: "g_inv p s" and i: "i < length (g_threads s)" "i < 2 ^ 56"
    and s': "s' = s\<lparr>g_flag := (g_flag s)(idx_in_buf p (of_nat i) := f), g_threads := (g_threads s)[i := (g_threads s ! i)\<lparr>g_phase := ph\<rparr>]\<rparr>"
    and fits: "flag_fits ph (i div slots p) (unat f)" and busy: "g_phase (g_threads s ! i) \<in> {G_Holding, G_Answered} \<or> unat f = 2 * (i div slots p)"
    and old: "g_phase (g_threads s ! i) = G_Waiting \<Longrightarrow> f = g_flag s (idx_in_buf p (of_nat i))" and up: "unat f \<le> 2 * (i div slots p) + 2"
      "unat (g_flag s (idx_in_buf p (of_nat i))) \<le> unat f"
  shows "g_inv p s'"
proof -
  have "flag_fits (phase_of s' j) (j div slots p) (unat (g_flag s' (idx_in_buf p (of_nat j))))" if j: "j < 2 ^ 56" for j
  proof (cases "j = i")
    case True
    then show ?thesis using fits i by (simp add: s' phase_of_def)
  next
    case False
    have ph: "phase_of s' j = phase_of s j" using False i by (simp add: s' phase_of_def)
    have fj: "flag_fits (phase_of s j) (j div slots p) (unat (g_flag s (idx_in_buf p (of_nat j))))" using inv j by (simp add: g_inv_def)
    have fi: "flag_fits (g_phase (g_threads s ! i)) (i div slots p) (unat (g_flag s (idx_in_buf p (of_nat i))))"
      using inv i by (auto simp: g_inv_def phase_of_def)
    show ?thesis
    proof (cases "idx_in_buf p (of_nat j) = idx_in_buf p (of_nat i)")
      case True
      then have "j mod slots p = i mod slots p" using same_elem[OF ok j i(2)] by simp
      then have "j div slots p \<noteq> i div slots p" using False by (metis div_mult_mod_eq)
      moreover define a b where "a = i div slots p" and "b = j div slots p"
      ultimately show ?thesis using True fi fj ph old up busy unfolding a_def[symmetric] b_def[symmetric]
        by (auto simp: s' flag_fits_def split: g_phase.splits) presburger
    qed (use fj ph in \<open>simp add: s'\<close>)
  qed
  then show ?thesis using inv i by (simp add: g_inv_def s' nth_list_update)
qed

lemma g_flag_of:
  assumes "g_inv p s" "i < length (g_threads s)" "i < 2 ^ 56"
  shows "flag_fits (g_phase (g_threads s ! i)) (i div slots p) (unat (g_flag s (idx_in_buf p (of_nat i))))"
    "g_counter (g_threads s ! i) = of_nat i"
  using assms by (auto simp: g_inv_def phase_of_def)

lemma g_inv_acquire:
  assumes ok: "g_buf_ok p" and inv: "g_inv p s" and i: "i < length (g_threads s)" "i < 2 ^ 56" and run: "g_acquire p i s = Some s'"
  shows "g_inv p s'"
proof -
  note F = g_flag_of[OF inv i]
  have w: "g_phase (g_threads s ! i) = G_Waiting" "elem_flag p (of_nat i) \<le> g_flag s (idx_in_buf p (of_nat i))"
    and s': "s' = s\<lparr>g_threads := (g_threads s)[i := (g_threads s ! i)\<lparr>g_phase := G_Holding\<rparr>]\<rparr>"
    using run F(2) by (auto simp: g_acquire_def Let_def split: if_splits)
  have "unat (g_flag s (idx_in_buf p (of_nat i))) = 2 * (i div slots p)"
    using F(1) w unat_elem_flag[OF ok i(2)] by (simp add: flag_fits_def word_le_nat_alt)
  then show ?thesis using w s' F
    by (intro g_inv_update[OF ok inv i, where f = "g_flag s (idx_in_buf p (of_nat i))" and ph = G_Holding]) (simp_all add: flag_fits_def)
qed

lemma unat_Suc: "unat (w :: u64) < 2 ^ 60 \<Longrightarrow> unat (w + 1) = unat w + 1"
  by (subst unat_add_lem[THEN iffD1]) simp_all

lemma unat_Suc2: "unat (w :: u64) < 2 ^ 60 \<Longrightarrow> unat (w + 2) = unat w + 2"
  by (subst unat_add_lem[THEN iffD1]) simp_all

lemma lap_lt: "i < 2 ^ 56 \<Longrightarrow> 2 * (i div slots p) + 1 < 2 ^ 60"
proof -
  assume "i < 2 ^ 56"
  then have "i div slots p < 2 ^ 56" by (meson div_le_dividend order.strict_trans1)
  then show ?thesis by simp
qed

lemma g_inv_answer:
  assumes ok: "g_buf_ok p" and inv: "g_inv p s" and i: "i < length (g_threads s)" "i < 2 ^ 56" and run: "g_answer p i s = Some s'"
  shows "g_inv p s'"
proof -
  note F = g_flag_of[OF inv i]
  let ?e = "idx_in_buf p (of_nat i)"
  have h: "g_phase (g_threads s ! i) = G_Holding" using run F(1) by (auto simp: g_answer_def flag_fits_def Let_def split: if_splits)
  have f: "unat (g_flag s ?e) = 2 * (i div slots p)" using F(1) h by (simp add: flag_fits_def)
  have r: "amo_retptr p (of_nat i) - g_buf p = ?e" "amo_retflag p (of_nat i) = elem_flag p (of_nat i) + 1"
    by (simp_all add: amo_retptr_def amo_retflag_def idx_in_buf_def elem_flag_def)
  have "elem_flag p (of_nat i) = g_flag s ?e" using f unat_elem_flag[OF ok i(2)] by (simp add: word_unat_eq_iff)
  then have "s' = s\<lparr>g_flag := (g_flag s)(?e := g_flag s ?e + 1), g_threads := (g_threads s)[i := (g_threads s ! i)\<lparr>g_phase := G_Answered\<rparr>]\<rparr>"
    using run F(2) h by (auto simp: g_answer_def Let_def low_56[OF i(2)] r split: if_splits)
  moreover have "unat (g_flag s ?e + 1) = 2 * (i div slots p) + 1" using f unat_Suc lap_lt[OF i(2), of p] by simp
  ultimately show ?thesis using h f
    by (intro g_inv_update[OF ok inv i, where f = "g_flag s ?e + 1" and ph = G_Answered]) (simp_all add: flag_fits_def)
qed

lemma g_inv_release:
  assumes ok: "g_buf_ok p" and inv: "g_inv p s" and i: "i < length (g_threads s)" "i < 2 ^ 56" and run: "g_release p i s = Some s'"
  shows "g_inv p s'"
proof -
  note F = g_flag_of[OF inv i]
  let ?e = "idx_in_buf p (of_nat i)" and ?t = "g_threads s ! i"
  have late: "g_phase ?t = G_Answered" if "g_phase ?t = G_Holding \<or> g_phase ?t = G_Answered" "elem_flag p (of_nat i) + 1 \<le> g_flag s ?e"
  proof (rule ccontr)
    assume "g_phase ?t \<noteq> G_Answered"
    then have "unat (g_flag s ?e) = 2 * (i div slots p)" using that(1) F(1) by (simp add: flag_fits_def)
    moreover have "unat (elem_flag p (of_nat i) + 1) = 2 * (i div slots p) + 1"
      using unat_elem_flag[OF ok i(2)] unat_Suc lap_lt[OF i(2), of p] by simp
    ultimately show False using that(2) by (simp add: word_le_nat_alt)
  qed
  consider (g) "g_phase ?t = G_Holding"
      "s' = s\<lparr>g_flag := (g_flag s)(?e := g_flag s ?e + 2), g_threads := (g_threads s)[i := ?t\<lparr>g_phase := G_Finished\<rparr>]\<rparr>"
    | (a) "g_phase ?t = G_Answered"
      "s' = s\<lparr>g_flag := (g_flag s)(?e := g_flag s ?e + 1), g_threads := (g_threads s)[i := ?t\<lparr>g_phase := G_Finished\<rparr>]\<rparr>"
  proof (cases "g_op ?t")
    case Fetch_G
    then show ?thesis using that(1) run F(2) by (auto simp: g_release_def Let_def split: if_splits)
  next
    case Fetch_AMO
    then have "g_phase ?t = G_Answered" using run F(2) late by (auto simp: g_release_def Let_def split: if_splits)
    then show ?thesis using that(2) run F(2) Fetch_AMO by (auto simp: g_release_def Let_def split: if_splits)
  qed
  then show ?thesis
  proof cases
    case g
    then have "unat (g_flag s ?e + 2) = 2 * (i div slots p) + 2" "unat (g_flag s ?e) = 2 * (i div slots p)"
      using F(1) unat_Suc2[of "g_flag s ?e"] lap_lt[OF i(2), of p] by (simp_all add: flag_fits_def)
    then show ?thesis using g
      by (intro g_inv_update[OF ok inv i, where f = "g_flag s ?e + 2" and ph = G_Finished]) (simp_all add: flag_fits_def)
  next
    case a
    then have "unat (g_flag s ?e + 1) = 2 * (i div slots p) + 2" "unat (g_flag s ?e) = 2 * (i div slots p) + 1"
      using F(1) unat_Suc[of "g_flag s ?e"] lap_lt[OF i(2), of p] by (simp_all add: flag_fits_def)
    then show ?thesis using a
      by (intro g_inv_update[OF ok inv i, where f = "g_flag s ?e + 1" and ph = G_Finished]) (simp_all add: flag_fits_def)
  qed
qed

lemma g_threads_length:
  "g_acquire p i s = Some s' \<Longrightarrow> length (g_threads s') = length (g_threads s)"
  "g_answer p i s = Some s' \<Longrightarrow> length (g_threads s') = length (g_threads s)"
  "g_release p i s = Some s' \<Longrightarrow> length (g_threads s') = length (g_threads s)"
  by (auto simp: g_acquire_def g_answer_def g_release_def Let_def split: if_splits g_op.splits)

lemma g_step_range: "g_step p s s' \<Longrightarrow> g_range s' \<Longrightarrow> g_range s"
  by (erule g_stepE) (auto simp: g_range_def g_start_def dest: g_threads_length)

lemma g_reachable:
  assumes "(g_step p)\<^sup>*\<^sup>* (g_new flags) s" "g_range s" "g_buf_ok p" "\<And>e. flags e = 0"
  shows "g_inv p s"
  using assms(1,2)
proof (induction rule: rtranclp_induct)
  case base
  then show ?case using g_inv_new assms(4) by simp
next
  case (step s s')
  have rng: "g_range s" by (rule g_step_range[OF step.hyps(2) step.prems])
  note inv = step.IH[OF rng]
  have lt: "i < 2 ^ 56" if "i < length (g_threads s)" for i using that rng by (simp add: g_range_def)
  show ?case using step.hyps(2)
    by (cases rule: g_step.cases) (use inv lt assms(3) g_inv_start g_inv_acquire g_inv_answer g_inv_release in blast)+
qed

section \<open>Properties\<close>

lemma same_lap:
  assumes "g_buf_ok p" "g_inv p s" "g_range s" "i < length (g_threads s)" "j < length (g_threads s)"
    "g_phase (g_threads s ! i) \<in> {G_Holding, G_Answered}" "g_phase (g_threads s ! j) \<in> {G_Holding, G_Answered}"
    "idx_in_buf p (g_counter (g_threads s ! i)) = idx_in_buf p (g_counter (g_threads s ! j))"
  shows "i = j"
proof -
  have lt: "i < 2 ^ 56" "j < 2 ^ 56" using assms(3-5) by (simp_all add: g_range_def)
  note I = g_flag_of[OF assms(2,4) lt(1)] and J = g_flag_of[OF assms(2,5) lt(2)]
  define a b where "a = i div slots p" and "b = j div slots p"
  have e: "idx_in_buf p (of_nat i) = idx_in_buf p (of_nat j)" using assms(8) I(2) J(2) by simp
  then have m: "i mod slots p = j mod slots p" using same_elem[OF assms(1) lt] by simp
  have "a = b" using I(1) J(1) assms(6,7) e unfolding a_def[symmetric] b_def[symmetric]
    by (auto simp: flag_fits_def)
  then show ?thesis using m unfolding a_def b_def by (metis div_mult_mod_eq)
qed

text \<open>What goes wrong when an element's flag does not start at zero: the first atomic that gets it takes the flag for its answer.\<close>

lemma started:
  "n < 2 ^ 64 \<Longrightarrow> (g_start op ^^ n) (g_new flags) =
     \<lparr>g_head = of_nat n, g_flag = flags, g_threads = map (\<lambda>i. \<lparr>g_op = op, g_counter = of_nat i, g_phase = G_Waiting\<rparr>) [0..<n]\<rparr>"
  by (induction n) (simp_all add: g_new_def g_start_def add.commute)

lemma g_starts: "(g_step p)\<^sup>*\<^sup>* (g_new flags) ((g_start op ^^ n) (g_new flags))"
  by (induction n) (auto intro: rtranclp.rtrancl_into_rtrancl g_step_start)

lemma early_release:
  assumes ok: "g_buf_ok p" "\<not> atomics_complete_on_quiet p" and k: "k < slots p" "flags (idx_in_buf p (of_nat k)) \<noteq> 0"
  shows "\<exists>s. (g_step p)\<^sup>*\<^sup>* (g_new flags) s \<and> g_range s \<and> k < length (g_threads s) \<and> g_phase (g_threads s ! k) = G_Early"
proof -
  have "4 \<le> g_buf_log_size p" "g_buf_log_size p < 60" using ok(1) by (simp_all add: g_buf_ok_def)
  then have "g_buf_log_size p - 4 < 56" by linarith
  then have "slots p < 2 ^ 56" unfolding slots_def by (rule power_strict_increasing) simp
  then have k56: "Suc k < 2 ^ 56" using k(1) by simp
  define s0 where "s0 = (g_start Fetch_AMO ^^ Suc k) (g_new flags)"
  have n: "Suc k < 2 ^ 64" using k56 by simp
  have s0: "g_flag s0 = flags" "length (g_threads s0) = Suc k"
    "g_threads s0 ! k = \<lparr>g_op = Fetch_AMO, g_counter = of_nat k, g_phase = G_Waiting\<rparr>"
    unfolding s0_def started[OF n] by (simp_all del: upt_Suc)
  have z: "elem_flag p (of_nat k) = 0" using unat_elem_flag[OF ok(1), of k] k(1) k56 by (simp add: unat_eq_zero)
  define s1 where "s1 = s0\<lparr>g_threads := (g_threads s0)[k := (g_threads s0 ! k)\<lparr>g_phase := G_Holding\<rparr>]\<rparr>"
  have a: "g_acquire p k s0 = Some s1" using s0 z by (simp add: g_acquire_def s1_def)
  have t1: "g_threads s1 ! k = \<lparr>g_op = Fetch_AMO, g_counter = of_nat k, g_phase = G_Holding\<rparr>" "g_flag s1 = flags" "length (g_threads s1) = Suc k"
    using s0 by (simp_all add: s1_def)
  have "1 \<le> flags (idx_in_buf p (of_nat k))" using k(2) by (simp add: word_le_nat_alt unat_gt_0[symmetric] Suc_le_eq)
  then have "\<exists>s2. g_release p k s1 = Some s2 \<and> g_phase (g_threads s2 ! k) = G_Early \<and> length (g_threads s2) = Suc k"
    using t1 z ok(2) by (simp add: g_release_def Let_def)
  then obtain s2 where r: "g_release p k s1 = Some s2" "g_phase (g_threads s2 ! k) = G_Early" "length (g_threads s2) = Suc k" by blast
  have "(g_step p)\<^sup>*\<^sup>* (g_new flags) s0" unfolding s0_def by (rule g_starts)
  moreover have "g_step p s0 s1" by (rule g_step_acquire[OF _ a]) (simp add: s0)
  moreover have "g_step p s1 s2" by (rule g_step_release[OF _ r(1)]) (simp add: t1)
  ultimately have "(g_step p)\<^sup>*\<^sup>* (g_new flags) s2" by (meson rtranclp.rtrancl_into_rtrancl)
  then show ?thesis using r k56 by (intro exI[of _ s2]) (simp add: g_range_def)
qed

text \<open>
  C18: Fetched values do not get mixed up. If the flags of the fetch buffer start at zero, then however many GPU threads
  fetch, with gets and atomics mixed, two threads never hold the same element at the same time, and no atomic moves its
  flag on before its own answer has come, as long as fewer than 2^56 fetches were made. The buffer comes from
  \<open>nvshmemi_malloc\<close> and its flags are never cleared. If one of them is not zero and the transports complete atomics on their
  own, then the first atomic that gets the element can take the stale flag for its answer and give the element away.
\<close>

theorem fetch_buffer_exclusive:
  assumes "g_buf_ok p"
  shows "((\<forall>e. flags e = 0) \<longrightarrow> (\<forall>s. (g_step p)\<^sup>*\<^sup>* (g_new flags) s \<and> g_range s \<longrightarrow>
      (\<forall>i < length (g_threads s). \<forall>j < length (g_threads s).
         g_phase (g_threads s ! i) \<in> {G_Holding, G_Answered} \<and> g_phase (g_threads s ! j) \<in> {G_Holding, G_Answered} \<and>
         idx_in_buf p (g_counter (g_threads s ! i)) = idx_in_buf p (g_counter (g_threads s ! j)) \<longrightarrow> i = j) \<and>
      (\<forall>i < length (g_threads s). g_phase (g_threads s ! i) \<noteq> G_Early))) \<and>
    (\<not> atomics_complete_on_quiet p \<longrightarrow> (\<forall>k < slots p. flags (idx_in_buf p (of_nat k)) \<noteq> 0 \<longrightarrow>
      (\<exists>s. (g_step p)\<^sup>*\<^sup>* (g_new flags) s \<and> g_range s \<and> k < length (g_threads s) \<and> g_phase (g_threads s ! k) = G_Early)))"
proof (intro conjI impI allI)
  fix s assume z: "\<forall>e. flags e = 0" and s: "(g_step p)\<^sup>*\<^sup>* (g_new flags) s \<and> g_range s"
  have inv: "g_inv p s" by (rule g_reachable[OF conjunct1[OF s] conjunct2[OF s] assms]) (use z in blast)
  show "i = j" if "i < length (g_threads s)" "j < length (g_threads s)"
    "g_phase (g_threads s ! i) \<in> {G_Holding, G_Answered} \<and> g_phase (g_threads s ! j) \<in> {G_Holding, G_Answered} \<and>
      idx_in_buf p (g_counter (g_threads s ! i)) = idx_in_buf p (g_counter (g_threads s ! j))" for i j
    using same_lap[OF assms inv conjunct2[OF s] that(1,2)] that(3) by blast
  show "g_phase (g_threads s ! i) \<noteq> G_Early" if "i < length (g_threads s)" for i
    using g_flag_of(1)[OF inv that] that s by (auto simp: g_range_def flag_fits_def)
qed (use early_release[OF assms] in blast)

text \<open>Five numbers are given out for four elements, and the first has its element.\<close>

definition demo_fetch :: g_sys where
  "demo_fetch = (g_start Fetch_AMO ^^ 5) (g_new (\<lambda>_. 0))"

lemma demo_fetch_runs:
  "case g_acquire demo_params 0 demo_fetch of None \<Rightarrow> False | Some s \<Rightarrow>
     length (g_threads s) = 5 \<and> g_phase (g_threads s ! 0) = G_Holding \<and> g_counter (g_threads s ! 0) = 0 \<and> g_acquire demo_params 4 s = None"
  by code_simp

theorem fetch_buffer_exclusive_witness:
  "(\<exists>s. (g_step demo_params)\<^sup>*\<^sup>* (g_new (\<lambda>_. 0)) s \<and> g_phase (g_threads s ! 0) = G_Holding \<and> g_acquire demo_params 4 s = None \<and>
      g_phase (g_threads s ! 4) \<noteq> G_Early) \<and>
   (\<exists>s. (g_step demo_params)\<^sup>*\<^sup>* (g_new (\<lambda>_. 1)) s \<and> g_phase (g_threads s ! 3) = G_Early)"
proof -
  obtain s where s: "g_acquire demo_params 0 demo_fetch = Some s"
    using demo_fetch_runs by (cases "g_acquire demo_params 0 demo_fetch") simp_all
  note r = demo_fetch_runs[unfolded s option.case]
  have "g_step demo_params demo_fetch s" by (rule g_step_acquire[OF _ s]) (use r g_threads_length(1)[OF s] in simp)
  then have st: "(g_step demo_params)\<^sup>*\<^sup>* (g_new (\<lambda>_. 0)) s"
    using g_starts unfolding demo_fetch_def by (rule rtranclp.rtrancl_into_rtrancl[rotated])
  have ok: "g_buf_ok demo_params" by (simp add: g_buf_ok_def demo_params_def push_bit_eq_mult)
  have rng: "g_range s" using r by (simp add: g_range_def)
  have d: "\<not> atomics_complete_on_quiet demo_params" "3 < slots demo_params" by (simp_all add: demo_params_def slots_def)
  have "4 < length (g_threads s)" using r by simp
  then have "g_phase (g_threads s ! 4) \<noteq> G_Early" using conjunct1[OF fetch_buffer_exclusive[OF ok, of "\<lambda>_. 0"]] st rng by blast
  moreover have "(1 :: u64) \<noteq> 0" by simp
  then have "\<exists>s. (g_step demo_params)\<^sup>*\<^sup>* (g_new (\<lambda>_. 1)) s \<and> g_phase (g_threads s ! 3) = G_Early"
    using conjunct2[OF fetch_buffer_exclusive[OF ok, of "\<lambda>_. 1"]] d by blast
  ultimately show ?thesis using st r by blast
qed

end
