(* ===== verification/Global_Exit.thy ===== *)
theory Global_Exit
  imports Proxy_Progress
begin

text \<open>
  \<open>nvshmemi_proxy_global_exit\<close>: any number of GPU threads may ask for the end of the job, each with a status,
  while the host polls the request state. Each atomic operation and each store of the code is a step.
\<close>

section \<open>Model\<close>

datatype exit_phase = Exit_Called int | Exit_Won int | Exit_Written | Exit_Spin

record exit_sys =
  ehost :: host_state
  callers :: "exit_phase list"
  statuses :: "int list"
  assert_failed :: bool

definition exit_new :: "int \<Rightarrow> int \<Rightarrow> exit_sys" where
  "exit_new req code = \<lparr>ehost = proxy_init_state req code, callers = [], statuses = [], assert_failed = False\<rparr>"

definition exit_call :: "int \<Rightarrow> exit_sys \<Rightarrow> exit_sys" where
  "exit_call status s = s\<lparr>callers := callers s @ [Exit_Called status], statuses := statuses s @ [status]\<rparr>"

text \<open>The next action of caller \<open>i\<close>; a caller that is done spins for ever.\<close>

definition nvshmemi_proxy_global_exit :: "nat \<Rightarrow> exit_sys \<Rightarrow> exit_sys" where
  "nvshmemi_proxy_global_exit i s =
     (let h = ehost s; rc = global_exit_request_state h
      in case callers s ! i of
           Exit_Called status \<Rightarrow>
             (if rc = PROXY_GLOBAL_EXIT_NOT_REQUESTED
              then s\<lparr>ehost := h\<lparr>global_exit_request_state := PROXY_GLOBAL_EXIT_INIT\<rparr>, callers := (callers s)[i := Exit_Won status]\<rparr>
              else s\<lparr>callers := (callers s)[i := Exit_Spin]\<rparr>)
         | Exit_Won status \<Rightarrow> s\<lparr>ehost := h\<lparr>global_exit_code := status\<rparr>, callers := (callers s)[i := Exit_Written]\<rparr>
         | Exit_Written \<Rightarrow>
             s\<lparr>ehost := (if rc = PROXY_GLOBAL_EXIT_INIT then h\<lparr>global_exit_request_state := PROXY_GLOBAL_EXIT_REQUESTED\<rparr> else h),
               callers := (callers s)[i := Exit_Spin], assert_failed := assert_failed s \<or> rc \<noteq> PROXY_GLOBAL_EXIT_INIT\<rparr>
         | Exit_Spin \<Rightarrow> s)"

inductive exit_step :: "exit_sys \<Rightarrow> exit_sys \<Rightarrow> bool" where
  exit_step_call: "exit_step s (exit_call status s)"
| exit_step_run: "i < length (callers s) \<Longrightarrow> exit_step s (nvshmemi_proxy_global_exit i s)"

section \<open>One caller wins\<close>

definition active :: "exit_phase \<Rightarrow> bool" where
  "active c \<longleftrightarrow> (case c of Exit_Won _ \<Rightarrow> True | Exit_Written \<Rightarrow> True | _ \<Rightarrow> False)"

definition exit_inv :: "exit_sys \<Rightarrow> bool" where
  "exit_inv s \<longleftrightarrow>
     \<not> assert_failed s \<and> global_exit_request_state (ehost s) \<in> {0, 1, 2} \<and>
     length (filter active (callers s)) = of_bool (global_exit_request_state (ehost s) = 1) \<and>
     (\<forall>c. Exit_Called c \<in> set (callers s) \<or> Exit_Won c \<in> set (callers s) \<longrightarrow> c \<in> set (statuses s)) \<and>
     (Exit_Written \<in> set (callers s) \<or> global_exit_request_state (ehost s) = 2 \<longrightarrow> global_exit_code (ehost s) \<in> set (statuses s)) \<and>
     (global_exit_request_state (ehost s) = 0 \<longrightarrow> (\<forall>x \<in> set (callers s). \<exists>c. x = Exit_Called c))"

lemmas exit_consts = PROXY_GLOBAL_EXIT_NOT_REQUESTED_def PROXY_GLOBAL_EXIT_INIT_def PROXY_GLOBAL_EXIT_REQUESTED_def

lemma exit_inv_new: "exit_inv (exit_new PROXY_GLOBAL_EXIT_NOT_REQUESTED code)"
  by (simp add: exit_inv_def exit_new_def proxy_init_state_def exit_consts)

lemma exit_inv_call: "exit_inv s \<Longrightarrow> exit_inv (exit_call status s)"
  by (auto simp: exit_inv_def exit_call_def active_def)

lemma set_update_cases: "x \<in> set (xs[i := y]) \<Longrightarrow> x = y \<or> x \<in> set xs"
  using set_update_subset_insert by fastforce

lemma length_filter_update:
  "i < length xs \<Longrightarrow> length (filter P (xs[i := y])) + of_bool (P (xs ! i)) = length (filter P xs) + of_bool (P y)"
proof (induction xs arbitrary: i)
  case (Cons x xs)
  then show ?case using Cons.IH[of "i - 1"] by (cases i) auto
qed simp

lemma active_state:
  assumes "exit_inv s" "i < length (callers s)" "active (callers s ! i)"
  shows "global_exit_request_state (ehost s) = 1"
proof -
  have "0 < length (filter active (callers s))" using assms(2,3) by (auto simp: filter_empty_conv)
  then show ?thesis using assms(1) by (auto simp: exit_inv_def split: if_splits)
qed

lemma exit_inv_run:
  assumes inv: "exit_inv s" and i: "i < length (callers s)"
  shows "exit_inv (nvshmemi_proxy_global_exit i s)"
proof (cases "callers s ! i")
  case (Exit_Called c)
  then have "Exit_Called c \<in> set (callers s)" using i nth_mem by metis
  then show ?thesis using inv i Exit_Called length_filter_update[of i "callers s" active]
    by (auto simp: nvshmemi_proxy_global_exit_def exit_inv_def exit_consts active_def Let_def dest!: set_update_cases)
next
  case (Exit_Won c)
  then have "Exit_Won c \<in> set (callers s)" using i nth_mem by metis
  moreover have "global_exit_request_state (ehost s) = 1" using active_state[OF inv i] Exit_Won by (simp add: active_def)
  ultimately show ?thesis using inv i Exit_Won length_filter_update[of i "callers s" active]
    by (auto simp: nvshmemi_proxy_global_exit_def exit_inv_def exit_consts active_def Let_def dest!: set_update_cases)
next
  case Exit_Written
  then have "Exit_Written \<in> set (callers s)" using i nth_mem by metis
  moreover have "global_exit_request_state (ehost s) = 1" using active_state[OF inv i] Exit_Written by (simp add: active_def)
  ultimately show ?thesis using inv i Exit_Written length_filter_update[of i "callers s" active]
    by (auto simp: nvshmemi_proxy_global_exit_def exit_inv_def exit_consts active_def Let_def dest!: set_update_cases)
next
  case Exit_Spin
  then show ?thesis using inv by (simp add: nvshmemi_proxy_global_exit_def)
qed

lemma exit_reachable: "exit_step\<^sup>*\<^sup>* (exit_new PROXY_GLOBAL_EXIT_NOT_REQUESTED code) s \<Longrightarrow> exit_inv s"
  by (induction rule: rtranclp_induct) (auto simp: exit_inv_new exit_inv_call exit_inv_run elim: exit_step.cases)


lemma run_steps: "i < length (callers s) \<Longrightarrow> exit_step\<^sup>*\<^sup>* (nvshmemi_proxy_global_exit i s) s' \<Longrightarrow> exit_step\<^sup>*\<^sup>* s s'"
  by (meson converse_rtranclp_into_rtranclp exit_step_run)

text \<open>The request goes through: a caller that is in charge finishes, and there is one once the state has moved.\<close>

lemma exit_from_written:
  assumes "i < length (callers s)" "callers s ! i = Exit_Written" "global_exit_request_state (ehost s) = 1"
  shows "\<exists>s'. exit_step\<^sup>*\<^sup>* s s' \<and> global_exit_request_state (ehost s') = PROXY_GLOBAL_EXIT_REQUESTED"
  by (intro exI[of _ "nvshmemi_proxy_global_exit i s"] conjI run_steps[OF assms(1) rtranclp.rtrancl_refl])
    (use assms in \<open>simp add: nvshmemi_proxy_global_exit_def exit_consts\<close>)

lemma exit_from_won:
  assumes "i < length (callers s)" "callers s ! i = Exit_Won c" "global_exit_request_state (ehost s) = 1"
  shows "\<exists>s'. exit_step\<^sup>*\<^sup>* s s' \<and> global_exit_request_state (ehost s') = PROXY_GLOBAL_EXIT_REQUESTED"
proof -
  let ?s = "nvshmemi_proxy_global_exit i s"
  have "i < length (callers ?s)" "callers ?s ! i = Exit_Written" "global_exit_request_state (ehost ?s) = 1"
    using assms by (simp_all add: nvshmemi_proxy_global_exit_def exit_consts)
  from exit_from_written[OF this] show ?thesis using run_steps[OF assms(1)] by blast
qed

lemma exit_from_called:
  assumes "i < length (callers s)" "callers s ! i = Exit_Called c" "global_exit_request_state (ehost s) = 0"
  shows "\<exists>s'. exit_step\<^sup>*\<^sup>* s s' \<and> global_exit_request_state (ehost s') = PROXY_GLOBAL_EXIT_REQUESTED"
proof -
  let ?s = "nvshmemi_proxy_global_exit i s"
  have "i < length (callers ?s)" "callers ?s ! i = Exit_Won c" "global_exit_request_state (ehost ?s) = 1"
    using assms by (simp_all add: nvshmemi_proxy_global_exit_def exit_consts)
  from exit_from_won[OF this] show ?thesis using run_steps[OF assms(1)] by blast
qed

lemma exit_goes_through:
  assumes inv: "exit_inv s" and c: "callers s \<noteq> []"
  shows "\<exists>s'. exit_step\<^sup>*\<^sup>* s s' \<and> global_exit_request_state (ehost s') = PROXY_GLOBAL_EXIT_REQUESTED"
proof -
  consider "global_exit_request_state (ehost s) = 0" | "global_exit_request_state (ehost s) = 1" | "global_exit_request_state (ehost s) = 2"
    using inv by (auto simp: exit_inv_def)
  then show ?thesis
  proof cases
    case 1
    have "callers s ! 0 \<in> set (callers s)" using c by simp
    then obtain st where "callers s ! 0 = Exit_Called st" using inv 1 unfolding exit_inv_def by blast
    then show ?thesis using exit_from_called[of 0 s] c 1 by simp
  next
    case 2
    then have "filter active (callers s) \<noteq> []" using inv by (auto simp: exit_inv_def)
    then obtain i where "i < length (callers s)" "active (callers s ! i)" by (auto simp: filter_empty_conv in_set_conv_nth)
    then show ?thesis using exit_from_won[of i s] exit_from_written[of i s] 2 by (auto simp: active_def split: exit_phase.splits)
  qed (auto simp: exit_consts)
qed

lemma exit_stable:
  assumes "exit_step\<^sup>*\<^sup>* s s'" "exit_inv s" "global_exit_request_state (ehost s) = 2"
  shows "ehost s' = ehost s \<and> exit_inv s'"
  using assms(1)
proof (induction rule: rtranclp_induct)
  case base
  then show ?case using assms(2) by simp
next
  case (step s1 s2)
  have "length (filter active (callers s1)) = 0" using step.IH assms(3) unfolding exit_inv_def by simp
  then have idle: "filter active (callers s1) = []" by (simp only: length_0_conv)
  have "ehost (nvshmemi_proxy_global_exit i s1) = ehost s1" if "i < length (callers s1)" for i
  proof -
    have "\<not> active (callers s1 ! i)" using idle that by (auto simp: filter_empty_conv)
    then show ?thesis using step.IH assms(3)
      by (auto simp: nvshmemi_proxy_global_exit_def active_def exit_consts Let_def split: exit_phase.splits)
  qed
  then show ?case using step.hyps(2) step.IH exit_inv_call exit_inv_run by (auto elim!: exit_step.cases simp: exit_call_def)
qed

text \<open>
  With another value in the word than \<open>PROXY_GLOBAL_EXIT_NOT_REQUESTED\<close> nobody wins: the callers find it taken and spin, and
  the host sees what it saw before.
\<close>

lemma global_exit_stuck:
  assumes "exit_step\<^sup>*\<^sup>* (exit_new req code) s" "req \<noteq> PROXY_GLOBAL_EXIT_NOT_REQUESTED"
  shows "ehost s = proxy_init_state req code \<and> \<not> assert_failed s"
proof -
  have "ehost s = proxy_init_state req code \<and> \<not> assert_failed s \<and> filter active (callers s) = []" using assms(1)
  proof (induction rule: rtranclp_induct)
    case base
    then show ?case by (simp add: exit_new_def)
  next
    case (step s s')
    have m: "callers s ! i \<in> set (callers s)" if "i < length (callers s)" for i using that by simp
    have rc: "global_exit_request_state (ehost s) = req" using step.IH by (simp add: proxy_init_state_def)
    show ?case using step.hyps(2)
      by (cases rule: exit_step.cases)
        (use step.IH assms(2) m rc in \<open>auto simp: exit_call_def nvshmemi_proxy_global_exit_def active_def Let_def filter_empty_conv
          split: exit_phase.splits dest!: set_update_cases\<close>)
  qed
  then show ?thesis by blast
qed

text \<open>
  C17: A global exit happens once and with one status. However many GPU threads call
  \<open>nvshmemi_proxy_global_exit\<close>, in whatever order, the device assertion never fails. What else happens depends on the word
  the proxy allocates for the request, which \<open>nvshmemi_proxy_init\<close> does not initialise. If it holds
  \<open>PROXY_GLOBAL_EXIT_NOT_REQUESTED\<close>, then from every state in which a thread has called the function the request can still
  reach the host; when the host acts on it, the code is one that a thread passed, and it is the same whenever the host looks.
  With any other value no request ever gets through: the host does nothing, except that with
  \<open>PROXY_GLOBAL_EXIT_REQUESTED\<close> it ends the job, with the word next to it as the code, whether or not a thread asked.
\<close>

theorem global_exit_once:
  assumes "exit_step\<^sup>*\<^sup>* (exit_new req code) s"
  shows "\<not> assert_failed s \<and>
    (if req = PROXY_GLOBAL_EXIT_NOT_REQUESTED then
       (callers s \<noteq> [] \<longrightarrow> (\<exists>s'. exit_step\<^sup>*\<^sup>* s s' \<and> (\<exists>c. progress_global_exit (ehost s') = Inl (Global_Exit c)))) \<and>
       (\<forall>e. progress_global_exit (ehost s) = Inl e \<longrightarrow>
          (\<exists>c \<in> set (statuses s). e = Global_Exit c) \<and>
          (\<forall>s'. exit_step\<^sup>*\<^sup>* s s' \<longrightarrow> progress_global_exit (ehost s') = Inl e))
     else progress_global_exit (ehost s) = (if req = PROXY_GLOBAL_EXIT_REQUESTED then Inl (Global_Exit code) else Inr (ehost s)))"
proof (cases "req = PROXY_GLOBAL_EXIT_NOT_REQUESTED")
  case True
  have inv: "exit_inv s" by (rule exit_reachable[OF assms(1)[unfolded True]])
  have R: "progress_global_exit h = Inl e \<longleftrightarrow> global_exit_request_state h = 2 \<and> e = Global_Exit (global_exit_code h)" for h e
    by (auto simp: progress_global_exit_def exit_consts)
  have "\<exists>s'. exit_step\<^sup>*\<^sup>* s s' \<and> (\<exists>c. progress_global_exit (ehost s') = Inl (Global_Exit c))" if "callers s \<noteq> []"
    using exit_goes_through[OF inv that] unfolding R PROXY_GLOBAL_EXIT_REQUESTED_def by blast
  moreover have "progress_global_exit (ehost s') = Inl e"
    if "progress_global_exit (ehost s) = Inl e" "exit_step\<^sup>*\<^sup>* s s'" for s' e
    using exit_stable[OF that(2) inv] that(1) unfolding R by simp
  moreover have "\<exists>c \<in> set (statuses s). e = Global_Exit c" if "progress_global_exit (ehost s) = Inl e" for e
    using inv that unfolding R exit_inv_def by blast
  moreover have "\<not> assert_failed s" using inv unfolding exit_inv_def by blast
  ultimately show ?thesis unfolding if_P[OF True] by blast
next
  case False
  have "ehost s = proxy_init_state req code" "\<not> assert_failed s" using global_exit_stuck[OF assms False] by simp_all
  then show ?thesis using False by (simp add: progress_global_exit_def proxy_init_state_def)
qed

theorem global_exit_once_witness:
  "let s = nvshmemi_proxy_global_exit 1 (nvshmemi_proxy_global_exit 0 (exit_call 7 (exit_call 3 (exit_new 0 0))))
   in exit_step\<^sup>*\<^sup>* (exit_new 0 0) s \<and> callers s = [Exit_Won 3, Exit_Spin] \<and> \<not> assert_failed s \<and>
     (\<exists>s'. exit_step\<^sup>*\<^sup>* s s' \<and> (\<exists>c. progress_global_exit (ehost s') = Inl (Global_Exit c)))"
proof -
  let ?s = "nvshmemi_proxy_global_exit 1 (nvshmemi_proxy_global_exit 0 (exit_call 7 (exit_call 3 (exit_new 0 0))))"
  note run = nvshmemi_proxy_global_exit_def exit_call_def exit_new_def proxy_init_state_def exit_consts
  have c: "callers ?s = [Exit_Won 3, Exit_Spin]" by (simp add: run)
  note steps = rtranclp.rtrancl_into_rtrancl[of exit_step "exit_new 0 0"]
  have "exit_step\<^sup>*\<^sup>* (exit_new 0 0) (exit_call 7 (exit_call 3 (exit_new 0 0)))"
    by (rule steps[OF steps[OF rtranclp.rtrancl_refl exit_step_call] exit_step_call])
  then have "exit_step\<^sup>*\<^sup>* (exit_new 0 0) (nvshmemi_proxy_global_exit 0 (exit_call 7 (exit_call 3 (exit_new 0 0))))"
    by (rule steps[OF _ exit_step_run]) (simp add: run)
  then have r: "exit_step\<^sup>*\<^sup>* (exit_new 0 0) ?s" by (rule steps[OF _ exit_step_run]) (simp add: run)
  have "callers ?s \<noteq> []" unfolding c by simp
  then show ?thesis unfolding Let_def
    using global_exit_once[OF r, unfolded if_P[OF PROXY_GLOBAL_EXIT_NOT_REQUESTED_def[symmetric]]] r c by blast
qed

end
