(* ===== verification/Team_State.thy ===== *)
theory Team_State
  imports Nvshmem_Prelude
begin

text \<open>
  Teams: the structure \<open>nvshmemi_team_t\<close> and the helpers of \<open>team_internal.cpp\<close> that read and fill it.

  A team's \<open>pe_mapping\<close> is one array of \<open>size + npes\<close> integers: first the world PE of every index of the team,
  then, for every world PE, its index in the team, or -1. It is the list \<open>tm_mapping\<close>; reading it outside
  its bounds is \<open>None\<close>. C's truncating \<open>/\<close> and \<open>%\<close> are \<open>sdiv\<close> and \<open>smod\<close>.
\<close>

section \<open>The structure\<close>

text \<open>\<open>nvshmem_team_config_t\<close>: the version field tells the two layouts apart; only version 2 has a unique identifier.\<close>

datatype config_version = Config_V1 | Config_V2

record team_config =
  cfg_version :: config_version
  cfg_uniqueid :: u64

record nvshmemi_team =
  tm_my_pe :: int
  tm_start :: int
  tm_stride :: int
  tm_size :: int
  tm_idx :: int
  tm_config :: team_config
  tm_rdxn_count :: u64
  tm_alltoall_count :: u64
  tm_p2p_connected :: bool
  tm_is_node :: bool
  tm_node :: int
  tm_is_same_mype :: bool
  tm_same_mype :: int
  tm_mapping :: "int list"

definition TEAM_SCALAR_INVALID :: int where "TEAM_SCALAR_INVALID = -1"
definition TEAM_ULSCALAR_INVALID :: u64 where "TEAM_ULSCALAR_INVALID = 0xFFFFFFFFFFFFFFFF"
definition NVSHMEM_TEAM_INVALID :: int where "NVSHMEM_TEAM_INVALID = -1"

text \<open>\<open>NVSHMEMI_TEAM_INITIALIZER\<close> with the mapping of \<open>NVSHMEMI_TEAM_PE_MAPPING_INITIALIZER\<close>: all entries invalid.\<close>

definition new_team :: "nat \<Rightarrow> nat \<Rightarrow> nvshmemi_team" where
  "new_team npes sz = \<lparr>tm_my_pe = TEAM_SCALAR_INVALID, tm_start = TEAM_SCALAR_INVALID, tm_stride = TEAM_SCALAR_INVALID,
     tm_size = TEAM_SCALAR_INVALID, tm_idx = TEAM_SCALAR_INVALID,
     tm_config = \<lparr>cfg_version = Config_V2, cfg_uniqueid = TEAM_ULSCALAR_INVALID\<rparr>,
     tm_rdxn_count = TEAM_ULSCALAR_INVALID, tm_alltoall_count = 0, tm_p2p_connected = False,
     tm_is_node = False, tm_node = TEAM_SCALAR_INVALID, tm_is_same_mype = False, tm_same_mype = TEAM_SCALAR_INVALID,
     tm_mapping = replicate (sz + npes) TEAM_SCALAR_INVALID\<rparr>"

definition mapping_at :: "nvshmemi_team \<Rightarrow> int \<Rightarrow> int option" where
  "mapping_at t i = (if 0 \<le> i \<and> nat i < length (tm_mapping t) then Some (tm_mapping t ! nat i) else None)"

section \<open>Comparison of teams\<close>

definition nvshmemi_team_is_identical :: "nvshmemi_team option \<Rightarrow> nvshmemi_team option \<Rightarrow> bool" where
  "nvshmemi_team_is_identical a b =
     (case (a, b) of
        (Some t1, Some t2) \<Rightarrow>
          if tm_start t1 \<noteq> tm_start t2 \<or> tm_size t1 \<noteq> tm_size t2 then False
          else if 0 < tm_stride t1 \<and> tm_stride t2 = tm_stride t1 then True
          else list_all (\<lambda>i. mapping_at t1 i = mapping_at t2 i) [0..tm_size t1 - 1]
      | _ \<Rightarrow> False)"

definition nvshmemi_team_is_subset :: "nvshmemi_team \<Rightarrow> nvshmemi_team \<Rightarrow> bool" where
  "nvshmemi_team_is_subset sub super =
     (if tm_size super < tm_size sub then False
      else list_all (\<lambda>i. list_ex (\<lambda>j. mapping_at sub i = mapping_at super j) [0..tm_size super - 1])
             [0..tm_size sub - 1])"

section \<open>Strides\<close>

fun stride_from :: "nvshmemi_team \<Rightarrow> int \<Rightarrow> int list \<Rightarrow> int" where
  "stride_from t d [] = d"
| "stride_from t d (i # is) =
     (if the (mapping_at t i) - the (mapping_at t (i - 1)) \<noteq> d then TEAM_SCALAR_INVALID else stride_from t d is)"

definition nvshmemi_team_get_stride :: "nvshmemi_team \<Rightarrow> int" where
  "nvshmemi_team_get_stride t = stride_from t (the (mapping_at t 1) - the (mapping_at t 0)) [2..tm_size t - 1]"

text \<open>\<open>check_for_linear_stride\<close> updates \<open>start\<close>, \<open>stride\<close> and \<open>size\<close> through pointers and returns 0 or -1.\<close>

definition check_for_linear_stride :: "int \<Rightarrow> int \<times> int \<times> int \<Rightarrow> int \<times> (int \<times> int \<times> int)" where
  "check_for_linear_stride pe sss =
     (case sss of (start, stride, sz) \<Rightarrow>
        if start < 0 then (0, (pe, stride, sz + 1))
        else if stride < 0 then (0, (start, pe - start, sz + 1))
        else if (pe - start) smod stride \<noteq> 0 then (-1, (start, stride, sz))
        else (0, (start, stride, sz + 1)))"

definition nvshmemi_pe_in_active_set :: "int \<Rightarrow> int \<Rightarrow> int \<Rightarrow> int \<Rightarrow> int" where
  "nvshmemi_pe_in_active_set global_pe PE_start PE_stride PE_size =
     (let n = (global_pe - PE_start) sdiv PE_stride
      in if global_pe < PE_start \<or> (global_pe - PE_start) smod PE_stride \<noteq> 0 \<or> PE_size \<le> n then -1 else n)"

section \<open>Translation of PE numbers\<close>

definition nvshmemi_team_translate_pe_to_team_world_wrap :: "nvshmemi_team \<Rightarrow> int \<Rightarrow> int option" where
  "nvshmemi_team_translate_pe_to_team_world_wrap src_team src_pe = mapping_at src_team (src_pe smod tm_size src_team)"

definition nvshmemi_team_translate_pe_from_team_world :: "nvshmemi_team \<Rightarrow> int \<Rightarrow> int option" where
  "nvshmemi_team_translate_pe_from_team_world dest_team src_pe = mapping_at dest_team (tm_size dest_team + src_pe)"

datatype translate_error = Outside_Mapping | Assertion_Failed

definition nvshmemi_team_translate_pe :: "nat \<Rightarrow> nvshmemi_team \<Rightarrow> int \<Rightarrow> nvshmemi_team \<Rightarrow> translate_error + int" where
  "nvshmemi_team_translate_pe npes src_team src_pe dest_team =
     (if tm_size src_team < src_pe then Inr (-1)
      else case nvshmemi_team_translate_pe_to_team_world_wrap src_team src_pe of
        None \<Rightarrow> Inl Outside_Mapping
      | Some src_pe_world \<Rightarrow>
          if \<not> (tm_start src_team \<le> src_pe_world \<and> src_pe_world < int npes) then Inl Assertion_Failed
          else case nvshmemi_team_translate_pe_from_team_world dest_team src_pe_world of
            None \<Rightarrow> Inl Outside_Mapping
          | Some dest_pe \<Rightarrow> Inr dest_pe)"

section \<open>Filling the mapping\<close>

text \<open>Stores through \<open>pe_mapping\<close>; \<open>None\<close> is a store outside the array.\<close>

definition mapping_store :: "int \<Rightarrow> int \<Rightarrow> int list \<Rightarrow> int list option" where
  "mapping_store i v m = (if 0 \<le> i \<and> nat i < length m then Some (m[nat i := v]) else None)"

text \<open>
  The second half is filled from the world team's mapping; \<open>None\<close> stands for the world team itself, which reads the
  mapping it is filling.
\<close>

fun populate_from_world :: "int list option \<Rightarrow> int \<Rightarrow> int list \<Rightarrow> int list \<Rightarrow> int list option" where
  "populate_from_world world sz m [] = Some m"
| "populate_from_world world sz m (i # is) =
     (let w = (case world of None \<Rightarrow> m | Some w \<Rightarrow> w) ! nat i
      in case mapping_store (m ! nat i + sz) w m of
           None \<Rightarrow> None
         | Some m' \<Rightarrow> populate_from_world world sz m' is)"

definition nvshmemi_team_populate_from_world_pe_mapping :: "nvshmemi_team option \<Rightarrow> nvshmemi_team \<Rightarrow> nvshmemi_team option" where
  "nvshmemi_team_populate_from_world_pe_mapping world t =
     map_option (\<lambda>m. t\<lparr>tm_mapping := m\<rparr>)
       (populate_from_world (map_option tm_mapping world) (tm_size t) (tm_mapping t) [0..tm_size t - 1])"

fun populate_stride :: "int \<Rightarrow> int \<Rightarrow> int list \<Rightarrow> int list \<Rightarrow> int list option" where
  "populate_stride start stride m [] = Some m"
| "populate_stride start stride m (i # is) =
     (case mapping_store i (start + i * stride) m of None \<Rightarrow> None | Some m' \<Rightarrow> populate_stride start stride m' is)"

definition nvshmemi_team_populate_pe_mappings_from_constant_stride :: "nvshmemi_team option \<Rightarrow> nvshmemi_team \<Rightarrow> nvshmemi_team option" where
  "nvshmemi_team_populate_pe_mappings_from_constant_stride world t =
     (case populate_stride (tm_start t) (tm_stride t) (tm_mapping t) [0..tm_size t - 1] of
        None \<Rightarrow> None
      | Some m \<Rightarrow> nvshmemi_team_populate_from_world_pe_mapping world (t\<lparr>tm_mapping := m\<rparr>))"

section \<open>The active set\<close>

text \<open>What the mapping of a team with a constant stride is meant to be.\<close>

definition strided_mapping :: "nat \<Rightarrow> int \<Rightarrow> int \<Rightarrow> int \<Rightarrow> int list" where
  "strided_mapping npes start stride sz =
     map (\<lambda>i. start + i * stride) [0..sz - 1] @ map (\<lambda>p. nvshmemi_pe_in_active_set p start stride sz) [0..int npes - 1]"

lemma smod_pos: "0 \<le> a \<Longrightarrow> 0 < b \<Longrightarrow> a smod b = a mod (b :: int)"
  by (cases "a = 0") (simp_all add: signed_modulo_int_def sgn_if)

lemma sdiv_pos: "0 \<le> a \<Longrightarrow> 0 < b \<Longrightarrow> a sdiv b = a div (b :: int)"
  by (cases "a = 0") (simp_all add: signed_divide_int_def sgn_if)

lemma in_active_set:
  assumes "0 < stride" "0 \<le> sz"
  shows "nvshmemi_pe_in_active_set p start stride sz = n \<longleftrightarrow>
    (if \<exists>i. 0 \<le> i \<and> i < sz \<and> p = start + i * stride then 0 \<le> n \<and> n < sz \<and> p = start + n * stride else n = -1)"
proof (cases "p < start")
  case True
  moreover have "\<not> (0 \<le> i \<and> p = start + i * stride)" for i
    using True assms(1) by (smt (verit) mult_nonneg_nonneg)
  ultimately show ?thesis by (auto simp: nvshmemi_pe_in_active_set_def Let_def)
next
  case False
  then have d: "(p - start) sdiv stride = (p - start) div stride" "(p - start) smod stride = (p - start) mod stride"
    using assms(1) by (simp_all add: smod_pos sdiv_pos)
  show ?thesis
  proof (cases "\<exists>i. 0 \<le> i \<and> i < sz \<and> p = start + i * stride")
    case True
    then obtain i where i: "0 \<le> i" "i < sz" "p = start + i * stride" by blast
    have "nvshmemi_pe_in_active_set p start stride sz = i"
      using i False assms(1) by (simp add: nvshmemi_pe_in_active_set_def Let_def smod_pos sdiv_pos)
    moreover have "p = start + n * stride \<longleftrightarrow> n = i" for n using i(3) assms(1) by auto
    ultimately show ?thesis using True i by auto
  next
    case no: False
    have "(p - start) mod stride \<noteq> 0 \<or> sz \<le> (p - start) div stride"
    proof (rule ccontr)
      assume "\<not> ?thesis"
      then have "p = start + ((p - start) div stride) * stride" "(p - start) div stride < sz"
        using div_mult_mod_eq[of "p - start" stride] by auto
      moreover have "0 \<le> (p - start) div stride" using False assms(1) by (simp add: pos_imp_zdiv_nonneg_iff)
      ultimately show False using no by blast
    qed
    then show ?thesis using no by (auto simp: nvshmemi_pe_in_active_set_def Let_def d)
  qed
qed

section \<open>Well-formed teams\<close>

text \<open>
  A team of a job of \<open>npes\<close> PEs: the first half of the mapping lists distinct PEs, the second is its inverse, and
  the stride, where there is one, describes it.
\<close>

definition team_ok :: "nat \<Rightarrow> nvshmemi_team \<Rightarrow> bool" where
  "team_ok npes t \<longleftrightarrow> 0 < tm_size t \<and> nat (tm_size t) + npes \<le> length (tm_mapping t) \<and>
     (\<forall>i \<in> {0..<tm_size t}. 0 \<le> tm_mapping t ! nat i \<and> tm_mapping t ! nat i < int npes \<and>
        tm_mapping t ! nat (tm_size t + tm_mapping t ! nat i) = i \<and>
        (0 < tm_stride t \<longrightarrow> tm_mapping t ! nat i = tm_start t + i * tm_stride t)) \<and>
     (\<forall>p \<in> {0..<int npes}. tm_mapping t ! nat (tm_size t + p) = -1 \<or>
        (\<exists>i \<in> {0..<tm_size t}. tm_mapping t ! nat i = p \<and> tm_mapping t ! nat (tm_size t + p) = i))"

lemma strided_mapping_nth:
  assumes "0 \<le> sz"
  shows "0 \<le> i \<Longrightarrow> i < sz \<Longrightarrow> strided_mapping npes start stride sz ! nat i = start + i * stride"
    "0 \<le> p \<Longrightarrow> p < int npes \<Longrightarrow> strided_mapping npes start stride sz ! nat (sz + p) = nvshmemi_pe_in_active_set p start stride sz"
    "length (strided_mapping npes start stride sz) = nat sz + npes"
proof -
  show "strided_mapping npes start stride sz ! nat i = start + i * stride" if "0 \<le> i" "i < sz"
  proof -
    have "nat i < nat sz" using that by (simp add: nat_mono_iff)
    then show ?thesis using that by (simp add: strided_mapping_def nth_append)
  qed
  show "strided_mapping npes start stride sz ! nat (sz + p) = nvshmemi_pe_in_active_set p start stride sz" if "0 \<le> p" "p < int npes"
  proof -
    have "\<not> nat (sz + p) < nat sz" "nat (sz + p) - nat sz = nat p" "nat p < nat (int npes)" using that assms by auto
    then show ?thesis using that by (simp add: strided_mapping_def nth_append)
  qed
  show "length (strided_mapping npes start stride sz) = nat sz + npes" by (simp add: strided_mapping_def)
qed

lemma strided_nth_team_ok:
  assumes "0 < tm_size t" "0 < tm_stride t" "0 \<le> tm_start t" "tm_start t + (tm_size t - 1) * tm_stride t < int npes"
    "nat (tm_size t) + npes \<le> length (tm_mapping t)"
    and n1: "\<And>i. 0 \<le> i \<Longrightarrow> i < tm_size t \<Longrightarrow> tm_mapping t ! nat i = tm_start t + i * tm_stride t"
    and n2: "\<And>p. 0 \<le> p \<Longrightarrow> p < int npes \<Longrightarrow>
      tm_mapping t ! nat (tm_size t + p) = nvshmemi_pe_in_active_set p (tm_start t) (tm_stride t) (tm_size t)"
  shows "team_ok npes t"
proof -
  have r: "0 \<le> tm_start t + i * tm_stride t \<and> tm_start t + i * tm_stride t < int npes" if "0 \<le> i" "i < tm_size t" for i
  proof -
    have "i * tm_stride t \<le> (tm_size t - 1) * tm_stride t" using that assms(2) by (intro mult_right_mono) auto
    then show ?thesis using that assms(2-4) by (smt (verit) mult_nonneg_nonneg)
  qed
  have sz: "0 \<le> tm_size t" using assms(1) by simp
  have ix: "nvshmemi_pe_in_active_set (tm_start t + i * tm_stride t) (tm_start t) (tm_stride t) (tm_size t) = i"
    if "0 \<le> i" "i < tm_size t" for i using that in_active_set[OF assms(2) sz, of "tm_start t + i * tm_stride t"] by auto
  show ?thesis unfolding team_ok_def
  proof (intro conjI ballI impI)
    fix i assume i: "i \<in> {0..<tm_size t}"
    then have m: "tm_mapping t ! nat i = tm_start t + i * tm_stride t" by (intro n1) auto
    show "0 \<le> tm_mapping t ! nat i" "tm_mapping t ! nat i < int npes" "tm_mapping t ! nat i = tm_start t + i * tm_stride t"
      using m r[of i] i by simp_all
    show "tm_mapping t ! nat (tm_size t + tm_mapping t ! nat i) = i"
      unfolding m using n2[of "tm_start t + i * tm_stride t"] r[of i] ix[of i] i by simp
  next
    fix p assume p: "p \<in> {0..<int npes}"
    have m: "tm_mapping t ! nat (tm_size t + p) = nvshmemi_pe_in_active_set p (tm_start t) (tm_stride t) (tm_size t)"
      using p by (intro n2) auto
    show "tm_mapping t ! nat (tm_size t + p) = -1 \<or>
        (\<exists>i \<in> {0..<tm_size t}. tm_mapping t ! nat i = p \<and> tm_mapping t ! nat (tm_size t + p) = i)"
      unfolding m using in_active_set[OF assms(2) sz, of p "tm_start t"] n1 by (metis atLeastLessThan_iff)
  qed (simp_all add: assms(1,5))
qed

lemma strided_team_ok:
  assumes "0 < tm_size t" "0 < tm_stride t" "0 \<le> tm_start t" "tm_start t + (tm_size t - 1) * tm_stride t < int npes"
    "tm_mapping t = strided_mapping npes (tm_start t) (tm_stride t) (tm_size t)"
  shows "team_ok npes t"
  using assms(1-4) by (rule strided_nth_team_ok) (use assms(1,5) strided_mapping_nth[of "tm_size t"] in simp_all)

end
