(* ===== verification/Dissem_Barrier.thy ===== *)
theory Dissem_Barrier
  imports Team_State
begin

text \<open>
  The dissemination barrier of \<open>barrier.cuh\<close>, the synchronisation under every collective.

  A call runs a number of phases. In a phase the threads of the group share the numbers \<open>j\<close> from 1 to \<open>k - 1\<close>;
  each thread first notifies, for its numbers, the PE that is \<open>shift\<close> places ahead in the team, and then waits for
  the PE that is \<open>shift\<close> places behind; \<open>nvshmemi_threadgroup_sync\<close> ends the phase. To notify is to store the
  caller's \<open>sync_counter\<close> into the target's \<open>pSync\<close> at the place of the caller, and to wait is to spin until the place of
  the other PE holds at least the own counter; the two halves of \<open>pSync\<close> are used in turn.

  \<open>pow2_phase\<close>, \<open>non_strided_phase\<close> and \<open>dissem_2_phase\<close> are the bodies of the three implementations, as the list of
  actions of one thread in one phase; \<open>nvshmemi_sync_algo_threadgroup\<close> chooses one. \<open>sync_exec\<close> is a step of the
  system of all PEs, each with its threads, and of the network that carries the signals in any order.
\<close>

section \<open>What a thread does in a phase\<close>

datatype sync_action = Notify int | Await int

text \<open>\<open>for (j = myIdx + 1; j <= k - 1; j += groupSize)\<close> with \<open>if (shift >= size) break;\<close>\<close>

function thread_js :: "int \<Rightarrow> int \<Rightarrow> int \<Rightarrow> int list" where
  "thread_js j g k = (if j \<le> k - 1 \<and> 0 < g then j # thread_js (j + g) g k else [])"
  by pat_completeness auto
termination by (relation "measure (\<lambda>(j, g, k). nat (k - j))") auto

declare thread_js.simps [simp del]

definition phase_js :: "(int \<Rightarrow> int) \<Rightarrow> int \<Rightarrow> int \<Rightarrow> int \<Rightarrow> int \<Rightarrow> int list" where
  "phase_js shift sz k g t = takeWhile (\<lambda>j. shift j < sz) (thread_js (t + 1) g k)"

definition pow2_phase :: "nvshmemi_team \<Rightarrow> int \<Rightarrow> nat \<Rightarrow> int \<Rightarrow> int \<Rightarrow> sync_action list" where
  "pow2_phase teami k phase_num g t =
     (let shift = \<lambda>j. push_bit phase_num j; js = phase_js shift (tm_size teami) k g t;
          world = \<lambda>i. the (nvshmemi_team_translate_pe_to_team_world_wrap teami i)
      in map (\<lambda>j. Notify (world (tm_my_pe teami + shift j))) js @
         map (\<lambda>j. let from_nbr_idx = tm_my_pe teami - shift j
                  in Await (world (if from_nbr_idx < 0 then tm_size teami + from_nbr_idx else from_nbr_idx))) js)"

definition non_strided_phase :: "nvshmemi_team \<Rightarrow> int \<Rightarrow> int \<Rightarrow> int \<Rightarrow> int \<Rightarrow> sync_action list" where
  "non_strided_phase teami k pow_k g t =
     (let shift = \<lambda>j. j * pow_k; js = phase_js shift (tm_size teami) k g t
      in map (\<lambda>j. Notify (the (mapping_at teami ((tm_my_pe teami + shift j) smod tm_size teami)))) js @
         map (\<lambda>j. let from_nbr_idx = tm_my_pe teami - shift j
                  in Await (the (mapping_at teami (if from_nbr_idx < 0 then tm_size teami + from_nbr_idx else from_nbr_idx)))) js)"

definition dissem_2_phase :: "int \<Rightarrow> int \<Rightarrow> int \<Rightarrow> int \<Rightarrow> int \<Rightarrow> int \<Rightarrow> int \<Rightarrow> int \<Rightarrow> sync_action list" where
  "dissem_2_phase start stride sz k mype pow_k g t =
     (let my_idx_in_active_set = (mype - start) sdiv stride;
          shift = \<lambda>j. j * pow_k; js = phase_js shift sz k g t
      in map (\<lambda>j. Notify (start + ((my_idx_in_active_set + shift j) smod sz) * stride)) js @
         map (\<lambda>j. let from_nbr_idx = my_idx_in_active_set - shift j
                  in Await (start + (if from_nbr_idx < 0 then sz + from_nbr_idx else from_nbr_idx) * stride)) js)"

section \<open>The three implementations and their choice\<close>

text \<open>
  \<open>while (temp) { num_phases++; temp /= k; }\<close>; a radix below 2 with \<open>temp\<close> not zero never ends. In the
  power-of-two version the division is \<open>temp >>= logk\<close>.
\<close>

function num_phases :: "int \<Rightarrow> int \<Rightarrow> nat option" where
  "num_phases k temp = (if temp \<le> 0 then Some 0 else if k \<le> 1 then None else map_option Suc (num_phases k (temp div k)))"
  by pat_completeness auto
termination
  by (relation "measure (\<lambda>(k, temp). nat temp)") (auto simp: nat_less_eq_zless int_div_less_self)

declare num_phases.simps [simp del]

text \<open>A barrier call as its number of phases and, for a PE and a phase, the actions of each thread.\<close>

record sync_algo =
  phases :: nat
  actions :: "int \<Rightarrow> nat \<Rightarrow> sync_action list list"

definition sync_dissem_pow2_threadgroup :: "int \<Rightarrow> int \<Rightarrow> (int \<Rightarrow> nvshmemi_team) \<Rightarrow> int \<Rightarrow> sync_algo option" where
  "sync_dissem_pow2_threadgroup k g teams sz =
     map_option (\<lambda>n. \<lparr>phases = n, actions = \<lambda>p f. map (pow2_phase (teams p) k f g) [0..g - 1]\<rparr>) (num_phases k (sz - 1))"

definition sync_dissem_threadgroup_non_strided :: "int \<Rightarrow> int \<Rightarrow> (int \<Rightarrow> nvshmemi_team) \<Rightarrow> int \<Rightarrow> sync_algo option" where
  "sync_dissem_threadgroup_non_strided kval g teams sz =
     (let k = min kval sz
      in map_option (\<lambda>n. \<lparr>phases = n, actions = \<lambda>p f. map (non_strided_phase (teams p) k (k ^ f) g) [0..g - 1]\<rparr>)
           (num_phases k (sz - 1)))"

definition sync_dissem_threadgroup_2 :: "int \<Rightarrow> int \<Rightarrow> int \<Rightarrow> int \<Rightarrow> int \<Rightarrow> sync_algo option" where
  "sync_dissem_threadgroup_2 kval g start stride sz =
     (let k = min kval sz
      in map_option (\<lambda>n. \<lparr>phases = n, actions = \<lambda>p f. map (dissem_2_phase start stride sz k p (k ^ f) g) [0..g - 1]\<rparr>)
           (num_phases k (sz - 1)))"

text \<open>Start, stride, size and the flag of peer-to-peer connection are the same in every member's copy; they are read from \<open>t\<close>.\<close>

definition sync_dissem_threadgroup :: "int \<Rightarrow> int \<Rightarrow> (int \<Rightarrow> nvshmemi_team) \<Rightarrow> nvshmemi_team \<Rightarrow> sync_algo option" where
  "sync_dissem_threadgroup kval g teams t =
     (if 0 < tm_stride t then sync_dissem_threadgroup_2 kval g (tm_start t) (tm_stride t) (tm_size t)
      else sync_dissem_threadgroup_non_strided kval g teams (tm_size t))"

definition nvshmemi_sync_algo_threadgroup :: "int \<Rightarrow> bool \<Rightarrow> int \<Rightarrow> (int \<Rightarrow> nvshmemi_team) \<Rightarrow> nvshmemi_team \<Rightarrow> sync_algo option" where
  "nvshmemi_sync_algo_threadgroup kval block g teams t =
     (let k0 = max (min kval (tm_size t)) 2;
          k = (if tm_p2p_connected t \<and> block then tm_size t else k0)
      in if k \<in> {2, 4, 8, 16, 32} then sync_dissem_pow2_threadgroup k g teams (tm_size t)
         else sync_dissem_threadgroup kval g teams t)"

section \<open>The system of PEs\<close>

record pe_sync =
  sync_counter :: nat
  in_sync :: bool
  phase_num :: nat
  todo :: "sync_action list list"
  pSync :: "nat \<Rightarrow> int \<Rightarrow> nat"

text \<open>A signal on its way: target PE, half of \<open>pSync\<close>, place in it (the sender's number) and value.\<close>

type_synonym signal = "int \<times> nat \<times> int \<times> nat"

record sync_sys =
  pes :: "int \<Rightarrow> pe_sync"
  net :: "signal list"

text \<open>\<open>nvshmemi_team_init\<close> and \<open>nvshmemi_team_destroy\<close> set the counters to 1 and \<open>pSync\<close> to 0.\<close>

definition sync_new :: sync_sys where
  "sync_new = \<lparr>pes = \<lambda>_. \<lparr>sync_counter = 1, in_sync = False, phase_num = 0, todo = [], pSync = \<lambda>_ _. 0\<rparr>, net = []\<rparr>"

text \<open>
  Steps: a PE calls the barrier; a thread does its next action; the threads of a PE, all done, leave the phase
  together, and after the last one the call, counting it; the network delivers a signal.
\<close>

datatype sync_label = Enter int | Act int nat | Next int | Deliver nat

definition load :: "sync_algo \<Rightarrow> int \<Rightarrow> nat \<Rightarrow> sync_action list list" where
  "load A p f = (if f < phases A then actions A p f else [])"

definition set_pe :: "int \<Rightarrow> pe_sync \<Rightarrow> sync_sys \<Rightarrow> sync_sys" where
  "set_pe p P s = s\<lparr>pes := (pes s)(p := P)\<rparr>"

fun sync_exec :: "sync_algo \<Rightarrow> int list \<Rightarrow> sync_sys \<Rightarrow> sync_label \<Rightarrow> sync_sys option" where
  "sync_exec A ms s (Enter p) =
     (let P = pes s p in if p \<in> set ms \<and> \<not> in_sync P then
        Some (set_pe p (P\<lparr>in_sync := True, phase_num := 0, todo := load A p 0\<rparr>) s) else None)"
| "sync_exec A ms s (Act p t) =
     (let P = pes s p; c = sync_counter P in if p \<in> set ms \<and> in_sync P \<and> t < length (todo P) then
        (case todo P ! t of
           [] \<Rightarrow> None
         | Notify q # as \<Rightarrow> Some ((set_pe p (P\<lparr>todo := (todo P)[t := as]\<rparr>) s)\<lparr>net := net s @ [(q, c mod 2, p, c)]\<rparr>)
         | Await q # as \<Rightarrow> if c \<le> pSync P (c mod 2) q then Some (set_pe p (P\<lparr>todo := (todo P)[t := as]\<rparr>) s) else None)
      else None)"
| "sync_exec A ms s (Next p) =
     (let P = pes s p in if p \<in> set ms \<and> in_sync P \<and> concat (todo P) = [] then
        Some (set_pe p (if Suc (phase_num P) < phases A
                        then P\<lparr>phase_num := Suc (phase_num P), todo := load A p (Suc (phase_num P))\<rparr>
                        else P\<lparr>sync_counter := Suc (sync_counter P), in_sync := False\<rparr>) s) else None)"
| "sync_exec A ms s (Deliver m) =
     (if m < length (net s) then
        (case net s ! m of (q, h, p, v) \<Rightarrow>
           Some ((set_pe q ((pes s q)\<lparr>pSync := (pSync (pes s q))(h := (pSync (pes s q) h)(p := v))\<rparr>) s)
                   \<lparr>net := take m (net s) @ drop (Suc m) (net s)\<rparr>))
      else None)"

inductive sync_step :: "sync_algo \<Rightarrow> int list \<Rightarrow> sync_sys \<Rightarrow> sync_sys \<Rightarrow> bool" for A ms where
  step: "sync_exec A ms s l = Some s' \<Longrightarrow> sync_step A ms s s'"

text \<open>Steps inside calls: nobody enters.\<close>

inductive inner_step :: "sync_algo \<Rightarrow> int list \<Rightarrow> sync_sys \<Rightarrow> sync_sys \<Rightarrow> bool" for A ms where
  inner: "sync_exec A ms s l = Some s' \<Longrightarrow> (\<And>p. l \<noteq> Enter p) \<Longrightarrow> inner_step A ms s s'"

text \<open>The PE has entered its \<open>c\<close>-th call; the first is number 1.\<close>

definition arrived :: "pe_sync \<Rightarrow> nat \<Rightarrow> bool" where
  "arrived P c \<longleftrightarrow> c < sync_counter P \<or> c = sync_counter P \<and> in_sync P"

end
