(* ===== verification/Dissem_Correct.thy ===== *)
theory Dissem_Correct
  imports Dissem_Barrier "HOL-Library.Multiset"
begin

text \<open>
  Why the dissemination barrier is a barrier. The locale \<open>dissemination\<close> states what a schedule of notifications must
  offer: in phase \<open>f\<close> a PE notifies and awaits the PEs at the distances \<open>S f\<close>, no distance is used in two phases,
  and after phase \<open>f\<close> a PE has heard, through others, from all PEs at distances below \<open>R (f + 1)\<close>.
\<close>

section \<open>Actions left to do\<close>

definition remaining :: "pe_sync \<Rightarrow> sync_action set" where
  "remaining P = set (concat (todo P))"

text \<open>The action \<open>a\<close> of phase \<open>f\<close> has been done in call \<open>c\<close>.\<close>

definition did :: "pe_sync \<Rightarrow> nat \<Rightarrow> sync_action \<Rightarrow> nat \<Rightarrow> bool" where
  "did P f a c \<longleftrightarrow> c < sync_counter P \<or>
     c = sync_counter P \<and> in_sync P \<and> (f < phase_num P \<or> f = phase_num P \<and> a \<notin> remaining P)"

lemma mset_mid: "mset (concat (xs @ (a # as) # ys)) = add_mset a (mset (concat (xs @ as # ys)))"
  by simp

lemma mset_concat_update:
  assumes "t < length xss" "xss ! t = a # as"
  shows "mset (concat xss) = add_mset a (mset (concat (xss[t := as])))"
proof -
  have "xss = take t xss @ (a # as) # drop (Suc t) xss" using assms by (metis id_take_nth_drop)
  moreover have "xss[t := as] = take t xss @ as # drop (Suc t) xss" using assms(1) by (rule upd_conv_take_nth_drop)
  ultimately show ?thesis by (metis (no_types) mset_mid)
qed

lemma concat_update:
  assumes "t < length xss" "xss ! t = a # as" "distinct (concat xss)"
  shows "set (concat (xss[t := as])) = set (concat xss) - {a}" "distinct (concat (xss[t := as]))"
proof -
  have m: "mset (concat xss) = mset (a # concat (xss[t := as]))" using mset_concat_update[OF assms(1,2)] by simp
  have d: "distinct (a # concat (xss[t := as]))" using assms(3) mset_eq_imp_distinct_iff[OF m] by blast
  show "distinct (concat (xss[t := as]))" using d by simp
  show "set (concat (xss[t := as])) = set (concat xss) - {a}"
    using d mset_eq_setD[OF m] by auto
qed

text \<open>Each thread notifies before it waits.\<close>

definition notify_first :: "sync_action list \<Rightarrow> bool" where
  "notify_first as \<longleftrightarrow> (\<exists>xs ys. as = map Notify xs @ map Await ys)"

lemma notify_first_tl: "notify_first (a # as) \<Longrightarrow> notify_first as"
  unfolding notify_first_def
  by (metis append_Cons append_Nil list.discI list.inject list.simps(9) map_eq_Cons_conv neq_Nil_conv)

lemma notify_first_Await: "notify_first (Await q # as) \<Longrightarrow> Notify x \<notin> set as"
  unfolding notify_first_def by (auto simp: append_eq_Cons_conv Cons_eq_append_conv)

section \<open>Work left in the calls\<close>

definition pe_work :: "sync_algo \<Rightarrow> int \<Rightarrow> pe_sync \<Rightarrow> nat" where
  "pe_work A p Q = (if in_sync Q then
     2 * length (concat (todo Q)) + (\<Sum>f \<in> {Suc (phase_num Q)..<phases A}. 2 * length (concat (actions A p f))) +
     (phases A - phase_num Q) + 1 else 0)"

definition sync_work :: "sync_algo \<Rightarrow> int list \<Rightarrow> sync_sys \<Rightarrow> nat" where
  "sync_work A ms s = (\<Sum>p \<in> set ms. pe_work A p (pes s p)) + length (net s)"

lemma sum_set_pe:
  assumes "p \<in> set ms"
  shows "(\<Sum>x \<in> set ms. pe_work A x (pes (set_pe p Q s) x)) = (\<Sum>x \<in> set ms - {p}. pe_work A x (pes s x)) + pe_work A p Q"
  unfolding sum.remove[OF finite_set assms] by (simp add: set_pe_def)

lemma sync_work_set_pe:
  assumes "p \<in> set ms"
  shows "sync_work A ms (set_pe p Q s) + pe_work A p (pes s p) = sync_work A ms s + pe_work A p Q"
  using sum.remove[OF finite_set assms, of "\<lambda>x. pe_work A x (pes s x)"] sum_set_pe[OF assms, of A Q s]
  by (simp add: sync_work_def set_pe_def)

lemma next_work:
  assumes "in_sync Q" "concat (todo Q) = []" "Suc (phase_num Q) < phases A"
  shows "pe_work A p (Q\<lparr>phase_num := Suc (phase_num Q), todo := load A p (Suc (phase_num Q))\<rparr>) < pe_work A p Q"
proof -
  have "(\<Sum>f \<in> {Suc (phase_num Q)..<phases A}. 2 * length (concat (actions A p f))) =
    2 * length (concat (actions A p (Suc (phase_num Q)))) + (\<Sum>f \<in> {Suc (Suc (phase_num Q))..<phases A}. 2 * length (concat (actions A p f)))"
    by (rule sum.atLeast_Suc_lessThan[OF assms(3)])
  then show ?thesis using assms unfolding pe_work_def load_def by (simp del: concat_eq_Nil_conv length_concat)
qed

lemma act_work:
  assumes "in_sync Q" "t < length (todo Q)" "todo Q ! t = a # as"
  shows "pe_work A p (Q\<lparr>todo := (todo Q)[t := as]\<rparr>) + 2 = pe_work A p Q"
  using arg_cong[OF mset_concat_update[OF assms(2,3)], of size] assms(1) unfolding pe_work_def
  by (simp del: length_concat)

lemma inner_decreases:
  assumes "inner_step A ms s s'"
  shows "sync_work A ms s' < sync_work A ms s"
  using assms
proof cases
  case (inner l)
  show ?thesis
  proof (cases l)
    case (Enter p) then show ?thesis using inner by blast
  next
    case (Act p t)
    obtain a as where a: "p \<in> set ms" "in_sync (pes s p)" "t < length (todo (pes s p))" "todo (pes s p) ! t = a # as"
      "s' = set_pe p ((pes s p)\<lparr>todo := (todo (pes s p))[t := as]\<rparr>) s \<or>
       (\<exists>x. s' = (set_pe p ((pes s p)\<lparr>todo := (todo (pes s p))[t := as]\<rparr>) s)\<lparr>net := net s @ [x]\<rparr>)"
      using inner(1) unfolding Act by (auto simp: Let_def split: if_splits list.splits sync_action.splits)
    show ?thesis using a(5) sync_work_set_pe[OF a(1), of A "(pes s p)\<lparr>todo := (todo (pes s p))[t := as]\<rparr>" s]
        act_work[OF a(2-4), of A p] by (auto simp: sync_work_def set_pe_def)
  next
    case (Next p)
    then have n: "p \<in> set ms" "in_sync (pes s p)" "concat (todo (pes s p)) = []"
      and s': "s' = set_pe p (if Suc (phase_num (pes s p)) < phases A
                        then (pes s p)\<lparr>phase_num := Suc (phase_num (pes s p)), todo := load A p (Suc (phase_num (pes s p)))\<rparr>
                        else (pes s p)\<lparr>sync_counter := Suc (sync_counter (pes s p)), in_sync := False\<rparr>) s"
      using inner(1) by (auto simp: Let_def simp del: concat_eq_Nil_conv split: if_splits)
    have less: "sync_work A ms (set_pe p Q s) < sync_work A ms s" if "pe_work A p Q < pe_work A p (pes s p)" for Q
      using that sync_work_set_pe[OF n(1), of A Q s] by linarith
    have "pe_work A p ((pes s p)\<lparr>sync_counter := c, in_sync := False\<rparr>) < pe_work A p (pes s p)" for c
      using n(2) by (simp add: pe_work_def)
    then show ?thesis using less next_work[OF n(2,3)] unfolding s' by simp
  next
    case (Deliver m)
    then obtain q h y v where m: "m < length (net s)" "net s ! m = (q, h, y, v)" using inner(1) by (cases "net s ! m") (auto split: if_splits)
    let ?Q = "(pes s q)\<lparr>pSync := (pSync (pes s q))(h := (pSync (pes s q) h)(y := v))\<rparr>"
    have s': "s' = (set_pe q ?Q s)\<lparr>net := take m (net s) @ drop (Suc m) (net s)\<rparr>" using inner(1) m unfolding Deliver by simp
    have "pe_work A x (pes (set_pe q ?Q s) x) = pe_work A x (pes s x)" for x by (simp add: set_pe_def pe_work_def)
    then show ?thesis using m(1) by (simp add: s' sync_work_def)
  qed
qed

lemma exec_arrived:
  assumes "sync_exec A ms s l = Some s'" "arrived (pes s q) c"
  shows "arrived (pes s' q) c"
  using assms by (cases l) (auto simp: Let_def set_pe_def arrived_def split: if_splits list.splits sync_action.splits prod.splits)

section \<open>The interface of a schedule\<close>

locale dissemination =
  fixes A :: sync_algo and ms :: "int list" and N :: int and pe :: "int \<Rightarrow> int" and S :: "nat \<Rightarrow> int set" and R :: "nat \<Rightarrow> int"
  assumes N: "0 < N"
    and members: "set ms = pe ` {0..<N}"
    and inj: "inj_on pe {0..<N}"
    and shifts: "S f \<subseteq> {0<..<N}"
    and once: "f \<noteq> g \<Longrightarrow> S f \<inter> S g = {}"
    and R0: "R 0 = 1"
    and R_mono: "f \<le> g \<Longrightarrow> R f \<le> R g"
    and cover: "f < phases A \<Longrightarrow> 0 \<le> d \<Longrightarrow> d < R (Suc f) \<Longrightarrow> d < N \<Longrightarrow> d < R f \<or> (\<exists>s \<in> S f. s \<le> d \<and> d - s < R f)"
    and full: "N \<le> R (phases A)"
    and acts: "i \<in> {0..<N} \<Longrightarrow> f < phases A \<Longrightarrow>
      set (concat (actions A (pe i) f)) = (\<lambda>s. Notify (pe ((i + s) mod N))) ` S f \<union> (\<lambda>s. Await (pe ((i - s) mod N))) ` S f"
    and distinct: "i \<in> {0..<N} \<Longrightarrow> f < phases A \<Longrightarrow> distinct (concat (actions A (pe i) f))"
    and order: "i \<in> {0..<N} \<Longrightarrow> f < phases A \<Longrightarrow> list_all notify_first (actions A (pe i) f)"
begin

abbreviation I :: "int set" where "I \<equiv> {0..<N}"

abbreviation P :: "sync_sys \<Rightarrow> int \<Rightarrow> pe_sync" where "P s i \<equiv> pes s (pe i)"

lemma mod_I [simp]: "x mod N \<in> I" using N by simp

lemma mod_range [simp]: "0 \<le> x mod N" "x mod N < N" using N by simp_all

lemma pe_eq: "i \<in> I \<Longrightarrow> j \<in> I \<Longrightarrow> pe i = pe j \<longleftrightarrow> i = j" using inj by (auto simp: inj_on_def)

lemma go_back: "i \<in> I \<Longrightarrow> ((i - s) mod N + s) mod N = i" and go_forth: "i \<in> I \<Longrightarrow> ((i + s) mod N - s) mod N = i"
  by (simp_all add: mod_simps)

text \<open>
  The state of one PE: in a call its threads have a part of the phase's actions left, in order.
\<close>

definition pe_ok :: "int \<Rightarrow> pe_sync \<Rightarrow> bool" where
  "pe_ok i Q \<longleftrightarrow> 1 \<le> sync_counter Q \<and>
     (in_sync Q \<longrightarrow> (phase_num Q < phases A \<or> phase_num Q = 0 \<and> phases A = 0) \<and>
        remaining Q \<subseteq> set (concat (load A (pe i) (phase_num Q))) \<and> distinct (concat (todo Q)) \<and> list_all notify_first (todo Q))"

definition knows :: "sync_sys \<Rightarrow> bool" where
  "knows s \<longleftrightarrow>
     (\<forall>i \<in> I. \<forall>d \<in> I. in_sync (P s i) \<longrightarrow> d < R (phase_num (P s i)) \<longrightarrow> arrived (P s ((i - d) mod N)) (sync_counter (P s i))) \<and>
     (\<forall>i \<in> I. \<forall>j \<in> I. \<forall>c. c < sync_counter (P s i) \<longrightarrow> arrived (P s j) c)"

text \<open>The value \<open>v\<close> was stored in, or is on its way to, the place of PE \<open>x\<close> in half \<open>h\<close> at the PE with index \<open>i\<close>.\<close>

definition told :: "sync_sys \<Rightarrow> int \<Rightarrow> nat \<Rightarrow> int \<Rightarrow> nat \<Rightarrow> bool" where
  "told s i h x v \<longleftrightarrow> v \<noteq> 0 \<and> pSync (P s i) h x = v \<or> (pe i, h, x, v) \<in> set (net s)"

definition told_ok :: "sync_sys \<Rightarrow> bool" where
  "told_ok s \<longleftrightarrow>
     (\<forall>i \<in> I. \<forall>h x v. told s i h x v \<longrightarrow> 1 \<le> v \<and> h = v mod 2 \<and>
        (\<exists>f < phases A. \<exists>d \<in> S f. x = pe ((i - d) mod N) \<and> did (P s ((i - d) mod N)) f (Notify (pe i)) v))"

definition waits_ok :: "sync_sys \<Rightarrow> bool" where
  "waits_ok s \<longleftrightarrow>
     (\<forall>i \<in> I. \<forall>f < phases A. \<forall>d \<in> S f. \<forall>c. did (P s i) f (Await (pe ((i - d) mod N))) c \<longrightarrow> c \<le> pSync (P s i) (c mod 2) (pe ((i - d) mod N)))"

definition net_ok :: "sync_sys \<Rightarrow> bool" where
  "net_ok s \<longleftrightarrow> distinct (net s) \<and> (\<forall>(q, h, x, v) \<in> set (net s). q \<in> set ms \<and> pSync (pes s q) h x < v) \<and>
     (\<forall>q h x v w. (q, h, x, v) \<in> set (net s) \<longrightarrow> (q, h, x, w) \<in> set (net s) \<longrightarrow> v = w)"

definition sent_ok :: "sync_sys \<Rightarrow> bool" where
  "sent_ok s \<longleftrightarrow>
     (\<forall>i \<in> I. \<forall>f < phases A. \<forall>d \<in> S f. \<forall>c \<ge> 1. did (P s i) f (Notify (pe ((i + d) mod N))) c \<longrightarrow>
        c \<le> pSync (P s ((i + d) mod N)) (c mod 2) (pe i) \<or> (pe ((i + d) mod N), c mod 2, pe i, c) \<in> set (net s))"

definition barrier_inv :: "sync_sys \<Rightarrow> bool" where
  "barrier_inv s \<longleftrightarrow> (\<forall>i \<in> I. pe_ok i (P s i)) \<and> knows s \<and> told_ok s \<and> waits_ok s \<and> net_ok s \<and> sent_ok s"


section \<open>Frame\<close>

lemma in_ms: "p \<in> set ms \<longleftrightarrow> (\<exists>i \<in> I. p = pe i)" unfolding members by blast

lemma P_set_pe: "i \<in> I \<Longrightarrow> j \<in> I \<Longrightarrow> P (set_pe (pe i) Q s) j = (if j = i then Q else P s j)"
  by (auto simp: set_pe_def pe_eq)

lemma net_set_pe [simp]: "net (set_pe p Q s) = net s" by (simp add: set_pe_def)

lemma P_net [simp]: "pes (s\<lparr>net := n\<rparr>) = pes s" by simp

lemma notify_act: "i \<in> I \<Longrightarrow> f < phases A \<Longrightarrow> d \<in> S f \<Longrightarrow> Notify (pe i) \<in> set (concat (actions A (pe ((i - d) mod N)) f))"
  using acts[OF mod_I, of f "i - d"] go_back[of i d] by (force simp del: set_concat)

lemma notify_act': "i \<in> I \<Longrightarrow> f < phases A \<Longrightarrow> d \<in> S f \<Longrightarrow> Notify (pe ((i + d) mod N)) \<in> set (concat (actions A (pe i) f))"
  using acts[of i f] by (force simp del: set_concat)

lemma await_act: "i \<in> I \<Longrightarrow> f < phases A \<Longrightarrow> d \<in> S f \<Longrightarrow> Await (pe ((i - d) mod N)) \<in> set (concat (actions A (pe i) f))"
  using acts[of i f] by (force simp del: set_concat)

lemma did_enter:
  assumes "\<not> in_sync Q" "f < phases A" "a \<in> set (concat (actions A p f))"
  shows "did (Q\<lparr>in_sync := True, phase_num := 0, todo := load A p 0\<rparr>) f a c = did Q f a c"
  using assms by (cases "f = 0") (simp_all add: did_def remaining_def load_def del: set_concat)

lemma did_next:
  assumes "in_sync Q" "concat (todo Q) = []" "f < phases A" "a \<in> set (concat (actions A p f))"
  shows "did (Q\<lparr>phase_num := Suc (phase_num Q), todo := load A p (Suc (phase_num Q))\<rparr>) f a c = did Q f a c"
  using assms by (cases "f = Suc (phase_num Q)") (auto simp: did_def remaining_def load_def simp del: set_concat concat_eq_Nil_conv)

lemma did_leave:
  assumes "in_sync Q" "concat (todo Q) = []" "f < phases A" "\<not> Suc (phase_num Q) < phases A"
  shows "did (Q\<lparr>sync_counter := Suc (sync_counter Q), in_sync := False\<rparr>) f a c = did Q f a c"
  using assms by (auto simp: did_def remaining_def simp del: set_concat concat_eq_Nil_conv)

lemma did_act:
  assumes "t < length (todo Q)" "todo Q ! t = b # as" "distinct (concat (todo Q))" "in_sync Q"
  shows "did (Q\<lparr>todo := (todo Q)[t := as]\<rparr>) f a c = (did Q f a c \<or> f = phase_num Q \<and> a = b \<and> c = sync_counter Q)"
  using concat_update(1)[OF assms(1-3)] assms(4) by (auto simp: did_def remaining_def simp del: set_concat)

text \<open>Steps that exchange no signal.\<close>

definition same_signals :: "sync_sys \<Rightarrow> sync_sys \<Rightarrow> bool" where
  "same_signals s s' \<longleftrightarrow> net s' = net s \<and> (\<forall>i \<in> I. pSync (P s' i) = pSync (P s i)) \<and>
     (\<forall>i \<in> I. \<forall>f < phases A. \<forall>a \<in> set (concat (actions A (pe i) f)). \<forall>c. did (P s' i) f a c = did (P s i) f a c)"

lemma same_signalsD:
  assumes "same_signals s s'"
  shows "net s' = net s" "i \<in> I \<Longrightarrow> pSync (P s' i) = pSync (P s i)"
    "i \<in> I \<Longrightarrow> f < phases A \<Longrightarrow> a \<in> set (concat (actions A (pe i) f)) \<Longrightarrow> did (P s' i) f a c = did (P s i) f a c"
  using assms unfolding same_signals_def by blast+

lemma same_signals_ok:
  assumes "same_signals s s'" "told_ok s \<and> waits_ok s \<and> net_ok s \<and> sent_ok s"
  shows "told_ok s' \<and> waits_ok s' \<and> net_ok s' \<and> sent_ok s'"
proof (intro conjI)
  note D = same_signalsD[OF assms(1)]
  have t: "told s' i h x v = told s i h x v" if "i \<in> I" for i h x v using that by (simp add: told_def D(1,2))
  have n: "did (P s' ((i - d) mod N)) f (Notify (pe i)) c = did (P s ((i - d) mod N)) f (Notify (pe i)) c"
    if "i \<in> I" "f < phases A" "d \<in> S f" for i f d c by (rule D(3)[OF mod_I that(2) notify_act[OF that]])
  show "told_ok s'" unfolding told_ok_def
  proof (intro ballI allI impI)
    fix i h x v assume i: "i \<in> I" "told s' i h x v"
    then obtain f d where "1 \<le> v" "h = v mod 2" "f < phases A" "d \<in> S f" "x = pe ((i - d) mod N)"
      "did (P s ((i - d) mod N)) f (Notify (pe i)) v"
      using assms(2) t[OF i(1)] unfolding told_ok_def by blast
    then show "1 \<le> v \<and> h = v mod 2 \<and> (\<exists>f < phases A. \<exists>d \<in> S f. x = pe ((i - d) mod N) \<and> did (P s' ((i - d) mod N)) f (Notify (pe i)) v)"
      using n[OF i(1)] by blast
  qed
  show "waits_ok s'" unfolding waits_ok_def
  proof (intro ballI allI impI)
    fix i f d c assume i: "i \<in> I" "f < phases A" "d \<in> S f" "did (P s' i) f (Await (pe ((i - d) mod N))) c"
    then have "did (P s i) f (Await (pe ((i - d) mod N))) c" using D(3)[OF i(1,2) await_act[OF i(1-3)]] by blast
    then have "c \<le> pSync (P s i) (c mod 2) (pe ((i - d) mod N))" using assms(2) i(1-3) unfolding waits_ok_def by blast
    then show "c \<le> pSync (P s' i) (c mod 2) (pe ((i - d) mod N))" by (simp add: D(2)[OF i(1)])
  qed
  show "sent_ok s'" unfolding sent_ok_def
  proof (intro ballI allI impI)
    fix i f d c assume i: "i \<in> I" "f < phases A" "d \<in> S f" "1 \<le> c" "did (P s' i) f (Notify (pe ((i + d) mod N))) c"
    then have "did (P s i) f (Notify (pe ((i + d) mod N))) c" using D(3)[OF i(1,2) notify_act'[OF i(1-3)]] by blast
    then show "c \<le> pSync (P s' ((i + d) mod N)) (c mod 2) (pe i) \<or> (pe ((i + d) mod N), c mod 2, pe i, c) \<in> set (net s')"
      using assms(2) i(1-4) unfolding sent_ok_def D(1) D(2)[OF mod_I] by blast
  qed
  have p: "pSync (pes s' q) = pSync (pes s q)" if "q \<in> set ms" for q using that D(2) unfolding in_ms by blast
  show "net_ok s'" using assms(2) p unfolding net_ok_def D(1) by auto
qed

section \<open>What a PE that has waited knows\<close>

lemma arrived_mono: "arrived Q v \<Longrightarrow> c \<le> v \<Longrightarrow> arrived Q c" by (auto simp: arrived_def)

lemma did_knows:
  assumes "barrier_inv s" "i \<in> I" "did (P s i) f a v" "e \<in> I" "e < R f"
  shows "arrived (P s ((i - e) mod N)) v"
  using assms(3)[unfolded did_def]
proof (elim disjE conjE)
  assume "v < sync_counter (P s i)"
  then show ?thesis using assms(1,2) mod_I unfolding barrier_inv_def knows_def by blast
next
  assume "v = sync_counter (P s i)" "in_sync (P s i)" "f < phase_num (P s i)"
  then show ?thesis using assms(1,2,4,5) R_mono[of f "phase_num (P s i)"] unfolding barrier_inv_def knows_def by fastforce
next
  assume "v = sync_counter (P s i)" "in_sync (P s i)" "f = phase_num (P s i)"
  then show ?thesis using assms(1,2,4,5) unfolding barrier_inv_def knows_def by blast
qed

lemma shift_eq:
  assumes "d \<in> S f" "e \<in> S g" "(i - d) mod N = (i - e) mod N"
  shows "d = e \<and> f = g"
proof -
  have r: "d \<in> {0<..<N}" "e \<in> {0<..<N}" using assms(1,2) shifts by blast+
  have "(d - e) mod N = 0" using assms(3) by (metis diff_diff_eq2 mod_eq_dvd_iff diff_right_commute dvd_imp_mod_0 add_diff_cancel_left' minus_diff_eq dvd_minus_iff add.commute diff_add_cancel)
  then have "d = e" using r by (smt (verit) greaterThanLessThan_iff mod_pos_pos_trivial zmod_zminus1_eq_if)
  then show ?thesis using once[of f g] assms(1,2) by blast
qed

lemma told_did:
  assumes "barrier_inv s" "i \<in> I" "told s i h (pe ((i - d) mod N)) v" "d \<in> S f" "f < phases A"
  shows "1 \<le> v \<and> h = v mod 2 \<and> did (P s ((i - d) mod N)) f (Notify (pe i)) v"
proof -
  obtain g e where "1 \<le> v" "h = v mod 2" "g < phases A" "e \<in> S g" "pe ((i - d) mod N) = pe ((i - e) mod N)"
    "did (P s ((i - e) mod N)) g (Notify (pe i)) v"
    using assms(1-3) unfolding barrier_inv_def told_ok_def by blast
  then show ?thesis using shift_eq[OF assms(4), of e g i] pe_eq[OF mod_I mod_I] by metis
qed

lemma heard:
  assumes "barrier_inv s" "i \<in> I" "in_sync (P s i)" "concat (todo (P s i)) = []" "phase_num (P s i) = f" "f < phases A"
    "e \<in> I" "e < R (Suc f)"
  shows "arrived (P s ((i - e) mod N)) (sync_counter (P s i))"
proof (cases "e < R f")
  case True
  then show ?thesis using assms(1-3,5,7) unfolding barrier_inv_def knows_def by blast
next
  case False
  let ?c = "sync_counter (P s i)"
  obtain d where d: "d \<in> S f" "d \<le> e" "e - d < R f" using cover[OF assms(6), of e] assms(7,8) False by auto
  let ?q = "(i - d) mod N"
  have "did (P s i) f (Await (pe ?q)) ?c" using assms(3-5) unfolding did_def remaining_def
    by (simp del: concat_eq_Nil_conv set_concat)
  then have w: "?c \<le> pSync (P s i) (?c mod 2) (pe ?q)" using assms(1,2,6) d(1) unfolding barrier_inv_def waits_ok_def by blast
  have c1: "1 \<le> ?c" using assms(1,2) unfolding barrier_inv_def pe_ok_def by blast
  have "told s i (?c mod 2) (pe ?q) (pSync (P s i) (?c mod 2) (pe ?q))" using w c1 unfolding told_def by simp
  from told_did[OF assms(1,2) this d(1) assms(6)]
  have "did (P s ?q) f (Notify (pe i)) (pSync (P s i) (?c mod 2) (pe ?q))" by blast
  then have "arrived (P s ((?q - (e - d)) mod N)) (pSync (P s i) (?c mod 2) (pe ?q))"
    by (rule did_knows[OF assms(1) mod_I]) (use d assms(7) shifts[of f] in auto)
  then show ?thesis using w by (simp add: arrived_mono mod_simps)
qed

section \<open>Preservation\<close>

lemma quiet_step:
  assumes inv: "barrier_inv s" and i: "i \<in> I" and s': "s' = set_pe (pe i) Q s"
    and "pSync Q = pSync (P s i)"
    and did: "\<And>f a c. f < phases A \<Longrightarrow> a \<in> set (concat (actions A (pe i) f)) \<Longrightarrow> did Q f a c = did (P s i) f a c"
    and ok: "pe_ok i Q" and arr: "\<And>c. arrived (P s i) c \<Longrightarrow> arrived Q c"
    and k1: "\<And>d. in_sync Q \<Longrightarrow> d \<in> I \<Longrightarrow> d < R (phase_num Q) \<Longrightarrow> arrived (P s' ((i - d) mod N)) (sync_counter Q)"
    and k2: "\<And>j c. j \<in> I \<Longrightarrow> c < sync_counter Q \<Longrightarrow> arrived (P s' j) c"
  shows "barrier_inv s'"
proof -
  have P': "P s' j = (if j = i then Q else P s j)" if "j \<in> I" for j using P_set_pe[OF i that] by (simp add: s')
  have "net s' = net s" by (simp add: s')
  then have "same_signals s s'" unfolding same_signals_def using assms(4) did by (simp add: P' del: set_concat)
  then have sig: "told_ok s' \<and> waits_ok s' \<and> net_ok s' \<and> sent_ok s'"
    using same_signals_ok inv unfolding barrier_inv_def by blast
  have mono: "arrived (P s' j) c" if "j \<in> I" "arrived (P s j) c" for j c using that arr by (auto simp: P')
  have k: "knows s'" unfolding knows_def
  proof (intro conjI ballI allI impI)
    fix j d assume j: "j \<in> I" "d \<in> I" "in_sync (P s' j)" "d < R (phase_num (P s' j))"
    show "arrived (P s' ((j - d) mod N)) (sync_counter (P s' j))"
    proof (cases "j = i")
      case True then show ?thesis using j k1 by (simp add: P'[OF i])
    next
      case False
      then have "arrived (P s ((j - d) mod N)) (sync_counter (P s j))"
        using j inv P'[OF j(1)] unfolding barrier_inv_def knows_def by auto
      then show ?thesis using mono[OF mod_I] False by (simp add: P'[OF j(1)])
    qed
  next
    fix j l c assume j: "j \<in> I" "l \<in> I" "c < sync_counter (P s' j)"
    show "arrived (P s' l) c"
    proof (cases "j = i")
      case True then show ?thesis using j k2 by (simp add: P'[OF i])
    next
      case False
      then have "arrived (P s l) c" using j inv unfolding P'[OF j(1)] barrier_inv_def knows_def by auto
      then show ?thesis using mono[OF j(2)] by blast
    qed
  qed
  have "\<forall>j \<in> I. pe_ok j (P s' j)" using inv ok P' unfolding barrier_inv_def by auto
  then show ?thesis using k sig unfolding barrier_inv_def by blast
qed

lemma pe_ok_load:
  assumes "i \<in> I" "1 \<le> sync_counter Q" "phase_num Q < phases A \<or> phase_num Q = 0 \<and> phases A = 0" "todo Q = load A (pe i) (phase_num Q)"
  shows "pe_ok i Q"
  using assms distinct[OF assms(1)] order[OF assms(1)] unfolding pe_ok_def remaining_def load_def by auto

lemma inv_parts: "barrier_inv s \<Longrightarrow> knows s" "barrier_inv s \<Longrightarrow> told_ok s" "barrier_inv s \<Longrightarrow> waits_ok s"
  "barrier_inv s \<Longrightarrow> net_ok s" "barrier_inv s \<Longrightarrow> sent_ok s"
  unfolding barrier_inv_def by blast+

lemma inv_pe_ok: "barrier_inv s \<Longrightarrow> i \<in> I \<Longrightarrow> pe_ok i (P s i)" unfolding barrier_inv_def by blast

lemma enter_inv:
  assumes "barrier_inv s" "sync_exec A ms s (Enter p) = Some s'"
  shows "barrier_inv s'"
proof -
  obtain i where i: "i \<in> I" "p = pe i" and n: "\<not> in_sync (P s i)"
    and s': "s' = set_pe (pe i) ((P s i)\<lparr>in_sync := True, phase_num := 0, todo := load A (pe i) 0\<rparr>) s"
    using assms(2) by (auto simp: Let_def in_ms split: if_splits)
  have ok: "1 \<le> sync_counter (P s i)" using inv_pe_ok[OF assms(1) i(1)] unfolding pe_ok_def by blast
  have P': "P s' j = (if j = i then (P s i)\<lparr>in_sync := True, phase_num := 0, todo := load A (pe i) 0\<rparr> else P s j)"
    if "j \<in> I" for j using P_set_pe[OF i(1) that] by (simp add: s')
  show ?thesis
  proof (rule quiet_step[OF assms(1) i(1) s'])
    show "pe_ok i ((P s i)\<lparr>in_sync := True, phase_num := 0, todo := load A (pe i) 0\<rparr>)"
      by (rule pe_ok_load[OF i(1)]) (use ok in auto)
    show "arrived (P s' j) c"
      if "j \<in> I" "c < sync_counter ((P s i)\<lparr>in_sync := True, phase_num := 0, todo := load A (pe i) 0\<rparr>)" for j c
    proof -
      have "arrived (P s j) c" using that assms(1) i(1) unfolding barrier_inv_def knows_def by auto
      then show ?thesis using n by (auto simp: P'[OF that(1)] arrived_def)
    qed
    show "arrived (P s' ((i - d) mod N)) (sync_counter ((P s i)\<lparr>in_sync := True, phase_num := 0, todo := load A (pe i) 0\<rparr>))"
      if "d \<in> I" "d < R (phase_num ((P s i)\<lparr>in_sync := True, phase_num := 0, todo := load A (pe i) 0\<rparr>))" for d
    proof -
      have "d = 0" using that R0 by simp
      then have "(i - d) mod N = i" using i(1) by simp
      then show ?thesis using P'[OF i(1)] by (simp add: arrived_def)
    qed
  qed (use n did_enter in \<open>simp_all add: arrived_def del: set_concat\<close>)
qed

lemma next_inv:
  assumes "barrier_inv s" "sync_exec A ms s (Next p) = Some s'"
  shows "barrier_inv s'"
proof -
  obtain i where i: "i \<in> I" "p = pe i" and n: "in_sync (P s i)" "concat (todo (P s i)) = []"
    and s': "s' = set_pe (pe i) (if Suc (phase_num (P s i)) < phases A
                        then (P s i)\<lparr>phase_num := Suc (phase_num (P s i)), todo := load A (pe i) (Suc (phase_num (P s i)))\<rparr>
                        else (P s i)\<lparr>sync_counter := Suc (sync_counter (P s i)), in_sync := False\<rparr>) s"
    using assms(2) by (auto simp: Let_def in_ms simp del: concat_eq_Nil_conv split: if_splits)
  let ?f = "phase_num (P s i)" and ?c = "sync_counter (P s i)"
  have ok: "1 \<le> ?c" "?f < phases A \<or> ?f = 0 \<and> phases A = 0"
    using inv_pe_ok[OF assms(1) i(1)] n(1) unfolding pe_ok_def by blast+
  have K: "arrived (P s j) c" if "j \<in> I" "c < ?c" for j c using that assms(1) i(1) unfolding barrier_inv_def knows_def by blast
  show ?thesis
  proof (cases "Suc ?f < phases A")
    case True
    let ?Q = "(P s i)\<lparr>phase_num := Suc ?f, todo := load A (pe i) (Suc ?f)\<rparr>"
    have s1: "s' = set_pe (pe i) ?Q s" using s' True by simp
    have P': "P s' j = (if j = i then ?Q else P s j)" if "j \<in> I" for j using P_set_pe[OF i(1) that] by (simp add: s1)
    have arr: "arrived (P s' j) c = arrived (P s j) c" if "j \<in> I" for j c by (simp add: P'[OF that] arrived_def)
    show ?thesis
    proof (rule quiet_step[OF assms(1) i(1) s1])
      show "pe_ok i ?Q" by (rule pe_ok_load[OF i(1)]) (use ok True in auto)
      show "arrived (P s' j) c" if "j \<in> I" "c < sync_counter ?Q" for j c using K that arr by simp
      show "arrived (P s' ((i - d) mod N)) (sync_counter ?Q)" if "d \<in> I" "d < R (phase_num ?Q)" for d
        unfolding arr[OF mod_I] using heard[OF assms(1) i(1) n refl _ that(1)] that(2) True by simp
    qed (use n did_next in \<open>simp_all add: arrived_def del: set_concat concat_eq_Nil_conv\<close>)
  next
    case False
    let ?Q = "(P s i)\<lparr>sync_counter := Suc ?c, in_sync := False\<rparr>"
    have s1: "s' = set_pe (pe i) ?Q s" using s' False by simp
    have P': "P s' j = (if j = i then ?Q else P s j)" if "j \<in> I" for j using P_set_pe[OF i(1) that] by (simp add: s1)
    have arr: "arrived (P s j) c \<Longrightarrow> arrived (P s' j) c" if "j \<in> I" for j c by (auto simp: P'[OF that] arrived_def)
    have all: "arrived (P s j) ?c" if j: "j \<in> I" for j
    proof (cases "?f < phases A")
      case True
      then have "phases A = Suc ?f" using False by simp
      then have r: "(i - j) mod N < R (Suc ?f)" using full mod_range(2)[of "i - j"] by (metis order_less_le_trans)
      have "(i - (i - j) mod N) mod N = j" using j by (simp add: mod_simps)
      then show ?thesis using heard[OF assms(1) i(1) n refl True mod_I r] by simp
    next
      case False
      then have "N = 1" using ok(2) full R0 N by simp
      then have "j = i" using j i(1) by simp
      then show ?thesis using n(1) by (simp add: arrived_def)
    qed
    show ?thesis
    proof (rule quiet_step[OF assms(1) i(1) s1])
      show "pe_ok i ?Q" unfolding pe_ok_def by simp
      show "arrived (P s' j) c" if "j \<in> I" "c < sync_counter ?Q" for j c
        using K[OF that(1), of c] all[OF that(1)] arr[OF that(1), of c] that(2) by (cases "c = ?c") auto
    qed (use n did_leave False in \<open>auto simp: arrived_def simp del: set_concat concat_eq_Nil_conv\<close>)
  qed
qed

lemma act_inv_common:
  assumes "barrier_inv s" "sync_exec A ms s (Act p t) = Some s'"
  shows "\<exists>i a as. i \<in> I \<and> p = pe i \<and> in_sync (P s i) \<and> t < length (todo (P s i)) \<and> todo (P s i) ! t = a # as \<and>
    phase_num (P s i) < phases A \<and> a \<in> set (concat (actions A (pe i) (phase_num (P s i)))) \<and> a \<in> remaining (P s i) \<and>
    pe_ok i ((P s i)\<lparr>todo := (todo (P s i))[t := as]\<rparr>) \<and>
    (case a of Notify q \<Rightarrow> s' = (set_pe p ((P s i)\<lparr>todo := (todo (P s i))[t := as]\<rparr>) s)
        \<lparr>net := net s @ [(q, sync_counter (P s i) mod 2, p, sync_counter (P s i))]\<rparr>
     | Await q \<Rightarrow> s' = set_pe p ((P s i)\<lparr>todo := (todo (P s i))[t := as]\<rparr>) s \<and>
        sync_counter (P s i) \<le> pSync (P s i) (sync_counter (P s i) mod 2) q)"
proof -
  obtain i a as where i: "i \<in> I" "p = pe i" and n: "in_sync (P s i)" "t < length (todo (P s i))" "todo (P s i) ! t = a # as"
    and r: "case a of Notify q \<Rightarrow> s' = (set_pe p ((P s i)\<lparr>todo := (todo (P s i))[t := as]\<rparr>) s)
        \<lparr>net := net s @ [(q, sync_counter (P s i) mod 2, p, sync_counter (P s i))]\<rparr>
     | Await q \<Rightarrow> s' = set_pe p ((P s i)\<lparr>todo := (todo (P s i))[t := as]\<rparr>) s \<and>
        sync_counter (P s i) \<le> pSync (P s i) (sync_counter (P s i) mod 2) q"
    using assms(2) by (auto simp: Let_def in_ms split: if_splits list.splits sync_action.splits)
  have ok: "remaining (P s i) \<subseteq> set (concat (load A (pe i) (phase_num (P s i))))" "distinct (concat (todo (P s i)))"
    "list_all notify_first (todo (P s i))" "1 \<le> sync_counter (P s i)" "phase_num (P s i) < phases A \<or> phase_num (P s i) = 0 \<and> phases A = 0"
    using inv_pe_ok[OF assms(1) i(1)] n(1) unfolding pe_ok_def by blast+
  have a: "a \<in> remaining (P s i)" using n(3) nth_mem[OF n(2)] unfolding remaining_def
    by (auto intro!: bexI[of _ "todo (P s i) ! t"])
  then have m: "a \<in> set (concat (load A (pe i) (phase_num (P s i))))" using ok(1) by blast
  then have f: "phase_num (P s i) < phases A" unfolding load_def by (cases "phase_num (P s i) < phases A") simp_all
  have fa: "a \<in> set (concat (actions A (pe i) (phase_num (P s i))))" using m f unfolding load_def by (simp del: set_concat)
  have "notify_first (a # as)" using ok(3) n(2,3) by (metis list_all_length)
  then have "notify_first as" by (rule notify_first_tl)
  then have nf: "list_all notify_first ((todo (P s i))[t := as])"
    using ok(3) set_update_subset_insert[of "todo (P s i)" t as] unfolding list_all_iff by blast
  have "pe_ok i ((P s i)\<lparr>todo := (todo (P s i))[t := as]\<rparr>)"
    using concat_update[OF n(2,3) ok(2)] ok nf unfolding pe_ok_def remaining_def by (auto simp del: set_concat)
  then show ?thesis using i n r a f fa by blast
qed

lemma knows_frame:
  assumes "knows s" "\<And>j. j \<in> I \<Longrightarrow> sync_counter (P s' j) = sync_counter (P s j) \<and> in_sync (P s' j) = in_sync (P s j) \<and> phase_num (P s' j) = phase_num (P s j)"
  shows "knows s'"
  using assms mod_I unfolding knows_def arrived_def by simp

lemma await_inv:
  assumes "barrier_inv s" "sync_exec A ms s (Act p t) = Some s'"
    and i: "i \<in> I" "p = pe i" "in_sync (P s i)" "t < length (todo (P s i))" "todo (P s i) ! t = Await q # as"
    and f: "phase_num (P s i) < phases A" "Await q \<in> set (concat (actions A (pe i) (phase_num (P s i))))"
    and ok: "pe_ok i ((P s i)\<lparr>todo := (todo (P s i))[t := as]\<rparr>)"
    and s': "s' = set_pe (pe i) ((P s i)\<lparr>todo := (todo (P s i))[t := as]\<rparr>) s"
    and g: "sync_counter (P s i) \<le> pSync (P s i) (sync_counter (P s i) mod 2) q"
  shows "barrier_inv s'"
proof -
  let ?Q = "(P s i)\<lparr>todo := (todo (P s i))[t := as]\<rparr>"
  have dst: "distinct (concat (todo (P s i)))" using inv_pe_ok[OF assms(1) i(1)] i(3) unfolding pe_ok_def by blast
  have P': "P s' j = (if j = i then ?Q else P s j)" if "j \<in> I" for j using P_set_pe[OF i(1) that] by (simp add: s')
  have did: "did (P s' j) f' a c = (did (P s j) f' a c \<or> j = i \<and> f' = phase_num (P s i) \<and> a = Await q \<and> c = sync_counter (P s i))"
    if "j \<in> I" for j f' a c using did_act[OF i(4,5) dst i(3)] by (auto simp: P'[OF that])
  have pS: "pSync (P s' j) = pSync (P s j)" if "j \<in> I" for j by (simp add: P'[OF that])
  have N': "net s' = net s" by (simp add: s')
  have "knows s'" by (rule knows_frame[OF inv_parts(1)[OF assms(1)]]) (simp add: P')
  moreover have "told_ok s'" using inv_parts(2)[OF assms(1)] unfolding told_ok_def told_def
    by (simp add: pS N' did[OF mod_I] cong: conj_cong)
  moreover have "waits_ok s'" unfolding waits_ok_def
  proof (intro ballI allI impI)
    fix j f' d c assume j: "j \<in> I" "f' < phases A" "d \<in> S f'" "did (P s' j) f' (Await (pe ((j - d) mod N))) c"
    then show "c \<le> pSync (P s' j) (c mod 2) (pe ((j - d) mod N))"
      using inv_parts(3)[OF assms(1)] g did[OF j(1)] unfolding waits_ok_def pS[OF j(1)] by blast
  qed
  moreover have "sent_ok s'" using inv_parts(5)[OF assms(1)] unfolding sent_ok_def by (simp add: pS N' did pS[OF mod_I])
  moreover have "net_ok s'"
  proof -
    have "pSync (pes s' x) = pSync (pes s x)" if "x \<in> set ms" for x using that pS unfolding in_ms by blast
    then show ?thesis using inv_parts(4)[OF assms(1)] unfolding net_ok_def N' by fastforce
  qed
  moreover have "\<forall>j \<in> I. pe_ok j (P s' j)" using inv_pe_ok[OF assms(1)] ok by (simp add: P')
  ultimately show ?thesis unfolding barrier_inv_def by blast
qed

lemma drop_one:
  assumes "distinct xs" "m < length xs"
  shows "set (take m xs @ drop (Suc m) xs) = set xs - {xs ! m}" "distinct (take m xs @ drop (Suc m) xs)"
proof -
  define ys zs x where "ys = take m xs" and "zs = drop (Suc m) xs" and "x = xs ! m"
  have xs: "xs = ys @ x # zs" unfolding ys_def zs_def x_def by (rule id_take_nth_drop[OF assms(2)])
  have "distinct (ys @ x # zs)" using assms(1) xs by metis
  then have "set (ys @ zs) = set (ys @ x # zs) - {x}" "distinct (ys @ zs)" by auto
  then show "set (take m xs @ drop (Suc m) xs) = set xs - {xs ! m}" "distinct (take m xs @ drop (Suc m) xs)"
    unfolding ys_def[symmetric] zs_def[symmetric] x_def[symmetric] by (simp_all only: xs[symmetric])
qed

text \<open>
  A PE never has two signals for the same place on their way: before it sends the next one, two calls later,
  the target has waited for the one before.
\<close>

lemma place_free:
  assumes "barrier_inv s" "i \<in> I" "in_sync (P s i)" "f = phase_num (P s i)" "f < phases A" "d \<in> S f"
    and a: "Notify (pe ((i + d) mod N)) \<in> remaining (P s i)"
    and v: "h = sync_counter (P s i) mod 2"
  shows "pSync (P s ((i + d) mod N)) h (pe i) < sync_counter (P s i)" "(pe ((i + d) mod N), h, pe i, v) \<notin> set (net s)"
proof -
  let ?c = "sync_counter (P s i)" and ?j = "(i + d) mod N"
  have ij: "(?j - d) mod N = i" by (rule go_forth[OF assms(2)])
  have lt: "w < ?c \<and> 1 \<le> w \<and> w mod 2 = h" if "told s ?j h (pe i) w" for w
  proof -
    have "1 \<le> w \<and> h = w mod 2 \<and> did (P s i) f (Notify (pe ?j)) w"
      using told_did[OF assms(1) mod_I _ assms(6,5), of "i + d" h w] that unfolding ij by blast
    then show ?thesis using a assms(4) unfolding did_def by auto
  qed
  have c1: "1 \<le> ?c" using inv_pe_ok[OF assms(1,2)] unfolding pe_ok_def by blast
  show "pSync (P s ?j) h (pe i) < ?c" 
    using lt[of "pSync (P s ?j) h (pe i)"] c1 unfolding told_def by (cases "pSync (P s ?j) h (pe i) = 0") simp_all
  show "(pe ?j, h, pe i, v) \<notin> set (net s)"
  proof
    assume m: "(pe ?j, h, pe i, v) \<in> set (net s)"
    then have l: "v < ?c" "v mod 2 = h" using lt[of v] unfolding told_def by blast+
    then have "Suc v < ?c" unfolding v by presburger
    then have "arrived (P s ?j) (Suc v)" using assms(1,2) mod_I unfolding barrier_inv_def knows_def by blast
    then have "did (P s ?j) f (Await (pe ((?j - d) mod N))) v" unfolding did_def arrived_def by auto
    then have "v \<le> pSync (P s ?j) (v mod 2) (pe ((?j - d) mod N))"
      using assms(1,5,6) mod_I unfolding barrier_inv_def waits_ok_def by blast
    moreover have "pSync (P s ?j) h (pe i) < v" using m assms(1) unfolding barrier_inv_def net_ok_def by auto
    ultimately show False using l(2) unfolding ij by simp
  qed
qed

lemma notify_inv:
  assumes "barrier_inv s"
    and i: "i \<in> I" "p = pe i" "in_sync (P s i)" "t < length (todo (P s i))" "todo (P s i) ! t = Notify q # as"
    and f: "phase_num (P s i) < phases A" "Notify q \<in> set (concat (actions A (pe i) (phase_num (P s i))))" "Notify q \<in> remaining (P s i)"
    and ok: "pe_ok i ((P s i)\<lparr>todo := (todo (P s i))[t := as]\<rparr>)"
    and s': "s' = (set_pe (pe i) ((P s i)\<lparr>todo := (todo (P s i))[t := as]\<rparr>) s)
        \<lparr>net := net s @ [(q, sync_counter (P s i) mod 2, pe i, sync_counter (P s i))]\<rparr>"
  shows "barrier_inv s'"
proof -
  let ?Q = "(P s i)\<lparr>todo := (todo (P s i))[t := as]\<rparr>" and ?f = "phase_num (P s i)" and ?c = "sync_counter (P s i)"
  have dst: "distinct (concat (todo (P s i)))" and c1: "1 \<le> ?c"
    using inv_pe_ok[OF assms(1) i(1)] i(3) unfolding pe_ok_def by blast+
  obtain d where d: "d \<in> S ?f" "q = pe ((i + d) mod N)" using f(2) unfolding acts[OF i(1) f(1)] by auto
  let ?j = "(i + d) mod N"
  have ij: "(?j - d) mod N = i" by (rule go_forth[OF i(1)])
  note free = place_free[OF assms(1) i(1,3) refl f(1) d(1) f(3)[unfolded d(2)] refl]
  have P': "P s' j = (if j = i then ?Q else P s j)" if "j \<in> I" for j using P_set_pe[OF i(1) that] by (simp add: s')
  have did: "did (P s' j) f' a c = (did (P s j) f' a c \<or> j = i \<and> f' = ?f \<and> a = Notify q \<and> c = ?c)"
    if "j \<in> I" for j f' a c using did_act[OF i(4,5) dst i(3)] by (auto simp: P'[OF that])
  have pS: "pSync (P s' j) = pSync (P s j)" if "j \<in> I" for j by (simp add: P'[OF that])
  have N': "net s' = net s @ [(pe ?j, ?c mod 2, pe i, ?c)]" by (simp add: s' d(2))
  have "knows s'" by (rule knows_frame[OF inv_parts(1)[OF assms(1)]]) (simp add: P')
  moreover have "told_ok s'" unfolding told_ok_def
  proof (intro ballI allI impI)
    fix j h x v assume j: "j \<in> I" "told s' j h x v"
    show "1 \<le> v \<and> h = v mod 2 \<and> (\<exists>f < phases A. \<exists>d \<in> S f. x = pe ((j - d) mod N) \<and> did (P s' ((j - d) mod N)) f (Notify (pe j)) v)"
    proof (cases "told s j h x v")
      case True
      then obtain g e where "1 \<le> v" "h = v mod 2" "g < phases A" "e \<in> S g" "x = pe ((j - e) mod N)"
        "did (P s ((j - e) mod N)) g (Notify (pe j)) v"
        using inv_parts(2)[OF assms(1)] j(1) unfolding told_ok_def by blast
      moreover from this(6) have "did (P s' ((j - e) mod N)) g (Notify (pe j)) v" unfolding did[OF mod_I] by blast
      ultimately show ?thesis by blast
    next
      case False
      then have "(pe j, h, x, v) = (pe ?j, ?c mod 2, pe i, ?c)"
        using j(2) unfolding told_def N' pS[OF j(1)] by auto
      then have e: "pe j = pe ?j" "h = ?c mod 2" "x = pe i" "v = ?c" by simp_all
      have "j = ?j" using e(1) pe_eq[OF j(1) mod_I] by blast
      then have jd: "(j - d) mod N = i" using ij by metis
      have "did (P s' i) ?f (Notify (pe j)) v" unfolding did[OF i(1)] e d(2) by simp
      then have "x = pe ((j - d) mod N) \<and> did (P s' ((j - d) mod N)) ?f (Notify (pe j)) v" unfolding jd e by simp
      then show ?thesis using e(2,4) c1 f(1) d(1) by blast
    qed
  qed
  moreover have "waits_ok s'" using inv_parts(3)[OF assms(1)] unfolding waits_ok_def by (simp add: pS did)
  moreover have "sent_ok s'" unfolding sent_ok_def
  proof (intro ballI allI impI)
    fix k f' e c assume k: "k \<in> I" "f' < phases A" "e \<in> S f'" "1 \<le> c" "did (P s' k) f' (Notify (pe ((k + e) mod N))) c"
    show "c \<le> pSync (P s' ((k + e) mod N)) (c mod 2) (pe k) \<or> (pe ((k + e) mod N), c mod 2, pe k, c) \<in> set (net s')"
    proof (cases "did (P s k) f' (Notify (pe ((k + e) mod N))) c")
      case True
      then have "c \<le> pSync (P s ((k + e) mod N)) (c mod 2) (pe k) \<or> (pe ((k + e) mod N), c mod 2, pe k, c) \<in> set (net s)"
        using inv_parts(5)[OF assms(1)] k(1-4) unfolding sent_ok_def by blast
      then show ?thesis unfolding N' pS[OF mod_I] by auto
    next
      case False
      then show ?thesis using did[OF k(1)] k(5) d(2) unfolding N' by auto
    qed
  qed
  moreover have "net_ok s'"
  proof -
    have x: "pSync (pes s' x) = pSync (pes s x)" if "x \<in> set ms" for x using that pS unfolding in_ms by blast
    have "pe ?j \<in> set ms" unfolding in_ms using mod_I by blast
    then show ?thesis using inv_parts(4)[OF assms(1)] x free unfolding net_ok_def N' by auto
  qed
  moreover have "\<forall>j \<in> I. pe_ok j (P s' j)" using inv_pe_ok[OF assms(1)] ok by (simp add: P')
  ultimately show ?thesis unfolding barrier_inv_def by blast
qed

lemma deliver_inv:
  assumes "barrier_inv s" "sync_exec A ms s (Deliver m) = Some s'"
  shows "barrier_inv s'"
proof -
  obtain q h x v where m: "m < length (net s)" "net s ! m = (q, h, x, v)"
    and s': "s' = (set_pe q ((pes s q)\<lparr>pSync := (pSync (pes s q))(h := (pSync (pes s q) h)(x := v))\<rparr>) s)
                   \<lparr>net := take m (net s) @ drop (Suc m) (net s)\<rparr>"
    using assms(2) by (auto split: if_splits prod.splits)
  have mem: "(q, h, x, v) \<in> set (net s)" using m nth_mem by metis
  note net = inv_parts(4)[OF assms(1), unfolded net_ok_def]
  obtain j where j: "j \<in> I" "q = pe j" using mem net in_ms by blast
  let ?Q = "(P s j)\<lparr>pSync := (pSync (P s j))(h := (pSync (P s j) h)(x := v))\<rparr>"
  have P': "P s' i = (if i = j then ?Q else P s i)" if "i \<in> I" for i using P_set_pe[OF j(1) that] by (simp add: s' j(2))
  have dst: "distinct (net s)" using net by blast
  have N': "set (net s') = set (net s) - {(q, h, x, v)}" "distinct (net s')"
    using drop_one[OF dst m(1)] m(2) by (simp_all add: s')
  have did: "did (P s' i) f a c = did (P s i) f a c" if "i \<in> I" for i f a c by (simp add: P'[OF that] did_def remaining_def)
  have old: "pSync (P s j) h x < v" using mem net j(2) by auto
  have pS: "pSync (P s' i) g y = (if i = j \<and> g = h \<and> y = x then v else pSync (P s i) g y)" if "i \<in> I" for i g y
    by (simp add: P'[OF that])
  have grow: "pSync (P s i) g y \<le> pSync (P s' i) g y" if "i \<in> I" for i g y using old pS[OF that] by simp
  have "knows s'" by (rule knows_frame[OF inv_parts(1)[OF assms(1)]]) (simp add: P')
  moreover have "told_ok s'" unfolding told_ok_def
  proof (intro ballI allI impI)
    fix i g y w assume i: "i \<in> I" "told s' i g y w"
    have "told s i g y w" using i(2) mem unfolding told_def pS[OF i(1)] N' j(2) by (auto split: if_splits)
    then show "1 \<le> w \<and> g = w mod 2 \<and> (\<exists>f < phases A. \<exists>d \<in> S f. y = pe ((i - d) mod N) \<and> did (P s' ((i - d) mod N)) f (Notify (pe i)) w)"
      using inv_parts(2)[OF assms(1)] i(1) unfolding told_ok_def did[OF mod_I] by blast
  qed
  moreover have "waits_ok s'" unfolding waits_ok_def
  proof (intro ballI allI impI)
    fix i f d c assume i: "i \<in> I" "f < phases A" "d \<in> S f" "did (P s' i) f (Await (pe ((i - d) mod N))) c"
    then have "c \<le> pSync (P s i) (c mod 2) (pe ((i - d) mod N))"
      using inv_parts(3)[OF assms(1)] unfolding waits_ok_def did[OF i(1)] by blast
    then show "c \<le> pSync (P s' i) (c mod 2) (pe ((i - d) mod N))" using grow[OF i(1)] order_trans by blast
  qed
  moreover have "sent_ok s'" unfolding sent_ok_def
  proof (intro ballI allI impI)
    fix i f d c assume i: "i \<in> I" "f < phases A" "d \<in> S f" "1 \<le> c" "did (P s' i) f (Notify (pe ((i + d) mod N))) c"
    then have "c \<le> pSync (P s ((i + d) mod N)) (c mod 2) (pe i) \<or> (pe ((i + d) mod N), c mod 2, pe i, c) \<in> set (net s)"
      using inv_parts(5)[OF assms(1)] unfolding sent_ok_def did[OF i(1)] by blast
    moreover have "c \<le> pSync (P s' ((i + d) mod N)) (c mod 2) (pe i)"
      if "(pe ((i + d) mod N), c mod 2, pe i, c) = (q, h, x, v)"
      using that pS[OF j(1)] pe_eq[OF mod_I j(1), of "i + d"] unfolding j(2) by auto
    ultimately show "c \<le> pSync (P s' ((i + d) mod N)) (c mod 2) (pe i) \<or> (pe ((i + d) mod N), c mod 2, pe i, c) \<in> set (net s')"
      using grow[OF mod_I] order_trans unfolding N' by blast
  qed
  moreover have "net_ok s'"
  proof -
    have "r \<in> set ms \<and> pSync (pes s' r) g y < w" if r: "(r, g, y, w) \<in> set (net s')" for r g y w
    proof -
      have in_s: "(r, g, y, w) \<in> set (net s)" "(r, g, y, w) \<noteq> (q, h, x, v)" using r unfolding N' by blast+
      then have b: "r \<in> set ms" "pSync (pes s r) g y < w" using net by auto
      then obtain i where i: "i \<in> I" "r = pe i" using in_ms by blast
      have "\<not> (i = j \<and> g = h \<and> y = x)" using in_s mem net i(2) j(2) by blast
      then show ?thesis using b pS[OF i(1)] i(2) by auto
    qed
    then show ?thesis using net N' unfolding net_ok_def by blast
  qed
  moreover have "\<forall>i \<in> I. pe_ok i (P s' i)" using inv_pe_ok[OF assms(1)] by (simp add: P' pe_ok_def remaining_def)
  ultimately show ?thesis unfolding barrier_inv_def by blast
qed

lemma exec_keeps_inv:
  assumes "barrier_inv s" "sync_exec A ms s l = Some s'"
  shows "barrier_inv s'"
proof (cases l)
  case (Act p t)
  obtain i a as where i: "i \<in> I" "p = pe i" "in_sync (P s i)" "t < length (todo (P s i))" "todo (P s i) ! t = a # as"
    "phase_num (P s i) < phases A" "a \<in> set (concat (actions A (pe i) (phase_num (P s i))))" "a \<in> remaining (P s i)"
    "pe_ok i ((P s i)\<lparr>todo := (todo (P s i))[t := as]\<rparr>)"
    and r: "case a of Notify q \<Rightarrow> s' = (set_pe p ((P s i)\<lparr>todo := (todo (P s i))[t := as]\<rparr>) s)
        \<lparr>net := net s @ [(q, sync_counter (P s i) mod 2, p, sync_counter (P s i))]\<rparr>
     | Await q \<Rightarrow> s' = set_pe p ((P s i)\<lparr>todo := (todo (P s i))[t := as]\<rparr>) s \<and>
        sync_counter (P s i) \<le> pSync (P s i) (sync_counter (P s i) mod 2) q"
    using act_inv_common[OF assms(1) assms(2)[unfolded Act]] by blast
  show ?thesis
  proof (cases a)
    case (Notify q)
    then show ?thesis using notify_inv[OF assms(1) i(1-4)] i(5-9) r unfolding i(2) by simp
  next
    case (Await q)
    then show ?thesis using await_inv[OF assms(1) assms(2)[unfolded Act] i(1-4)] i(5-9) r unfolding i(2) by simp
  qed
qed (use assms enter_inv next_inv deliver_inv in blast)+

lemma new_inv: "barrier_inv sync_new"
  by (auto simp: barrier_inv_def knows_def told_ok_def told_def waits_ok_def net_ok_def sent_ok_def pe_ok_def sync_new_def did_def arrived_def)

lemma run_keeps_inv: "(sync_step A ms)\<^sup>*\<^sup>* sync_new s \<Longrightarrow> barrier_inv s"
  by (induction rule: rtranclp_induct) (auto intro: new_inv exec_keeps_inv elim!: sync_step.cases)

theorem safe:
  assumes "(sync_step A ms)\<^sup>*\<^sup>* sync_new s" "p \<in> set ms" "q \<in> set ms" "c < sync_counter (pes s p)"
  shows "arrived (pes s q) c"
  using run_keeps_inv[OF assms(1)] assms(2-4) unfolding barrier_inv_def knows_def in_ms by blast

section \<open>Progress\<close>

text \<open>While a PE is in a call that all have entered, something can be done: a PE in the earliest phase is not stuck.\<close>

lemma earliest_not_stuck:
  assumes inv: "barrier_inv s" and all: "\<And>j. j \<in> I \<Longrightarrow> arrived (P s j) c" and net: "net s = []"
    and i: "i \<in> I" "sync_counter (P s i) = c" "in_sync (P s i)"
    and first: "\<And>j. j \<in> I \<Longrightarrow> sync_counter (P s j) = c \<Longrightarrow> phase_num (P s i) \<le> phase_num (P s j)"
    and heads: "\<And>j t q as. j \<in> I \<Longrightarrow> in_sync (P s j) \<Longrightarrow> t < length (todo (P s j)) \<Longrightarrow> todo (P s j) ! t \<noteq> Notify q # as"
    and t: "t < length (todo (P s i))" "todo (P s i) ! t = Await q # as"
  shows "c \<le> pSync (P s i) (c mod 2) q"
proof -
  let ?f = "phase_num (P s i)"
  have ok: "remaining (P s i) \<subseteq> set (concat (load A (pe i) ?f))" "1 \<le> c" using inv_pe_ok[OF inv i(1)] i(2,3) unfolding pe_ok_def by blast+
  have "Await q \<in> remaining (P s i)" using t(2) nth_mem[OF t(1)] unfolding remaining_def by (auto intro!: bexI[of _ "todo (P s i) ! t"])
  then have m: "Await q \<in> set (concat (load A (pe i) ?f))" using ok(1) by blast
  then have f: "?f < phases A" unfolding load_def by (cases "?f < phases A") simp_all
  have "Await q \<in> set (concat (actions A (pe i) ?f))" using m f unfolding load_def by (simp del: set_concat)
  then obtain d where d: "d \<in> S ?f" "q = pe ((i - d) mod N)" unfolding acts[OF i(1) f] by auto
  let ?k = "(i - d) mod N"
  have ki: "(?k + d) mod N = i" by (rule go_back[OF i(1)])
  have "Notify (pe i) \<notin> remaining (P s ?k)" if k: "sync_counter (P s ?k) = c" "in_sync (P s ?k)"
  proof
    assume "Notify (pe i) \<in> remaining (P s ?k)"
    then obtain u where u: "u < length (todo (P s ?k))" "Notify (pe i) \<in> set (todo (P s ?k) ! u)"
      unfolding remaining_def set_concat by (metis UN_E in_set_conv_nth)
    have nf: "notify_first (todo (P s ?k) ! u)" using inv_pe_ok[OF inv mod_I, of "i - d"] k(2) u(1) unfolding pe_ok_def
      by (metis list_all_length)
    obtain b bs where b: "todo (P s ?k) ! u = b # bs" using u(2) by (cases "todo (P s ?k) ! u") auto
    obtain y where "b = Await y" using heads[OF mod_I k(2) u(1)] b by (cases b) blast+
    then show False using notify_first_Await[of y bs "pe i"] nf u(2) unfolding b by simp
  qed
  then have "did (P s ?k) ?f (Notify (pe ((?k + d) mod N))) c"
    using all[OF mod_I, of "i - d"] first[OF mod_I, of "i - d"] unfolding did_def arrived_def ki by fastforce
  then show ?thesis using inv_parts(5)[OF inv] f d(1) ok(2) mod_I net unfolding sent_ok_def d(2)
    by (metis ki empty_iff list.set(1))
qed

lemma stuck_done:
  assumes inv: "barrier_inv s" and all: "\<And>j. j \<in> I \<Longrightarrow> arrived (P s j) c" and stuck: "\<nexists>s'. inner_step A ms s s'" and j: "j \<in> I"
  shows "c < sync_counter (P s j)"
proof (rule ccontr)
  assume "\<not> c < sync_counter (P s j)"
  then have j': "sync_counter (P s j) = c" using all[OF j] by (auto simp: arrived_def)
  define J where "J = {i \<in> I. sync_counter (P s i) = c}"
  have "j \<in> J" using j j' by (simp add: J_def)
  then obtain i where i: "i \<in> J" "\<And>k. k \<in> J \<Longrightarrow> phase_num (P s i) \<le> phase_num (P s k)"
    using ex_has_least_nat[of "\<lambda>k. k \<in> J" j "\<lambda>k. phase_num (P s k)"] by blast
  have iI: "i \<in> I" "sync_counter (P s i) = c" using i(1) by (simp_all add: J_def)
  have ins: "in_sync (P s i)" using all[OF iI(1)] iI(2) by (simp add: arrived_def)
  have no: "sync_exec A ms s l = None" if "\<And>p. l \<noteq> Enter p" for l
    using stuck that by (cases "sync_exec A ms s l") (auto intro: inner_step.intros)
  have ms: "pe k \<in> set ms" if "k \<in> I" for k using that in_ms by blast
  have net: "net s = []" using no[of "Deliver 0"] by (cases "net s") (auto split: prod.splits)
  have heads: "todo (P s k) ! t \<noteq> Notify q # as" if "k \<in> I" "in_sync (P s k)" "t < length (todo (P s k))" for k t q as
    using no[of "Act (pe k) t"] that ms[OF that(1)] by (auto simp: Let_def)
  have "concat (todo (P s i)) \<noteq> []" using no[of "Next (pe i)"] ins ms[OF iI(1)] by (auto simp: Let_def simp del: concat_eq_Nil_conv)
  then obtain t a as where t: "t < length (todo (P s i))" "todo (P s i) ! t = a # as"
    by (auto simp: in_set_conv_nth) (metis list.exhaust)
  obtain q where q: "a = Await q" using heads[OF iI(1) ins t(1)] t(2) by (cases a) blast+
  have "c \<le> pSync (P s i) (c mod 2) q"
    by (rule earliest_not_stuck[OF inv all net iI ins _ heads t(1) t(2)[unfolded q]]) (use i(2) in \<open>auto simp: J_def\<close>)
  then have "sync_exec A ms s (Act (pe i) t) \<noteq> None" using t q ins ms[OF iI(1)] iI(2) by (simp add: Let_def)
  then show False using no[of "Act (pe i) t"] by simp
qed

theorem live:
  assumes "(sync_step A ms)\<^sup>*\<^sup>* sync_new s" "\<And>q. q \<in> set ms \<Longrightarrow> arrived (pes s q) c"
  shows "\<exists>s'. (inner_step A ms)\<^sup>*\<^sup>* s s' \<and> (\<forall>q \<in> set ms. c < sync_counter (pes s' q))"
  using run_keeps_inv[OF assms(1)] assms(2)
proof (induction "sync_work A ms s" arbitrary: s rule: less_induct)
  case less
  show ?case
  proof (cases "\<exists>s'. inner_step A ms s s'")
    case True
    then obtain s' l where s': "inner_step A ms s s'" "sync_exec A ms s l = Some s'" by (meson inner_step.cases)
    have "\<exists>s''. (inner_step A ms)\<^sup>*\<^sup>* s' s'' \<and> (\<forall>q \<in> set ms. c < sync_counter (pes s'' q))"
      by (rule less.hyps[OF inner_decreases[OF s'(1)] exec_keeps_inv[OF less.prems(1) s'(2)]])
        (use exec_arrived[OF s'(2)] less.prems(2) in blast)
    then show ?thesis using s'(1) converse_rtranclp_into_rtranclp by metis
  next
    case False
    have "\<forall>q \<in> set ms. c < sync_counter (pes s q)"
      using stuck_done[OF less.prems(1) _ False] less.prems(2) in_ms by metis
    then show ?thesis by blast
  qed
qed

end

end
