(* ===== verification/Barrier_Properties.thy ===== *)
theory Barrier_Properties
  imports Dissem_Correct
begin

text \<open>
  The barrier of \<open>barrier.cuh\<close> keeps its promises: the schedules of its three implementations are dissemination
  schedules, so that no PE leaves a call before all have entered it, and every PE leaves once all have. The
  exception is proved too: the power-of-two version with a radix above 2 takes the shifts of the radix-2 version in its
  later phases, and lets PEs through that have not heard from all.
\<close>

section \<open>The numbers that the threads share\<close>

lemma thread_js_ge: "x \<in> set (thread_js j g k) \<Longrightarrow> j \<le> x"
proof (induction j g k rule: thread_js.induct)
  case (1 j g k)
  show ?case
  proof (cases "j \<le> k - 1 \<and> 0 < g")
    case True
    then have "x = j \<or> x \<in> set (thread_js (j + g) g k)" using 1(2) by (subst (asm) thread_js.simps) simp
    then show ?thesis using 1(1)[OF True] True by auto
  next
    case False then show ?thesis using 1(2) by (subst (asm) thread_js.simps) simp
  qed
qed

lemma set_thread_js: "0 < g \<Longrightarrow> set (thread_js j g k) = {x. j \<le> x \<and> x < k \<and> (x - j) mod g = 0}"
proof (induction j g k rule: thread_js.induct)
  case (1 j g k)
  show ?case
  proof (cases "j \<le> k - 1")
    case True
    have "set (thread_js j g k) = insert j {x. j + g \<le> x \<and> x < k \<and> (x - (j + g)) mod g = 0}"
      using 1 True by (subst thread_js.simps) simp
    also have "\<dots> = {x. j \<le> x \<and> x < k \<and> (x - j) mod g = 0}"
    proof (intro set_eqI iffI)
      fix x assume "x \<in> insert j {x. j + g \<le> x \<and> x < k \<and> (x - (j + g)) mod g = 0}"
      then show "x \<in> {x. j \<le> x \<and> x < k \<and> (x - j) mod g = 0}" using True 1(2)
        by (auto simp: diff_diff_eq[symmetric])
    next
      fix x assume x: "x \<in> {x. j \<le> x \<and> x < k \<and> (x - j) mod g = 0}"
      have "x = j \<or> j + g \<le> x" using x 1(2) by (smt (verit) mem_Collect_eq mod_pos_pos_trivial)
      then show "x \<in> insert j {x. j + g \<le> x \<and> x < k \<and> (x - (j + g)) mod g = 0}"
        using x by (auto simp: diff_diff_eq[symmetric])
    qed
    finally show ?thesis .
  next
    case False then show ?thesis by (subst thread_js.simps) auto
  qed
qed

lemma distinct_thread_js: "distinct (thread_js j g k)"
proof (induction j g k rule: thread_js.induct)
  case (1 j g k)
  then show ?case using thread_js_ge[of j "j + g" g k] by (subst thread_js.simps) auto
qed

lemma takeWhile_thread_js:
  assumes "\<And>x y. x \<le> y \<Longrightarrow> shift x \<le> shift y"
  shows "takeWhile (\<lambda>j. shift j < sz) (thread_js j g k) = filter (\<lambda>j. shift j < (sz :: int)) (thread_js j g k)"
proof (induction j g k rule: thread_js.induct)
  case (1 j g k)
  show ?case
  proof (cases "(j \<le> k - 1 \<and> 0 < g) \<and> \<not> shift j < sz")
    case True
    have "filter (\<lambda>j. shift j < sz) (thread_js (j + g) g k) = []"
    proof (rule filter_False, intro ballI)
      fix x assume "x \<in> set (thread_js (j + g) g k)"
      then have "j \<le> x" using thread_js_ge True by fastforce
      then show "\<not> shift x < sz" using assms[of j x] True by linarith
    qed
    then show ?thesis using True by (subst (1 2) thread_js.simps) simp
  next
    case False
    then show ?thesis using 1 by (subst (1 2) thread_js.simps) auto
  qed
qed

lemma distinct_concat_map:
  assumes "distinct ts" "\<And>t. t \<in> set ts \<Longrightarrow> distinct (F t)"
    "\<And>t u. t \<in> set ts \<Longrightarrow> u \<in> set ts \<Longrightarrow> t \<noteq> u \<Longrightarrow> set (F t) \<inter> set (F u) = {}"
  shows "distinct (concat (map F ts))"
  using assms
proof (induction ts)
  case (Cons t ts)
  have "set (F t) \<inter> set (F u) = {}" if "u \<in> set ts" for u using Cons.prems(1,3) that by auto
  then show ?case using Cons by auto
qed simp

section \<open>Radix schedules\<close>

definition radix_shifts :: "int \<Rightarrow> int \<Rightarrow> nat \<Rightarrow> int set" where
  "radix_shifts k N f = {j * k ^ f | j. 1 \<le> j \<and> j < k \<and> j * k ^ f < N}"

text \<open>The actions of thread \<open>t\<close> of \<open>g\<close> on the PE with index \<open>i\<close>.\<close>

definition radix_actions :: "int \<Rightarrow> int \<Rightarrow> (int \<Rightarrow> int) \<Rightarrow> int \<Rightarrow> nat \<Rightarrow> int \<Rightarrow> int \<Rightarrow> sync_action list" where
  "radix_actions k N pe g f i t =
     (let js = phase_js (\<lambda>j. j * k ^ f) N k g t
      in map (\<lambda>j. Notify (pe ((i + j * k ^ f) mod N))) js @ map (\<lambda>j. Await (pe ((i - j * k ^ f) mod N))) js)"

lemma set_phase_js:
  assumes "0 < g" "1 \<le> k"
  shows "set (phase_js (\<lambda>j. j * k ^ f) N k g t) = {j. t + 1 \<le> j \<and> j < k \<and> (j - (t + 1)) mod g = 0 \<and> j * k ^ f < N}"
    "distinct (phase_js (\<lambda>j. j * k ^ f) N k g t)"
proof -
  have "x * k ^ f \<le> y * k ^ f" if "x \<le> y" for x y :: int using that assms(2) by (intro mult_right_mono) simp_all
  then have p: "phase_js (\<lambda>j. j * k ^ f) N k g t = filter (\<lambda>j. j * k ^ f < N) (thread_js (t + 1) g k)"
    unfolding phase_js_def by (rule takeWhile_thread_js)
  show "set (phase_js (\<lambda>j. j * k ^ f) N k g t) = {j. t + 1 \<le> j \<and> j < k \<and> (j - (t + 1)) mod g = 0 \<and> j * k ^ f < N}"
    unfolding p by (auto simp: set_thread_js[OF assms(1)])
  show "distinct (phase_js (\<lambda>j. j * k ^ f) N k g t)" unfolding p by (simp add: distinct_thread_js)
qed

text \<open>Every number belongs to one thread.\<close>

lemma thread_of:
  assumes "0 < g" "1 \<le> (j :: int)"
  shows "(j - ((j - 1) mod g + 1)) mod g = 0" "(j - 1) mod g + 1 \<le> j" "0 \<le> (j - 1) mod g" "(j - 1) mod g < g"
    "0 \<le> t \<Longrightarrow> t < g \<Longrightarrow> (j - (t + 1)) mod g = 0 \<Longrightarrow> t = (j - 1) mod g"
proof -
  have "j - ((j - 1) mod g + 1) = (j - 1) - (j - 1) mod g" by simp
  then show "(j - ((j - 1) mod g + 1)) mod g = 0" by (simp add: minus_mod_eq_mult_div)
  show "(j - 1) mod g + 1 \<le> j" using zmod_le_nonneg_dividend[of "j - 1" g] assms by simp
  show "0 \<le> (j - 1) mod g" "(j - 1) mod g < g" using assms(1) by simp_all
  show "t = (j - 1) mod g" if "0 \<le> t" "t < g" "(j - (t + 1)) mod g = 0"
  proof -
    have "g dvd (j - 1) - t" using that(3) by (simp add: mod_eq_0_iff_dvd algebra_simps)
    then have "(j - 1) mod g = t mod g" by (simp add: mod_eq_dvd_iff)
    then show ?thesis using that by simp
  qed
qed

lemma shift_inj:
  assumes "0 < a" "a < N" "0 < b" "b < (N :: int)"
  shows "(i + a) mod N = (i + b) mod N \<Longrightarrow> a = b" "(i - a) mod N = (i - b) mod N \<Longrightarrow> a = b"
proof -
  have e: "a = b" if "N dvd a - b" using that assms by (smt (verit) zdvd_imp_le dvd_minus_iff minus_diff_eq)
  show "a = b" if "(i + a) mod N = (i + b) mod N" using that e by (simp add: mod_eq_dvd_iff)
  show "a = b" if "(i - a) mod N = (i - b) mod N"
  proof -
    have "N dvd (i - a) - (i - b)" using that by (simp add: mod_eq_dvd_iff)
    then have "N dvd b - a" by simp
    then show ?thesis using e by (metis dvd_minus_iff minus_diff_eq)
  qed
qed

lemma radix_actions_props:
  assumes g: "0 < g" and k: "1 \<le> k" and N: "0 < N" and inj: "inj_on pe {0..<N}"
  shows "set (concat (map (radix_actions k N pe g f i) [0..g - 1])) =
      (\<lambda>s. Notify (pe ((i + s) mod N))) ` radix_shifts k N f \<union> (\<lambda>s. Await (pe ((i - s) mod N))) ` radix_shifts k N f"
    "distinct (concat (map (radix_actions k N pe g f i) [0..g - 1]))"
    "list_all notify_first (map (radix_actions k N pe g f i) [0..g - 1])"
proof -
  let ?js = "\<lambda>t. phase_js (\<lambda>j. j * k ^ f) N k g t"
  have kf: "0 < k ^ f" using k by simp
  have js: "(\<Union>t \<in> {0..g - 1}. set (?js t)) = {j. 1 \<le> j \<and> j < k \<and> j * k ^ f < N}"
  proof (intro set_eqI iffI)
    fix j assume "j \<in> (\<Union>t \<in> {0..g - 1}. set (?js t))"
    then show "j \<in> {j. 1 \<le> j \<and> j < k \<and> j * k ^ f < N}" by (auto simp: set_phase_js[OF g k])
  next
    fix j assume j: "j \<in> {j. 1 \<le> j \<and> j < k \<and> j * k ^ f < N}"
    then have t: "j \<in> set (?js ((j - 1) mod g))" using thread_of(1,2)[OF g, of j] by (simp add: set_phase_js(1)[OF g k])
    have "(j - 1) mod g \<in> {0..g - 1}" using thread_of(3,4)[OF g, of j] j by simp
    then show "j \<in> (\<Union>t \<in> {0..g - 1}. set (?js t))" using t by blast
  qed
  have "set (concat (map (radix_actions k N pe g f i) [0..g - 1])) =
    (\<lambda>j. Notify (pe ((i + j * k ^ f) mod N))) ` (\<Union>t \<in> {0..g - 1}. set (?js t)) \<union>
    (\<lambda>j. Await (pe ((i - j * k ^ f) mod N))) ` (\<Union>t \<in> {0..g - 1}. set (?js t))"
    by (auto simp: radix_actions_def Let_def)
  then show "set (concat (map (radix_actions k N pe g f i) [0..g - 1])) =
      (\<lambda>s. Notify (pe ((i + s) mod N))) ` radix_shifts k N f \<union> (\<lambda>s. Await (pe ((i - s) mod N))) ` radix_shifts k N f"
    unfolding js radix_shifts_def by auto
  have sh: "0 < j * k ^ f \<and> j * k ^ f < N" if "j \<in> set (?js t)" "0 \<le> t" for j t
    using that kf by (auto simp: set_phase_js[OF g k])
  have eq: "j = j'" if j: "j \<in> set (?js t)" "j' \<in> set (?js u)" "0 \<le> t" "0 \<le> u"
    and e: "(i + j * k ^ f) mod N = (i + j' * k ^ f) mod N \<or> (i - j * k ^ f) mod N = (i - j' * k ^ f) mod N" for j j' t u
  proof -
    have "j * k ^ f = j' * k ^ f" using shift_inj[of "j * k ^ f" N "j' * k ^ f" i] sh[OF j(1,3)] sh[OF j(2,4)] e by blast
    then show ?thesis using k by simp
  qed
  have pe: "pe (a mod N) = pe (b mod N) \<longleftrightarrow> a mod N = b mod N" for a b
    using inj N by (auto simp: inj_on_def)
  show "distinct (concat (map (radix_actions k N pe g f i) [0..g - 1]))"
  proof (rule distinct_concat_map)
    fix t assume "t \<in> set [0..g - 1]"
    then have t: "0 \<le> t" by simp
    show "distinct (radix_actions k N pe g f i t)"
      unfolding radix_actions_def Let_def using set_phase_js(2)[OF g k, of f N t] eq[OF _ _ t t]
      by (auto simp: distinct_map inj_on_def pe)
  next
    fix t u assume tu: "t \<in> set [0..g - 1]" "u \<in> set [0..g - 1]" "t \<noteq> u"
    have "set (?js t) \<inter> set (?js u) = {}"
    proof (rule ccontr)
      assume "set (?js t) \<inter> set (?js u) \<noteq> {}"
      then obtain j where "j \<in> set (?js t)" "j \<in> set (?js u)" by blast
      then show False using thread_of(5)[OF g, of j t] thread_of(5)[OF g, of j u] tu by (auto simp: set_phase_js[OF g k])
    qed
    then show "set (radix_actions k N pe g f i t) \<inter> set (radix_actions k N pe g f i u) = {}"
      using eq[of _ t _ u] tu(1,2) unfolding radix_actions_def Let_def by (auto simp: pe) (metis disjoint_iff)+
  qed simp
  show "list_all notify_first (map (radix_actions k N pe g f i) [0..g - 1])"
  proof -
    have "notify_first (map (\<lambda>j. Notify (F j)) xs @ map (\<lambda>j. Await (G j)) ys)" for F G :: "int \<Rightarrow> int" and xs ys
      unfolding notify_first_def by (rule exI[of _ "map F xs"], rule exI[of _ "map G ys"]) simp
    then show ?thesis by (simp add: list_all_iff radix_actions_def Let_def)
  qed
qed

lemma radix_dissemination:
  assumes g: "0 < g" and N: "0 < N" and inj: "inj_on pe {0..<N}" and ms: "set ms = pe ` {0..<N}"
    and k: "2 \<le> k \<or> phases A = 0" "1 \<le> k" and full: "N \<le> k ^ phases A"
    and acts: "\<And>i f. i \<in> {0..<N} \<Longrightarrow> f < phases A \<Longrightarrow> actions A (pe i) f = map (radix_actions k N pe g f i) [0..g - 1]"
  shows "dissemination A ms N pe (radix_shifts k N) (\<lambda>f. k ^ f)"
proof
  show "radix_shifts k N f \<subseteq> {0<..<N}" for f using k(2) by (auto simp: radix_shifts_def)
  show "radix_shifts k N f \<inter> radix_shifts k N h = {}" if "f \<noteq> h" for f h
  proof -
    have "False" if "a < b" "j * k ^ a = j' * k ^ b" "1 \<le> j" "j < k" "1 \<le> j'" for a b :: nat and j j' :: int
    proof -
      have b: "b = a + Suc (b - a - 1)" using that(1) by simp
      have "j * k ^ a = (j' * k ^ (b - a - 1) * k) * k ^ a" using that(2) by (subst (asm) b) (simp add: power_add ac_simps)
      then have "j = j' * k ^ (b - a - 1) * k" using k(2) by simp
      moreover have "1 \<le> j' * k ^ (b - a - 1)" using that(5) k(2) by (smt (verit) mult_le_cancel_left1 one_le_power mult_pos_pos zero_less_power)
      ultimately show False using that(4) k(2) by (smt (verit) mult_le_cancel_right1)
    qed
    then show ?thesis using that unfolding radix_shifts_def by (smt (verit, best) Collect_empty_eq Int_def mem_Collect_eq linorder_neqE_nat)
  qed
  show "k ^ f \<le> k ^ h" if "f \<le> h" for f h using that k(2) by (rule power_increasing)
  show "d < k ^ f \<or> (\<exists>s \<in> radix_shifts k N f. s \<le> d \<and> d - s < k ^ f)"
    if f: "f < phases A" and d: "0 \<le> d" "d < k ^ Suc f" "d < N" for f d
  proof (cases "d < k ^ f")
    case False
    have kf: "0 < k ^ f" using k(2) by simp
    let ?j = "d div k ^ f"
    have j: "1 \<le> ?j" using False kf by (simp add: int_one_le_iff_zero_less pos_imp_zdiv_pos_iff)
    have le: "?j * k ^ f \<le> d" "d - ?j * k ^ f < k ^ f"
      using kf pos_mod_bound[OF kf, of d] pos_mod_sign[OF kf, of d] by (simp_all add: minus_mod_eq_div_mult[symmetric])
    have "?j < k"
    proof (rule ccontr)
      assume "\<not> ?j < k"
      then have "k * k ^ f \<le> ?j * k ^ f" using kf by (intro mult_right_mono) simp_all
      then show False using le(1) d(2) by simp
    qed
    then have "?j * k ^ f \<in> radix_shifts k N f" using j le(1) d(3) unfolding radix_shifts_def by force
    then show ?thesis using le by blast
  qed simp
qed (use assms radix_actions_props[OF g k(2) N inj] in \<open>simp_all del: set_concat\<close>)

section \<open>The three implementations\<close>

lemma num_phases_Some:
  assumes "num_phases k temp = Some n" "0 \<le> temp"
  shows "2 \<le> k \<or> n = 0 \<and> temp = 0" "2 \<le> k \<Longrightarrow> temp < k ^ n" "temp < k \<Longrightarrow> n \<le> 1"
proof -
  have "(2 \<le> k \<or> n = 0 \<and> temp = 0) \<and> (2 \<le> k \<longrightarrow> temp < k ^ n)" using assms
  proof (induction k temp arbitrary: n rule: num_phases.induct)
    case (1 k temp)
    show ?case
    proof (cases "temp \<le> 0 \<or> k \<le> 1")
      case True then show ?thesis using 1(2,3) by (subst (asm) num_phases.simps) (auto split: if_splits)
    next
      case False
      then obtain m where m: "num_phases k (temp div k) = Some m" "n = Suc m" using 1(2) by (subst (asm) num_phases.simps) auto
      have d: "temp div k < k ^ m" using 1(1)[OF _ _ m(1)] False by (auto simp: pos_imp_zdiv_nonneg_iff)
      have "temp = temp div k * k + temp mod k" "temp mod k < k" using False by simp_all
      moreover have "(temp div k + 1) * k \<le> k ^ m * k" using d False by (intro mult_right_mono) simp_all
      then have "temp div k * k + k \<le> k ^ m * k" by (simp add: distrib_right)
      ultimately have "temp < k ^ m * k" by linarith
      then show ?thesis using False m(2) by (simp add: mult.commute)
    qed
  qed
  then show "2 \<le> k \<or> n = 0 \<and> temp = 0" "2 \<le> k \<Longrightarrow> temp < k ^ n" by blast+
  show "n \<le> 1" if "temp < k"
  proof (cases "temp \<le> 0 \<or> k \<le> 1")
    case True then show ?thesis using assms by (subst (asm) num_phases.simps) (auto split: if_splits)
  next
    case False
    then have "temp div k = 0" using that assms(2) by simp
    moreover have "num_phases k 0 = Some 0" by (subst num_phases.simps) simp
    ultimately show ?thesis using assms(1) False by (subst (asm) num_phases.simps) simp
  qed
qed

lemma num_phases_total: "2 \<le> k \<Longrightarrow> \<exists>n. num_phases k temp = Some n"
proof (induction k temp rule: num_phases.induct)
  case (1 k temp)
  then show ?case by (subst num_phases.simps) fastforce
qed

text \<open>The members' copies of a team agree.\<close>

definition team_pe :: "nvshmemi_team \<Rightarrow> int \<Rightarrow> int" where "team_pe t i = tm_mapping t ! nat i"

definition team_pes :: "nvshmemi_team \<Rightarrow> int list" where "team_pes t = map (team_pe t) [0..tm_size t - 1]"

definition coherent_team :: "nat \<Rightarrow> (int \<Rightarrow> nvshmemi_team) \<Rightarrow> nvshmemi_team \<Rightarrow> bool" where
  "coherent_team npes teams t \<longleftrightarrow> team_ok npes t \<and>
     (\<forall>i \<in> {0..<tm_size t}. tm_my_pe (teams (team_pe t i)) = i \<and> tm_size (teams (team_pe t i)) = tm_size t \<and>
        tm_mapping (teams (team_pe t i)) = tm_mapping t)"

lemma coherent_ok: "coherent_team npes teams t \<Longrightarrow> team_ok npes t" by (simp add: coherent_team_def)

lemma team_size_pos: "team_ok npes t \<Longrightarrow> 0 < tm_size t" by (simp add: team_ok_def)

lemma team_pe_inj:
  assumes "team_ok npes t"
  shows "inj_on (team_pe t) {0..<tm_size t}"
proof (rule inj_onI)
  fix i j assume ij: "i \<in> {0..<tm_size t}" "j \<in> {0..<tm_size t}" "team_pe t i = team_pe t j"
  have "tm_mapping t ! nat (tm_size t + team_pe t x) = x" if "x \<in> {0..<tm_size t}" for x
    using assms that unfolding team_ok_def team_pe_def by blast
  then show "i = j" using ij by metis
qed

lemma set_team_pes: "set (team_pes t) = team_pe t ` {0..<tm_size t}" by (auto simp: team_pes_def)

lemma coherent_copy:
  assumes "coherent_team npes teams t" "i \<in> {0..<tm_size t}"
  shows "tm_my_pe (teams (team_pe t i)) = i" "tm_size (teams (team_pe t i)) = tm_size t"
    "0 \<le> x \<Longrightarrow> x < tm_size t \<Longrightarrow> mapping_at (teams (team_pe t i)) x = Some (team_pe t x)"
proof -
  show "tm_my_pe (teams (team_pe t i)) = i" "tm_size (teams (team_pe t i)) = tm_size t" using assms by (simp_all add: coherent_team_def)
  show "mapping_at (teams (team_pe t i)) x = Some (team_pe t x)" if "0 \<le> x" "x < tm_size t"
  proof -
    have "nat x < nat (tm_size t)" "nat (tm_size t) + npes \<le> length (tm_mapping t)"
      using that coherent_ok[OF assms(1)] by (simp_all add: team_ok_def)
    then show ?thesis using assms that by (simp add: coherent_team_def mapping_at_def team_pe_def)
  qed
qed

lemma behind:
  "i \<in> {0..<N} \<Longrightarrow> 0 \<le> s \<Longrightarrow> s < N \<Longrightarrow> (if i - s < 0 then N + (i - s) else i - s) = (i - s) mod (N :: int)"
  by (auto simp: mod_pos_pos_trivial) (smt (verit) mod_add_self1 mod_pos_pos_trivial)

lemma js_range:
  assumes "0 < g" "1 \<le> k" "0 \<le> u" "j \<in> set (phase_js (\<lambda>j. j * k ^ f) N k g u)"
  shows "0 \<le> j * k ^ f" "j * k ^ f < N"
  using assms(2-4) unfolding set_phase_js(1)[OF assms(1,2)] by simp_all

lemma phase_cong:
  assumes "\<And>j. j \<in> set js \<Longrightarrow> to j = to' j" "\<And>j. j \<in> set js \<Longrightarrow> fr j = fr' j"
  shows "map (\<lambda>j. Notify (to j)) js @ map (\<lambda>j. Await (fr j)) js = map (\<lambda>j. Notify (to' j)) js @ map (\<lambda>j. Await (fr' j)) js"
  using assms by simp

text \<open>Each implementation's phase is the radix schedule, for the power-of-two version with radix 2 or in its first phase.\<close>

lemma pow2_phase_radix:
  assumes "coherent_team npes teams t" "0 < g" "1 \<le> k" "i \<in> {0..<tm_size t}" "0 \<le> u" "k = 2 \<or> f = 0"
  shows "pow2_phase (teams (team_pe t i)) k f g u = radix_actions k (tm_size t) (team_pe t) g f i u"
proof -
  let ?N = "tm_size t"
  have N: "0 < ?N" using team_size_pos[OF coherent_ok[OF assms(1)]] .
  have sh: "push_bit f j = j * k ^ f" for j :: int using assms(6) by (auto simp: push_bit_eq_mult)
  note c = coherent_copy[OF assms(1,4)]
  have w: "the (nvshmemi_team_translate_pe_to_team_world_wrap (teams (team_pe t i)) x) = team_pe t (x mod ?N)" if "0 \<le> x" for x
    using c(3)[of "x mod ?N"] N that by (simp add: nvshmemi_team_translate_pe_to_team_world_wrap_def c(2) smod_pos)
  have f: "the (nvshmemi_team_translate_pe_to_team_world_wrap (teams (team_pe t i)) (if i - s < 0 then ?N + (i - s) else i - s)) =
      team_pe t ((i - s) mod ?N)" if "0 \<le> s" "s < ?N" for s
    unfolding behind[OF assms(4) that] using w[of "(i - s) mod ?N"] N by simp
  show ?thesis unfolding pow2_phase_def radix_actions_def Let_def c(1,2) sh
    by (rule phase_cong; frule js_range(1)[OF assms(2,3,5)]; drule js_range(2)[OF assms(2,3,5)])
      (rule w, use assms(4) in simp, rule f)
qed

lemma non_strided_phase_radix:
  assumes "coherent_team npes teams t" "0 < g" "1 \<le> k" "i \<in> {0..<tm_size t}" "0 \<le> u"
  shows "non_strided_phase (teams (team_pe t i)) k (k ^ f) g u = radix_actions k (tm_size t) (team_pe t) g f i u"
proof -
  let ?N = "tm_size t"
  have N: "0 < ?N" using team_size_pos[OF coherent_ok[OF assms(1)]] .
  note c = coherent_copy[OF assms(1,4)]
  have w: "the (mapping_at (teams (team_pe t i)) (x mod ?N)) = team_pe t (x mod ?N)" for x using c(3)[of "x mod ?N"] N by simp
  have a: "(i + s) smod ?N = (i + s) mod ?N" if "0 \<le> s" for s using that assms(4) N by (simp add: smod_pos)
  show ?thesis unfolding non_strided_phase_def radix_actions_def Let_def c(1,2)
    by (rule phase_cong; frule js_range(1)[OF assms(2,3,5)]; drule js_range(2)[OF assms(2,3,5)])
      (simp only: a w, simp only: behind[OF assms(4)] w)
qed

lemma dissem_2_phase_radix:
  assumes "team_ok npes t" "0 < g" "1 \<le> k" "i \<in> {0..<tm_size t}" "0 \<le> u" "0 < tm_stride t"
  shows "dissem_2_phase (tm_start t) (tm_stride t) (tm_size t) k (team_pe t i) (k ^ f) g u = radix_actions k (tm_size t) (team_pe t) g f i u"
proof -
  let ?N = "tm_size t"
  have N: "0 < ?N" using team_size_pos[OF assms(1)] .
  have p: "team_pe t x = tm_start t + x * tm_stride t" if "0 \<le> x" "x < ?N" for x
    using assms(1) that assms(6) by (simp add: team_ok_def team_pe_def)
  have my: "(team_pe t i - tm_start t) sdiv tm_stride t = i" using assms(4,6) p[of i] by (simp add: sdiv_pos)
  have a: "(i + s) smod ?N = (i + s) mod ?N" if "0 \<le> s" for s using that assms(4) N by (simp add: smod_pos)
  have w: "tm_start t + (x mod ?N) * tm_stride t = team_pe t (x mod ?N)" for x using p[of "x mod ?N"] N by simp
  show ?thesis unfolding dissem_2_phase_def radix_actions_def Let_def my
    by (rule phase_cong; frule js_range(1)[OF assms(2,3,5)]; drule js_range(2)[OF assms(2,3,5)])
      (simp only: a w, simp only: behind[OF assms(4)] w)
qed

lemma schedule_dissemination:
  assumes "team_ok npes t" "0 < g" "num_phases k (tm_size t - 1) = Some n" "phases A = n"
    "1 \<le> k \<Longrightarrow> (\<And>i f u. i \<in> {0..<tm_size t} \<Longrightarrow> f < n \<Longrightarrow> 0 \<le> u \<Longrightarrow> F i f u = radix_actions k (tm_size t) (team_pe t) g f i u)"
    "\<And>i f. i \<in> {0..<tm_size t} \<Longrightarrow> actions A (team_pe t i) f = map (F i f) [0..g - 1]"
  shows "dissemination A (team_pes t) (tm_size t) (team_pe t) (radix_shifts (max k 2) (tm_size t)) (\<lambda>f. max k 2 ^ f)"
proof -
  have N: "0 < tm_size t" by (rule team_size_pos[OF assms(1)])
  note np = num_phases_Some[OF assms(3)]
  show ?thesis
  proof (cases "2 \<le> k")
    case True
    then have "F i f u = radix_actions k (tm_size t) (team_pe t) g f i u" if "i \<in> {0..<tm_size t}" "f < n" "0 \<le> u" for i f u
      using assms(5) that by simp
    then have acts: "actions A (team_pe t i) f = map (radix_actions k (tm_size t) (team_pe t) g f i) [0..g - 1]"
      if "i \<in> {0..<tm_size t}" "f < phases A" for i f using assms(4,6) that by (auto intro!: map_cong)
    have "tm_size t \<le> k ^ phases A" using np(2) True N assms(4) by simp
    then show ?thesis using radix_dissemination[OF assms(2) N team_pe_inj[OF assms(1)] set_team_pes _ _ _ acts] True by (simp add: max_absorb1)
  next
    case False
    then have n0: "phases A = 0" "tm_size t = 1" using np(1) N assms(4) by auto
    show ?thesis by (rule radix_dissemination[OF assms(2) N team_pe_inj[OF assms(1)] set_team_pes]) (simp_all add: n0)
  qed
qed

lemma sync_algo_dissemination:
  assumes coh: "coherent_team npes teams t" and g: "0 < g"
    and A: "nvshmemi_sync_algo_threadgroup kval block g teams t = Some A"
    and radix: "tm_p2p_connected t \<and> block \<or> kval \<notin> {4, 8, 16, 32} \<or> tm_size t \<le> kval"
  shows "\<exists>k. dissemination A (team_pes t) (tm_size t) (team_pe t) (radix_shifts k (tm_size t)) (\<lambda>f. k ^ f)"
proof -
  let ?N = "tm_size t"
  have ok: "team_ok npes t" by (rule coherent_ok[OF coh])
  have N: "0 < ?N" by (rule team_size_pos[OF ok])
  define k where "k = (if tm_p2p_connected t \<and> block then ?N else max (min kval ?N) 2)"
  have A': "(if k \<in> {2, 4, 8, 16, 32} then sync_dissem_pow2_threadgroup k g teams ?N else sync_dissem_threadgroup kval g teams t) = Some A"
    using A unfolding nvshmemi_sync_algo_threadgroup_def Let_def k_def[symmetric] .
  show ?thesis
  proof (cases "k \<in> {2, 4, 8, 16, 32}")
    case True
    then obtain n where n: "num_phases k (?N - 1) = Some n"
      "A = \<lparr>phases = n, actions = \<lambda>p f. map (pow2_phase (teams p) k f g) [0..g - 1]\<rparr>"
      using A' by (auto simp: sync_dissem_pow2_threadgroup_def)
    have k: "k = 2 \<or> ?N - 1 < k" using True radix unfolding k_def by (auto split: if_splits)
    have f0: "k = 2 \<or> f = 0" if "f < n" for f using k num_phases_Some(3)[OF n(1)] N that by force
    show ?thesis by (rule exI, rule schedule_dissemination[OF ok g n(1), where F = "\<lambda>i f. pow2_phase (teams (team_pe t i)) k f g"])
        (use pow2_phase_radix[OF coh g] f0 n(2) in simp_all)
  next
    case False
    then have d: "sync_dissem_threadgroup kval g teams t = Some A" using A' by simp
    show ?thesis
    proof (cases "0 < tm_stride t")
      case True
      then obtain n where n: "num_phases (min kval ?N) (?N - 1) = Some n"
        "A = \<lparr>phases = n, actions = \<lambda>p f. map (dissem_2_phase (tm_start t) (tm_stride t) ?N (min kval ?N) p (min kval ?N ^ f) g) [0..g - 1]\<rparr>"
        using d by (auto simp: sync_dissem_threadgroup_def sync_dissem_threadgroup_2_def Let_def)
      show ?thesis by (rule exI, rule schedule_dissemination[OF ok g n(1),
              where F = "\<lambda>i f. dissem_2_phase (tm_start t) (tm_stride t) ?N (min kval ?N) (team_pe t i) (min kval ?N ^ f) g"])
          (use dissem_2_phase_radix[OF ok g] True n(2) in simp_all)
    next
      case False
      then obtain n where n: "num_phases (min kval ?N) (?N - 1) = Some n"
        "A = \<lparr>phases = n, actions = \<lambda>p f. map (non_strided_phase (teams p) (min kval ?N) (min kval ?N ^ f) g) [0..g - 1]\<rparr>"
        using d by (auto simp: sync_dissem_threadgroup_def sync_dissem_threadgroup_non_strided_def Let_def)
      show ?thesis by (rule exI, rule schedule_dissemination[OF ok g n(1),
              where F = "\<lambda>i f. non_strided_phase (teams (team_pe t i)) (min kval ?N) (min kval ?N ^ f) g"])
          (use non_strided_phase_radix[OF coh g] n(2) in simp_all)
    qed
  qed
qed

section \<open>Strided teams\<close>

text \<open>The strided implementation, for every start, stride, size, radix and number of threads.\<close>

definition strided_team :: "nat \<Rightarrow> nat \<Rightarrow> nat \<Rightarrow> int \<Rightarrow> nvshmemi_team" where
  "strided_team start st n my = (new_team (start + n * (st + 1) + 1) (n + 1))\<lparr>tm_my_pe := my, tm_start := int start,
     tm_stride := int st + 1, tm_size := int n + 1,
     tm_mapping := strided_mapping (start + n * (st + 1) + 1) (int start) (int st + 1) (int n + 1)\<rparr>"

definition strided_algo :: "nat \<Rightarrow> nat \<Rightarrow> nat \<Rightarrow> nat \<Rightarrow> nat \<Rightarrow> sync_algo" where
  "strided_algo kv g start st n = the (sync_dissem_threadgroup_2 (int kv + 2) (int g + 1) (int start) (int st + 1) (int n + 1))"

lemma strided_team_wf: "team_ok (start + n * (st + 1) + 1) (strided_team start st n my)"
  by (rule strided_team_ok) (simp_all add: strided_team_def algebra_simps)

definition strided_radix :: "nat \<Rightarrow> nat \<Rightarrow> int" where
  "strided_radix kv n = max (min (int kv + 2) (int n + 1)) 2"

lemma strided_dissemination:
  "dissemination (strided_algo kv g start st n) (team_pes (strided_team start st n 0)) (int n + 1)
     (team_pe (strided_team start st n 0)) (radix_shifts (strided_radix kv n) (int n + 1)) (\<lambda>f. strided_radix kv n ^ f)"
proof -
  let ?t = "strided_team start st n 0" and ?k = "min (int kv + 2) (int n + 1)"
  have f: "tm_size ?t = int n + 1" "tm_start ?t = int start" "tm_stride ?t = int st + 1" by (simp_all add: strided_team_def)
  obtain m where m: "num_phases ?k (int n + 1 - 1) = Some m"
  proof (cases "n = 0")
    case True
    then have "num_phases ?k (int n + 1 - 1) = Some 0" by (subst num_phases.simps) simp
    then show thesis by (rule that)
  next
    case False
    then have "2 \<le> ?k" by simp
    then show thesis using num_phases_total that by blast
  qed
  have A: "strided_algo kv g start st n = \<lparr>phases = m, actions = \<lambda>p f. map (dissem_2_phase (int start) (int st + 1) (int n + 1) ?k p (?k ^ f) (int g + 1)) [0..int g + 1 - 1]\<rparr>"
    unfolding strided_algo_def sync_dissem_threadgroup_2_def Let_def m by simp
  have "dissemination (strided_algo kv g start st n) (team_pes ?t) (tm_size ?t) (team_pe ?t) (radix_shifts (max ?k 2) (tm_size ?t)) (\<lambda>f. max ?k 2 ^ f)"
    by (rule schedule_dissemination[OF strided_team_wf, of "int g + 1" ?k, where n = m and
          F = "\<lambda>i f. dissem_2_phase (int start) (int st + 1) (int n + 1) ?k (team_pe ?t i) (?k ^ f) (int g + 1)"])
      (use m dissem_2_phase_radix[OF strided_team_wf[of start n st 0]] f A in simp_all)
  then show ?thesis unfolding f strided_radix_def .
qed

interpretation strided: dissemination "strided_algo kv g start st n" "team_pes (strided_team start st n 0)" "int n + 1"
  "team_pe (strided_team start st n 0)" "radix_shifts (strided_radix kv n) (int n + 1)" "\<lambda>f. strided_radix kv n ^ f" for kv g start st n
  by (rule strided_dissemination)

section \<open>The barrier is a barrier\<close>

text \<open>Runs, for the examples.\<close>

fun sync_run :: "sync_algo \<Rightarrow> int list \<Rightarrow> sync_sys \<Rightarrow> sync_label list \<Rightarrow> sync_sys option" where
  "sync_run A ms s [] = Some s"
| "sync_run A ms s (l # ls) = (case sync_exec A ms s l of None \<Rightarrow> None | Some s' \<Rightarrow> sync_run A ms s' ls)"

lemma sync_run_steps: "sync_run A ms s ls = Some s' \<Longrightarrow> (sync_step A ms)\<^sup>*\<^sup>* s s'"
  by (induction ls arbitrary: s) (auto split: option.splits intro: converse_rtranclp_into_rtranclp sync_step.step)

definition demo_views :: "nat \<Rightarrow> int \<Rightarrow> nvshmemi_team" where "demo_views n p = strided_team 0 0 (n - 1) p"

lemma demo_coherent: "0 < n \<Longrightarrow> coherent_team n (demo_views n) (demo_views n 0)"
proof -
  assume n: "0 < n"
  have ok: "team_ok n (demo_views n 0)" using strided_team_wf[of 0 "n - 1" 0 0] n by (simp add: demo_views_def)
  have p: "team_pe (demo_views n 0) i = i" if "i \<in> {0..<tm_size (demo_views n 0)}" for i
    using ok that by (simp add: team_ok_def team_pe_def demo_views_def strided_team_def new_team_def)
  show ?thesis unfolding coherent_team_def using ok p by (auto simp: demo_views_def strided_team_def new_team_def)
qed

definition demo_two :: "sync_label list" where
  "demo_two = [Enter 0, Enter 1, Act 1 0, Deliver 0, Act 0 0, Act 0 0, Next 0]"

lemma demo_two_run:
  "case nvshmemi_sync_algo_threadgroup 2 False 1 (demo_views 2) (demo_views 2 0) of None \<Rightarrow> False
   | Some A \<Rightarrow> (case sync_run A (team_pes (demo_views 2 0)) sync_new demo_two of None \<Rightarrow> False
     | Some s \<Rightarrow> sync_counter (pes s 0) = 2 \<and> in_sync (pes s 1))"
  by code_simp

lemma demo_entered_run:
  "case nvshmemi_sync_algo_threadgroup 2 False 1 (demo_views 2) (demo_views 2 0) of None \<Rightarrow> False
   | Some A \<Rightarrow> (case sync_run A (team_pes (demo_views 2 0)) sync_new [Enter 0, Enter 1] of None \<Rightarrow> False
     | Some s \<Rightarrow> arrived (pes s 0) 1 \<and> arrived (pes s 1) 1 \<and> sync_counter (pes s 1) = 1)"
  by code_simp

definition leak_pes :: "int list" where "leak_pes = [0, 7, 8, 9, 10, 11, 12, 13, 14, 15]"

definition demo_leak :: "sync_label list" where
  "demo_leak = map Enter leak_pes @ concat (map (\<lambda>p. replicate 3 (Act p 0)) leak_pes) @ replicate 30 (Deliver 0) @
     concat (map (\<lambda>p. replicate 3 (Act p 0) @ [Next p] @ replicate 3 (Act p 0)) [14, 12, 10, 0]) @ replicate 12 (Deliver 0) @
     replicate 3 (Act 0 0) @ [Next 0]"

lemma demo_leak_run:
  "case nvshmemi_sync_algo_threadgroup 4 False 1 (demo_views 16) (demo_views 16 0) of None \<Rightarrow> False
   | Some A \<Rightarrow> (case sync_run A (team_pes (demo_views 16 0)) sync_new demo_leak of None \<Rightarrow> False
     | Some s \<Rightarrow> sync_counter (pes s 0) = 2 \<and> list_all (\<lambda>p. \<not> arrived (pes s p) 1) [1, 2, 3, 4, 5, 6])"
  by code_simp

text \<open>
  C4: The device barrier synchronises. In every interleaving of the PEs of a team, their threads and the network, for
  any number of successive calls, a PE returns from its \<open>c\<close>-th call of \<open>nvshmemi_sync_algo_threadgroup\<close> only
  after every PE of the team has entered its \<open>c\<close>-th call. The radix must not be 4, 8, 16 or 32 unless the team has at
  most that many PEs.
\<close>

theorem barrier_safe:
  assumes "coherent_team npes teams t" "0 < g" "nvshmemi_sync_algo_threadgroup kval block g teams t = Some A"
    "tm_p2p_connected t \<and> block \<or> kval \<notin> {4, 8, 16, 32} \<or> tm_size t \<le> kval"
    "(sync_step A (team_pes t))\<^sup>*\<^sup>* sync_new s" "p \<in> set (team_pes t)" "q \<in> set (team_pes t)" "c < sync_counter (pes s p)"
  shows "arrived (pes s q) c"
  using sync_algo_dissemination[OF assms(1-4)] dissemination.safe[OF _ assms(5-8)] by blast

theorem barrier_safe_witness:
  "\<exists>A s. nvshmemi_sync_algo_threadgroup 2 False 1 (demo_views 2) (demo_views 2 0) = Some A \<and>
     (sync_step A (team_pes (demo_views 2 0)))\<^sup>*\<^sup>* sync_new s \<and> 1 < sync_counter (pes s 0) \<and> arrived (pes s 1) 1"
proof -
  obtain A s where A: "nvshmemi_sync_algo_threadgroup 2 False 1 (demo_views 2) (demo_views 2 0) = Some A"
    and s: "sync_run A (team_pes (demo_views 2 0)) sync_new demo_two = Some s" "1 < sync_counter (pes s 0)"
    using demo_two_run by (auto split: option.splits)
  have m: "0 \<in> set (team_pes (demo_views 2 0))" "1 \<in> set (team_pes (demo_views 2 0))" by code_simp+
  have "arrived (pes s 1) 1"
    by (rule barrier_safe[OF demo_coherent _ A _ sync_run_steps[OF s(1)] m s(2)]) simp_all
  then show ?thesis using A s sync_run_steps[OF s(1)] by blast
qed

text \<open>
  C5: The device barrier ends. Once every PE of the team has entered its \<open>c\<close>-th call, all of them can return from it
  without any further call; every step taken inside the calls uses up work, so that no schedule goes on for ever, and a
  schedule that stops has let all of them return.
\<close>

theorem barrier_live:
  assumes "coherent_team npes teams t" "0 < g" "nvshmemi_sync_algo_threadgroup kval block g teams t = Some A"
    "tm_p2p_connected t \<and> block \<or> kval \<notin> {4, 8, 16, 32} \<or> tm_size t \<le> kval"
    "(sync_step A (team_pes t))\<^sup>*\<^sup>* sync_new s" "\<And>q. q \<in> set (team_pes t) \<Longrightarrow> arrived (pes s q) c"
  shows "(\<exists>s'. (inner_step A (team_pes t))\<^sup>*\<^sup>* s s' \<and> (\<forall>q \<in> set (team_pes t). c < sync_counter (pes s' q))) \<and>
    (\<forall>s'. inner_step A (team_pes t) s s' \<longrightarrow> sync_work A (team_pes t) s' < sync_work A (team_pes t) s) \<and>
    ((\<nexists>s'. inner_step A (team_pes t) s s') \<longrightarrow> (\<forall>q \<in> set (team_pes t). c < sync_counter (pes s q)))"
proof -
  obtain k where d: "dissemination A (team_pes t) (tm_size t) (team_pe t) (radix_shifts k (tm_size t)) (\<lambda>f. k ^ f)"
    using sync_algo_dissemination[OF assms(1-4)] by blast
  obtain s' where s': "(inner_step A (team_pes t))\<^sup>*\<^sup>* s s'" "\<forall>q \<in> set (team_pes t). c < sync_counter (pes s' q)"
    using dissemination.live[OF d assms(5,6)] by blast
  have "\<forall>q \<in> set (team_pes t). c < sync_counter (pes s q)" if "\<nexists>s'. inner_step A (team_pes t) s s'"
    using s' that by (metis converse_rtranclpE)
  then show ?thesis using s' inner_decreases by blast
qed

theorem barrier_live_witness:
  "\<exists>A s s'. nvshmemi_sync_algo_threadgroup 2 False 1 (demo_views 2) (demo_views 2 0) = Some A \<and> sync_counter (pes s 1) = 1 \<and>
     (sync_step A (team_pes (demo_views 2 0)))\<^sup>*\<^sup>* sync_new s \<and> (inner_step A (team_pes (demo_views 2 0)))\<^sup>*\<^sup>* s s' \<and> 1 < sync_counter (pes s' 1)"
proof -
  obtain A s where A: "nvshmemi_sync_algo_threadgroup 2 False 1 (demo_views 2) (demo_views 2 0) = Some A"
    and s: "sync_run A (team_pes (demo_views 2 0)) sync_new [Enter 0, Enter 1] = Some s" "arrived (pes s 0) 1" "arrived (pes s 1) 1" "sync_counter (pes s 1) = 1"
    using demo_entered_run by (auto split: option.splits)
  have m: "set (team_pes (demo_views 2 0)) = {0, 1}" by code_simp
  obtain s' where "(inner_step A (team_pes (demo_views 2 0)))\<^sup>*\<^sup>* s s'" "\<forall>q \<in> set (team_pes (demo_views 2 0)). 1 < sync_counter (pes s' q)"
    using barrier_live[OF demo_coherent _ A _ sync_run_steps[OF s(1)], where c = 1] s(2,3) m by auto
  then show ?thesis using A s(4) sync_run_steps[OF s(1)] m by blast
qed

text \<open>
  C6: The radices 4, 8, 16 and 32 are not safe on larger teams. \<open>sync_dissem_pow2_threadgroup\<close> shifts by
  \<open>j << phase_num\<close> where \<open>j * pow_k\<close> is meant. With \<open>NVSHMEM_BARRIER_TG_DISSEM_KVAL=4\<close> and 16 PEs, PE 0 can return from its
  first call while PEs 1 to 6 have not entered theirs.
\<close>

theorem barrier_pow2_leaks:
  "\<exists>A s. nvshmemi_sync_algo_threadgroup 4 False 1 (demo_views 16) (demo_views 16 0) = Some A \<and>
     (sync_step A (team_pes (demo_views 16 0)))\<^sup>*\<^sup>* sync_new s \<and>
     1 < sync_counter (pes s 0) \<and> list_all (\<lambda>p. \<not> arrived (pes s p) 1) [1, 2, 3, 4, 5, 6]"
proof -
  obtain A s where "nvshmemi_sync_algo_threadgroup 4 False 1 (demo_views 16) (demo_views 16 0) = Some A"
    "sync_run A (team_pes (demo_views 16 0)) sync_new demo_leak = Some s" "1 < sync_counter (pes s 0)"
    "list_all (\<lambda>p. \<not> arrived (pes s p) 1) [1, 2, 3, 4, 5, 6]"
    using demo_leak_run by (auto split: option.splits)
  then show ?thesis using sync_run_steps by blast
qed

end
