(* ===== verification/Put_Rounds.thy ===== *)
theory Put_Rounds
  imports Nvshmem_Prelude
begin

text \<open>
  Programs that all PEs of a team run in rounds: put data into the work arrays of other PEs, wait at a barrier (which first
  completes the own puts), compute from the own work array, and synchronise again. \<open>gpu_rdxn_on_demand\<close> and
  \<open>gpu_rdxn_segment_threadgroup\<close> have this form.

  A PE is at stage 0 of a round before its puts, at 1 while they are under way, at 2 when it has arrived at the barrier, at
  3 when it has left it and at 4 when it has computed and arrived at the second synchronisation. Puts arrive in any order
  and at any time before the barrier's quiet. A PE leaves a barrier only when every PE has arrived there: that is what the
  dissemination barrier guarantees. \<open>Reduce_Barrier\<close> puts that barrier in.
\<close>

section \<open>The system\<close>

record 'v rounds_prog =
  rd_count :: nat
  rd_puts :: "int \<Rightarrow> nat \<Rightarrow> (int \<times> nat \<times> 'v) list"
  rd_compute :: "int \<Rightarrow> nat \<Rightarrow> (nat \<Rightarrow> 'v) \<Rightarrow> (nat \<Rightarrow> 'v) \<Rightarrow> (nat \<Rightarrow> 'v)"
  rd_init :: "int \<Rightarrow> nat \<Rightarrow> 'v"

record 'v rounds_state =
  rs_pc :: "int \<Rightarrow> nat"
  rs_dest :: "int \<Rightarrow> nat \<Rightarrow> 'v"
  rs_wrk :: "int \<Rightarrow> nat \<Rightarrow> 'v"
  rs_flight :: "int \<Rightarrow> (int \<times> nat \<times> 'v) list"

datatype rounds_label = Advance int | Deliver int nat

definition rounds_new :: "'v rounds_prog \<Rightarrow> (int \<Rightarrow> nat \<Rightarrow> 'v) \<Rightarrow> 'v rounds_state" where
  "rounds_new P wrk = \<lparr>rs_pc = \<lambda>_. 0, rs_dest = rd_init P, rs_wrk = wrk, rs_flight = \<lambda>_. []\<rparr>"

definition all_arrived :: "int list \<Rightarrow> 'v rounds_state \<Rightarrow> nat \<Rightarrow> bool" where
  "all_arrived ms s n \<longleftrightarrow> list_all (\<lambda>q. n \<le> rs_pc s q) ms"

definition next_pc :: "int \<Rightarrow> 'v rounds_state \<Rightarrow> 'v rounds_state" where
  "next_pc p s = s\<lparr>rs_pc := (rs_pc s)(p := rs_pc s p + 1)\<rparr>"

definition rounds_advance :: "'v rounds_prog \<Rightarrow> int list \<Rightarrow> int \<Rightarrow> 'v rounds_state \<Rightarrow> 'v rounds_state option" where
  "rounds_advance P ms p s =
     (let n = rs_pc s p; r = n div 5; stage = n mod 5
      in if p \<notin> set ms \<or> rd_count P \<le> r then None
         else if stage = 0 then Some (next_pc p (s\<lparr>rs_flight := (rs_flight s)(p := rd_puts P p r)\<rparr>))
         else if stage = 1 then if rs_flight s p = [] then Some (next_pc p s) else None
         else if stage = 3 then Some (next_pc p (s\<lparr>rs_dest := (rs_dest s)(p := rd_compute P p r (rs_wrk s p) (rs_dest s p))\<rparr>))
         else if all_arrived ms s n then Some (next_pc p s) else None)"

definition rounds_deliver :: "int \<Rightarrow> nat \<Rightarrow> 'v rounds_state \<Rightarrow> 'v rounds_state option" where
  "rounds_deliver p i s =
     (if i < length (rs_flight s p) then
        case rs_flight s p ! i of (t, x, v) \<Rightarrow>
          Some (s\<lparr>rs_wrk := (rs_wrk s)(t := (rs_wrk s t)(x := v)),
                  rs_flight := (rs_flight s)(p := take i (rs_flight s p) @ drop (Suc i) (rs_flight s p))\<rparr>)
      else None)"

fun rounds_exec :: "'v rounds_prog \<Rightarrow> int list \<Rightarrow> rounds_label \<Rightarrow> 'v rounds_state \<Rightarrow> 'v rounds_state option" where
  "rounds_exec P ms (Advance p) s = rounds_advance P ms p s"
| "rounds_exec P ms (Deliver p i) s = rounds_deliver p i s"

definition rounds_step :: "'v rounds_prog \<Rightarrow> int list \<Rightarrow> 'v rounds_state \<Rightarrow> 'v rounds_state \<Rightarrow> bool" where
  "rounds_step P ms s s' \<longleftrightarrow> (\<exists>l. rounds_exec P ms l s = Some s')"

definition finished :: "'v rounds_prog \<Rightarrow> 'v rounds_state \<Rightarrow> int \<Rightarrow> bool" where
  "finished P s p \<longleftrightarrow> rs_pc s p = 5 * rd_count P"

fun rounds_run :: "'v rounds_prog \<Rightarrow> int list \<Rightarrow> 'v rounds_state \<Rightarrow> rounds_label list \<Rightarrow> 'v rounds_state option" where
  "rounds_run P ms s [] = Some s"
| "rounds_run P ms s (l # ls) = (case rounds_exec P ms l s of None \<Rightarrow> None | Some s' \<Rightarrow> rounds_run P ms s' ls)"

lemma rounds_run_steps: "rounds_run P ms s ls = Some s' \<Longrightarrow> (rounds_step P ms)\<^sup>*\<^sup>* s s'"
proof (induction ls arbitrary: s)
  case (Cons l ls)
  then obtain u where u: "rounds_exec P ms l s = Some u" "rounds_run P ms u ls = Some s'" by (auto split: option.splits)
  then have "rounds_step P ms s u" by (auto simp: rounds_step_def)
  then show ?case using Cons.IH[OF u(2)] by simp
qed simp

text \<open>The cases of a step.\<close>

lemma advance_cases:
  assumes "rounds_advance P ms p s = Some s'"
  obtains (common) "p \<in> set ms" "rs_pc s p div 5 < rd_count P" "rs_pc s' = (rs_pc s)(p := rs_pc s p + 1)" "rs_wrk s' = rs_wrk s"
    "rs_pc s p mod 5 = 0 \<and> rs_flight s' = (rs_flight s)(p := rd_puts P p (rs_pc s p div 5)) \<and> rs_dest s' = rs_dest s \<or>
     rs_pc s p mod 5 = 1 \<and> rs_flight s p = [] \<and> rs_flight s' = rs_flight s \<and> rs_dest s' = rs_dest s \<or>
     rs_pc s p mod 5 = 3 \<and> rs_flight s' = rs_flight s \<and>
       rs_dest s' = (rs_dest s)(p := rd_compute P p (rs_pc s p div 5) (rs_wrk s p) (rs_dest s p)) \<or>
     (rs_pc s p mod 5 = 2 \<or> rs_pc s p mod 5 = 4) \<and> (\<forall>q\<in>set ms. rs_pc s p \<le> rs_pc s q) \<and> rs_flight s' = rs_flight s \<and>
       rs_dest s' = rs_dest s"
proof -
  have m: "rs_pc s p mod 5 < 5" by simp
  then have "rs_pc s p mod 5 \<in> {0, 1, 2, 3, 4}" by auto
  then show ?thesis
    using assms common unfolding rounds_advance_def Let_def next_pc_def all_arrived_def list_all_iff
    by (auto split: if_splits)
qed

lemma deliver_cases:
  assumes "rounds_deliver p i s = Some s'"
  obtains t x v where "(t, x, v) \<in> set (rs_flight s p)" "rs_pc s' = rs_pc s" "rs_dest s' = rs_dest s"
    "rs_wrk s' = (rs_wrk s)(t := (rs_wrk s t)(x := v))" "\<And>q. q \<noteq> p \<Longrightarrow> rs_flight s' q = rs_flight s q"
    "set (rs_flight s p) = insert (t, x, v) (set (rs_flight s' p))" "length (rs_flight s p) = Suc (length (rs_flight s' p))"
proof -
  obtain t x v where i: "i < length (rs_flight s p)" "rs_flight s p ! i = (t, x, v)"
    using assms by (cases "rs_flight s p ! i") (auto simp: rounds_deliver_def split: if_splits)
  have split: "rs_flight s p = take i (rs_flight s p) @ (t, x, v) # drop (Suc i) (rs_flight s p)" using id_take_nth_drop[OF i(1)] i(2) by simp
  have s': "s' = s\<lparr>rs_wrk := (rs_wrk s)(t := (rs_wrk s t)(x := v)),
      rs_flight := (rs_flight s)(p := take i (rs_flight s p) @ drop (Suc i) (rs_flight s p))\<rparr>"
    using assms i by (simp add: rounds_deliver_def)
  show ?thesis
  proof (rule that)
    show "(t, x, v) \<in> set (rs_flight s p)" using i by (metis nth_mem)
    show "set (rs_flight s p) = insert (t, x, v) (set (rs_flight s' p))" by (subst split) (auto simp: s')
    show "length (rs_flight s p) = Suc (length (rs_flight s' p))" by (subst split) (simp add: s')
  qed (simp_all add: s')
qed

section \<open>Every run ends\<close>

definition rounds_work :: "'v rounds_prog \<Rightarrow> int list \<Rightarrow> 'v rounds_state \<Rightarrow> nat" where
  "rounds_work P ms s = (\<Sum>p\<leftarrow>ms. 5 * rd_count P - rs_pc s p)"

definition in_flight :: "int list \<Rightarrow> 'v rounds_state \<Rightarrow> nat" where
  "in_flight ms s = (\<Sum>p\<leftarrow>ms. length (rs_flight s p))"

section \<open>What a run computes\<close>

text \<open>
  \<open>got p r x\<close> is what the PEs put in round \<open>r\<close> at place \<open>x\<close> of PE \<open>p\<close>'s work array, for the places PE \<open>p\<close> reads. The laws
  say that somebody puts it, that nobody puts anything else, and that the computation reads nothing else.
\<close>

locale put_rounds =
  fixes P :: "'v rounds_prog" and ms :: "int list" and reads :: "int \<Rightarrow> nat \<Rightarrow> nat set" and got :: "int \<Rightarrow> nat \<Rightarrow> nat \<Rightarrow> 'v"
  assumes written: "p \<in> set ms \<Longrightarrow> r < rd_count P \<Longrightarrow> x \<in> reads p r \<Longrightarrow> \<exists>q\<in>set ms. (p, x, got p r x) \<in> set (rd_puts P q r)"
    and only: "p \<in> set ms \<Longrightarrow> q \<in> set ms \<Longrightarrow> r < rd_count P \<Longrightarrow> x \<in> reads p r \<Longrightarrow> (p, x, v) \<in> set (rd_puts P q r) \<Longrightarrow> v = got p r x"
    and compute: "p \<in> set ms \<Longrightarrow> r < rd_count P \<Longrightarrow> (\<And>x. x \<in> reads p r \<Longrightarrow> w x = got p r x) \<Longrightarrow>
      rd_compute P p r w d = rd_compute P p r (got p r) d"
begin

fun ideal :: "int \<Rightarrow> nat \<Rightarrow> nat \<Rightarrow> 'v" where
  "ideal p 0 = rd_init P p"
| "ideal p (Suc r) = rd_compute P p r (got p r) (ideal p r)"

definition windows :: "'v rounds_state \<Rightarrow> bool" where
  "windows s \<longleftrightarrow> (\<forall>p\<in>set ms. \<forall>q\<in>set ms. \<forall>n. (n mod 5 = 2 \<or> n mod 5 = 4) \<longrightarrow> n < rs_pc s p \<longrightarrow> n \<le> rs_pc s q)"

definition flights :: "'v rounds_state \<Rightarrow> bool" where
  "flights s \<longleftrightarrow> (\<forall>q. rs_flight s q \<noteq> [] \<longrightarrow> q \<in> set ms \<and> rs_pc s q mod 5 = 1 \<and> rs_pc s q div 5 < rd_count P \<and>
     set (rs_flight s q) \<subseteq> set (rd_puts P q (rs_pc s q div 5)))"

definition contents :: "'v rounds_state \<Rightarrow> bool" where
  "contents s \<longleftrightarrow> (\<forall>p\<in>set ms. \<forall>q\<in>set ms. \<forall>r < rd_count P. \<forall>x\<in>reads p r. (p, x, got p r x) \<in> set (rd_puts P q r) \<longrightarrow>
     5 * r + 1 \<le> rs_pc s q \<longrightarrow> (\<forall>q'\<in>set ms. rs_pc s q' \<le> 5 * r + 5) \<longrightarrow>
     (p, x, got p r x) \<in> set (rs_flight s q) \<or> rs_wrk s p x = got p r x)"

definition results :: "'v rounds_state \<Rightarrow> bool" where
  "results s \<longleftrightarrow> (\<forall>p\<in>set ms. rs_dest s p = ideal p ((rs_pc s p + 1) div 5) \<and> rs_pc s p \<le> 5 * rd_count P)"

lemma windowsD:
  "windows s \<Longrightarrow> p \<in> set ms \<Longrightarrow> q \<in> set ms \<Longrightarrow> n mod 5 = 2 \<or> n mod 5 = 4 \<Longrightarrow> n < rs_pc s p \<Longrightarrow> n \<le> rs_pc s q"
  unfolding windows_def by blast

lemma windows_step:
  assumes "windows s" "rounds_exec P ms l s = Some s'"
  shows "windows s'"
proof (cases l)
  case (Advance p0)
  then have "rounds_advance P ms p0 s = Some s'" using assms(2) by simp
  then show ?thesis
  proof (cases rule: advance_cases)
    case common
    show ?thesis unfolding windows_def
    proof (intro ballI allI impI)
      fix p q n assume a: "p \<in> set ms" "q \<in> set ms" "n mod 5 = 2 \<or> n mod 5 = 4" "n < rs_pc s' p"
      have up: "rs_pc s q \<le> rs_pc s' q" by (simp add: common(3))
      show "n \<le> rs_pc s' q"
      proof (cases "n < rs_pc s p")
        case True
        then show ?thesis using assms(1) a up unfolding windows_def by (meson order_trans)
      next
        case False
        then have "p = p0" "n = rs_pc s p0" using a(4) by (auto simp: common(3) split: if_splits)
        then show ?thesis using common(5) a up by auto
      qed
    qed
  qed
next
  case (Deliver p0 i)
  then have "rs_pc s' = rs_pc s" using assms(2) by (auto elim: deliver_cases)
  then show ?thesis using assms(1) by (simp add: windows_def)
qed

lemma flights_step:
  assumes "flights s" "rounds_exec P ms l s = Some s'"
  shows "flights s'"
proof (cases l)
  case (Advance p0)
  then have "rounds_advance P ms p0 s = Some s'" using assms(2) by simp
  then show ?thesis
  proof (cases rule: advance_cases)
    case common
    have empty: "rs_flight s p0 = []" if "rs_pc s p0 mod 5 \<noteq> 1" using assms(1) that unfolding flights_def by blast
    show ?thesis unfolding flights_def
    proof (intro allI impI)
      fix q assume q: "rs_flight s' q \<noteq> []"
      show "q \<in> set ms \<and> rs_pc s' q mod 5 = 1 \<and> rs_pc s' q div 5 < rd_count P \<and> set (rs_flight s' q) \<subseteq> set (rd_puts P q (rs_pc s' q div 5))"
      proof (cases "q = p0")
        case True
        have z: "rs_pc s p0 mod 5 = 0" "rs_flight s' p0 = rd_puts P p0 (rs_pc s p0 div 5)" using common(5) q True empty by auto
        have "(rs_pc s p0 + 1) mod 5 = 1" "(rs_pc s p0 + 1) div 5 = rs_pc s p0 div 5" using z(1) by presburger+
        then show ?thesis using True z common(1-3) by simp
      next
        case False
        then have "rs_flight s' q = rs_flight s q" using common(5) by auto
        then show ?thesis using assms(1) q False by (simp add: flights_def common(3))
      qed
    qed
  qed
next
  case (Deliver p0 i)
  then have "rounds_deliver p0 i s = Some s'" using assms(2) by simp
  then show ?thesis
  proof (rule deliver_cases)
    fix t x v assume d: "(t, x, v) \<in> set (rs_flight s p0)" "rs_pc s' = rs_pc s" "\<And>q. q \<noteq> p0 \<Longrightarrow> rs_flight s' q = rs_flight s q"
      "set (rs_flight s p0) = insert (t, x, v) (set (rs_flight s' p0))"
    have sub: "set (rs_flight s' q) \<subseteq> set (rs_flight s q)" for q using d(3)[of q] d(4) by (cases "q = p0") auto
    show ?thesis unfolding flights_def
    proof (intro allI impI)
      fix q assume "rs_flight s' q \<noteq> []"
      then have "rs_flight s q \<noteq> []" using sub[of q] by auto
      then show "q \<in> set ms \<and> rs_pc s' q mod 5 = 1 \<and> rs_pc s' q div 5 < rd_count P \<and> set (rs_flight s' q) \<subseteq> set (rd_puts P q (rs_pc s' q div 5))"
        using assms(1) sub[of q] unfolding flights_def d(2) by blast
    qed
  qed
qed

lemma contents_step:
  assumes w: "windows s" and f: "flights s" and c: "contents s" and e: "rounds_exec P ms l s = Some s'"
  shows "contents s'"
  unfolding contents_def
proof (intro ballI allI impI)
  fix p q r x assume a: "p \<in> set ms" "q \<in> set ms" "r < rd_count P" "x \<in> reads p r" "(p, x, got p r x) \<in> set (rd_puts P q r)"
    "5 * r + 1 \<le> rs_pc s' q" and hi: "\<forall>q'\<in>set ms. rs_pc s' q' \<le> 5 * r + 5"
  have old: "(p, x, got p r x) \<in> set (rs_flight s q) \<or> rs_wrk s p x = got p r x"
    if "5 * r + 1 \<le> rs_pc s q" "\<forall>q'\<in>set ms. rs_pc s q' \<le> 5 * r + 5"
    using c a(1-5) that unfolding contents_def by blast
  show "(p, x, got p r x) \<in> set (rs_flight s' q) \<or> rs_wrk s' p x = got p r x"
  proof (cases l)
    case (Advance p0)
    then have "rounds_advance P ms p0 s = Some s'" using e by simp
    then show ?thesis
    proof (cases rule: advance_cases)
      case common
      have hi': "\<forall>q'\<in>set ms. rs_pc s q' \<le> 5 * r + 5"
      proof
        fix q' assume "q' \<in> set ms"
        then have "rs_pc s' q' \<le> 5 * r + 5" using hi by blast
        then show "rs_pc s q' \<le> 5 * r + 5" by (auto simp: common(3) split: if_splits)
      qed
      show ?thesis
      proof (cases "5 * r + 1 \<le> rs_pc s q")
        case True
        have "set (rs_flight s q) \<subseteq> set (rs_flight s' q)"
        proof (cases "rs_flight s q = []")
          case False
          then have "rs_pc s q mod 5 = 1" using f by (simp add: flights_def)
          then show ?thesis using common(5) False by auto
        qed simp
        then show ?thesis using old[OF True hi'] common(4) by auto
      next
        case False
        then have n: "p0 = q" "rs_pc s q = 5 * r" using a(6) by (auto simp: common(3) split: if_splits)
        then show ?thesis using common(5) a(5) by simp
      qed
    qed
  next
    case (Deliver p0 i)
    then have "rounds_deliver p0 i s = Some s'" using e by simp
    then show ?thesis
    proof (rule deliver_cases)
      fix t y v assume d: "(t, y, v) \<in> set (rs_flight s p0)" "rs_pc s' = rs_pc s"
        "rs_wrk s' = (rs_wrk s)(t := (rs_wrk s t)(y := v))" "\<And>q. q \<noteq> p0 \<Longrightarrow> rs_flight s' q = rs_flight s q"
        "set (rs_flight s p0) = insert (t, y, v) (set (rs_flight s' p0))"
      let ?r = "rs_pc s p0 div 5"
      have p0: "p0 \<in> set ms" "rs_pc s p0 mod 5 = 1" "?r < rd_count P" "(t, y, v) \<in> set (rd_puts P p0 ?r)"
        using f d(1) unfolding flights_def by (force simp: subset_iff)+
      have "?r = r"
      proof -
        have "rs_pc s p0 \<le> 5 * r + 5" using hi d(2) p0(1) by simp
        moreover have "5 * r \<le> rs_pc s p0 + 1"
        proof (cases r)
          case (Suc k)
          have "(5 * k + 4) mod 5 = 4" by presburger
          moreover have "5 * k + 4 < rs_pc s q" using a(6) d(2) Suc by simp
          ultimately have "5 * k + 4 \<le> rs_pc s p0" by (intro windowsD[OF w a(2) p0(1)]) simp_all
          then show ?thesis using Suc by simp
        qed simp
        ultimately show ?thesis using p0(2) by presburger
      qed
      then have "v = got p r x" if "t = p" "y = x" using only[OF a(1) p0(1) a(3,4)] p0(4) that by blast
      moreover have "(p, x, got p r x) \<in> set (rs_flight s q) \<or> rs_wrk s p x = got p r x" using old a(6) hi d(2) by simp
      ultimately show ?thesis using d(3-5) by (cases "q = p0") auto
    qed
  qed
qed

lemma results_step:
  assumes w: "windows s" and f: "flights s" and c: "contents s" and d: "results s" and e: "rounds_exec P ms l s = Some s'"
  shows "results s'"
proof (cases l)
  case (Deliver p0 i)
  then have "rs_pc s' = rs_pc s" "rs_dest s' = rs_dest s" using e by (auto elim: deliver_cases)
  then show ?thesis using d by (simp add: results_def)
next
  case (Advance p0)
  then have "rounds_advance P ms p0 s = Some s'" using e by simp
  then show ?thesis
  proof (cases rule: advance_cases)
    case common
    let ?n = "rs_pc s p0" and ?r = "rs_pc s p0 div 5"
    have own: "rs_dest s' p0 = ideal p0 ((?n + 2) div 5)"
    proof (cases "?n mod 5 = 3")
      case True
      have n: "?n = 5 * ?r + 3" using True by presburger
      have ge: "5 * ?r + 2 \<le> rs_pc s q \<and> rs_pc s q \<le> 5 * ?r + 4" if "q \<in> set ms" for q
      proof
        have "(5 * ?r + 2) mod 5 = 2" by presburger
        then show "5 * ?r + 2 \<le> rs_pc s q" using n by (intro windowsD[OF w common(1) that]) linarith+
        show "rs_pc s q \<le> 5 * ?r + 4"
        proof (rule ccontr)
          assume gt: "\<not> rs_pc s q \<le> 5 * ?r + 4"
          have "(5 * ?r + 4) mod 5 = 4" by presburger
          then have "5 * ?r + 4 \<le> ?n" using gt by (intro windowsD[OF w that common(1)]) linarith+
          then show False using n by linarith
        qed
      qed
      have "rs_wrk s p0 x = got p0 ?r x" if x: "x \<in> reads p0 ?r" for x
      proof -
        obtain q where q: "q \<in> set ms" "(p0, x, got p0 ?r x) \<in> set (rd_puts P q ?r)" using written[OF common(1,2) x] by blast
        have "rs_flight s q = []"
        proof (rule ccontr)
          assume "rs_flight s q \<noteq> []"
          then have "rs_pc s q mod 5 = 1" using f by (simp add: flights_def)
          then show False using ge[OF q(1)] by presburger
        qed
        moreover have "5 * ?r + 1 \<le> rs_pc s q" using ge[OF q(1)] by linarith
        moreover have "\<forall>q'\<in>set ms. rs_pc s q' \<le> 5 * ?r + 5" using ge by fastforce
        ultimately show ?thesis using c common(1,2) q x unfolding contents_def by (metis empty_iff list.set(1))
      qed
      then have "rd_compute P p0 ?r (rs_wrk s p0) (rs_dest s p0) = rd_compute P p0 ?r (got p0 ?r) (rs_dest s p0)"
        by (rule compute[OF common(1,2)])
      moreover have "(?n + 1) div 5 = ?r" using n by presburger
      then have "rs_dest s p0 = ideal p0 ?r" using d common(1) by (simp add: results_def)
      moreover have "(?n + 2) div 5 = Suc ?r" using n by presburger
      ultimately show ?thesis using common(5) True by simp
    next
      case False
      have "rs_dest s' p0 = rs_dest s p0" using common(5) False by auto
      moreover have "(?n + 2) div 5 = (?n + 1) div 5" using False by presburger
      ultimately show ?thesis using d common(1) by (simp add: results_def)
    qed
    have le: "?n + 1 \<le> 5 * rd_count P" using common(2) by linarith
    show ?thesis unfolding results_def
    proof
      fix p assume p: "p \<in> set ms"
      show "rs_dest s' p = ideal p ((rs_pc s' p + 1) div 5) \<and> rs_pc s' p \<le> 5 * rd_count P"
      proof (cases "p = p0")
        case True
        then show ?thesis using own le by (simp add: common(3))
      next
        case False
        then have "rs_dest s' p = rs_dest s p" using common(5) by auto
        then show ?thesis using d p False by (simp add: results_def common(3))
      qed
    qed
  qed
qed


definition rounds_inv :: "'v rounds_state \<Rightarrow> bool" where
  "rounds_inv s \<longleftrightarrow> windows s \<and> flights s \<and> contents s \<and> results s"

lemma rounds_inv_reachable: "(rounds_step P ms)\<^sup>*\<^sup>* (rounds_new P wrk) s \<Longrightarrow> rounds_inv s"
proof (induction rule: rtranclp_induct)
  case base
  show ?case by (simp add: rounds_inv_def windows_def flights_def contents_def results_def rounds_new_def)
next
  case (step s s')
  then show ?case unfolding rounds_inv_def rounds_step_def
    using windows_step flights_step contents_step results_step by blast
qed

theorem computes:
  assumes "(rounds_step P ms)\<^sup>*\<^sup>* (rounds_new P wrk) s" "p \<in> set ms" "finished P s p"
  shows "rs_dest s p = ideal p (rd_count P)"
proof -
  have "results s" using rounds_inv_reachable[OF assms(1)] by (simp add: rounds_inv_def)
  moreover have "(5 * rd_count P + 1) div 5 = rd_count P" by presburger
  ultimately show ?thesis using assms(2,3) by (simp add: results_def finished_def)
qed

lemma step_uses_work:
  assumes "rounds_inv s" "rounds_step P ms s s'"
  shows "rounds_work P ms s' < rounds_work P ms s \<or> rounds_work P ms s' = rounds_work P ms s \<and> in_flight ms s' < in_flight ms s"
proof -
  obtain l where l: "rounds_exec P ms l s = Some s'" using assms(2) by (auto simp: rounds_step_def)
  have sum_less: "(\<Sum>p\<leftarrow>ms. g p) < (\<Sum>p\<leftarrow>ms. f p)" if "q \<in> set ms" "\<And>p. g p \<le> f p" "g q < f q" for f g :: "int \<Rightarrow> nat" and q
    using that(1)
  proof (induction ms)
    case (Cons a as)
    have "(\<Sum>p\<leftarrow>as. g p) \<le> (\<Sum>p\<leftarrow>as. f p)" using that(2) by (intro sum_list_mono)
    then show ?case using Cons that(2)[of a] that(3) by (cases "a = q") auto
  qed simp
  show ?thesis
  proof (cases l)
    case (Advance p)
    then have "rounds_advance P ms p s = Some s'" using l by simp
    then have "p \<in> set ms" "rs_pc s p div 5 < rd_count P" "rs_pc s' = (rs_pc s)(p := rs_pc s p + 1)" by (auto elim: advance_cases)
    then have "rounds_work P ms s' < rounds_work P ms s" unfolding rounds_work_def
      by (intro sum_less[of p]) (auto simp: diff_le_mono2)
    then show ?thesis by simp
  next
    case (Deliver p i)
    then have "rounds_deliver p i s = Some s'" using l by simp
    then show ?thesis
    proof (rule deliver_cases)
      fix t x v assume d: "(t, x, v) \<in> set (rs_flight s p)" "rs_pc s' = rs_pc s" "\<And>q. q \<noteq> p \<Longrightarrow> rs_flight s' q = rs_flight s q"
        "length (rs_flight s p) = Suc (length (rs_flight s' p))"
      have "rs_flight s p \<noteq> []" using d(1) by auto
      then have "p \<in> set ms" using assms(1) by (simp add: rounds_inv_def flights_def)
      moreover have "length (rs_flight s' q) \<le> length (rs_flight s q)" for q using d(3)[of q] d(4) by (cases "q = p") simp_all
      ultimately have "in_flight ms s' < in_flight ms s" unfolding in_flight_def using d(4) by (intro sum_less[of p]) simp_all
      then show ?thesis using d(2) by (simp add: rounds_work_def)
    qed
  qed
qed

lemma step_enabled:
  assumes "rounds_inv s" "q \<in> set ms" "\<not> finished P s q"
  shows "\<exists>s'. rounds_step P ms s s'"
proof -
  define n where "n = Min (rs_pc s ` set ms)"
  have "n \<in> rs_pc s ` set ms" unfolding n_def using assms(2) by (intro Min_in) auto
  then obtain p where p: "p \<in> set ms" "rs_pc s p = n" by auto
  have min: "n \<le> rs_pc s x" if "x \<in> set ms" for x unfolding n_def using that by (intro Min_le) auto
  have "rs_pc s q \<le> 5 * rd_count P" using assms(1,2) by (simp add: rounds_inv_def results_def)
  then have "rs_pc s p < 5 * rd_count P" using min[OF assms(2)] p(2) assms(3) by (simp add: finished_def)
  then have r: "rs_pc s p div 5 < rd_count P" by linarith
  show ?thesis
  proof (cases "rs_flight s p")
    case Nil
    have "all_arrived ms s (rs_pc s p)" using min p(2) by (simp add: all_arrived_def list_all_iff)
    then have "\<exists>s'. rounds_advance P ms p s = Some s'" using p(1) r Nil by (auto simp: rounds_advance_def Let_def)
    then show ?thesis unfolding rounds_step_def by (metis rounds_exec.simps(1))
  next
    case (Cons m ml)
    then have "\<exists>s'. rounds_deliver p 0 s = Some s'" by (auto simp: rounds_deliver_def split: prod.splits)
    then show ?thesis unfolding rounds_step_def by (metis rounds_exec.simps(2))
  qed
qed

theorem ends:
  assumes "rounds_inv s"
  shows "\<exists>s'. (rounds_step P ms)\<^sup>*\<^sup>* s s' \<and> (\<forall>p\<in>set ms. finished P s' p)"
  using assms
proof (induction "(rounds_work P ms s, in_flight ms s)" arbitrary: s rule: wf_induct_rule[OF wf_lex_prod[OF wf_less_than wf_less_than]])
  case (1 s)
  show ?case
  proof (cases "\<forall>p\<in>set ms. finished P s p")
    case False
    then obtain s' where s': "rounds_step P ms s s'" using step_enabled[OF 1(2)] by blast
    have "rounds_inv s'" using 1(2) s' windows_step flights_step contents_step results_step
      unfolding rounds_inv_def rounds_step_def by blast
    moreover have "((rounds_work P ms s', in_flight ms s'), (rounds_work P ms s, in_flight ms s)) \<in> less_than <*lex*> less_than"
      using step_uses_work[OF 1(2) s'] by auto
    ultimately obtain u where "(rounds_step P ms)\<^sup>*\<^sup>* s' u" "\<forall>p\<in>set ms. finished P u p" using 1(1) by blast
    then show ?thesis using s' by (meson converse_rtranclp_into_rtranclp)
  qed blast
qed


end

end
