(* ===== verification/Reduce_Rounds.thy ===== *)
theory Reduce_Rounds
  imports Put_Rounds Barrier_Properties "HOL-Library.Multiset"
begin

text \<open>
  The reductions of \<open>reduce.cuh\<close> that work in rounds: \<open>gpu_rdxn_on_demand_2\<close>, which team creation uses before a team has an
  index, \<open>gpu_rdxn_on_demand\<close>, and \<open>gpu_rdxn_segment_threadgroup\<close>, the general case, which cuts the data into segments that
  fit the scratch space. In a round a PE puts a piece of its source to the PEs some shifts ahead in the team, each piece at a
  place of its own, and adds up what it received.

  The copy of \<open>source\<close> to \<open>dest\<close> with which they begin is complete when the first barrier is passed.
\<close>

section \<open>One round\<close>

text \<open>A round: the offset of the piece in the data, its number of elements, and the shifts, in the order of their places.\<close>

type_synonym shift_round = "nat \<times> nat \<times> int list"

definition shift_puts :: "(int \<Rightarrow> int \<Rightarrow> int) \<Rightarrow> (int \<Rightarrow> nat \<Rightarrow> 'v) \<Rightarrow> int \<Rightarrow> shift_round \<Rightarrow> (int \<times> nat \<times> 'v) list" where
  "shift_puts tgt source p = (\<lambda>(offset, cnt, ks).
     concat (map (\<lambda>(round, k). map (\<lambda>e. (tgt p k, round * cnt + e, source p (offset + e))) [0..<cnt]) (enumerate 0 ks)))"

text \<open>\<open>op1 = dest + offset\<close>, \<open>op2 = tmp_operand + round * cnt\<close>, result to \<open>op1\<close>.\<close>

definition gpu_linear_reduce_threadgroup :: "('v \<Rightarrow> 'v \<Rightarrow> 'v) \<Rightarrow> nat \<Rightarrow> nat \<Rightarrow> nat \<Rightarrow> (nat \<Rightarrow> 'v) \<Rightarrow> (nat \<Rightarrow> 'v) \<Rightarrow> nat \<Rightarrow> 'v" where
  "gpu_linear_reduce_threadgroup rdxn offset place cnt wrk dest =
     (\<lambda>j. if offset \<le> j \<and> j < offset + cnt then rdxn (dest j) (wrk (place + (j - offset))) else dest j)"

definition shift_compute :: "('v \<Rightarrow> 'v \<Rightarrow> 'v) \<Rightarrow> shift_round \<Rightarrow> (nat \<Rightarrow> 'v) \<Rightarrow> (nat \<Rightarrow> 'v) \<Rightarrow> nat \<Rightarrow> 'v" where
  "shift_compute rdxn = (\<lambda>(offset, cnt, ks) wrk dest.
     fold (\<lambda>round. gpu_linear_reduce_threadgroup rdxn offset (round * cnt) cnt wrk) [0..<length ks] dest)"

definition shift_prog :: "(int \<Rightarrow> int \<Rightarrow> int) \<Rightarrow> ('v \<Rightarrow> 'v \<Rightarrow> 'v) \<Rightarrow> (int \<Rightarrow> nat \<Rightarrow> 'v) \<Rightarrow> shift_round list \<Rightarrow> 'v rounds_prog" where
  "shift_prog tgt rdxn source rounds = \<lparr>rd_count = length rounds, rd_puts = \<lambda>p r. shift_puts tgt source p (rounds ! r),
     rd_compute = \<lambda>p r. shift_compute rdxn (rounds ! r), rd_init = source\<rparr>"

lemma shift_prog_sel [simp]:
  "rd_count (shift_prog tgt rdxn source rounds) = length rounds"
  "rd_puts (shift_prog tgt rdxn source rounds) p r = shift_puts tgt source p (rounds ! r)"
  "rd_compute (shift_prog tgt rdxn source rounds) p r = shift_compute rdxn (rounds ! r)"
  "rd_init (shift_prog tgt rdxn source rounds) = source"
  by (simp_all add: shift_prog_def)

section \<open>The reductions\<close>

definition active_target :: "int \<Rightarrow> int \<Rightarrow> int \<Rightarrow> int \<Rightarrow> int \<Rightarrow> int" where
  "active_target start stride sz mype i = start + (((mype - start) sdiv stride + i) smod sz) * stride"

definition whole_rounds :: "int \<Rightarrow> nat \<Rightarrow> shift_round list" where
  "whole_rounds sz nelems = map (\<lambda>i. (0, nelems, [i])) [1..sz - 1]"

definition gpu_rdxn_on_demand_2 :: "int \<Rightarrow> int \<Rightarrow> int \<Rightarrow> ('v \<Rightarrow> 'v \<Rightarrow> 'v) \<Rightarrow> (int \<Rightarrow> nat \<Rightarrow> 'v) \<Rightarrow> nat \<Rightarrow> 'v rounds_prog" where
  "gpu_rdxn_on_demand_2 start stride sz rdxn source nelems =
     shift_prog (active_target start stride sz) rdxn source (whole_rounds sz nelems)"

definition team_target :: "(int \<Rightarrow> nvshmemi_team) \<Rightarrow> int \<Rightarrow> int \<Rightarrow> int" where
  "team_target teams mype i = the (nvshmemi_team_translate_pe_to_team_world_wrap (teams mype) (tm_my_pe (teams mype) + i))"

definition gpu_rdxn_on_demand :: "(int \<Rightarrow> nvshmemi_team) \<Rightarrow> int \<Rightarrow> ('v \<Rightarrow> 'v \<Rightarrow> 'v) \<Rightarrow> (int \<Rightarrow> nat \<Rightarrow> 'v) \<Rightarrow> nat \<Rightarrow> 'v rounds_prog" where
  "gpu_rdxn_on_demand teams sz rdxn source nelems =
     shift_prog (team_target teams) rdxn source (whole_rounds sz nelems)"

text \<open>
  The do-while loop over the rest that is shorter than a segment: as many PEs per round as fit. \<open>pes_per_round\<close> is at
  least 1, because the rest is shorter than a segment.
\<close>

function rest_rounds :: "nat \<Rightarrow> nat \<Rightarrow> nat \<Rightarrow> int \<Rightarrow> int \<Rightarrow> shift_round list" where
  "rest_rounds offset cnt pes_per_round sz pe_offset =
     (let ks = take pes_per_round [pe_offset..sz - 1]; pe_offset' = pe_offset + int (length ks)
      in (offset, cnt, ks) #
         (if pe_offset' < sz \<and> 0 < pes_per_round then rest_rounds offset cnt pes_per_round sz pe_offset' else []))"
  by pat_completeness auto
termination
  by (relation "measure (\<lambda>(offset, cnt, pes_per_round, sz, pe_offset). nat (sz - pe_offset))") (auto simp: nat_less_eq_zless min_def)

declare rest_rounds.simps [simp del]

text \<open>
  \<open>None\<close> is a division by zero: the scratch space is too small for a segment of one byte. Sizes are natural numbers: they
  are those of arrays in memory, for which \<open>msg_len\<close> does not wrap.
\<close>

definition rdxn_seg_size :: "nat \<Rightarrow> nat" where "rdxn_seg_size reduce_scratch_size = (reduce_scratch_size div 2) div 8"

definition segment_rounds :: "nat \<Rightarrow> nat \<Rightarrow> int \<Rightarrow> nat \<Rightarrow> shift_round list option" where
  "segment_rounds reduce_scratch_size type_size sz nelems =
     (let msg_len = nelems * type_size; seg_size = rdxn_seg_size reduce_scratch_size; rnds_floor = msg_len div seg_size;
          remainder = msg_len mod seg_size; cnt = seg_size div type_size
      in if seg_size = 0 then None
         else Some (concat (map (\<lambda>j. map (\<lambda>i. (j * cnt, cnt, [i])) [1..sz - 1]) [0..<rnds_floor]) @
                (if remainder \<noteq> 0 then rest_rounds (rnds_floor * cnt) (remainder div type_size) (seg_size div remainder) sz 1 else [])))"

definition gpu_rdxn_segment_threadgroup ::
  "nat \<Rightarrow> nat \<Rightarrow> (int \<Rightarrow> nvshmemi_team) \<Rightarrow> int \<Rightarrow> ('v \<Rightarrow> 'v \<Rightarrow> 'v) \<Rightarrow> (int \<Rightarrow> nat \<Rightarrow> 'v) \<Rightarrow> nat \<Rightarrow> 'v rounds_prog option" where
  "gpu_rdxn_segment_threadgroup reduce_scratch_size type_size teams sz rdxn source nelems =
     map_option (shift_prog (team_target teams) rdxn source) (segment_rounds reduce_scratch_size type_size sz nelems)"

section \<open>What a program of shifts computes\<close>

text \<open>Shifting is a permutation of the team: \<open>bk p k\<close> is the one PE whose shift by \<open>k\<close> is \<open>p\<close>.\<close>

definition round_reads :: "shift_round list \<Rightarrow> int \<Rightarrow> nat \<Rightarrow> nat set" where
  "round_reads rounds p r = (case rounds ! r of (offset, cnt, ks) \<Rightarrow> {x. x < length ks * cnt})"

definition round_got :: "(int \<Rightarrow> int \<Rightarrow> int) \<Rightarrow> (int \<Rightarrow> nat \<Rightarrow> 'v) \<Rightarrow> shift_round list \<Rightarrow> int \<Rightarrow> nat \<Rightarrow> nat \<Rightarrow> 'v" where
  "round_got bk source rounds p r x = (case rounds ! r of (offset, cnt, ks) \<Rightarrow> source (bk p (ks ! (x div cnt))) (offset + x mod cnt))"

lemma shift_puts_iff:
  "(t, x, v) \<in> set (shift_puts tgt source p (offset, cnt, ks)) \<longleftrightarrow>
   x < length ks * cnt \<and> t = tgt p (ks ! (x div cnt)) \<and> v = source p (offset + x mod cnt)"
proof
  assume "(t, x, v) \<in> set (shift_puts tgt source p (offset, cnt, ks))"
  then obtain i e where ie: "i < length ks" "e < cnt" "t = tgt p (ks ! i)" "x = i * cnt + e" "v = source p (offset + e)"
    by (auto simp: shift_puts_def in_set_enumerate_eq)
  have "i * cnt + e < (i + 1) * cnt" using ie(2) by simp
  also have "\<dots> \<le> length ks * cnt" using ie(1) by (intro mult_right_mono) simp_all
  finally show "x < length ks * cnt \<and> t = tgt p (ks ! (x div cnt)) \<and> v = source p (offset + x mod cnt)" using ie by simp
next
  assume a: "x < length ks * cnt \<and> t = tgt p (ks ! (x div cnt)) \<and> v = source p (offset + x mod cnt)"
  then have c: "0 < cnt" by (cases cnt) simp_all
  have i: "x div cnt < length ks" using a c by (simp add: less_mult_imp_div_less)
  have "x = x div cnt * cnt + x mod cnt" by simp
  then show "(t, x, v) \<in> set (shift_puts tgt source p (offset, cnt, ks))"
    using a i c by (force simp: shift_puts_def in_set_enumerate_eq image_iff)
qed

lemma shift_compute_got:
  assumes "rounds ! r = (offset, cnt, ks)"
  shows "shift_compute rdxn (offset, cnt, ks) (round_got bk source rounds p r) d j =
    fold (\<lambda>k acc. rdxn acc (source (bk p k) j)) (if offset \<le> j \<and> j < offset + cnt then ks else []) (d j)"
proof -
  have "m \<le> length ks \<Longrightarrow>
      fold (\<lambda>round. gpu_linear_reduce_threadgroup rdxn offset (round * cnt) cnt (round_got bk source rounds p r)) [0..<m] d j =
      fold (\<lambda>k acc. rdxn acc (source (bk p k) j)) (if offset \<le> j \<and> j < offset + cnt then take m ks else []) (d j)" for m
  proof (induction m)
    case (Suc m)
    have "round_got bk source rounds p r (m * cnt + (j - offset)) = source (bk p (ks ! m)) j" if "offset \<le> j" "j < offset + cnt"
    proof -
      define e where "e = j - offset"
      have e: "e < cnt" "offset + e = j" using that by (simp_all add: e_def)
      have "(m * cnt + e) div cnt = m" "(m * cnt + e) mod cnt = e" using e(1) by simp_all
      then show ?thesis unfolding round_got_def assms prod.case e_def[symmetric] using e(2) by simp
    qed
    note g = this
    let ?D = "fold (\<lambda>round. gpu_linear_reduce_threadgroup rdxn offset (round * cnt) cnt (round_got bk source rounds p r)) [0..<m] d"
    have ih: "?D j = fold (\<lambda>k acc. rdxn acc (source (bk p k) j)) (if offset \<le> j \<and> j < offset + cnt then take m ks else []) (d j)"
      using Suc by simp
    have t: "take (Suc m) ks = take m ks @ [ks ! m]" using Suc.prems by (simp add: take_Suc_conv_app_nth)
    have "gpu_linear_reduce_threadgroup rdxn offset (m * cnt) cnt (round_got bk source rounds p r) ?D j =
        fold (\<lambda>k acc. rdxn acc (source (bk p k) j)) (if offset \<le> j \<and> j < offset + cnt then take (Suc m) ks else []) (d j)"
    proof (cases "offset \<le> j \<and> j < offset + cnt")
      case True
      then show ?thesis unfolding gpu_linear_reduce_threadgroup_def[of rdxn offset "m * cnt"] using g ih t by simp
    next
      case False
      then show ?thesis unfolding gpu_linear_reduce_threadgroup_def[of rdxn offset "m * cnt"] using ih by (simp only: if_False fold.simps id_apply)
    qed
    then show ?case by simp
  qed simp
  from this[of "length ks"] show ?thesis by (simp add: shift_compute_def cong: if_cong)
qed

lemma shift_compute_cong:
  assumes "\<And>x. x < length ks * cnt \<Longrightarrow> w x = w' x"
  shows "shift_compute rdxn (offset, cnt, ks) w d = shift_compute rdxn (offset, cnt, ks) w' d"
proof -
  have "gpu_linear_reduce_threadgroup rdxn offset (i * cnt) cnt w = gpu_linear_reduce_threadgroup rdxn offset (i * cnt) cnt w'"
    if "i < length ks" for i
  proof (intro ext)
    fix d j
    show "gpu_linear_reduce_threadgroup rdxn offset (i * cnt) cnt w d j = gpu_linear_reduce_threadgroup rdxn offset (i * cnt) cnt w' d j"
    proof (cases "offset \<le> j \<and> j < offset + cnt")
      case True
      then have "j - offset < cnt" by linarith
      then have "i * cnt + (j - offset) < (i + 1) * cnt" by simp
      also have "\<dots> \<le> length ks * cnt" using that by (intro mult_right_mono) simp_all
      finally show ?thesis using assms by (simp add: gpu_linear_reduce_threadgroup_def)
    qed (auto simp: gpu_linear_reduce_threadgroup_def)
  qed
  then show ?thesis unfolding shift_compute_def prod.case by (intro List.fold_cong refl) simp
qed

locale shift_team =
  fixes ms :: "int list" and tgt bk :: "int \<Rightarrow> int \<Rightarrow> int"
  assumes bk_mem: "p \<in> set ms \<Longrightarrow> 0 \<le> k \<Longrightarrow> bk p k \<in> set ms"
    and tgt_bk: "p \<in> set ms \<Longrightarrow> q \<in> set ms \<Longrightarrow> 0 \<le> k \<Longrightarrow> tgt q k = p \<longleftrightarrow> q = bk p k"

locale shift_rounds = shift_team +
  fixes rounds :: "shift_round list"
  assumes shifts: "(offset, cnt, ks) \<in> set rounds \<Longrightarrow> k \<in> set ks \<Longrightarrow> 0 \<le> k"

sublocale shift_rounds < sched: put_rounds "shift_prog tgt rdxn source rounds" ms "round_reads rounds" "round_got bk source rounds"
  for rdxn source
proof
  fix p r x assume a: "p \<in> set ms" "x \<in> round_reads rounds p r" and r: "r < rd_count (shift_prog tgt rdxn source rounds)"
  obtain offset cnt ks where R: "rounds ! r = (offset, cnt, ks)" by (cases "rounds ! r") auto
  let ?q = "bk p (ks ! (x div cnt))"
  have "x div cnt < length ks" using a(2) by (simp add: round_reads_def R less_mult_imp_div_less)
  then have k: "0 \<le> ks ! (x div cnt)" using shifts nth_mem[of r rounds] r by (simp add: R)
  have "?q \<in> set ms" using bk_mem[OF a(1) k] .
  moreover have "tgt ?q (ks ! (x div cnt)) = p" using tgt_bk[OF a(1) calculation k] by simp
  ultimately show "\<exists>q\<in>set ms. (p, x, round_got bk source rounds p r x) \<in> set (rd_puts (shift_prog tgt rdxn source rounds) q r)"
    using a(2) by (intro bexI[of _ ?q]) (simp_all add: R shift_puts_iff round_reads_def round_got_def)
next
  fix p q r x v assume r: "r < rd_count (shift_prog tgt rdxn source rounds)" and a: "p \<in> set ms" "q \<in> set ms" "x \<in> round_reads rounds p r"
    "(p, x, v) \<in> set (rd_puts (shift_prog tgt rdxn source rounds) q r)"
  obtain offset cnt ks where R: "rounds ! r = (offset, cnt, ks)" by (cases "rounds ! r") auto
  have e: "tgt q (ks ! (x div cnt)) = p" "v = source q (offset + x mod cnt)" using a(4) by (simp_all add: R shift_puts_iff)
  have "x div cnt < length ks" using a(3) by (simp add: round_reads_def R less_mult_imp_div_less)
  then have k: "0 \<le> ks ! (x div cnt)" using shifts nth_mem[of r rounds] r by (simp add: R)
  have "q = bk p (ks ! (x div cnt))" using tgt_bk[OF a(1,2) k] e(1) by blast
  then show "v = round_got bk source rounds p r x" using e(2) by (simp add: round_got_def R)
next
  fix p r w d assume a: "\<And>x. x \<in> round_reads rounds p r \<Longrightarrow> w x = round_got bk source rounds p r x"
  obtain offset cnt ks where R: "rounds ! r = (offset, cnt, ks)" by (cases "rounds ! r") auto
  show "rd_compute (shift_prog tgt rdxn source rounds) p r w d =
      rd_compute (shift_prog tgt rdxn source rounds) p r (round_got bk source rounds p r) d"
    unfolding shift_prog_sel R using a by (intro shift_compute_cong) (simp add: round_reads_def R)
qed

text \<open>The shifts that reach an element, in the order of the rounds.\<close>

definition covering :: "nat \<Rightarrow> shift_round list \<Rightarrow> int list" where
  "covering j rounds = concat (map (\<lambda>(offset, cnt, ks). if offset \<le> j \<and> j < offset + cnt then ks else []) rounds)"

context shift_rounds
begin

lemma sched_ideal:
  "r \<le> length rounds \<Longrightarrow> sched.ideal rdxn source p r j =
     fold (\<lambda>k acc. rdxn acc (source (bk p k) j)) (covering j (take r rounds)) (source p j)"
proof (induction r)
  case 0
  then show ?case by (simp add: covering_def)
next
  case (Suc r)
  obtain offset cnt ks where R: "rounds ! r = (offset, cnt, ks)" by (cases "rounds ! r") auto
  have "sched.ideal rdxn source p (Suc r) j =
      fold (\<lambda>k acc. rdxn acc (source (bk p k) j)) (if offset \<le> j \<and> j < offset + cnt then ks else []) (sched.ideal rdxn source p r j)"
    unfolding sched.ideal.simps shift_prog_sel R by (rule shift_compute_got[OF R])
  also have "\<dots> = fold (\<lambda>k acc. rdxn acc (source (bk p k) j)) (covering j (take (Suc r) rounds)) (source p j)"
    using Suc by (simp add: covering_def take_Suc_conv_app_nth R)
  finally show ?case .
qed

lemma sched_rounds: "put_rounds (shift_prog tgt rdxn source rounds) ms (round_reads rounds) (round_got bk source rounds)"
  by (rule sched.put_rounds_axioms)

theorem shifts_compute:
  assumes "(rounds_step (shift_prog tgt rdxn source rounds) ms)\<^sup>*\<^sup>* (rounds_new (shift_prog tgt rdxn source rounds) wrk) s"
    "p \<in> set ms" "finished (shift_prog tgt rdxn source rounds) s p"
  shows "rs_dest s p j = fold (\<lambda>k acc. rdxn acc (source (bk p k) j)) (covering j rounds) (source p j)"
  using sched.computes[OF assms] sched_ideal[of "length rounds" rdxn source p j] by simp

end

section \<open>The shifts of the reductions\<close>

lemma covering_append: "covering j (xs @ ys) = covering j xs @ covering j ys"
  by (simp add: covering_def)

lemma covering_single: "covering j (map (\<lambda>i. (offset, cnt, [i])) ks) = (if offset \<le> j \<and> j < offset + cnt then ks else [])"
  by (induction ks) (auto simp: covering_def)

lemma covering_Nil: "covering j [] = []" by (simp add: covering_def)

lemma covering_Cons: "covering j ((offset, cnt, ks) # rs) = (if offset \<le> j \<and> j < offset + cnt then ks else []) @ covering j rs"
  by (simp add: covering_def)

lemma covering_rest:
  assumes "0 < ppr"
  shows "covering j (rest_rounds offset cnt ppr sz po) = (if offset \<le> j \<and> j < offset + cnt then [po..sz - 1] else [])"
proof (induction "nat (sz - po)" arbitrary: po rule: less_induct)
  case less
  let ?ks = "take ppr [po..sz - 1]" and ?in = "offset \<le> j \<and> j < offset + cnt"
  let ?po = "po + int (length ?ks)"
  show ?case
  proof (cases "?po < sz")
    case True
    then have len: "int (length ?ks) = int ppr" "po + int ppr < sz" by (auto simp: min_def split: if_splits)
    have "[po..sz - 1] = [po..po + int ppr - 1] @ [po + int ppr..sz - 1]"
      using upto_split1[of po "po + int ppr" "sz - 1"] len(2) by simp
    moreover have "length [po..po + int ppr - 1] = ppr" by simp
    ultimately have ks: "?ks @ [?po..sz - 1] = [po..sz - 1]" using len(1) by (metis append_eq_conv_conj)
    have "nat (sz - ?po) < nat (sz - po)" using len assms by simp
    note ih = less[OF this]
    have "covering j (rest_rounds offset cnt ppr sz po) = (if ?in then ?ks else []) @ covering j (rest_rounds offset cnt ppr sz ?po)"
      by (subst rest_rounds.simps) (simp only: Let_def covering_Cons True assms simp_thms if_True)
    then show ?thesis using ih ks by (simp split: if_splits)
  next
    case False
    then have "?ks = [po..sz - 1]" by (auto simp: min_def split: if_splits)
    moreover have "covering j (rest_rounds offset cnt ppr sz po) = (if ?in then ?ks else []) @ covering j []"
      by (subst rest_rounds.simps) (simp only: Let_def covering_Cons False simp_thms if_False)
    ultimately show ?thesis by (simp add: covering_def)
  qed
qed

lemma covering_segments:
  "covering j (concat (map (\<lambda>i. map (\<lambda>k. (i * cnt, cnt, [k])) ks) [0..<n])) = (if j < n * cnt then ks else [])"
proof (induction n)
  case (Suc n)
  have "n * cnt + cnt = Suc n * cnt" by simp
  then show ?case using Suc covering_single[of j "n * cnt" cnt ks] by (auto simp: covering_append)
qed (simp add: covering_def)

lemma covering_segment_rounds:
  assumes "segment_rounds scratch ts sz nelems = Some rounds" "0 < ts" "ts dvd rdxn_seg_size scratch" "j < nelems"
  shows "covering j rounds = [1..sz - 1]"
proof -
  let ?seg = "rdxn_seg_size scratch" and ?msg = "nelems * ts"
  have seg: "0 < ?seg" using assms(1) by (auto simp: segment_rounds_def Let_def split: if_splits)
  obtain cnt where cnt: "?seg = cnt * ts" using assms(3) by (metis dvd_div_mult_self)
  then have c: "?seg div ts = cnt" using assms(2) by simp
  let ?n = "?msg div ?seg" and ?m = "?msg mod ?seg"
  have n: "?n = nelems div cnt" "?m = (nelems mod cnt) * ts" using assms(2) unfolding cnt by (simp_all add: mult_mod_left)
  have split: "nelems = ?n * cnt + nelems mod cnt" unfolding n(1) by simp
  have ppr: "0 < ?seg div ?m" if "?m \<noteq> 0" using seg that by (simp add: div_greater_zero_iff mod_less_divisor less_imp_le)
  have r: "covering j rounds = (if j < ?n * cnt then [1..sz - 1] else []) @
      (if ?m \<noteq> 0 then if ?n * cnt \<le> j \<and> j < ?n * cnt + ?m div ts then [1..sz - 1] else [] else [])"
  proof -
    have "rounds = concat (map (\<lambda>i. map (\<lambda>k. (i * cnt, cnt, [k])) [1..sz - 1]) [0..<?n]) @
        (if ?m \<noteq> 0 then rest_rounds (?n * cnt) (?m div ts) (?seg div ?m) sz 1 else [])"
      using assms(1) seg unfolding segment_rounds_def Let_def c by (simp only: less_numeral_extra option.inject neq0_conv[symmetric] if_False simp_thms)
    then show ?thesis using covering_rest[OF ppr, of j "?n * cnt" "?m div ts" sz 1]
      by (simp only: covering_append covering_segments covering_Nil split: if_split) simp
  qed
  have m: "?m div ts = nelems mod cnt" "?m = 0 \<longleftrightarrow> nelems mod cnt = 0" using n(2) assms(2) by simp_all
  show ?thesis
  proof (cases "j < ?n * cnt")
    case False
    then have "j < ?n * cnt + nelems mod cnt" "nelems mod cnt \<noteq> 0" using assms(4) split by linarith+
    then show ?thesis unfolding r using False m by simp
  qed (simp add: r)
qed

lemma rest_shifts:
  "(offset', cnt', ks) \<in> set (rest_rounds offset cnt ppr sz po) \<Longrightarrow> k \<in> set ks \<Longrightarrow> po \<le> k \<and> k < sz"
proof (induction offset cnt ppr sz po rule: rest_rounds.induct)
  case (1 offset cnt ppr sz po)
  let ?ks = "take ppr [po..sz - 1]"
  have sub: "x \<in> set ?ks \<Longrightarrow> po \<le> x \<and> x < sz" for x by (auto dest: in_set_takeD)
  have "(offset', cnt', ks) = (offset, cnt, ?ks) \<or> po + int (length ?ks) < sz \<and> 0 < ppr \<and>
      (offset', cnt', ks) \<in> set (rest_rounds offset cnt ppr sz (po + int (length ?ks)))"
    using 1(2) by (subst (asm) rest_rounds.simps) (simp only: Let_def list.set insert_iff empty_iff split: if_splits; blast)
  then show ?case
  proof
    assume "(offset', cnt', ks) = (offset, cnt, ?ks)"
    then show ?thesis using sub 1(3) by simp
  next
    assume a: "po + int (length ?ks) < sz \<and> 0 < ppr \<and> (offset', cnt', ks) \<in> set (rest_rounds offset cnt ppr sz (po + int (length ?ks)))"
    have "po + int (length ?ks) \<le> k \<and> k < sz" using 1(1)[OF refl refl _ _ 1(3)] a by blast
    then show ?thesis by linarith
  qed
qed

lemma segment_shifts:
  assumes "segment_rounds scratch ts sz nelems = Some rounds" "(offset, cnt, ks) \<in> set rounds" "k \<in> set ks"
  shows "0 \<le> k"
proof -
  have rest: "0 \<le> k" if "(offset, cnt, ks) \<in> set (rest_rounds o' c' ppr sz 1)" for o' c' ppr
    using rest_shifts[OF that assms(3)] by linarith
  show ?thesis using assms
    by (auto simp: segment_rounds_def Let_def split: if_splits intro: rest)
qed

section \<open>Shifting in a team\<close>

lemma mod_shift: "i \<in> {0..<n} \<Longrightarrow> i' \<in> {0..<n} \<Longrightarrow> (i' + k) mod n = i \<longleftrightarrow> i' = (i - k) mod (n :: int)"
proof
  assume i: "i \<in> {0..<n}" "i' \<in> {0..<n}" and e: "(i' + k) mod n = i"
  have "(i - k) mod n = ((i' + k) mod n - k) mod n" using e by simp
  also have "\<dots> = i' mod n" by (simp add: mod_diff_left_eq)
  finally show "i' = (i - k) mod n" using i by simp
next
  assume i: "i \<in> {0..<n}" "i' \<in> {0..<n}" and e: "i' = (i - k) mod n"
  have "(i' + k) mod n = i mod n" unfolding e by (simp add: mod_add_left_eq)
  then show "(i' + k) mod n = i" using i by simp
qed

definition pe_behind :: "(int \<Rightarrow> nvshmemi_team) \<Rightarrow> nvshmemi_team \<Rightarrow> int \<Rightarrow> int \<Rightarrow> int" where
  "pe_behind teams t p k = team_pe t ((tm_my_pe (teams p) - k) mod tm_size t)"

lemma coherent_shift_team:
  assumes "coherent_team npes teams t"
  shows "shift_team (team_pes t) (team_target teams) (pe_behind teams t)"
proof -
  let ?n = "tm_size t"
  note ok = coherent_ok[OF assms] and cp = coherent_copy[OF assms]
  have n: "0 < ?n" by (rule team_size_pos[OF ok])
  have mem: "\<exists>i\<in>{0..<?n}. p = team_pe t i" if "p \<in> set (team_pes t)" for p using that set_team_pes by auto
  have md: "x mod ?n \<in> {0..<?n}" for x using n by simp
  show ?thesis
  proof
    fix p k assume "p \<in> set (team_pes t)" "0 \<le> (k :: int)"
    then show "pe_behind teams t p k \<in> set (team_pes t)" using md by (simp add: pe_behind_def set_team_pes)
  next
    fix p q k assume a: "p \<in> set (team_pes t)" "q \<in> set (team_pes t)" "0 \<le> (k :: int)"
    obtain i where i: "i \<in> {0..<?n}" "p = team_pe t i" using mem[OF a(1)] by blast
    obtain i' where i': "i' \<in> {0..<?n}" "q = team_pe t i'" using mem[OF a(2)] by blast
    have "(i' + k) smod ?n = (i' + k) mod ?n" using i'(1) a(3) n by (simp add: smod_pos)
    then have "team_target teams q k = team_pe t ((i' + k) mod ?n)"
      using cp[OF i'(1)] md[of "i' + k"] i'(2)
      by (simp add: team_target_def nvshmemi_team_translate_pe_to_team_world_wrap_def)
    then have "team_target teams q k = p \<longleftrightarrow> (i' + k) mod ?n = i"
      using i inj_on_eq_iff[OF team_pe_inj[OF ok] md[of "i' + k"] i(1)] by simp
    also have "\<dots> \<longleftrightarrow> q = pe_behind teams t p k"
      using mod_shift[OF i(1) i'(1)] cp(1)[OF i(1)] i i' inj_on_eq_iff[OF team_pe_inj[OF ok] i'(1) md[of "i - k"]]
      by (simp add: pe_behind_def)
    finally show "team_target teams q k = p \<longleftrightarrow> q = pe_behind teams t p k" .
  qed
qed

end
