(* ===== verification/Reduce_Properties.thy ===== *)
theory Reduce_Properties
  imports Reduce_Rounds "HOL-Library.Word"
begin

unbundle bit_operations_syntax

text \<open>
  What the reductions in rounds compute with the operators of \<open>perform_gpu_rdxn\<close> on the integer types, and that they stay inside
  the scratch space. \<open>Reduce_Barrier\<close> puts the dissemination barrier under them.
\<close>

section \<open>The operators\<close>

datatype rdxn_ops = RDXN_OPS_AND | RDXN_OPS_OR | RDXN_OPS_XOR | RDXN_OPS_MIN | RDXN_OPS_MAX | RDXN_OPS_SUM | RDXN_OPS_PROD | RDXN_OPS_MAXLOC

text \<open>\<open>is_signed\<close> says whether the integer type compares as signed. \<open>None\<close> is the failing assertion of the default case.\<close>

definition rdxn_less :: "bool \<Rightarrow> 'w::len word \<Rightarrow> 'w word \<Rightarrow> bool" where
  "rdxn_less is_signed a b \<longleftrightarrow> (if is_signed then sint a < sint b else a < b)"

fun perform_gpu_rdxn :: "bool \<Rightarrow> rdxn_ops \<Rightarrow> 'w::len word \<Rightarrow> 'w word \<Rightarrow> 'w word option" where
  "perform_gpu_rdxn sg RDXN_OPS_SUM op1 op2 = Some (op1 + op2)"
| "perform_gpu_rdxn sg RDXN_OPS_PROD op1 op2 = Some (op1 * op2)"
| "perform_gpu_rdxn sg RDXN_OPS_AND op1 op2 = Some (op1 AND op2)"
| "perform_gpu_rdxn sg RDXN_OPS_OR op1 op2 = Some (op1 OR op2)"
| "perform_gpu_rdxn sg RDXN_OPS_XOR op1 op2 = Some (op1 XOR op2)"
| "perform_gpu_rdxn sg RDXN_OPS_MIN op1 op2 = Some (if rdxn_less sg op1 op2 then op1 else op2)"
| "perform_gpu_rdxn sg RDXN_OPS_MAX op1 op2 = Some (if rdxn_less sg op2 op1 then op1 else op2)"
| "perform_gpu_rdxn sg RDXN_OPS_MAXLOC op1 op2 = None"

abbreviation rdxn :: "bool \<Rightarrow> rdxn_ops \<Rightarrow> 'w::len word \<Rightarrow> 'w word \<Rightarrow> 'w word" where
  "rdxn sg op a b \<equiv> the (perform_gpu_rdxn sg op a b)"

lemma rdxn_abel:
  assumes "op \<noteq> RDXN_OPS_MAXLOC"
  shows "abel_semigroup (rdxn sg op :: 'w::len word \<Rightarrow> 'w word \<Rightarrow> 'w word)"
proof (cases op)
  case RDXN_OPS_MIN
  then show ?thesis by unfold_locales (auto simp: rdxn_less_def split: if_splits intro: signed_word_eqI signed_word_eqI[symmetric])
next
  case RDXN_OPS_MAX
  then show ?thesis by unfold_locales (auto simp: rdxn_less_def split: if_splits intro: signed_word_eqI signed_word_eqI[symmetric])
qed (use assms in \<open>unfold_locales; simp add: ac_simps\<close>)+

text \<open>The order in which the values are taken does not matter.\<close>

lemma fold_perm:
  assumes "abel_semigroup f" "mset (a # xs) = mset (b # ys)"
  shows "fold (\<lambda>x acc. f acc x) xs a = fold (\<lambda>x acc. f acc x) ys b"
proof -
  have assoc: "f (f x y) z = f x (f y z)" and comm: "f x y = f y x" for x y z
    using semigroup.assoc[of f] abel_semigroup.axioms(1)[OF assms(1)] abel_semigroup.commute[OF assms(1)] by blast+
  have rcomm: "f (f x y) z = f (f x z) y" for x y z using assoc comm by metis
  have fc: "fold (\<lambda>x acc. f acc x) us = fold (\<lambda>x acc. f acc x) vs" if "mset us = mset vs" for us vs
    by (rule fold_multiset_equiv[OF _ that]) (simp add: fun_eq_iff rcomm)
  show ?thesis
  proof (cases "a = b")
    case True
    then show ?thesis using fc[of xs ys] assms(2) by simp
  next
    case False
    have sets: "set (a # xs) = set (b # ys)" using assms(2) by (metis set_mset_mset)
    have b: "b \<in> set xs" and a: "a \<in> set ys" using sets False by auto
    have m: "mset xs = mset (b # remove1 b xs)" "mset ys = mset (a # remove1 a ys)" using a b by simp_all
    have e: "fold (\<lambda>x acc. f acc x) xs a = fold (\<lambda>x acc. f acc x) (remove1 b xs) (f a b)"
      "fold (\<lambda>x acc. f acc x) ys b = fold (\<lambda>x acc. f acc x) (remove1 a ys) (f b a)"
      unfolding fc[OF m(1)] fc[OF m(2)] by simp_all
    have "mset xs - {#b#} = mset ys - {#a#}"
    proof -
      have "mset xs - {#b#} = mset (a # xs) - {#a#} - {#b#}" "mset ys - {#a#} = mset (b # ys) - {#b#} - {#a#}" by simp_all
      then show ?thesis unfolding assms(2) by (simp only: diff_right_commute)
    qed
    then have "mset (remove1 b xs) = mset (remove1 a ys)" by simp
    from fc[OF this] show ?thesis unfolding e comm[of b a] by (rule fun_cong)
  qed
qed

section \<open>Shifts of a team go round it\<close>

lemma shifts_go_round:
  assumes "i \<in> {0..<n}"
  shows "mset (g i # map (\<lambda>k. g ((i - k) mod n)) [1..n - 1]) = mset (map g [0..n - 1 :: int])"
proof -
  have n: "0 < n" using assms by simp
  let ?h = "\<lambda>k. (i - k) mod n"
  have "g i # map (\<lambda>k. g (?h k)) [1..n - 1] = map (\<lambda>k. g (?h k)) [0..n - 1]" using assms n by (simp add: upto_rec1)
  moreover have up: "mset [0..n - 1] = mset_set {0..n - 1}" by (metis mset_set_set distinct_upto set_upto)
  ultimately have "mset (g i # map (\<lambda>k. g (?h k)) [1..n - 1]) = image_mset g (image_mset ?h (mset_set {0..n - 1}))"
    by (simp only: mset_map multiset.map_comp comp_def up)
  moreover have "bij_betw ?h {0..n - 1} {0..n - 1}"
  proof (rule bij_betw_byWitness[of _ ?h])
    show "\<forall>a\<in>{0..n - 1}. ?h (?h a) = a" by (auto simp: mod_diff_right_eq)
    then show "\<forall>a'\<in>{0..n - 1}. ?h (?h a') = a'" .
    show "?h ` {0..n - 1} \<subseteq> {0..n - 1}" "?h ` {0..n - 1} \<subseteq> {0..n - 1}" using n by auto
  qed
  then have "image_mset ?h (mset_set {0..n - 1}) = mset_set {0..n - 1}"
    by (simp add: bij_betw_def image_mset_mset_set)
  ultimately show ?thesis by (simp only: mset_map up)
qed


text \<open>The reduction of a list of values.\<close>

definition reduce_all :: "('v \<Rightarrow> 'v \<Rightarrow> 'v) \<Rightarrow> 'v list \<Rightarrow> 'v" where
  "reduce_all f vs = fold (\<lambda>x acc. f acc x) (tl vs) (hd vs)"

lemma reduce_team:
  assumes "abel_semigroup f" "coherent_team npes teams t" "p \<in> set (team_pes t)"
  shows "fold (\<lambda>k acc. f acc (source (pe_behind teams t p k) j)) [1..tm_size t - 1] (source p j) =
    reduce_all f (map (\<lambda>q. source q j) (team_pes t))"
proof -
  obtain i where i: "i \<in> {0..<tm_size t}" "p = team_pe t i" using assms(3) set_team_pes by auto
  have my: "tm_my_pe (teams (team_pe t i)) = i" by (rule coherent_copy(1)[OF assms(2) i(1)])
  let ?g = "\<lambda>i. source (team_pe t i) j" and ?vs = "map (\<lambda>q. source q j) (team_pes t)"
  have "?vs \<noteq> []" using assms(3) by auto
  moreover have "mset (?g i # map (\<lambda>k. ?g ((i - k) mod tm_size t)) [1..tm_size t - 1]) = mset ?vs"
    using shifts_go_round[OF i(1), of ?g] by (simp add: team_pes_def comp_def)
  ultimately have "fold (\<lambda>x acc. f acc x) (map (\<lambda>k. ?g ((i - k) mod tm_size t)) [1..tm_size t - 1]) (?g i) =
      fold (\<lambda>x acc. f acc x) (tl ?vs) (hd ?vs)"
    by (intro fold_perm[OF assms(1)]) simp
  then show ?thesis by (simp add: reduce_all_def fold_map comp_def pe_behind_def my i(2))
qed

section \<open>The reduction in segments\<close>

lemma segment_shift_rounds:
  assumes "coherent_team npes teams t" "segment_rounds scratch ts (tm_size t) nelems = Some rounds"
  shows "shift_rounds (team_pes t) (team_target teams) (pe_behind teams t) rounds"
  using coherent_shift_team[OF assms(1)] segment_shifts[OF assms(2)]
  by (simp add: shift_rounds_def shift_rounds_axioms_def)

lemma segment_prog:
  assumes "gpu_rdxn_segment_threadgroup scratch ts teams sz f source nelems = Some P"
  obtains rounds where "segment_rounds scratch ts sz nelems = Some rounds" "P = shift_prog (team_target teams) f source rounds"
  using assms by (auto simp: gpu_rdxn_segment_threadgroup_def)

lemma segment_put_rounds:
  assumes "coherent_team npes teams t" "gpu_rdxn_segment_threadgroup scratch ts teams (tm_size t) f source nelems = Some P"
  shows "\<exists>reads got. put_rounds P (team_pes t) reads got"
proof -
  obtain rounds where r: "segment_rounds scratch ts (tm_size t) nelems = Some rounds"
    and P: "P = shift_prog (team_target teams) f source rounds" by (rule segment_prog[OF assms(2)])
  show ?thesis unfolding P using shift_rounds.sched_rounds[OF segment_shift_rounds[OF assms(1) r]] by blast
qed

text \<open>What a PE has in \<open>dest\<close> when it is through its rounds, with synchronisations that everybody leaves after everybody has come.\<close>

lemma segment_rounds_reduce:
  fixes source :: "int \<Rightarrow> nat \<Rightarrow> 'w::len word"
  assumes "coherent_team npes teams t" "op \<noteq> RDXN_OPS_MAXLOC" "0 < type_size" "type_size dvd rdxn_seg_size scratch"
    "gpu_rdxn_segment_threadgroup scratch type_size teams (tm_size t) (rdxn sg op) source nelems = Some P"
    "(rounds_step P (team_pes t))\<^sup>*\<^sup>* (rounds_new P wrk) s" "p \<in> set (team_pes t)" "finished P s p" "j < nelems"
  shows "rs_dest s p j = reduce_all (rdxn sg op) (map (\<lambda>q. source q j) (team_pes t))"
proof -
  obtain rounds where r: "segment_rounds scratch type_size (tm_size t) nelems = Some rounds"
    and P: "P = shift_prog (team_target teams) (rdxn sg op) source rounds" by (rule segment_prog[OF assms(5)])
  note sr = segment_shift_rounds[OF assms(1) r]
  show ?thesis
    using shift_rounds.shifts_compute[OF sr assms(6)[unfolded P] assms(7) assms(8)[unfolded P]]
      covering_segment_rounds[OF r assms(3,4,9)] reduce_team[OF rdxn_abel[OF assms(2)] assms(1,7), of sg source j] by simp
qed

section \<open>The reductions of whole arrays\<close>

definition active_set :: "int \<Rightarrow> int \<Rightarrow> int \<Rightarrow> int list" where
  "active_set start stride sz = map (\<lambda>i. start + i * stride) [0..sz - 1]"

definition active_behind :: "int \<Rightarrow> int \<Rightarrow> int \<Rightarrow> int \<Rightarrow> int \<Rightarrow> int" where
  "active_behind start stride sz p k = start + (((p - start) div stride - k) mod sz) * stride"

lemma on_demand_2_prog:
  "gpu_rdxn_on_demand_2 start stride sz f source nelems = shift_prog (active_target start stride sz) f source (whole_rounds sz nelems)"
  by (simp add: gpu_rdxn_on_demand_2_def)

lemma active_mem: "p \<in> set (active_set start stride sz) \<longleftrightarrow> (\<exists>i. 0 \<le> i \<and> i < sz \<and> p = start + i * stride)"
  by (auto simp: active_set_def)

lemma active_shift_team:
  assumes "0 < stride" "0 < sz"
  shows "shift_team (active_set start stride sz) (active_target start stride sz) (active_behind start stride sz)"
proof
  fix p k assume "p \<in> set (active_set start stride sz)"
  show "active_behind start stride sz p k \<in> set (active_set start stride sz)"
    using assms by (force simp: active_mem active_behind_def)
next
  fix p q k assume a: "p \<in> set (active_set start stride sz)" "q \<in> set (active_set start stride sz)" "0 \<le> (k :: int)"
  obtain i where i: "0 \<le> i" "i < sz" "p = start + i * stride" using a(1) by (auto simp: active_mem)
  obtain i' where i': "0 \<le> i'" "i' < sz" "q = start + i' * stride" using a(2) by (auto simp: active_mem)
  have "active_target start stride sz q k = start + ((i' + k) mod sz) * stride"
    using i' assms a(3) by (simp add: active_target_def smod_pos sdiv_pos)
  then have "active_target start stride sz q k = p \<longleftrightarrow> (i' + k) mod sz = i" using i(3) assms(1) by simp
  also have "\<dots> \<longleftrightarrow> i' = (i - k) mod sz" using i i' by (intro mod_shift) auto
  also have "\<dots> \<longleftrightarrow> q = active_behind start stride sz p k" using i i' assms(1) by (simp add: active_behind_def)
  finally show "active_target start stride sz q k = p \<longleftrightarrow> q = active_behind start stride sz p k" .
qed

interpretation whole: shift_rounds "active_set start (int (Suc st)) (int (Suc n))" "active_target start (int (Suc st)) (int (Suc n))"
    "active_behind start (int (Suc st)) (int (Suc n))" "whole_rounds (int (Suc n)) nelems" for start st n nelems
proof (intro shift_rounds.intro active_shift_team shift_rounds_axioms.intro)
  show "(offset, cnt, ks) \<in> set (whole_rounds (int (Suc n)) nelems) \<Longrightarrow> k \<in> set ks \<Longrightarrow> 0 \<le> k" for offset cnt ks k
    by (auto simp: whole_rounds_def)
qed simp_all

lemma covering_whole: "j < nelems \<Longrightarrow> covering j (whole_rounds sz nelems) = [1..sz - 1]"
  using covering_single[of j 0 nelems "[1..sz - 1]"] by (simp add: whole_rounds_def)

lemma on_demand_2_reduces:
  assumes "abel_semigroup f" "P = gpu_rdxn_on_demand_2 start stride sz f source nelems" "0 < stride" "0 < sz"
    "(rounds_step P (active_set start stride sz))\<^sup>*\<^sup>* (rounds_new P wrk) s"
    "p \<in> set (active_set start stride sz)" "finished P s p" "j < nelems"
  shows "rs_dest s p j = reduce_all f (map (\<lambda>q. source q j) (active_set start stride sz))"
proof -
  obtain st n where n: "stride = int (Suc st)" "sz = int (Suc n)" using assms(3,4) by (metis gr0_conv_Suc zero_less_imp_eq_int)
  obtain i where i: "i \<in> {0..<sz}" "p = start + i * stride" using assms(6) by (auto simp: active_mem)
  let ?g = "\<lambda>i. source (start + i * stride) j" and ?vs = "map (\<lambda>q. source q j) (active_set start stride sz)"
  have "rs_dest s p j = fold (\<lambda>k acc. f acc (source (active_behind start stride sz p k) j)) [1..sz - 1] (source p j)"
    using whole.shifts_compute[OF assms(5,6,7)[unfolded assms(2) on_demand_2_prog n]] covering_whole[OF assms(8), of sz] n by simp
  also have "\<dots> = fold (\<lambda>x acc. f acc x) (map (\<lambda>k. ?g ((i - k) mod sz)) [1..sz - 1]) (?g i)"
    using i assms(3) by (simp add: active_behind_def fold_map comp_def)
  also have "\<dots> = fold (\<lambda>x acc. f acc x) (tl ?vs) (hd ?vs)"
  proof (rule fold_perm[OF assms(1)])
    have "?vs \<noteq> []" using assms(6) by auto
    then show "mset (?g i # map (\<lambda>k. ?g ((i - k) mod sz)) [1..sz - 1]) = mset (hd ?vs # tl ?vs)"
      using shifts_go_round[OF i(1), of ?g] by (simp add: active_set_def comp_def)
  qed
  finally show ?thesis by (simp add: reduce_all_def)
qed

lemma on_demand_2_finishes:
  assumes "P = gpu_rdxn_on_demand_2 start stride sz f source nelems" "0 < stride" "0 < sz"
  shows "\<exists>s. (rounds_step P (active_set start stride sz))\<^sup>*\<^sup>* (rounds_new P wrk) s \<and> (\<forall>p\<in>set (active_set start stride sz). finished P s p)"
proof -
  obtain st n where n: "stride = int (Suc st)" "sz = int (Suc n)" using assms(2,3) by (metis gr0_conv_Suc zero_less_imp_eq_int)
  show ?thesis unfolding assms(1) on_demand_2_prog n by (rule whole.sched.ends[OF whole.sched.rounds_inv_reachable[OF rtranclp.rtrancl_refl]])
qed

section \<open>Bounds\<close>

lemma rest_bounds:
  "(offset', cnt', ks) \<in> set (rest_rounds offset cnt ppr sz po) \<Longrightarrow> offset' = offset \<and> cnt' = cnt \<and> length ks \<le> ppr"
proof (induction offset cnt ppr sz po rule: rest_rounds.induct)
  case (1 offset cnt ppr sz po)
  let ?ks = "take ppr [po..sz - 1]"
  have "(offset', cnt', ks) = (offset, cnt, ?ks) \<or> po + int (length ?ks) < sz \<and> 0 < ppr \<and>
      (offset', cnt', ks) \<in> set (rest_rounds offset cnt ppr sz (po + int (length ?ks)))"
    using 1(2) by (subst (asm) rest_rounds.simps) (simp only: Let_def list.set insert_iff empty_iff split: if_splits; blast)
  then show ?case
  proof
    assume "(offset', cnt', ks) = (offset, cnt, ?ks)"
    then show ?thesis by simp
  qed (use 1(1)[OF refl refl] in blast)
qed

lemma div_parts: "a * (s div t) + b div t \<le> (a * s + b) div (t :: nat)"
proof -
  have "(a * (s div t) + b div t) * t = a * (s div t * t) + b div t * t" by (simp add: algebra_simps)
  also have "\<dots> \<le> a * s + b" by (intro add_mono mult_left_mono) simp_all
  finally show ?thesis by (cases "t = 0") (simp_all add: less_eq_div_iff_mult_less_eq)
qed

lemma segment_round_bounds:
  assumes "segment_rounds scratch ts sz nelems = Some rounds" "(offset, cnt, ks) \<in> set rounds" "0 < ts"
  shows "length ks * cnt * ts \<le> rdxn_seg_size scratch" "offset + cnt \<le> nelems"
proof -
  let ?seg = "rdxn_seg_size scratch"
  let ?n = "nelems * ts div ?seg" and ?rem = "nelems * ts mod ?seg" and ?c = "?seg div ts"
  have tot: "?n * ?c + ?rem div ts \<le> nelems" using div_parts[of ?n ?seg ts ?rem] assms(3) by simp
  consider j where "j < ?n" "offset = j * ?c" "cnt = ?c" "length ks = 1"
    | "?rem \<noteq> 0" "offset = ?n * ?c" "cnt = ?rem div ts" "length ks \<le> ?seg div ?rem"
  proof -
    have full: "\<exists>j<?n. offset = j * ?c \<and> cnt = ?c \<and> length ks = 1"
      if "(offset, cnt, ks) \<in> set (concat (map (\<lambda>j. map (\<lambda>i. (j * ?c, ?c, [i])) [1..sz - 1]) [0..<?n]))"
      using that by auto
    have "(offset, cnt, ks) \<in> set (concat (map (\<lambda>j. map (\<lambda>i. (j * ?c, ?c, [i])) [1..sz - 1]) [0..<?n])) \<or>
        ?rem \<noteq> 0 \<and> (offset, cnt, ks) \<in> set (rest_rounds (?n * ?c) (?rem div ts) (?seg div ?rem) sz 1)"
      using assms(1,2) unfolding segment_rounds_def Let_def
      by (simp only: set_append Un_iff option.sel option.inject option.simps list.set empty_iff split: if_splits) auto
    then show ?thesis using that full rest_bounds by metis
  qed
  then have "length ks * cnt * ts \<le> ?seg \<and> offset + cnt \<le> nelems"
  proof cases
    case 1
    have "(j + 1) * ?c \<le> ?n * ?c" using 1(1) by (intro mult_right_mono) simp_all
    then show ?thesis using 1 tot by simp
  next
    case 2
    have "length ks * (cnt * ts) \<le> ?seg div ?rem * ?rem" using 2 by (intro mult_mono) simp_all
    also have "\<dots> \<le> ?seg" by simp
    finally show ?thesis using 2 tot by (simp add: mult.assoc)
  qed
  then show "length ks * cnt * ts \<le> ?seg" "offset + cnt \<le> nelems" by simp_all
qed

text \<open>
  C10: The reduction in segments stays inside its buffers. Every element that a PE puts into the work array of another one lies
  wholly inside the first \<open>reduce_scratch_size / 16\<close> bytes of it, and nothing is written to \<open>dest\<close> beyond its
  \<open>nelems\<close> elements.
\<close>

theorem segment_bounds:
  assumes "gpu_rdxn_segment_threadgroup scratch type_size teams sz f source nelems = Some P" "0 < type_size" "r < rd_count P"
  shows "(\<forall>target place v. (target, place, v) \<in> set (rd_puts P p r) \<longrightarrow> (place + 1) * type_size \<le> scratch div 16) \<and>
    (\<forall>wrk dest j. nelems \<le> j \<longrightarrow> rd_compute P p r wrk dest j = dest j)"
proof -
  obtain rounds where rs: "segment_rounds scratch type_size sz nelems = Some rounds"
    and P: "P = shift_prog (team_target teams) f source rounds" by (rule segment_prog[OF assms(1)])
  obtain offset cnt ks where R: "rounds ! r = (offset, cnt, ks)" by (cases "rounds ! r") auto
  have "(offset, cnt, ks) \<in> set rounds" using assms(3) R nth_mem[of r rounds] by (simp add: P)
  note b = segment_round_bounds[OF rs this assms(2)]
  have "(place + 1) * type_size \<le> scratch div 16" if "place < length ks * cnt" for place
  proof -
    have "(place + 1) * type_size \<le> length ks * cnt * type_size" using that by (intro mult_right_mono) simp_all
    also have "\<dots> \<le> scratch div 16" using b(1) by (simp add: rdxn_seg_size_def div_mult2_eq[symmetric])
    finally show ?thesis .
  qed
  moreover have "shift_compute f (offset, cnt, ks) wrk dest j = dest j" if "nelems \<le> j" for wrk dest j
  proof -
    have "fold (\<lambda>round. gpu_linear_reduce_threadgroup f offset (round * cnt) cnt wrk) [0..<m] dest j = dest j" for m
      using that b(2) by (induction m) (simp_all add: gpu_linear_reduce_threadgroup_def)
    then show ?thesis by (simp add: shift_compute_def)
  qed
  ultimately show ?thesis by (auto simp: P R shift_puts_iff)
qed

theorem segment_bounds_witness:
  "\<exists>P. gpu_rdxn_segment_threadgroup 128 4 (demo_views 3) 3 (rdxn False RDXN_OPS_SUM) (\<lambda>q j. of_int q * 10 + of_nat j :: u32) 3 = Some P \<and>
     (2, 1, 11) \<in> set (rd_puts P 1 0) \<and> (1 + 1) * 4 \<le> (128 :: nat) div 16 \<and> rd_compute P 1 0 (\<lambda>_. 0) (\<lambda>_. 5) 3 = 5"
proof -
  let ?src = "\<lambda>q j. of_int q * 10 + of_nat j :: u32"
  have "segment_rounds 128 4 3 3 = Some [(0, 2, [1]), (0, 2, [2]), (2, 1, [1, 2])]" by code_simp
  then obtain P where P: "gpu_rdxn_segment_threadgroup 128 4 (demo_views 3) 3 (rdxn False RDXN_OPS_SUM) ?src 3 = Some P"
    "0 < rd_count P" "rd_puts P 1 0 = shift_puts (team_target (demo_views 3)) ?src 1 (0, 2, [1])"
    by (auto simp: gpu_rdxn_segment_threadgroup_def)
  have "team_target (demo_views 3) 1 1 = 2" by code_simp
  then have m: "(2, 1, 11) \<in> set (rd_puts P 1 0)" unfolding P(3) shift_puts_iff by simp
  note b = segment_bounds[OF P(1) zero_less_numeral P(2), of 1]
  have "(1 + 1) * 4 \<le> (128 :: nat) div 16" using b m by blast
  moreover have "rd_compute P 1 0 (\<lambda>_. 0) (\<lambda>_. 5) 3 = 5" using b by simp
  ultimately show ?thesis using P(1) m by blast
qed

end
