(* ===== verification/Reduce_Barrier.thy ===== *)
theory Reduce_Barrier
  imports Reduce_Properties
begin

text \<open>
  The reduction in segments over the dissemination barrier it calls. \<open>Put_Rounds\<close> lets a PE leave a synchronisation once every
  PE has arrived there. Here a PE calls the barrier of \<open>Dissem_Barrier\<close> instead, runs its phases thread by thread, and goes on
  when the call returns. Every run of this system is a run of \<open>Put_Rounds\<close>, because the barrier is safe, and it can always be
  continued to the end, because the barrier is live.
\<close>

section \<open>The system\<close>

datatype coll_label = Run rounds_label | Sync sync_label

text \<open>
  A PE that has completed its puts, or has computed, calls the barrier. A PE whose call returns goes on to the next stage. Calls
  are made by the program only.
\<close>

fun coll_run :: "sync_algo \<Rightarrow> 'v rounds_prog \<Rightarrow> int list \<Rightarrow> rounds_label \<Rightarrow> 'v rounds_state \<Rightarrow> sync_sys \<Rightarrow> ('v rounds_state \<times> sync_sys) option" where
  "coll_run A P ms (rounds_label.Deliver p i) r b = map_option (\<lambda>r'. (r', b)) (rounds_deliver p i r)"
| "coll_run A P ms (Advance p) r b =
     (case rs_pc r p mod 5 of
        0 \<Rightarrow> map_option (\<lambda>r'. (r', b)) (rounds_advance P ms p r)
      | Suc n \<Rightarrow> if n = 0 \<or> n = 2
               then (case rounds_advance P ms p r of None \<Rightarrow> None
                     | Some r' \<Rightarrow> map_option (Pair r') (sync_exec A ms b (Enter p)))
               else None)"

fun call_returns :: "sync_label \<Rightarrow> sync_sys \<Rightarrow> 'v rounds_state \<Rightarrow> 'v rounds_state" where
  "call_returns (Next p) b' r = (if in_sync (pes b' p) then r else next_pc p r)"
| "call_returns l b' r = r"

fun coll_sync :: "sync_algo \<Rightarrow> int list \<Rightarrow> sync_label \<Rightarrow> 'v rounds_state \<Rightarrow> sync_sys \<Rightarrow> ('v rounds_state \<times> sync_sys) option" where
  "coll_sync A ms (Enter p) r b = None"
| "coll_sync A ms l r b = map_option (\<lambda>b'. (call_returns l b' r, b')) (sync_exec A ms b l)"

fun coll_exec :: "sync_algo \<Rightarrow> 'v rounds_prog \<Rightarrow> int list \<Rightarrow> coll_label \<Rightarrow> 'v rounds_state \<times> sync_sys \<Rightarrow> ('v rounds_state \<times> sync_sys) option" where
  "coll_exec A P ms (Run l) (r, b) = coll_run A P ms l r b"
| "coll_exec A P ms (Sync l) (r, b) = coll_sync A ms l r b"

definition coll_step :: "sync_algo \<Rightarrow> 'v rounds_prog \<Rightarrow> int list \<Rightarrow> 'v rounds_state \<times> sync_sys \<Rightarrow> 'v rounds_state \<times> sync_sys \<Rightarrow> bool" where
  "coll_step A P ms s s' \<longleftrightarrow> (\<exists>l. coll_exec A P ms l s = Some s')"

text \<open>Nobody is inside a call, and everybody has made the same number of them: the state between two collectives.\<close>

definition between_calls :: "int list \<Rightarrow> sync_sys \<Rightarrow> nat \<Rightarrow> bool" where
  "between_calls ms b c \<longleftrightarrow> (\<forall>p\<in>set ms. \<not> in_sync (pes b p) \<and> sync_counter (pes b p) = c)"

section \<open>The interface of the barrier\<close>

locale team_barrier =
  fixes A :: sync_algo and ms :: "int list"
  assumes nobody_early: "(sync_step A ms)\<^sup>*\<^sup>* sync_new b \<Longrightarrow> p \<in> set ms \<Longrightarrow> q \<in> set ms \<Longrightarrow> c < sync_counter (pes b p) \<Longrightarrow> arrived (pes b q) c"
    and all_return: "(sync_step A ms)\<^sup>*\<^sup>* sync_new b \<Longrightarrow> (\<And>q. q \<in> set ms \<Longrightarrow> arrived (pes b q) c) \<Longrightarrow>
      \<exists>b'. (inner_step A ms)\<^sup>*\<^sup>* b b' \<and> (\<forall>q\<in>set ms. c < sync_counter (pes b' q))"

sublocale dissemination < bar: team_barrier A ms
  by unfold_locales (rule safe live; assumption)+

lemma sync_algo_barrier:
  assumes "coherent_team npes teams t" "0 < g" "nvshmemi_sync_algo_threadgroup kval block g teams t = Some A"
    "tm_p2p_connected t \<and> block \<or> kval \<notin> {4, 8, 16, 32} \<or> tm_size t \<le> kval"
  shows "team_barrier A (team_pes t)"
proof -
  obtain k where d: "dissemination A (team_pes t) (tm_size t) (team_pe t) (radix_shifts k (tm_size t)) (\<lambda>f. k ^ f)"
    using sync_algo_dissemination[OF assms] by blast
  show ?thesis by unfold_locales (rule dissemination.safe[OF d] dissemination.live[OF d]; assumption)+
qed

text \<open>The calls a PE has returned from when it is at place \<open>n\<close> of the program.\<close>

definition calls :: "nat \<Rightarrow> nat" where "calls n = 2 * (n div 5) + (if 3 \<le> n mod 5 then 1 else 0)"

definition at_call :: "nat \<Rightarrow> bool" where "at_call n \<longleftrightarrow> n mod 5 = 2 \<or> n mod 5 = 4"

lemma calls_Suc: "calls (n + 1) = (if at_call n then calls n + 1 else calls n)"
proof -
  have "n mod 5 \<in> {0, 1, 2, 3, 4}" by auto
  then show ?thesis unfolding calls_def at_call_def by (elim insertE emptyE) (simp_all add: mod_Suc div_Suc)
qed

lemma at_call_Suc: "at_call (n + 1) \<longleftrightarrow> n mod 5 = 1 \<or> n mod 5 = 3"
proof -
  have "n mod 5 \<in> {0, 1, 2, 3, 4}" by auto
  then show ?thesis unfolding at_call_def by (elim insertE emptyE) (simp_all add: mod_Suc)
qed

lemma calls_mono: "m \<le> n \<Longrightarrow> calls m \<le> calls n"
  by (induction rule: dec_induct) (auto simp: calls_Suc[simplified])

lemma calls_less: "calls m < calls n \<Longrightarrow> m < n" using calls_mono[of n m] by (cases "m < n") simp_all

lemma calls_call: "at_call m \<Longrightarrow> at_call n \<Longrightarrow> calls m = calls n \<Longrightarrow> m = n"
  using calls_Suc[of m] calls_Suc[of n] calls_mono[of "m + 1" n] calls_mono[of "n + 1" m] by (cases m n rule: linorder_cases) auto

section \<open>Every run is a run of the rounds\<close>

lemma pc_bound: "(rounds_step P ms)\<^sup>*\<^sup>* (rounds_new P wrk) r \<Longrightarrow> rs_pc r p \<le> 5 * rd_count P"
proof (induction arbitrary: p rule: rtranclp_induct)
  case base
  show ?case by (simp add: rounds_new_def)
next
  case (step r r')
  then obtain l where l: "rounds_exec P ms l r = Some r'" by (auto simp: rounds_step_def)
  show ?case
  proof (cases l)
    case (Advance q)
    then have "rounds_advance P ms q r = Some r'" using l by simp
    then show ?thesis by (cases rule: advance_cases) (use step.IH[of p] in auto)
  next
    case (Deliver q i)
    then have "rounds_deliver q i r = Some r'" using l by simp
    then show ?thesis by (rule deliver_cases) (use step.IH[of p] in simp)
  qed
qed

lemma advance_pc: "rounds_advance P ms p r = Some r' \<Longrightarrow> rs_pc r' = (rs_pc r)(p := rs_pc r p + 1) \<and> p \<in> set ms"
  by (cases rule: advance_cases) simp_all

lemma enter_pes:
  assumes "sync_exec A ms b (Enter p) = Some b'"
  shows "in_sync (pes b' p)" "sync_counter (pes b' q) = sync_counter (pes b q)" "q \<noteq> p \<Longrightarrow> in_sync (pes b' q) = in_sync (pes b q)"
  using assms by (auto simp: Let_def set_pe_def split: if_splits)

text \<open>A step inside the calls changes a counter only when a call returns.\<close>

lemma inner_pes:
  assumes "sync_exec A ms b l = Some b'" "\<And>p. l \<noteq> Enter p"
  shows "(\<exists>p. l = Next p \<and> p \<in> set ms \<and> in_sync (pes b p) \<and> \<not> in_sync (pes b' p) \<and> sync_counter (pes b' p) = sync_counter (pes b p) + 1 \<and>
      (\<forall>q. q \<noteq> p \<longrightarrow> pes b' q = pes b q)) \<or>
    (\<forall>q. in_sync (pes b' q) = in_sync (pes b q) \<and> sync_counter (pes b' q) = sync_counter (pes b q)) \<and> (\<forall>r. call_returns l b' r = r)"
proof (cases l)
  case (Enter p)
  then show ?thesis using assms(2) by blast
next
  case (Act p t)
  then show ?thesis using assms(1) by (auto simp: Let_def set_pe_def split: if_splits list.splits sync_action.splits)
next
  case (Next p)
  then show ?thesis using assms(1) by (auto simp: Let_def set_pe_def split: if_splits)
next
  case (Deliver m)
  then show ?thesis using assms(1) by (auto simp: Let_def set_pe_def split: if_splits prod.splits)
qed

context team_barrier
begin

definition coll_ok :: "'v rounds_prog \<Rightarrow> (int \<Rightarrow> nat \<Rightarrow> 'v) \<Rightarrow> nat \<Rightarrow> 'v rounds_state \<times> sync_sys \<Rightarrow> bool" where
  "coll_ok P wrk c0 = (\<lambda>(r, b). (rounds_step P ms)\<^sup>*\<^sup>* (rounds_new P wrk) r \<and> (sync_step A ms)\<^sup>*\<^sup>* sync_new b \<and>
     (\<forall>p\<in>set ms. sync_counter (pes b p) = c0 + calls (rs_pc r p) \<and> in_sync (pes b p) = at_call (rs_pc r p)))"

lemma coll_new:
  "(sync_step A ms)\<^sup>*\<^sup>* sync_new b \<Longrightarrow> between_calls ms b c0 \<Longrightarrow> coll_ok P wrk c0 (rounds_new P wrk, b)"
  by (simp add: coll_ok_def between_calls_def rounds_new_def calls_def at_call_def)

lemma coll_okD:
  assumes "coll_ok P wrk c0 (r, b)"
  shows "(rounds_step P ms)\<^sup>*\<^sup>* (rounds_new P wrk) r" "(sync_step A ms)\<^sup>*\<^sup>* sync_new b"
    "p \<in> set ms \<Longrightarrow> sync_counter (pes b p) = c0 + calls (rs_pc r p)" "p \<in> set ms \<Longrightarrow> in_sync (pes b p) = at_call (rs_pc r p)"
  using assms by (auto simp: coll_ok_def)

text \<open>A PE that has arrived at a call has come at least as far as the call.\<close>

lemma arrived_pc:
  assumes "coll_ok P wrk c0 (r, b)" "q \<in> set ms" "arrived (pes b q) (c0 + calls n)" "at_call n"
  shows "n \<le> rs_pc r q"
proof -
  consider "calls n < calls (rs_pc r q)" | "calls n = calls (rs_pc r q)" "at_call (rs_pc r q)"
    using assms(3) coll_okD(3,4)[OF assms(1,2)] by (auto simp: arrived_def)
  then show ?thesis
  proof cases
    case 1
    then show ?thesis using calls_less by fastforce
  next
    case 2
    then show ?thesis using calls_call assms(4) by fastforce
  qed
qed

lemma return_advances:
  assumes "coll_ok P wrk c0 (r, b)" "sync_exec A ms b (Next p) = Some b'" "p \<in> set ms" "in_sync (pes b p)"
    "sync_counter (pes b' p) = sync_counter (pes b p) + 1" "\<forall>q. q \<noteq> p \<longrightarrow> pes b' q = pes b q"
  shows "rounds_advance P ms p r = Some (next_pc p r)"
proof -
  let ?n = "rs_pc r p"
  have at: "at_call ?n" and c: "sync_counter (pes b p) = c0 + calls ?n" using coll_okD(3,4)[OF assms(1,3)] assms(4) by simp_all
  have b': "(sync_step A ms)\<^sup>*\<^sup>* sync_new b'" using coll_okD(2)[OF assms(1)] assms(2) by (meson rtranclp.rtrancl_into_rtrancl sync_step.intros)
  have all: "?n \<le> rs_pc r q" if q: "q \<in> set ms" for q
  proof (cases "q = p")
    case False
    have "arrived (pes b' q) (c0 + calls ?n)" by (rule nobody_early[OF b' assms(3) q]) (simp add: assms(5) c)
    then show ?thesis using arrived_pc[OF assms(1) q _ at] assms(6) False by simp
  qed simp
  have "?n \<le> 5 * rd_count P" by (rule pc_bound[OF coll_okD(1)[OF assms(1)]])
  moreover have "?n mod 5 \<noteq> 0" using at by (auto simp: at_call_def)
  ultimately have "?n div 5 < rd_count P" by (cases "?n = 5 * rd_count P") auto
  then show ?thesis using at all assms(3) by (auto simp: rounds_advance_def Let_def all_arrived_def list_all_iff at_call_def)
qed

lemma coll_ok_step:
  assumes "coll_ok P wrk c0 (r, b)" "coll_exec A P ms l (r, b) = Some (r', b')"
  shows "coll_ok P wrk c0 (r', b') \<and> (rounds_step P ms)\<^sup>*\<^sup>* r r'"
proof -
  have bs: "(sync_step A ms)\<^sup>*\<^sup>* sync_new b'" if "sync_exec A ms b k = Some b'" for k
    using coll_okD(2)[OF assms(1)] that by (meson rtranclp.rtrancl_into_rtrancl sync_step.intros)
  have rs: "(rounds_step P ms)\<^sup>*\<^sup>* (rounds_new P wrk) r' \<and> (rounds_step P ms)\<^sup>*\<^sup>* r r'" if "rounds_exec P ms k r = Some r'" for k
  proof -
    have "rounds_step P ms r r'" using that by (auto simp: rounds_step_def)
    then show ?thesis using coll_okD(1)[OF assms(1)] by (meson r_into_rtranclp rtranclp.rtrancl_into_rtrancl)
  qed
  show ?thesis
  proof (cases l)
    case (Run k)
    show ?thesis
    proof (cases k)
      case (Deliver p i)
      then have d: "rounds_deliver p i r = Some r'" "b' = b" using assms(2) Run by auto
      then have "rs_pc r' = rs_pc r" by (auto elim: deliver_cases)
      then show ?thesis using rs[of "rounds_label.Deliver p i"] d assms(1) by (simp add: coll_ok_def)
    next
      case (Advance p)
      let ?n = "rs_pc r p"
      have adv: "rounds_advance P ms p r = Some r'" using assms(2) Run Advance by (auto split: nat.splits option.splits if_splits)
      note pc = conjunct1[OF advance_pc[OF adv]] and p = conjunct2[OF advance_pc[OF adv]]
      note reach = rs[of "Advance p", simplified, OF adv]
      show ?thesis
      proof (cases "?n mod 5 = 0")
        case True
        then have "b' = b" using assms(2) Run Advance by auto
        moreover have "calls (?n + 1) = calls ?n" "at_call (?n + 1) = at_call ?n"
          using True calls_Suc[of ?n] at_call_Suc[of ?n] by (simp_all add: at_call_def)
        ultimately show ?thesis using reach assms(1) pc by (simp add: coll_ok_def)
      next
        case False
        then have s: "?n mod 5 = 1 \<or> ?n mod 5 = 3" "sync_exec A ms b (Enter p) = Some b'"
          using assms(2) Run Advance adv by (auto split: nat.splits if_splits)
        have "calls (?n + 1) = calls ?n" "at_call (?n + 1)" using s(1) calls_Suc[of ?n] at_call_Suc[of ?n] by (auto simp: at_call_def)
        then show ?thesis using reach bs[OF s(2)] assms(1) pc enter_pes[OF s(2)] by (auto simp: coll_ok_def)
      qed
    qed
  next
    case (Sync k)
    then have k: "sync_exec A ms b k = Some b'" "r' = call_returns k b' r" "\<And>p. k \<noteq> Enter p"
      using assms(2) by (cases k; auto)+
    consider (ret) p where "k = Next p" "p \<in> set ms" "in_sync (pes b p)" "\<not> in_sync (pes b' p)" "sync_counter (pes b' p) = sync_counter (pes b p) + 1"
        "\<forall>q. q \<noteq> p \<longrightarrow> pes b' q = pes b q"
      | (same) "\<forall>q. in_sync (pes b' q) = in_sync (pes b q) \<and> sync_counter (pes b' q) = sync_counter (pes b q)" "r' = r"
      using inner_pes[OF k(1,3)] k(2) by blast
    then show ?thesis
    proof cases
      case ret
      have r': "r' = next_pc p r" using k(2) ret by simp
      then have adv: "rounds_advance P ms p r = Some r'" using return_advances[OF assms(1) k(1)[unfolded ret(1)] ret(2,3,5,6)] by simp
      have "at_call (rs_pc r p)" using coll_okD(4)[OF assms(1) ret(2)] ret(3) by simp
      then have "calls (rs_pc r p + 1) = calls (rs_pc r p) + 1" "\<not> at_call (rs_pc r p + 1)"
        using calls_Suc[of "rs_pc r p"] at_call_Suc[of "rs_pc r p"] by (auto simp: at_call_def)
      then show ?thesis using rs[of "Advance p", simplified, OF adv] bs[OF k(1)] assms(1) ret advance_pc[OF adv] by (auto simp: coll_ok_def)
    next
      case same
      then show ?thesis using bs[OF k(1)] assms(1) by (simp add: coll_ok_def)
    qed
  qed
qed

lemma coll_ok_steps:
  assumes "(coll_step A P ms)\<^sup>*\<^sup>* s s'" "coll_ok P wrk c0 s"
  shows "coll_ok P wrk c0 s' \<and> (rounds_step P ms)\<^sup>*\<^sup>* (fst s) (fst s')"
  using assms
proof (induction rule: rtranclp_induct)
  case (step u v)
  then obtain l where l: "coll_exec A P ms l u = Some v" by (auto simp: coll_step_def)
  obtain r b r' b' where uv: "u = (r, b)" "v = (r', b')" by (cases u, cases v) auto
  have "coll_ok P wrk c0 (r, b)" using step uv by simp
  from coll_ok_step[OF this l[unfolded uv]] show ?case using step uv by auto
qed simp

section \<open>Every run can be continued to the end\<close>

lemma inner_runs:
  assumes "(inner_step A ms)\<^sup>*\<^sup>* b b'"
  shows "\<exists>r'. (coll_step A P ms)\<^sup>*\<^sup>* (r, b) (r', b')"
  using assms
proof (induction rule: rtranclp_induct)
  case (step b' b'')
  then obtain r' where r': "(coll_step A P ms)\<^sup>*\<^sup>* (r, b) (r', b')" by blast
  obtain l where l: "sync_exec A ms b' l = Some b''" "\<And>p. l \<noteq> Enter p" using step.hyps(2) by (auto elim: inner_step.cases)
  then have "coll_exec A P ms (Sync l) (r', b') = Some (call_returns l b'' r', b'')" by (cases l) auto
  then have "coll_step A P ms (r', b') (call_returns l b'' r', b'')" unfolding coll_step_def by blast
  then show ?case using r' by (meson rtranclp.rtrancl_into_rtrancl)
qed blast

lemma run_progress:
  assumes ok: "coll_ok P wrk c0 (r, b)" and q: "q \<in> set ms" "\<not> finished P r q"
  shows "\<exists>r' b'. (coll_step A P ms)\<^sup>*\<^sup>* (r, b) (r', b') \<and> r' \<noteq> r"
proof -
  define n where "n = Min (rs_pc r ` set ms)"
  have "n \<in> rs_pc r ` set ms" unfolding n_def using q(1) by (intro Min_in) auto
  then obtain p where p: "p \<in> set ms" "rs_pc r p = n" by auto
  have min: "n \<le> rs_pc r x" if "x \<in> set ms" for x unfolding n_def using that by (intro Min_le) auto
  have bound: "rs_pc r q \<le> 5 * rd_count P" by (rule pc_bound[OF coll_okD(1)[OF ok]])
  then have "n < 5 * rd_count P" using min[OF q(1)] q(2) by (simp add: finished_def)
  then have lt: "n div 5 < rd_count P" by linarith
  have one: "(coll_step A P ms)\<^sup>*\<^sup>* (r, b) (r', b')" if "coll_exec A P ms l (r, b) = Some (r', b')" for l r' b'
    using that by (intro r_into_rtranclp) (auto simp: coll_step_def)
  show ?thesis
  proof (cases "at_call n")
    case True
    have arr: "arrived (pes b x) (c0 + calls n)" if x: "x \<in> set ms" for x
      using coll_okD(3,4)[OF ok x] min[OF x] True calls_Suc[of n] calls_mono[of "n + 1" "rs_pc r x"]
      by (cases "rs_pc r x = n") (auto simp: arrived_def)
    obtain b' where b': "(inner_step A ms)\<^sup>*\<^sup>* b b'" "\<forall>x\<in>set ms. c0 + calls n < sync_counter (pes b' x)"
      using all_return[OF coll_okD(2)[OF ok] arr] by blast
    obtain r' where r': "(coll_step A P ms)\<^sup>*\<^sup>* (r, b) (r', b')" using inner_runs[OF b'(1)] by blast
    have "calls n < calls (rs_pc r' p)"
      using coll_okD(3)[of P wrk c0 r' b' p] conjunct1[OF coll_ok_steps[OF r' ok]] b'(2) p(1) by fastforce
    then have "r' \<noteq> r" using p(2) by auto
    then show ?thesis using r' by blast
  next
    case False
    show ?thesis
    proof (cases "rs_flight r p")
      case Nil
      have mods: "n mod 5 = 0 \<or> n mod 5 = 1 \<or> n mod 5 = 3"
      proof -
        have "n mod 5 \<in> {0, 1, 2, 3, 4}" by auto
        then show ?thesis using False by (auto simp: at_call_def)
      qed
      then obtain r' where r': "rounds_advance P ms p r = Some r'"
        using p lt Nil by (auto simp: rounds_advance_def Let_def)
      have ne: "r' \<noteq> r" using advance_pc[OF r'] by (metis fun_upd_same less_add_one less_irrefl)
      have "\<not> in_sync (pes b p)" using coll_okD(4)[OF ok p(1)] p(2) False by simp
      then obtain b1 where b1: "sync_exec A ms b (Enter p) = Some b1" using p(1) by (simp add: Let_def)
      have "\<exists>b'. coll_exec A P ms (Run (Advance p)) (r, b) = Some (r', b')"
        using mods
      proof (elim disjE)
        assume "n mod 5 = 0"
        then show ?thesis using r' p(2) by simp
      next
        assume "n mod 5 = 1"
        then show ?thesis using r' p(2) b1 by (simp del: sync_exec.simps)
      next
        assume "n mod 5 = 3"
        then show ?thesis using r' p(2) b1 by (simp add: numeral_3_eq_3 del: sync_exec.simps)
      qed
      then show ?thesis using one ne by blast
    next
      case (Cons m ml)
      then have "\<exists>r'. rounds_deliver p 0 r = Some r'" by (auto simp: rounds_deliver_def split: prod.splits)
      then obtain r' where r': "rounds_deliver p 0 r = Some r'" by blast
      then have "r' \<noteq> r" by (rule deliver_cases) auto
      moreover have "coll_exec A P ms (Run (rounds_label.Deliver p 0)) (r, b) = Some (r', b)" using r' by simp
      ultimately show ?thesis using one by blast
    qed
  qed
qed

end

lemma rounds_decrease:
  assumes "put_rounds P ms reads got" "(rounds_step P ms)\<^sup>*\<^sup>* (rounds_new P wrk) r" "(rounds_step P ms)\<^sup>*\<^sup>* r r'"
  shows "r' = r \<or> ((rounds_work P ms r', in_flight ms r'), (rounds_work P ms r, in_flight ms r)) \<in> less_than <*lex*> less_than"
  using assms(3)
proof (induction rule: rtranclp_induct)
  case (step u v)
  have "(rounds_step P ms)\<^sup>*\<^sup>* (rounds_new P wrk) u" using assms(2) step.hyps(1) by simp
  from put_rounds.step_uses_work[OF assms(1) put_rounds.rounds_inv_reachable[OF assms(1) this] step.hyps(2)]
  show ?case using step.IH by auto
qed simp

context team_barrier
begin

lemma coll_ends:
  assumes "put_rounds P ms reads got" "coll_ok P wrk c0 (r, b)"
  shows "\<exists>r' b'. (coll_step A P ms)\<^sup>*\<^sup>* (r, b) (r', b') \<and> (\<forall>p\<in>set ms. finished P r' p)"
  using assms(2)
proof (induction "(rounds_work P ms r, in_flight ms r)" arbitrary: r b rule: wf_induct_rule[OF wf_lex_prod[OF wf_less_than wf_less_than]])
  case (1 r b)
  show ?case
  proof (cases "\<forall>p\<in>set ms. finished P r p")
    case False
    then obtain r' b' where s': "(coll_step A P ms)\<^sup>*\<^sup>* (r, b) (r', b')" "r' \<noteq> r" using run_progress[OF 1(2)] by blast
    note ok = coll_ok_steps[OF s'(1) 1(2)]
    have "((rounds_work P ms r', in_flight ms r'), (rounds_work P ms r, in_flight ms r)) \<in> less_than <*lex*> less_than"
      using rounds_decrease[OF assms(1) coll_okD(1)[OF 1(2)]] ok s'(2) by auto
    then obtain r'' b'' where "(coll_step A P ms)\<^sup>*\<^sup>* (r', b') (r'', b'')" "\<forall>p\<in>set ms. finished P r'' p"
      using 1(1)[of r' b'] ok by blast
    then show ?thesis using s'(1) by (meson rtranclp_trans)
  qed blast
qed

lemma coll_reachable:
  assumes "(sync_step A ms)\<^sup>*\<^sup>* sync_new b0" "between_calls ms b0 c0" "(coll_step A P ms)\<^sup>*\<^sup>* (rounds_new P wrk, b0) (r, b)"
  shows "coll_ok P wrk c0 (r, b)" "(rounds_step P ms)\<^sup>*\<^sup>* (rounds_new P wrk) r"
  using coll_ok_steps[OF assms(3) coll_new[OF assms(1,2)]] by simp_all

lemma finished_between:
  assumes "coll_ok P wrk c0 (r, b)" "\<forall>p\<in>set ms. finished P r p"
  shows "between_calls ms b (c0 + 2 * rd_count P)"
  using coll_okD(3,4)[OF assms(1)] assms(2) by (simp add: between_calls_def finished_def calls_def at_call_def)

end

section \<open>The reduction\<close>

text \<open>
  C7: The reduction in segments computes the reduction. The PEs of a team run \<open>gpu_rdxn_segment_threadgroup\<close> over the
  dissemination barrier that \<open>nvshmemi_sync_algo_threadgroup\<close> chooses, from any state of the barrier between two collectives.
  The radix is one with which the barrier is safe, the size of the type divides the size of a segment, and there is at
  least one round: a team of one PE may have none, and then nothing waits for the copy to \<open>dest\<close>. Whatever the order in
  which the PEs and their threads run and puts and signals arrive, when a PE has returned every element of its \<open>dest\<close> is the
  reduction of that element over the team, each PE's value taken once, for each operator of the integer types. All PEs
  can always go on until they have returned, and they leave the barrier between two collectives again.
\<close>

theorem segment_reduces:
  fixes source :: "int \<Rightarrow> nat \<Rightarrow> 'w::len word"
  assumes "coherent_team npes teams t" "0 < g" "nvshmemi_sync_algo_threadgroup kval block g teams t = Some A"
    "tm_p2p_connected t \<and> block \<or> kval \<notin> {4, 8, 16, 32} \<or> tm_size t \<le> kval"
    "op \<noteq> RDXN_OPS_MAXLOC" "0 < type_size" "type_size dvd rdxn_seg_size scratch"
    "gpu_rdxn_segment_threadgroup scratch type_size teams (tm_size t) (rdxn sg op) source nelems = Some P" "0 < rd_count P"
    "(sync_step A (team_pes t))\<^sup>*\<^sup>* sync_new b0" "between_calls (team_pes t) b0 c0"
    "(coll_step A P (team_pes t))\<^sup>*\<^sup>* (rounds_new P wrk, b0) (r, b)"
  shows "(\<forall>p\<in>set (team_pes t). finished P r p \<longrightarrow>
      (\<forall>j<nelems. rs_dest r p j = reduce_all (rdxn sg op) (map (\<lambda>q. source q j) (team_pes t)))) \<and>
    (\<exists>r' b'. (coll_step A P (team_pes t))\<^sup>*\<^sup>* (r, b) (r', b') \<and> (\<forall>p\<in>set (team_pes t). finished P r' p) \<and>
      between_calls (team_pes t) b' (c0 + 2 * rd_count P))"
proof
  note bar = sync_algo_barrier[OF assms(1-4)]
  note ok = team_barrier.coll_reachable[OF bar assms(10-12)]
  show "\<forall>p\<in>set (team_pes t). finished P r p \<longrightarrow>
      (\<forall>j<nelems. rs_dest r p j = reduce_all (rdxn sg op) (map (\<lambda>q. source q j) (team_pes t)))"
    using segment_rounds_reduce[OF assms(1,5-8) ok(2)] by blast
  obtain reads got where pr: "put_rounds P (team_pes t) reads got" using segment_put_rounds[OF assms(1,8)] by blast
  obtain r' b' where e: "(coll_step A P (team_pes t))\<^sup>*\<^sup>* (r, b) (r', b')" "\<forall>p\<in>set (team_pes t). finished P r' p"
    using team_barrier.coll_ends[OF bar pr ok(1)] by blast
  show "\<exists>r' b'. (coll_step A P (team_pes t))\<^sup>*\<^sup>* (r, b) (r', b') \<and> (\<forall>p\<in>set (team_pes t). finished P r' p) \<and>
      between_calls (team_pes t) b' (c0 + 2 * rd_count P)"
    using e team_barrier.finished_between[OF bar conjunct1[OF team_barrier.coll_ok_steps[OF bar e(1) ok(1)]] e(2)] by blast
qed

theorem segment_reduces_witness:
  "\<exists>A P r b. nvshmemi_sync_algo_threadgroup 2 False 1 (demo_views 3) (demo_views 3 0) = Some A \<and>
     gpu_rdxn_segment_threadgroup 128 4 (demo_views 3) 3 (rdxn False RDXN_OPS_SUM) (\<lambda>q j. of_int q * 10 + of_nat j :: u32) 3 = Some P \<and>
     (coll_step A P (team_pes (demo_views 3 0)))\<^sup>*\<^sup>* (rounds_new P (\<lambda>_ _. 77), sync_new) (r, b) \<and> finished P r 1 \<and> rs_dest r 1 2 = 36"
proof -
  let ?src = "\<lambda>q j. of_int q * 10 + of_nat j :: u32" and ?ms = "team_pes (demo_views 3 0)"
  have "segment_rounds 128 4 3 3 = Some [(0, 2, [1]), (0, 2, [2]), (2, 1, [1, 2])]" by code_simp
  then obtain P where P: "gpu_rdxn_segment_threadgroup 128 4 (demo_views 3) 3 (rdxn False RDXN_OPS_SUM) ?src 3 = Some P" "0 < rd_count P"
    by (auto simp: gpu_rdxn_segment_threadgroup_def)
  have "nvshmemi_sync_algo_threadgroup 2 False 1 (demo_views 3) (demo_views 3 0) \<noteq> None" by code_simp
  then obtain A where A: "nvshmemi_sync_algo_threadgroup 2 False 1 (demo_views 3) (demo_views 3 0) = Some A" by blast
  have sz: "tm_size (demo_views 3 0) = 3" by code_simp
  have coh: "coherent_team 3 (demo_views 3) (demo_views 3 0)" by (rule demo_coherent) simp
  have m: "1 \<in> set ?ms" "?ms = [0, 1, 2]" by code_simp+
  have b: "between_calls ?ms sync_new 1" by (simp add: between_calls_def sync_new_def)
  have d: "4 dvd rdxn_seg_size 128" by (simp add: rdxn_seg_size_def)
  note S = segment_reduces[OF coh zero_less_one A _ _ _ d P(1)[folded sz] P(2) rtranclp.rtrancl_refl b, simplified]
  obtain r b' where rb: "(coll_step A P ?ms)\<^sup>*\<^sup>* (rounds_new P (\<lambda>_ _. 77), sync_new) (r, b')" "\<forall>p\<in>set ?ms. finished P r p"
    using S[OF rtranclp.rtrancl_refl] by blast
  have "rs_dest r 1 2 = reduce_all (rdxn False RDXN_OPS_SUM) (map (\<lambda>q. ?src q 2) ?ms)" using S[OF rb(1)] rb(2) m(1) by force
  then have "rs_dest r 1 2 = 36" unfolding m(2) by (simp add: reduce_all_def)
  then show ?thesis using A P(1) rb m(1) by blast
qed

end
