(* ===== verification/Recexch.thy ===== *)
theory Recexch
  imports Team_State
begin

text \<open>
  The recursive exchange reduction: the tables that \<open>nvshmemi_recexchalgo_get_neighbors\<close> computes for a team, and
  the reduction of \<open>gpu_rdxn_recexch_threadgroup\<close> that follows them.

  With \<open>p\<close> the largest power of the radix \<open>k\<close> that is not above the number of PEs, \<open>p\<close> of the PEs take part in the
  exchange and the other \<open>rem\<close> hand their data to one of them first (step 1). In phase \<open>f\<close> of the exchange (step 2) a PE meets
  the \<open>k - 1\<close> PEs whose number differs from its own in the digit \<open>f\<close> to the base \<open>k\<close>. In the end the result goes back to
  the PEs that did not take part (step 3). The products stay far below \<open>2 ^ 31\<close> for every number of PEs that
  \<open>SYNC_SIZE\<close> allows and are computed on unbounded integers.
\<close>

section \<open>The tables\<close>

record recexch =
  step1_sendto :: int
  step1_recvfrom :: "int list"
  step2_nbrs :: "int list list"
  step2_nphases :: nat

definition recexch_k :: "int \<Rightarrow> int \<Rightarrow> int" where
  "recexch_k kval num_pes = (if num_pes < kval then if num_pes > 2 then num_pes else 2 else kval)"

text \<open>The radix the kernels use, from \<open>nvshmemi_coll_common_cpu_read_env\<close>.\<close>

definition reduce_recexch_kval :: "int \<Rightarrow> int \<Rightarrow> int" where
  "reduce_recexch_kval kval npes = (if kval > npes then max 2 npes else kval)"

text \<open>\<open>while (p_of_k <= num_pes) { p_of_k *= k; log_p_of_k++; }\<close>; the assertion gives \<open>k > 1\<close>.\<close>

function p_of_k_loop :: "int \<Rightarrow> int \<Rightarrow> int \<Rightarrow> nat \<Rightarrow> int \<times> nat" where
  "p_of_k_loop k num_pes p l = (if p \<le> num_pes \<and> 1 < k \<and> 0 < p then p_of_k_loop k num_pes (p * k) (l + 1) else (p, l))"
  by pat_completeness auto
termination
  by (relation "measure (\<lambda>(k, n, p, l). nat (n + 1 - p))") (auto simp: nat_less_eq_zless)

declare p_of_k_loop.simps [simp del]

definition p_of_k :: "int \<Rightarrow> int \<Rightarrow> int \<times> nat" where
  "p_of_k k num_pes = (let (p, l) = p_of_k_loop k num_pes 1 0 in (p sdiv k, if l > 0 then l - 1 else l))"

text \<open>Step 1: whom to send to (-1 for a PE that takes part), from whom to receive, and the number in the exchange.\<close>

definition recexch_step1 :: "int \<Rightarrow> int \<Rightarrow> int \<Rightarrow> int \<Rightarrow> int \<times> int list \<times> int" where
  "recexch_step1 k rem T my_pe =
     (if my_pe < T then
        if my_pe smod k \<noteq> k - 1 then
          let to = my_pe + (k - 1 - my_pe smod k) in (if to > T - 1 then T else to, [], -1)
        else (-1, map (\<lambda>i. my_pe - i - 1) [0..k - 2], my_pe sdiv k)
      else
        let newpe = my_pe - rem
        in if my_pe = T \<and> (T - 1) smod k \<noteq> k - 1 \<and> T \<ge> 1 then
             let nsenders = (T - 1) smod k + 1
             in (-1, map (\<lambda>i. T - nsenders + (nsenders - 1 - i)) [0..nsenders - 1], newpe)
           else (-1, [], newpe))"

text \<open>
  Step 2: the digits of the number, least first; \<open>None\<close> is a store behind the array. Then for every phase the numbers with
  that digit replaced, as real PEs.
\<close>

function set_digits :: "int \<Rightarrow> int list \<Rightarrow> nat \<Rightarrow> int \<Rightarrow> int list option" where
  "set_digits k ds i x =
     (if x \<le> 0 \<or> k \<le> 1 then Some ds
      else if i < length ds then set_digits k (ds[i := x mod k]) (i + 1) (x div k) else None)"
  by pat_completeness auto
termination
  by (relation "measure (\<lambda>(k, ds, i, x). nat x)") (auto simp: nat_less_eq_zless int_div_less_self)

declare set_digits.simps [simp del]

fun digits_value :: "int \<Rightarrow> int \<Rightarrow> int list \<Rightarrow> int" where
  "digits_value k pw [] = 0"
| "digits_value k pw (d # ds) = d * pw + digits_value k (pw * k) ds"

definition real_pe :: "int \<Rightarrow> int \<Rightarrow> int \<Rightarrow> int" where
  "real_pe k rem nbr = (if nbr < rem sdiv (k - 1) then nbr * k + (k - 1) else nbr + rem)"

definition phase_nbrs :: "int \<Rightarrow> int \<Rightarrow> int list \<Rightarrow> nat \<Rightarrow> int list" where
  "phase_nbrs k rem digit phase =
     map (\<lambda>i. real_pe k rem (digits_value k 1 (digit[phase := i]))) (filter (\<lambda>i. i \<noteq> digit ! phase) [0..k - 1])"

function step2_phases :: "int \<Rightarrow> int \<Rightarrow> int \<Rightarrow> int list \<Rightarrow> int \<Rightarrow> nat \<Rightarrow> int list list" where
  "step2_phases k p rem digit msk phase =
     (if msk < p \<and> 1 < k \<and> 0 < msk then phase_nbrs k rem digit phase # step2_phases k p rem digit (msk * k) (phase + 1) else [])"
  by pat_completeness auto
termination
  by (relation "measure (\<lambda>(k, p, rem, digit, msk, phase). nat (p - msk))") (auto simp: nat_less_eq_zless)

declare step2_phases.simps [simp del]

definition recexch_local :: "int \<Rightarrow> int \<Rightarrow> int \<Rightarrow> recexch option" where
  "recexch_local k num_pes my_pe =
     (let (p, log) = p_of_k k num_pes; rem = num_pes - p; T = (rem * k) sdiv (k - 1);
          (sendto, recvfrom, newpe) = recexch_step1 k rem T my_pe
      in if sendto = -1 then
           (case set_digits k (replicate log 0) 0 newpe of
              None \<Rightarrow> None
            | Some digit \<Rightarrow> Some \<lparr>step1_sendto = sendto, step1_recvfrom = recvfrom,
                step2_nbrs = step2_phases k p rem digit 1 0, step2_nphases = log\<rparr>)
         else Some \<lparr>step1_sendto = sendto, step1_recvfrom = recvfrom,
                step2_nbrs = replicate log (replicate (nat (k - 1)) TEAM_SCALAR_INVALID), step2_nphases = log\<rparr>)"

text \<open>At last the indices are turned into PE numbers.\<close>

definition nvshmemi_recexchalgo_get_neighbors :: "int \<Rightarrow> nvshmemi_team \<Rightarrow> recexch option" where
  "nvshmemi_recexchalgo_get_neighbors kval t =
     (let k = recexch_k kval (tm_size t); world = \<lambda>i. the (mapping_at t i)
      in map_option (\<lambda>r. r\<lparr>step1_sendto := (if step1_sendto r \<noteq> -1 then world (step1_sendto r) else -1),
             step1_recvfrom := map world (step1_recvfrom r),
             step2_nbrs := map (map (\<lambda>x. if x \<noteq> TEAM_SCALAR_INVALID then world x else x)) (step2_nbrs r)\<rparr>)
           (recexch_local k (tm_size t) (tm_my_pe t)))"

section \<open>The reduction\<close>

text \<open>
  \<open>gpu_rdxn_recexch_threadgroup\<close> on the world team, for one element. A put is followed by a fence and a signal, and
  the receiver waits for the signal of the sender, of which there is one per call, before it reads; so the values read are
  those put, and the computation is the flow of data written down here. The places in the work array \<open>pWrk\<close>, in units of
  \<open>nreduce\<close> elements, are kept: \<open>step1_puts\<close> and \<open>phase_puts\<close> list what the PEs put into the array of PE \<open>x\<close> and where.
\<close>

definition in_step2 :: "recexch \<Rightarrow> bool" where "in_step2 r \<longleftrightarrow> step1_sendto r = -1"

definition step1_puts :: "(int \<Rightarrow> recexch) \<Rightarrow> int \<Rightarrow> (int \<Rightarrow> 'a) \<Rightarrow> int \<Rightarrow> (int \<times> 'a) list" where
  "step1_puts tab num_pes source x =
     map (\<lambda>y. (step1_sendto (tab y) - y - 1, source y))
       (filter (\<lambda>y. \<not> in_step2 (tab y) \<and> step1_sendto (tab y) = x) [0..num_pes - 1])"

definition after_step1 :: "(int \<Rightarrow> recexch) \<Rightarrow> int \<Rightarrow> (int \<Rightarrow> 'a :: comm_monoid_add) \<Rightarrow> int \<Rightarrow> 'a" where
  "after_step1 tab num_pes source x =
     fold (\<lambda>y dst. dst + the (map_of (step1_puts tab num_pes source x) (x - y - 1))) (step1_recvfrom (tab x)) (source x)"

text \<open>The number of neighbours below the rank, by the search for the first one above it.\<close>

fun num_small_from :: "int \<Rightarrow> int \<Rightarrow> int list \<Rightarrow> int" where
  "num_small_from rank i [] = i"
| "num_small_from rank i (nb # ns) = (if nb > rank then i else num_small_from rank (i + 1) ns)"

definition phase_puts :: "(int \<Rightarrow> recexch) \<Rightarrow> int \<Rightarrow> int \<Rightarrow> nat \<Rightarrow> (int \<Rightarrow> 'a) \<Rightarrow> int \<Rightarrow> (int \<times> 'a) list" where
  "phase_puts tab num_pes k phase dst x =
     map (\<lambda>y. ((k - 1) + k * int phase + num_small_from y 0 (step2_nbrs (tab y) ! phase), dst y))
       (filter (\<lambda>y. in_step2 (tab y) \<and> x \<in> set (step2_nbrs (tab y) ! phase)) [0..num_pes - 1])"

definition recv_slot :: "int \<Rightarrow> nat \<Rightarrow> int \<Rightarrow> int \<times> int \<Rightarrow> int" where
  "recv_slot k phase rank inb = (case inb of (i, nb) \<Rightarrow> (k - 1) + k * int phase + (if nb < rank then i else i + 1))"

fun after_phases :: "(int \<Rightarrow> recexch) \<Rightarrow> int \<Rightarrow> int \<Rightarrow> (int \<Rightarrow> 'a :: comm_monoid_add) \<Rightarrow> nat \<Rightarrow> int \<Rightarrow> 'a" where
  "after_phases tab num_pes k source 0 x = after_step1 tab num_pes source x"
| "after_phases tab num_pes k source (Suc phase) x =
     (let dst = after_phases tab num_pes k source phase; nbrs = step2_nbrs (tab x) ! phase
      in fold (\<lambda>inb acc. acc + the (map_of (phase_puts tab num_pes k phase dst x) (recv_slot k phase x inb)))
           (zip [0..int (length nbrs) - 1] nbrs) (dst x))"

text \<open>
  Step 3: a PE that received in step 1 puts the result to those it received from; a PE that sent waits for the signal
  of the PE it sent to, and finds the result that this PE put. \<open>None\<close> is a wait without an end.
\<close>

definition step3_puts :: "(int \<Rightarrow> recexch) \<Rightarrow> int \<Rightarrow> (int \<Rightarrow> 'a) \<Rightarrow> int \<Rightarrow> (int \<times> 'a) list" where
  "step3_puts tab num_pes dst x = map (\<lambda>y. (y, dst y)) (filter (\<lambda>y. x \<in> set (step1_recvfrom (tab y))) [0..num_pes - 1])"

definition gpu_rdxn_recexch_threadgroup :: "(int \<Rightarrow> recexch) \<Rightarrow> int \<Rightarrow> int \<Rightarrow> (int \<Rightarrow> 'a :: comm_monoid_add) \<Rightarrow> int \<Rightarrow> 'a option" where
  "gpu_rdxn_recexch_threadgroup tab num_pes k source x =
     (let dst = \<lambda>y. after_phases tab num_pes k source (step2_nphases (tab y)) y
      in if in_step2 (tab x) then Some (dst x) else map_of (step3_puts tab num_pes dst x) (step1_sendto (tab x)))"

end
