(* ===== verification/Recexch_Tables.thy ===== *)
theory Recexch_Tables
  imports Recexch
begin

text \<open>
  What the tables of the recursive exchange say, for every radix and number of PEs: the locale \<open>rx\<close> fixes a radix \<open>k\<close>, a
  number \<open>n\<close> of PEs and the power \<open>k ^ m\<close> below it.
\<close>

lemma p_of_k_loop:
  assumes "2 \<le> k" "1 \<le> n"
  shows "\<exists>m \<ge> l. p_of_k_loop k n (k ^ l) l = (k ^ m, m) \<and> n < k ^ m \<and> (l < m \<longrightarrow> k ^ (m - 1) \<le> n)"
proof (induction "nat (n + 1 - k ^ l)" arbitrary: l rule: less_induct)
  case less
  have kl: "0 < k ^ l" using assms by simp
  show ?case
  proof (cases "k ^ l \<le> n")
    case True
    have "k ^ l * 2 \<le> k ^ l * k" using assms kl by (intro mult_left_mono) simp_all
    then have "k ^ l < k ^ Suc l" using kl by (simp add: mult.commute)
    then have "nat (n + 1 - k ^ Suc l) < nat (n + 1 - k ^ l)" using True by simp
    from less[OF this] obtain m where m: "Suc l \<le> m" "p_of_k_loop k n (k ^ Suc l) (Suc l) = (k ^ m, m)" "n < k ^ m" "Suc l < m \<longrightarrow> k ^ (m - 1) \<le> n"
      by blast
    have "p_of_k_loop k n (k ^ l) l = (k ^ m, m)" using m(2) True assms kl by (subst p_of_k_loop.simps) (simp add: mult.commute)
    moreover have "k ^ (m - 1) \<le> n" using m(1,4) True by (cases "Suc l = m") auto
    ultimately show ?thesis using m(1,3) by (intro exI[of _ m]) simp
  next
    case False
    then show ?thesis by (intro exI[of _ l]) (subst p_of_k_loop.simps, simp)
  qed
qed

lemma p_of_k:
  assumes "2 \<le> k" "1 \<le> n"
  shows "p_of_k k n = (k ^ snd (p_of_k k n), snd (p_of_k k n))" "k ^ snd (p_of_k k n) \<le> n" "n < k ^ Suc (snd (p_of_k k n))"
proof -
  obtain m where m: "p_of_k_loop k n 1 0 = (k ^ m, m)" "n < k ^ m" "0 < m \<longrightarrow> k ^ (m - 1) \<le> n"
    using p_of_k_loop[OF assms, of 0] by auto
  have m0: "0 < m" using m(2) assms by (cases m) auto
  then have "k ^ m = k ^ (m - 1) * k" by (metis power_minus_mult)
  then have "k ^ m sdiv k = k ^ (m - 1)" using assms(1) by (simp add: sdiv_pos)
  then have e: "p_of_k k n = (k ^ (m - 1), m - 1)" using m m0 unfolding p_of_k_def by simp
  show "p_of_k k n = (k ^ snd (p_of_k k n), snd (p_of_k k n))" "k ^ snd (p_of_k k n) \<le> n" "n < k ^ Suc (snd (p_of_k k n))"
    using m m0 unfolding e by simp_all
qed

lemma mod_digit: "0 \<le> y \<Longrightarrow> y < k \<Longrightarrow> (x * k + y) mod k = (y :: int)"
  by (metis mod_mult_self3 mod_pos_pos_trivial)

lemma div_digit: "0 \<le> y \<Longrightarrow> y < k \<Longrightarrow> (x * k + y) div k = (x :: int)"
  using div_mult_self3[of k x y] by (simp add: div_pos_pos_trivial)

section \<open>Digits\<close>

definition digits :: "int \<Rightarrow> nat \<Rightarrow> int \<Rightarrow> int list" where "digits k m x = map (\<lambda>f. x div k ^ f mod k) [0..<m]"

lemma digits_Suc: "0 < k \<Longrightarrow> digits k (Suc m) x = (x mod k) # digits k m (x div k)"
  unfolding digits_def by (simp add: upt_conv_Cons map_Suc_upt[symmetric] zdiv_zmult2_eq del: upt_Suc)

lemma digits_value_digits: "0 < k \<Longrightarrow> digits_value k pw (digits k m x) = pw * (x mod k ^ m)"
proof (induction m arbitrary: x pw)
  case (Suc m)
  have "x mod (k * k ^ m) = k * (x div k mod k ^ m) + x mod k" using Suc.prems by (intro zmod_zmult2_eq) simp
  then show ?case using Suc by (simp add: digits_Suc algebra_simps)
qed (simp add: digits_def)

lemma digits_value_update:
  "f < length ds \<Longrightarrow> digits_value k pw (ds[f := c]) = digits_value k pw ds + (c - ds ! f) * pw * k ^ f"
proof (induction ds arbitrary: f pw)
  case (Cons d ds)
  show ?case
  proof (cases f)
    case (Suc g)
    then show ?thesis using Cons.prems Cons.IH[of g "pw * k"] by (simp add: mult.assoc)
  qed (simp add: algebra_simps)
qed simp

lemma div_below:
  assumes "0 < (k :: int)" "x < c * k"
  shows "x div k < c"
proof (rule ccontr)
  assume "\<not> x div k < c"
  then have "c * k \<le> (x div k) * k" using assms(1) by (intro mult_right_mono) simp_all
  moreover have "(x div k) * k \<le> x" using assms(1) pos_mod_sign[of k x] div_mult_mod_eq[of x k] by linarith
  ultimately show False using assms(2) by linarith
qed

lemma set_digits_from:
  assumes "2 \<le> k"
  shows "i \<le> length ds \<Longrightarrow> 0 \<le> x \<Longrightarrow> x < k ^ (length ds - i) \<Longrightarrow> \<forall>j < length ds. i \<le> j \<longrightarrow> ds ! j = 0 \<Longrightarrow>
    set_digits k ds i x = Some (map (\<lambda>j. if j < i then ds ! j else x div k ^ (j - i) mod k) [0..<length ds])"
proof (induction "nat x" arbitrary: ds i x rule: less_induct)
  case less
  show ?case
  proof (cases "x = 0")
    case True
    then have "map (\<lambda>j. if j < i then ds ! j else x div k ^ (j - i) mod k) [0..<length ds] = ds"
      using less.prems(4) by (intro nth_equalityI) auto
    then show ?thesis using True by (subst set_digits.simps) simp
  next
    case False
    then have x: "0 < x" using less.prems(2) by simp
    have i: "i < length ds" using less.prems(1,3) x by (cases "i = length ds") auto
    let ?ds = "ds[i := x mod k]"
    have dv: "0 \<le> x div k" "nat (x div k) < nat x" using x assms
      by (simp_all add: pos_imp_zdiv_nonneg_iff nat_less_eq_zless int_div_less_self)
    have "x < k ^ (length ds - Suc i) * k" using less.prems(3) i by (metis Suc_diff_Suc power_Suc2)
    then have b: "x div k < k ^ (length ?ds - Suc i)" using assms by (simp add: div_below)
    have "set_digits k ?ds (Suc i) (x div k) =
      Some (map (\<lambda>j. if j < Suc i then ?ds ! j else x div k div k ^ (j - Suc i) mod k) [0..<length ?ds])"
      by (rule less.hyps[OF dv(2) _ dv(1) b]) (use i less.prems(4) in auto)
    moreover have "map (\<lambda>j. if j < Suc i then ?ds ! j else x div k div k ^ (j - Suc i) mod k) [0..<length ?ds] =
      map (\<lambda>j. if j < i then ds ! j else x div k ^ (j - i) mod k) [0..<length ds]"
    proof (rule nth_equalityI)
      fix j assume "j < length (map (\<lambda>j. if j < Suc i then ?ds ! j else x div k div k ^ (j - Suc i) mod k) [0..<length ?ds])"
      then have j: "j < length ds" by simp
      have "x div k div k ^ (j - Suc i) = x div k ^ (j - i)" if "i < j"
      proof -
        have "k ^ (j - i) = k * k ^ (j - Suc i)" using that by (metis Suc_diff_Suc power_Suc)
        then show ?thesis using assms by (simp add: zdiv_zmult2_eq)
      qed
      then show "map (\<lambda>j. if j < Suc i then ?ds ! j else x div k div k ^ (j - Suc i) mod k) [0..<length ?ds] ! j =
          map (\<lambda>j. if j < i then ds ! j else x div k ^ (j - i) mod k) [0..<length ds] ! j"
        using j i by (cases "j < i"; cases "j = i") auto
    qed simp
    ultimately show ?thesis using x assms i by (subst set_digits.simps) simp
  qed
qed

lemma set_digits_digits:
  assumes "2 \<le> k" "0 \<le> x" "x < k ^ m"
  shows "set_digits k (replicate m 0) 0 x = Some (digits k m x)"
  using set_digits_from[OF assms(1), of 0 "replicate m 0" x] assms(2,3) by (simp add: digits_def)

lemma step2_phases_upto:
  assumes "2 \<le> k" "j \<le> m"
  shows "step2_phases k (k ^ m) rem ds (k ^ j) j = map (phase_nbrs k rem ds) [j..<m]"
  using assms(2)
proof (induction "m - j" arbitrary: j)
  case 0
  then show ?case by (subst step2_phases.simps) simp
next
  case (Suc d)
  then have j: "j < m" by simp
  have "k ^ j < k ^ m" using assms(1) j by (intro power_strict_increasing) simp_all
  moreover have "step2_phases k (k ^ m) rem ds (k ^ Suc j) (Suc j) = map (phase_nbrs k rem ds) [Suc j..<m]"
    using Suc by (intro Suc.hyps) simp_all
  ultimately show ?case using assms(1) j by (subst step2_phases.simps) (simp add: mult.commute upt_conv_Cons)
qed

locale rx =
  fixes k n :: int and m :: nat
  assumes k: "2 \<le> k" and le: "k ^ m \<le> n" and lt: "n < k ^ Suc m"
begin

abbreviation p :: int where "p \<equiv> k ^ m"
abbreviation rem :: int where "rem \<equiv> n - p"
definition q :: int where "q = rem div (k - 1)"
definition r :: int where "r = rem mod (k - 1)"
definition T :: int where "T = q * k + r"

lemma facts: "0 < p" "0 \<le> rem" "0 \<le> q" "0 \<le> r" "r < k - 1" "rem = q * (k - 1) + r" "q < p" "T = rem + q" "T < n" "0 \<le> T"
proof -
  show p0: "0 < p" using k by simp
  show rem0: "0 \<le> rem" using le by simp
  show q0: "0 \<le> q" unfolding q_def using rem0 k by (simp add: pos_imp_zdiv_nonneg_iff)
  show r0: "0 \<le> r" "r < k - 1" unfolding r_def using k by simp_all
  show e: "rem = q * (k - 1) + r" unfolding q_def r_def by (rule div_mult_mod_eq[symmetric])
  have "rem < p * (k - 1)" using lt by (simp add: algebra_simps)
  then have "q * (k - 1) < p * (k - 1)" using e r0 by linarith
  then show qp: "q < p" using k by (simp add: mult_less_cancel_right)
  have "q * k = q * (k - 1) + q" by (simp add: algebra_simps)
  then show T: "T = rem + q" unfolding T_def using e by linarith
  show "T < n" using T qp by linarith
  show "0 \<le> T" using T rem0 q0 by linarith
qed

lemma T_eq: "(rem * k) sdiv (k - 1) = T"
proof -
  have "rem * k = (q * (k - 1) + r) * k" using facts(6) by simp
  also have "\<dots> = r + T * (k - 1) + (r - r)" unfolding T_def by (simp add: algebra_simps)
  finally have "rem * k = r + T * (k - 1)" by simp
  then have "(rem * k) div (k - 1) = T + r div (k - 1)" using k by simp
  moreover have "r div (k - 1) = 0" using facts(4,5) by simp
  ultimately show ?thesis using k facts(2) by (simp add: sdiv_pos)
qed

lemma q_eq: "rem sdiv (k - 1) = q" using k facts(2) by (simp add: sdiv_pos q_def)

text \<open>Which PEs take part, and their numbers.\<close>

definition part :: "int \<Rightarrow> bool" where "part i \<longleftrightarrow> T \<le> i \<or> i mod k = k - 1"

definition number :: "int \<Rightarrow> int" where "number i = (if i < T then i div k else i - rem)"

definition target :: "int \<Rightarrow> int" where
  "target i = (if i - i mod k + (k - 1) < T then i - i mod k + (k - 1) else T)"

lemma block:
  assumes "0 \<le> i" "i < T" "i mod k = k - 1"
  shows "0 \<le> i div k \<and> i div k < q \<and> i = (i div k) * k + (k - 1)"
proof -
  have e: "i = (i div k) * k + (k - 1)" using assms(3) div_mult_mod_eq[of i k] by simp
  have "i div k < q"
  proof (rule ccontr)
    assume "\<not> i div k < q"
    then have "q * k \<le> (i div k) * k" using k by (intro mult_right_mono) simp_all
    then show False using e assms(2) facts(5) T_def by linarith
  qed
  then show ?thesis using e assms(1) k by (simp add: pos_imp_zdiv_nonneg_iff)
qed

lemma real_part:
  assumes "0 \<le> x" "x < p"
  shows "0 \<le> real_pe k rem x" "real_pe k rem x < n" "part (real_pe k rem x)" "number (real_pe k rem x) = x"
proof -
  consider "x < q" | "q \<le> x" by linarith
  then have "0 \<le> real_pe k rem x \<and> real_pe k rem x < n \<and> part (real_pe k rem x) \<and> number (real_pe k rem x) = x"
  proof cases
    case 1
    have b: "x * k + (k - 1) < q * k"
    proof -
      have "(x + 1) * k \<le> q * k" using 1 k by (intro mult_right_mono) simp_all
      then show ?thesis by (simp add: algebra_simps)
    qed
    have x0: "0 \<le> x * k" using assms k by simp
    have md: "(x * k + (k - 1)) mod k = k - 1" "(x * k + (k - 1)) div k = x"
      using mod_digit[of "k - 1" k x] div_digit[of "k - 1" k x] k by auto
    have lT: "x * k + (k - 1) < T" using b facts(4) T_def by linarith
    then have ln: "x * k + (k - 1) < n" using facts(9) by linarith
    have re: "real_pe k rem x = x * k + (k - 1)" using 1 by (simp only: real_pe_def q_eq if_True)
    show ?thesis unfolding re part_def number_def md using x0 k ln lT by (simp only: if_True) auto
  next
    case 2
    then show ?thesis using facts(2,8) assms by (simp add: real_pe_def q_eq part_def number_def)
  qed
  then show "0 \<le> real_pe k rem x" "real_pe k rem x < n" "part (real_pe k rem x)" "number (real_pe k rem x) = x" by blast+
qed

lemma part_real:
  assumes "0 \<le> i" "i < n" "part i"
  shows "0 \<le> number i" "number i < p" "real_pe k rem (number i) = i"
proof -
  have "0 \<le> number i \<and> number i < p \<and> real_pe k rem (number i) = i"
  proof (cases "i < T")
    case True
    then have b: "0 \<le> i div k" "i div k < q" "i = (i div k) * k + (k - 1)" using block assms unfolding part_def by auto
    then have "real_pe k rem (i div k) = i" unfolding real_pe_def q_eq by metis
    then show ?thesis using b True facts(7) by (simp add: number_def)
  next
    case False
    then show ?thesis using facts(3,8) assms by (simp add: number_def real_pe_def q_eq)
  qed
  then show "0 \<le> number i" "number i < p" "real_pe k rem (number i) = i" by blast+
qed

lemma real_mono: "0 \<le> x \<Longrightarrow> x < y \<Longrightarrow> y < p \<Longrightarrow> real_pe k rem x < real_pe k rem y"
proof -
  assume xy: "0 \<le> x" "x < y" "y < p"
  have "x * k + (k - 1) < y * k + (k - 1)" using xy k by simp
  moreover have "x * k + (k - 1) < y + rem" if "x < q" "q \<le> y"
  proof -
    have "(x + 1) * k \<le> q * k" using that k by (intro mult_right_mono) simp_all
    then have "x * k + (k - 1) < q * k" by (simp add: algebra_simps)
    then show ?thesis using facts(4,8) that T_def by linarith
  qed
  ultimately show ?thesis using xy by (auto simp: real_pe_def q_eq)
qed

section \<open>Step 1\<close>

definition senders :: "int \<Rightarrow> int list" where
  "senders i = (if i < T then map (\<lambda>j. i - j - 1) [0..k - 2]
     else if i = T \<and> 0 < r then map (\<lambda>j. T - r + (r - 1 - j)) [0..r - 1] else [])"

lemma T_last: "0 < r \<Longrightarrow> (T - 1) mod k = r - 1" "r = 0 \<Longrightarrow> 0 < q \<Longrightarrow> (T - 1) mod k = k - 1"
proof -
  show "(T - 1) mod k = r - 1" if "0 < r" using mod_digit[of "r - 1" k q] that facts(5) by (simp add: add_diff_eq T_def)
  show "(T - 1) mod k = k - 1" if "r = 0" "0 < q"
  proof -
    have e: "T - 1 = (q - 1) * k + (k - 1)" using that by (simp add: algebra_simps T_def)
    show ?thesis unfolding e by (rule mod_digit) (use k in simp_all)
  qed
qed

lemma step1:
  assumes "0 \<le> i" "i < n"
  shows "recexch_step1 k rem T i = (if part i then (-1, senders i, number i) else (target i, [], -1))"
proof (cases "i < T")
  case True
  have m: "i smod k = i mod k" "i sdiv k = i div k" using assms k by (simp_all add: smod_pos sdiv_pos)
  have t: "i + (k - 1 - i mod k) = i - i mod k + (k - 1)" by simp
  show ?thesis
    using True unfolding recexch_step1_def m Let_def t part_def senders_def number_def target_def by auto
next
  case False
  have c: "i = T \<and> (T - 1) smod k \<noteq> k - 1 \<and> 1 \<le> T \<longleftrightarrow> i = T \<and> 0 < r"
  proof (cases "0 < r")
    case True
    then have "1 \<le> T" using facts(3) k T_def by (smt (verit) mult_nonneg_nonneg)
    then show ?thesis using True T_last(1) facts(5) k by (simp add: smod_pos)
  next
    case r0: False
    then have r0: "r = 0" using facts(4) by linarith
    show ?thesis
    proof (cases "0 < q")
      case True
      then have "0 \<le> T - 1" using r0 k T_def by (smt (verit) mult_pos_pos)
      then show ?thesis using T_last(2)[OF r0 True] r0 k by (simp add: smod_pos)
    next
      case False
      then have "T = 0" using r0 facts(3) by (simp add: T_def)
      then show ?thesis using r0 by linarith
    qed
  qed
  have ns: "(T - 1) smod k + 1 = r" if "0 < r"
  proof -
    have "0 \<le> T - 1" using that facts(3) k T_def by (smt (verit) mult_nonneg_nonneg)
    then show ?thesis using T_last(1)[OF that] k by (simp add: smod_pos)
  qed
  show ?thesis unfolding recexch_step1_def Let_def using False c ns by (auto simp: part_def number_def senders_def)
qed

lemma not_part: "\<not> part j \<Longrightarrow> j < T \<and> j mod k \<noteq> k - 1" by (auto simp: part_def)

lemma target_part:
  assumes "0 \<le> j" "\<not> part j"
  shows "part (target j)" "j < target j" "target j \<le> T" "target j < n" "target j - j \<le> k - 1"
proof -
  have j: "j < T" "j mod k \<noteq> k - 1" using not_part[OF assms(2)] by blast+
  have b: "0 \<le> j mod k" "j mod k < k - 1" using k j(2) pos_mod_bound[of k j] by (simp, linarith)
  have e: "j - j mod k + (k - 1) = (j div k) * k + (k - 1)" using minus_mod_eq_div_mult[of j k] by simp
  have "(j - j mod k + (k - 1)) mod k = k - 1" unfolding e by (rule mod_digit) (use k in simp_all)
  then show "part (target j)" by (simp add: part_def target_def)
  show "j < target j" "target j \<le> T" "target j - j \<le> k - 1" using b j(1) by (auto simp: target_def)
  then show "target j < n" using facts(9) by linarith
qed

lemma set_senders:
  assumes "0 \<le> i" "i < n" "part i"
  shows "set (senders i) = {j. 0 \<le> j \<and> \<not> part j \<and> target j = i}" "distinct (senders i)"
proof -
  show "distinct (senders i)" by (auto simp: senders_def distinct_map inj_on_def)
  show "set (senders i) = {j. 0 \<le> j \<and> \<not> part j \<and> target j = i}"
  proof (cases "i < T")
    case True
    then have im: "i mod k = k - 1" using assms(3) by (simp add: part_def)
    have ie: "i = (i div k) * k + (k - 1)" "0 \<le> i div k" using block[OF assms(1) True im] by blast+
    have S: "set (senders i) = {i - k + 1..i - 1}"
    proof -
      have "set (senders i) = (\<lambda>j. i - j - 1) ` {0..k - 2}" using True by (simp add: senders_def)
      also have "\<dots> = {i - k + 1..i - 1}" by (auto intro!: image_eqI[where x = "i - 1 - _"])
      finally show ?thesis .
    qed
    show ?thesis unfolding S
    proof (intro set_eqI iffI)
      fix j assume j: "j \<in> {i - k + 1..i - 1}"
      define y where "y = j - (i div k) * k"
      have y: "0 \<le> y" "y < k - 1" "j = (i div k) * k + y" using j ie(1) unfolding y_def by auto
      have m: "j mod k = y" using mod_digit[of y k "i div k"] y by simp
      have "target j = i" using m y(3) ie(1) True by (simp add: target_def)
      then show "j \<in> {j. 0 \<le> j \<and> \<not> part j \<and> target j = i}" using m y True j ie k by (auto simp: part_def)
    next
      fix j assume j: "j \<in> {j. 0 \<le> j \<and> \<not> part j \<and> target j = i}"
      then show "j \<in> {i - k + 1..i - 1}" using target_part[of j] by auto
    qed
  next
    case False
    show ?thesis
    proof (cases "i = T \<and> 0 < r")
      case True
      have S: "set (senders i) = {q * k..T - 1}"
      proof -
        have "set (senders i) = (\<lambda>j. T - r + (r - 1 - j)) ` {0..r - 1}" using True by (simp add: senders_def)
        also have "\<dots> = {q * k..T - 1}" by (auto simp: T_def intro!: image_eqI[where x = "T - 1 - _"])
        finally show ?thesis .
      qed
      show ?thesis unfolding S
      proof (intro set_eqI iffI)
        fix j assume j: "j \<in> {q * k..T - 1}"
        define y where "y = j - q * k"
        have y: "0 \<le> y" "y < r" "j = q * k + y" using j unfolding y_def T_def by auto
        have m: "j mod k = y" using mod_digit[of y k q] y facts(5) by simp
        have "target j = i" using m y(3) True facts(5) by (simp add: target_def T_def)
        moreover have "0 \<le> q * k" using facts(3) k by simp
        ultimately show "j \<in> {j. 0 \<le> j \<and> \<not> part j \<and> target j = i}" using m y j facts(5) by (auto simp: part_def)
      next
        fix j assume "j \<in> {j. 0 \<le> j \<and> \<not> part j \<and> target j = i}"
        then have j: "0 \<le> j" "\<not> part j" "target j = T" using True by auto
        have "\<not> j - j mod k + (k - 1) < T" using j(3) by (auto simp: target_def split: if_splits)
        then have "T \<le> (j div k) * k + (k - 1)" using minus_mod_eq_div_mult[of j k] by linarith
        then have "q \<le> j div k"
        proof -
          have "q * k < (j div k + 1) * k" using \<open>T \<le> (j div k) * k + (k - 1)\<close> facts(4) by (simp add: algebra_simps T_def)
          then show ?thesis using k by (simp add: mult_less_cancel_right)
        qed
        then have "q * k \<le> (j div k) * k" using k by (intro mult_right_mono) simp_all
        moreover have "(j div k) * k \<le> j" using k pos_mod_sign[of k j] div_mult_mod_eq[of j k] by linarith
        ultimately show "j \<in> {q * k..T - 1}" using not_part[OF j(2)] by simp
      qed
    next
      case no: False
      have "target j \<noteq> i" if j: "0 \<le> j" "\<not> part j" for j
      proof
        assume t: "target j = i"
        then have "i = T" using target_part(3)[OF j] False by linarith
        then have r0: "r = 0" using no facts(4) by linarith
        have "\<not> j - j mod k + (k - 1) < T" using t False by (auto simp: target_def split: if_splits)
        then have "T \<le> (j div k) * k + (k - 1)" using minus_mod_eq_div_mult[of j k] by linarith
        moreover have "j div k < q"
        proof -
          have "(j div k) * k \<le> j" using k pos_mod_sign[of k j] div_mult_mod_eq[of j k] by linarith
          then have "(j div k) * k < q * k" using not_part[OF j(2)] r0 T_def by linarith
          then show ?thesis using k by (simp add: mult_less_cancel_right)
        qed
        then have "(j div k + 1) * k \<le> q * k" using k by (intro mult_right_mono) simp_all
        ultimately show False using r0 by (simp add: algebra_simps T_def)
      qed
      then show ?thesis using False no by (auto simp: senders_def)
    qed
  qed
qed

end

end
