(* ===== verification/Recexch_Correct.thy ===== *)
theory Recexch_Correct
  imports Recexch_Tables
begin

text \<open>
  The exchange computes the reduction: after \<open>f\<close> phases a PE holds the sum of the values of all PEs whose number agrees
  with its own above the digit \<open>f\<close>, and in the end every PE, taking part or not, holds the sum over the team.
\<close>

lemma fold_add_map: "fold (\<lambda>y d. d + f y) ys a = a + sum_list (map f ys)" for a :: "'a :: comm_monoid_add"
  by (induction ys arbitrary: a) (simp_all add: add.assoc)

lemma map_of_inj: "inj_on key (set ys) \<Longrightarrow> y \<in> set ys \<Longrightarrow> map_of (map (\<lambda>y. (key y, v y)) ys) (key y) = Some (v y)"
proof (induction ys)
  case (Cons z ys)
  show ?case
  proof (cases "key z = key y")
    case True
    then have "z = y" using Cons.prems inj_onD[OF Cons.prems(1), of z y] by simp
    then show ?thesis by simp
  next
    case False
    then show ?thesis using Cons by auto
  qed
qed simp

lemma num_small_append: "\<forall>a\<in>set as. a \<le> rank \<Longrightarrow> \<forall>b\<in>set bs. rank < b \<Longrightarrow> num_small_from rank i (as @ bs) = i + int (length as)"
proof (induction as arbitrary: i)
  case Nil
  then show ?case by (cases bs) auto
qed simp

lemma upto_without:
  assumes "0 \<le> d" "d < k"
  shows "filter (\<lambda>i. i \<noteq> d) [0..k - 1] = [0..d - 1] @ [d + 1..k - 1]"
proof -
  have "[0..k - 1] = [0..d - 1] @ d # [d + 1..k - 1]"
    using upto_split2[of 0 d "k - 1"] upto_rec2[of 0 d] assms by simp
  then show ?thesis by (simp add: filter_id_conv)
qed

lemma upto_closed_up:
  assumes "0 \<le> d" "d < k"
  shows "[0..k - 2] = map (\<lambda>c. if c < d then c else c - 1) ([0..d - 1] @ [d + 1..k - 1])"
proof -
  have "map (\<lambda>c. if c < d then c else c - 1) [d + 1..k - 1] = map (\<lambda>c. c - 1) [d + 1..k - 1]" by (intro map_cong) auto
  also have "\<dots> = [d..k - 2]" by (intro nth_equalityI) auto
  finally have hi: "map (\<lambda>c. if c < d then c else c - 1) [d + 1..k - 1] = [d..k - 2]" .
  have lo: "map (\<lambda>c. if c < d then c else c - 1) [0..d - 1] = [0..d - 1]" by (intro map_idI) auto
  show ?thesis unfolding map_append hi lo
  proof (cases "d \<le> k - 2")
    case True
    then show "[0..k - 2] = [0..d - 1] @ [d..k - 2]" using assms upto_split1[of 0 d "k - 2"] by simp
  next
    case False
    then have "d = k - 1" using assms by simp
    then show "[0..k - 2] = [0..d - 1] @ [d..k - 2]" by simp
  qed
qed

context rx
begin

lemma p_of_k_rx: "p_of_k k n = (p, m)"
proof -
  have n1: "1 \<le> n" using facts(1) le by linarith
  let ?m = "snd (p_of_k k n)"
  note P = p_of_k[OF k n1]
  have "k ^ ?m < k ^ Suc m" using P(2) lt by linarith
  then have "?m < Suc m" using k by (intro power_less_imp_less_exp[of k]) simp_all
  moreover have "k ^ m < k ^ Suc ?m" using P(3) le by linarith
  then have "m < Suc ?m" using k by (intro power_less_imp_less_exp[of k]) simp_all
  ultimately have "?m = m" by simp
  then show ?thesis using P(1) by metis
qed

section \<open>Replacing a digit\<close>

definition dig :: "int \<Rightarrow> nat \<Rightarrow> int" where "dig x f = x div k ^ f mod k"

definition repl :: "int \<Rightarrow> nat \<Rightarrow> int \<Rightarrow> int" where "repl x f c = x + (c - dig x f) * k ^ f"

lemma dig: "0 \<le> dig x f" "dig x f < k" using k by (simp_all add: dig_def)

lemma div_Suc: "x div k ^ Suc f = x div k ^ f div k"
  using k zdiv_zmult2_eq[of k x "k ^ f"] by (simp add: mult.commute)

lemma repl_form: "repl x f c = ((x div k ^ Suc f) * k + c) * k ^ f + x mod k ^ f"
proof -
  have "x = (x div k ^ f) * k ^ f + x mod k ^ f" by (rule div_mult_mod_eq[symmetric])
  moreover have "x div k ^ f = (x div k ^ Suc f) * k + dig x f" unfolding dig_def div_Suc by (rule div_mult_mod_eq[symmetric])
  ultimately have "x = ((x div k ^ Suc f) * k + dig x f) * k ^ f + x mod k ^ f" by metis
  then show ?thesis unfolding repl_def by (smt (verit) distrib_right left_diff_distrib)
qed

lemma repl_div: "repl x f c div k ^ f = (x div k ^ Suc f) * k + c"
  unfolding repl_form by (rule div_digit) (use k in simp_all)

lemma repl_dig: "0 \<le> c \<Longrightarrow> c < k \<Longrightarrow> dig (repl x f c) f = c"
  unfolding dig_def repl_div by (rule mod_digit)

lemma repl_high:
  assumes "0 \<le> c" "c < k"
  shows "repl x f c div k ^ Suc f = x div k ^ Suc f"
proof -
  have "repl x f c div k ^ Suc f = repl x f c div k ^ f div k" by (rule div_Suc)
  also have "\<dots> = x div k ^ Suc f" unfolding repl_div using assms by (rule div_digit)
  finally show ?thesis .
qed

lemma repl_self [simp]: "repl x f (dig x f) = x" by (simp add: repl_def)

lemma repl_repl: "0 \<le> c \<Longrightarrow> c < k \<Longrightarrow> repl (repl x f c) f d = repl x f d"
  unfolding repl_def[of "repl x f c"] by (simp add: repl_dig) (simp add: repl_def algebra_simps)

lemma repl_less: "repl x f c < repl x f d \<longleftrightarrow> c < d"
proof -
  have "0 < k ^ f" using k by simp
  then show ?thesis by (simp add: repl_def)
qed

lemma repl_range:
  assumes "0 \<le> x" "x < p" "f < m" "0 \<le> c" "c < k"
  shows "0 \<le> repl x f c" "repl x f c < p"
proof -
  have h0: "0 \<le> x div k ^ Suc f" using assms k by (simp add: pos_imp_zdiv_nonneg_iff)
  have l: "0 \<le> x mod k ^ f" "x mod k ^ f < k ^ f" using k by simp_all
  have "0 \<le> ((x div k ^ Suc f) * k + c) * k ^ f" using h0 assms(4) k by simp
  then show "0 \<le> repl x f c" unfolding repl_form using l by linarith
  have pe: "p = k ^ (m - Suc f) * k ^ Suc f" using assms(3) by (simp add: power_add[symmetric] del: power_Suc)
  have "x div k ^ Suc f < k ^ (m - Suc f)" using assms(2) k unfolding pe by (intro div_below) simp_all
  then have "(x div k ^ Suc f + 1) * k ^ Suc f \<le> k ^ (m - Suc f) * k ^ Suc f" using k by (intro mult_right_mono) simp_all
  moreover have "((x div k ^ Suc f) * k + c) * k ^ f + x mod k ^ f < (x div k ^ Suc f + 1) * k ^ Suc f"
  proof -
    have "((x div k ^ Suc f) * k + c + 1) * k ^ f \<le> ((x div k ^ Suc f) * k + k) * k ^ f"
      using assms(5) k by (intro mult_right_mono) simp_all
    then show ?thesis using l by (simp add: algebra_simps)
  qed
  ultimately show "repl x f c < p" unfolding repl_form pe by linarith
qed

section \<open>The tables\<close>

definition nbrs :: "int \<Rightarrow> nat \<Rightarrow> int list" where
  "nbrs x f = map (\<lambda>c. real_pe k rem (repl x f c)) (filter (\<lambda>c. c \<noteq> dig x f) [0..k - 1])"

definition entry :: "int \<Rightarrow> recexch" where
  "entry i = (if part i then \<lparr>step1_sendto = -1, step1_recvfrom = senders i, step2_nbrs = map (nbrs (number i)) [0..<m], step2_nphases = m\<rparr>
     else \<lparr>step1_sendto = target i, step1_recvfrom = [], step2_nbrs = replicate m (replicate (nat (k - 1)) TEAM_SCALAR_INVALID),
       step2_nphases = m\<rparr>)"

lemma phase_nbrs_nbrs:
  assumes "0 \<le> x" "x < p" "f < m"
  shows "phase_nbrs k rem (digits k m x) f = nbrs x f"
proof -
  have d: "digits k m x ! f = dig x f" "f < length (digits k m x)" using assms(3) by (simp_all add: digits_def dig_def)
  have "digits_value k 1 (digits k m x) = x" using digits_value_digits[of k 1 m x] assms(1,2) k by simp
  then have "digits_value k 1 ((digits k m x)[f := c]) = repl x f c" for c
    using digits_value_update[OF d(2), of k 1 c] by (simp add: d(1) repl_def)
  then show ?thesis by (simp add: phase_nbrs_def nbrs_def d(1))
qed

lemma recexch_local:
  assumes "0 \<le> i" "i < n"
  shows "recexch_local k n i = Some (entry i)"
proof (cases "part i")
  case True
  have x: "0 \<le> number i" "number i < p" using part_real assms True by simp_all
  have "set_digits k (replicate m 0) 0 (number i) = Some (digits k m (number i))" using k x by (rule set_digits_digits)
  moreover have "step2_phases k p rem (digits k m (number i)) 1 0 = map (nbrs (number i)) [0..<m]"
    using step2_phases_upto[OF k, of 0 m rem "digits k m (number i)"] phase_nbrs_nbrs[OF x] by simp
  ultimately show ?thesis
    using True unfolding recexch_local_def p_of_k_rx Let_def prod.case T_eq step1[OF assms] by (simp add: entry_def)
next
  case False
  have "target i \<noteq> -1" using target_part(2)[OF assms(1) False] assms(1) by linarith
  then show ?thesis
    using False unfolding recexch_local_def p_of_k_rx Let_def prod.case T_eq step1[OF assms] by (simp add: entry_def)
qed

lemma entry_range:
  assumes "0 \<le> i" "i < n"
  shows "step1_sendto (entry i) \<in> insert (-1) {0..<n}" "set (step1_recvfrom (entry i)) \<subseteq> {0..<n}"
    "part i \<Longrightarrow> f < m \<Longrightarrow> set (step2_nbrs (entry i) ! f) \<subseteq> {0..<n} - {i}"
proof -
  show "step1_sendto (entry i) \<in> insert (-1) {0..<n}"
  proof (cases "part i")
    case False
    have "0 \<le> target i" "target i < n" using target_part(2,4)[OF assms(1) False] assms(1) by linarith+
    then show ?thesis using False by (simp add: entry_def)
  qed (simp add: entry_def)
  show "set (step1_recvfrom (entry i)) \<subseteq> {0..<n}"
  proof (cases "part i")
    case True
    have "j < n" if "\<not> part j" for j using not_part[OF that] facts(9) by linarith
    then have "set (senders i) \<subseteq> {0..<n}" unfolding set_senders(1)[OF assms True] by auto
    then show ?thesis using True by (simp add: entry_def)
  qed (simp add: entry_def)
  show "set (step2_nbrs (entry i) ! f) \<subseteq> {0..<n} - {i}" if pt: "part i" and f: "f < m"
  proof
    fix y assume "y \<in> set (step2_nbrs (entry i) ! f)"
    then obtain c where c: "0 \<le> c" "c < k" "c \<noteq> dig (number i) f" "y = real_pe k rem (repl (number i) f c)"
      using pt f by (auto simp: entry_def nbrs_def)
    note x = part_real[OF assms pt]
    note rr = repl_range[OF x(1,2) f c(1,2)]
    have "y \<noteq> i"
    proof
      assume "y = i"
      then have "repl (number i) f c = number i" using real_part(4)[OF rr] c(4) by simp
      then show False using repl_dig[OF c(1,2), of "number i" f] c(3) by simp
    qed
    then show "y \<in> {0..<n} - {i}" using real_part(1,2)[OF rr] c(4) by simp
  qed
qed


section \<open>The reduction\<close>

lemma in_step2_entry: "0 \<le> i \<Longrightarrow> in_step2 (entry i) \<longleftrightarrow> part i"
  using target_part(2)[of i] by (auto simp: in_step2_def entry_def)

lemma after_step1_sum:
  fixes source :: "int \<Rightarrow> 'a :: comm_monoid_add"
  assumes tab: "\<And>i. 0 \<le> i \<Longrightarrow> i < n \<Longrightarrow> tab i = entry i" and x: "0 \<le> x" "x < n" "part x"
  shows "after_step1 tab n source x = source x + (\<Sum>j\<in>set (senders x). source j)"
proof -
  let ?ys = "filter (\<lambda>y. \<not> in_step2 (tab y) \<and> step1_sendto (tab y) = x) [0..n - 1]"
  have tv: "\<not> in_step2 (tab y) \<and> step1_sendto (tab y) = x \<longleftrightarrow> \<not> part y \<and> target y = x" if "0 \<le> y" "y < n" for y
    using tab[OF that] in_step2_entry[OF that(1)] by (auto simp: entry_def)
  have sn: "y \<in> set (senders x) \<Longrightarrow> 0 \<le> y \<and> y < n \<and> \<not> part y \<and> target y = x" for y
    using set_senders(1)[OF x] not_part[of y] facts(9) by auto
  have puts: "step1_puts tab n source x = map (\<lambda>y. (x - y - 1, source y)) ?ys"
    unfolding step1_puts_def by (intro map_cong) auto
  have get: "map_of (step1_puts tab n source x) (x - y - 1) = Some (source y)" if "y \<in> set (senders x)" for y
    unfolding puts by (rule map_of_inj) (use sn[OF that] tv[of y] in \<open>auto simp: inj_on_def\<close>)
  have "after_step1 tab n source x = source x + sum_list (map (\<lambda>y. the (map_of (step1_puts tab n source x) (x - y - 1))) (senders x))"
    unfolding after_step1_def fold_add_map using tab[OF x(1,2)] x(3) by (simp add: entry_def)
  also have "map (\<lambda>y. the (map_of (step1_puts tab n source x) (x - y - 1))) (senders x) = map source (senders x)"
    using get by (intro map_cong) simp_all
  also have "sum_list (map source (senders x)) = (\<Sum>j\<in>set (senders x). source j)"
    using set_senders(2)[OF x] by (simp add: sum_list_distinct_conv_sum_set)
  finally show ?thesis .
qed

lemma num_small_nbrs:
  assumes "0 \<le> x" "x < p" "f < m"
  shows "num_small_from (real_pe k rem x) 0 (nbrs x f) = dig x f"
proof -
  let ?g = "\<lambda>c. real_pe k rem (repl x f c)"
  have le: "?g c < ?g d" if "0 \<le> c" "c < d" "d < k" for c d
    using that repl_range[OF assms] repl_less[of x f c d] by (intro real_mono) auto
  have lo: "?g c \<le> real_pe k rem x" if "0 \<le> c" "c < dig x f" for c using le[OF that dig(2)] by simp
  have hi: "real_pe k rem x < ?g d" if "dig x f < d" "d < k" for d using le[OF dig(1) that] by simp
  have n: "nbrs x f = map ?g [0..dig x f - 1] @ map ?g [dig x f + 1..k - 1]"
    unfolding nbrs_def upto_without[OF dig] map_append ..
  have "num_small_from (real_pe k rem x) 0 (nbrs x f) = 0 + int (length (map ?g [0..dig x f - 1]))"
    unfolding n by (rule num_small_append) (use lo hi in auto)
  then show ?thesis using dig[of x f] by simp
qed


lemma mem_nbrs: "y \<in> set (nbrs x f) \<longleftrightarrow> (\<exists>c. y = real_pe k rem (repl x f c) \<and> 0 \<le> c \<and> c < k \<and> c \<noteq> dig x f)"
  unfolding nbrs_def set_map set_filter set_upto by (simp add: image_iff) fastforce

text \<open>One phase: every PE that takes part adds the values of the \<open>k - 1\<close> others.\<close>

lemma phase_get:
  fixes dst :: "int \<Rightarrow> 'a"
  assumes tab: "\<And>i. 0 \<le> i \<Longrightarrow> i < n \<Longrightarrow> tab i = entry i" and x: "0 \<le> x" "x < p" and f: "f < m"
    and c: "0 \<le> c" "c < k" "c \<noteq> dig x f"
  shows "map_of (phase_puts tab n k f dst (real_pe k rem x)) ((k - 1) + k * int f + c) = Some (dst (real_pe k rem (repl x f c)))"
proof -
  let ?x = "real_pe k rem x"
  let ?key = "\<lambda>y. (k - 1) + k * int f + num_small_from y 0 (step2_nbrs (tab y) ! f)"
  let ?ys = "filter (\<lambda>y. in_step2 (tab y) \<and> ?x \<in> set (step2_nbrs (tab y) ! f)) [0..n - 1]"
  have at: "in_step2 (tab (real_pe k rem w))" "step2_nbrs (tab (real_pe k rem w)) ! f = nbrs w f"
    "?key (real_pe k rem w) = (k - 1) + k * int f + dig w f" if "0 \<le> w" "w < p" for w
  proof -
    note w = real_part[OF that]
    show "in_step2 (tab (real_pe k rem w))" using tab[OF w(1,2)] in_step2_entry w(1,3) by simp
    show b: "step2_nbrs (tab (real_pe k rem w)) ! f = nbrs w f" using tab[OF w(1,2)] w(3,4) f by (simp add: entry_def)
    show "?key (real_pe k rem w) = (k - 1) + k * int f + dig w f" using b num_small_nbrs[OF that f] by simp
  qed
  have mem: "\<exists>d. y = real_pe k rem (repl x f d) \<and> 0 \<le> d \<and> d < k \<and> d \<noteq> dig x f" if "y \<in> set ?ys" for y
  proof -
    have y: "0 \<le> y" "y < n" "in_step2 (tab y)" "?x \<in> set (step2_nbrs (tab y) ! f)" using that by auto
    then have pt: "part y" using tab[OF y(1,2)] in_step2_entry by simp
    note w = part_real[OF y(1,2) pt]
    have "?x \<in> set (nbrs (number y) f)" using y(4) at(2)[OF w(1,2)] w(3) by simp
    then obtain e where e: "?x = real_pe k rem (repl (number y) f e)" "0 \<le> e" "e < k" "e \<noteq> dig (number y) f"
      unfolding mem_nbrs by blast
    have xe: "x = repl (number y) f e"
      using real_part(4)[OF repl_range[OF w(1,2) f e(2,3)], folded e(1)] real_part(4)[OF x] by (metis (no_types))
    have "repl x f (dig (number y) f) = number y" "dig x f = e" unfolding xe repl_repl[OF e(2,3)] repl_dig[OF e(2,3)] by simp_all
    then show ?thesis using w(3) e(4) dig by (intro exI[of _ "dig (number y) f"]) simp
  qed
  have key: "?key (real_pe k rem (repl x f d)) = (k - 1) + k * int f + d" if "0 \<le> d" "d < k" for d
    using at(3)[OF repl_range[OF x f that]] repl_dig[OF that] by simp
  have "inj_on ?key (set ?ys)"
  proof (rule inj_onI)
    fix y z assume yz: "y \<in> set ?ys" "z \<in> set ?ys" "?key y = ?key z"
    obtain d where d: "y = real_pe k rem (repl x f d)" "0 \<le> d" "d < k" using mem[OF yz(1)] by blast
    obtain e where e: "z = real_pe k rem (repl x f e)" "0 \<le> e" "e < k" using mem[OF yz(2)] by blast
    have "d = e" using yz(3) unfolding d(1) e(1) key[OF d(2,3)] key[OF e(2,3)] by simp
    then show "y = z" using d(1) e(1) by simp
  qed
  moreover have "real_pe k rem (repl x f c) \<in> set ?ys"
  proof -
    note w = repl_range[OF x f c(1,2)]
    have "repl (repl x f c) f (dig x f) = x" using repl_repl[OF c(1,2)] by simp
    then have "?x \<in> set (nbrs (repl x f c) f)"
      unfolding mem_nbrs using repl_dig[OF c(1,2)] c(3) dig by (intro exI[of _ "dig x f"]) simp
    then show ?thesis using at(1,2)[OF w] real_part(1,2)[OF w] by simp
  qed
  ultimately have "map_of (map (\<lambda>y. (?key y, dst y)) ?ys) (?key (real_pe k rem (repl x f c))) = Some (dst (real_pe k rem (repl x f c)))"
    by (rule map_of_inj)
  then show ?thesis unfolding key[OF c(1,2)] phase_puts_def .
qed


lemma phase_sum:
  fixes source :: "int \<Rightarrow> 'a :: comm_monoid_add"
  assumes tab: "\<And>i. 0 \<le> i \<Longrightarrow> i < n \<Longrightarrow> tab i = entry i" and x: "0 \<le> x" "x < p" and f: "f < m"
  shows "after_phases tab n k source (Suc f) (real_pe k rem x) = (\<Sum>c\<in>{0..<k}. after_phases tab n k source f (real_pe k rem (repl x f c)))"
proof -
  let ?x = "real_pe k rem x" and ?dst = "after_phases tab n k source f"
  let ?d = "dig x f"
  let ?g = "\<lambda>c. real_pe k rem (repl x f c)" and ?L = "[0..?d - 1] @ [?d + 1..k - 1]"
  let ?get = "\<lambda>inb. the (map_of (phase_puts tab n k f ?dst ?x) (recv_slot k f ?x inb))"
  have nb: "step2_nbrs (tab ?x) ! f = map ?g ?L"
    using tab[OF real_part(1,2)[OF x]] real_part(3,4)[OF x] f upto_without[OF dig] by (simp add: entry_def nbrs_def)
  have len: "int (length (map ?g ?L)) - 1 = k - 2" using dig[of x f] by simp
  have z: "zip [0..k - 2] (map ?g ?L) = map (\<lambda>c. (if c < ?d then c else c - 1, ?g c)) ?L"
    unfolding upto_closed_up[OF dig[of x f]] by (simp only: zip_map_map zip_same_conv_map map_map) simp
  have slot: "?get (if c < ?d then c else c - 1, ?g c) = ?dst (?g c)" if "c \<in> set ?L" for c
  proof -
    have c: "0 \<le> c" "c < k" "c \<noteq> ?d" using that dig[of x f] by auto
    have "?g c < ?x \<longleftrightarrow> c < ?d"
    proof
      show "?g c < ?x" if "c < ?d"
        using real_mono[of "repl x f c" x] repl_range[OF x f c(1,2)] repl_less[of x f c ?d] x that by simp
      show "c < ?d" if "?g c < ?x"
      proof (rule ccontr)
        assume "\<not> c < ?d"
        then have "?x < ?g c" using real_mono[of x "repl x f c"] repl_range[OF x f c(1,2)] repl_less[of x f ?d c] x c(3) by simp
        then show False using that by simp
      qed
    qed
    then have "recv_slot k f ?x (if c < ?d then c else c - 1, ?g c) = (k - 1) + k * int f + c"
      unfolding recv_slot_def by simp
    then show ?thesis using phase_get[OF tab x f c, of ?dst] by simp
  qed
  have "after_phases tab n k source (Suc f) ?x = ?dst ?x + sum_list (map ?get (zip [0..k - 2] (map ?g ?L)))"
    unfolding after_phases.simps Let_def nb len by (rule fold_add_map)
  also have "map ?get (zip [0..k - 2] (map ?g ?L)) = map (\<lambda>c. ?dst (?g c)) ?L"
    unfolding z map_map by (intro map_cong refl) (simp only: comp_apply slot)
  also have "sum_list (map (\<lambda>c. ?dst (?g c)) ?L) = (\<Sum>c\<in>{0..<k} - {?d}. ?dst (?g c))"
  proof -
    have "distinct ?L" by auto
    moreover have "set ?L = {0..<k} - {?d}" using dig[of x f] by auto
    ultimately show ?thesis by (metis (no_types, lifting) sum_list_distinct_conv_sum_set)
  qed
  also have "?dst ?x + \<dots> = (\<Sum>c\<in>{0..<k}. ?dst (?g c))"
    using sum.remove[of "{0..<k}" ?d "\<lambda>c. ?dst (?g c)"] dig[of x f] by simp
  finally show ?thesis .
qed

text \<open>The PEs that agree above the digit \<open>f\<close>.\<close>

definition same_above :: "nat \<Rightarrow> int \<Rightarrow> int set" where "same_above f x = {y \<in> {0..<p}. y div k ^ f = x div k ^ f}"

lemma finite_same_above: "finite (same_above f x)" unfolding same_above_def by (rule finite_subset[of _ "{0..<p}"]) auto

lemma same_above_Suc:
  assumes "0 \<le> x" "x < p" "f < m"
  shows "same_above (Suc f) x = (\<Union>c\<in>{0..<k}. same_above f (repl x f c))"
proof (intro set_eqI iffI)
  fix y assume y: "y \<in> same_above (Suc f) x"
  have "y div k ^ f = (y div k ^ Suc f) * k + dig y f" unfolding dig_def div_Suc by (rule div_mult_mod_eq[symmetric])
  then have "y div k ^ f = repl x f (dig y f) div k ^ f" using y unfolding repl_div by (simp add: same_above_def)
  then show "y \<in> (\<Union>c\<in>{0..<k}. same_above f (repl x f c))" using y dig[of y f] by (auto simp: same_above_def)
next
  fix y assume "y \<in> (\<Union>c\<in>{0..<k}. same_above f (repl x f c))"
  then obtain c where c: "0 \<le> c" "c < k" "y \<in> same_above f (repl x f c)" by auto
  then have "y div k ^ Suc f = repl x f c div k ^ Suc f" unfolding div_Suc by (simp add: same_above_def)
  then show "y \<in> same_above (Suc f) x" using repl_high[OF c(1,2)] c(3) by (simp add: same_above_def)
qed

lemma after_phases_sum:
  fixes source :: "int \<Rightarrow> 'a :: comm_monoid_add"
  assumes tab: "\<And>i. 0 \<le> i \<Longrightarrow> i < n \<Longrightarrow> tab i = entry i"
  shows "f \<le> m \<Longrightarrow> 0 \<le> x \<Longrightarrow> x < p \<Longrightarrow>
    after_phases tab n k source f (real_pe k rem x) = (\<Sum>y\<in>same_above f x. after_step1 tab n source (real_pe k rem y))"
proof (induction f arbitrary: x)
  case 0
  then have "same_above 0 x = {x}" by (auto simp: same_above_def)
  then show ?case by simp
next
  case (Suc f)
  then have x: "0 \<le> x" "x < p" and f: "f < m" by simp_all
  have dj: "same_above f (repl x f c) \<inter> same_above f (repl x f d) = {}" if "c \<noteq> d" for c d
    using that by (auto simp: same_above_def repl_div)
  have "after_phases tab n k source (Suc f) (real_pe k rem x) = (\<Sum>c\<in>{0..<k}. after_phases tab n k source f (real_pe k rem (repl x f c)))"
    by (rule phase_sum[OF tab x f])
  also have "\<dots> = (\<Sum>c\<in>{0..<k}. \<Sum>y\<in>same_above f (repl x f c). after_step1 tab n source (real_pe k rem y))"
    using repl_range[OF x f] f by (intro sum.cong refl Suc.IH) simp_all
  also have "\<dots> = (\<Sum>y\<in>(\<Union>c\<in>{0..<k}. same_above f (repl x f c)). after_step1 tab n source (real_pe k rem y))"
    by (intro sum.UNION_disjoint[symmetric]) (simp_all add: dj finite_same_above)
  finally show ?case unfolding same_above_Suc[OF x f] .
qed


text \<open>What the PEs hold after step 1 adds up to all values.\<close>

lemma step1_total:
  fixes source :: "int \<Rightarrow> 'a :: comm_monoid_add"
  assumes tab: "\<And>i. 0 \<le> i \<Longrightarrow> i < n \<Longrightarrow> tab i = entry i"
  shows "(\<Sum>y\<in>{0..<p}. after_step1 tab n source (real_pe k rem y)) = (\<Sum>i\<in>{0..<n}. source i)"
proof -
  let ?P = "{i \<in> {0..<n}. part i}" and ?N = "{i \<in> {0..<n}. \<not> part i}"
  have bij: "bij_betw (real_pe k rem) {0..<p} ?P"
    by (rule bij_betw_byWitness[where f' = number]) (auto simp: real_part part_real)
  have fin: "finite ?P" "finite ?N" by (rule finite_subset[of _ "{0..<n}"], auto)+
  have snd: "set (senders i) = {j \<in> ?N. target j = i}" if "i \<in> ?P" for i
  proof -
    have "j < n" if "\<not> part j" for j using not_part[OF that] facts(9) by linarith
    then show ?thesis using set_senders(1)[of i] that by auto
  qed
  have tg: "target ` ?N \<subseteq> ?P"
  proof
    fix i assume "i \<in> target ` ?N"
    then obtain j where j: "0 \<le> j" "\<not> part j" "i = target j" by auto
    show "i \<in> ?P" using target_part(1,2,4)[OF j(1,2)] j(1,3) by simp
  qed
  have "(\<Sum>y\<in>{0..<p}. after_step1 tab n source (real_pe k rem y)) = (\<Sum>i\<in>?P. after_step1 tab n source i)"
    using bij by (rule sum.reindex_bij_betw)
  also have "\<dots> = (\<Sum>i\<in>?P. source i + (\<Sum>j\<in>set (senders i). source j))"
    by (intro sum.cong refl after_step1_sum[OF tab]) simp_all
  also have "\<dots> = (\<Sum>i\<in>?P. source i) + (\<Sum>i\<in>?P. \<Sum>j\<in>{j \<in> ?N. target j = i}. source j)"
    unfolding sum.distrib using snd by simp
  also have "(\<Sum>i\<in>?P. \<Sum>j\<in>{j \<in> ?N. target j = i}. source j) = (\<Sum>j\<in>?N. source j)"
    using fin(2,1) tg by (rule sum.group)
  also have "(\<Sum>i\<in>?P. source i) + (\<Sum>j\<in>?N. source j) = (\<Sum>i\<in>?P \<union> ?N. source i)"
    using fin by (intro sum.union_disjoint[symmetric]) auto
  also have "?P \<union> ?N = {0..<n}" by auto
  finally show ?thesis .
qed

theorem reduces:
  fixes source :: "int \<Rightarrow> 'a :: comm_monoid_add"
  assumes tab: "\<And>i. 0 \<le> i \<Longrightarrow> i < n \<Longrightarrow> tab i = entry i" and x: "0 \<le> x" "x < n"
  shows "gpu_rdxn_recexch_threadgroup tab n k source x = Some (\<Sum>i\<in>{0..<n}. source i)"
proof -
  let ?dst = "\<lambda>y. after_phases tab n k source (step2_nphases (tab y)) y"
  have dst: "?dst y = (\<Sum>i\<in>{0..<n}. source i)" if y: "0 \<le> y" "y < n" "part y" for y
  proof -
    note w = part_real[OF y]
    have "same_above m (number y) = {0..<p}" using w(1,2) by (auto simp: same_above_def)
    then have "after_phases tab n k source m (real_pe k rem (number y)) = (\<Sum>i\<in>{0..<n}. source i)"
      using after_phases_sum[OF tab order_refl w(1,2), where source = source] step1_total[OF tab, of source] by simp
    then show ?thesis using w(3) tab[OF y(1,2)] by (simp add: entry_def)
  qed
  show ?thesis
  proof (cases "part x")
    case True
    then show ?thesis using dst[OF x] tab[OF x] in_step2_entry[OF x(1)] by (simp add: gpu_rdxn_recexch_threadgroup_def)
  next
    case False
    note t = target_part[OF x(1) False]
    have t0: "0 \<le> target x" using t(2) x(1) by linarith
    have "x \<in> set (step1_recvfrom (tab (target x)))"
      using tab[OF t0 t(4)] t(1) set_senders(1)[OF t0 t(4,1)] x(1) False by (simp add: entry_def)
    then have "map_of (step3_puts tab n ?dst x) (target x) = Some (?dst (target x))"
      unfolding step3_puts_def using map_of_inj[of "\<lambda>y. y" _ "target x" ?dst] t0 t(4) by simp
    then show ?thesis
      using dst[OF t0 t(4,1)] tab[OF x] in_step2_entry[OF x(1)] False by (simp add: gpu_rdxn_recexch_threadgroup_def entry_def)
  qed
qed


end

end
