(* ===== verification/Team_Init.thy ===== *)
theory Team_Init
  imports Team_State
begin

text \<open>
  \<open>nvshmemi_team_init\<close>: the teams every job has. All PEs run it together; what the bootstrap's \<open>allgather\<close> collects
  is here computed from the environments of all PEs, which form the \<open>job\<close>: entry \<open>i\<close> of a gathered array is what PE \<open>i\<close>
  contributed.
\<close>

section \<open>The job\<close>

text \<open>
  What a PE knows when the teams are made: the PEs whose heap it has mapped (\<open>get_local_pe_base()[i]\<close> is not null), the hash of its
  host, the UUID of its GPU, its rank on the node and the number of PEs of the node.
\<close>

record pe_env =
  env_p2p :: "int \<Rightarrow> bool"
  env_host :: u64
  env_gpu :: "u8 list"
  env_mype_node :: int
  env_npes_node :: int

record job =
  job_npes :: nat
  job_env :: "int \<Rightarrow> pe_env"

definition NVSHMEM_TEAM_WORLD_INDEX :: int where "NVSHMEM_TEAM_WORLD_INDEX = 0"
definition NVSHMEM_TEAM_SHARED_INDEX :: int where "NVSHMEM_TEAM_SHARED_INDEX = 1"
definition NVSHMEM_TEAM_NODE_INDEX :: int where "NVSHMEM_TEAM_NODE_INDEX = 2"
definition NVSHMEM_TEAM_SAME_MYPE_NODE_INDEX :: int where "NVSHMEM_TEAM_SAME_MYPE_NODE_INDEX = 3"
definition NVSHMEM_TEAM_SAME_GPU_INDEX :: int where "NVSHMEM_TEAM_SAME_GPU_INDEX = 4"
definition NVSHMEM_TEAM_GPU_LEADERS_INDEX :: int where "NVSHMEM_TEAM_GPU_LEADERS_INDEX = 5"
definition NVSHMEM_TEAMS_MIN :: int where "NVSHMEM_TEAMS_MIN = 6"

definition world_pes :: "job \<Rightarrow> int list" where "world_pes j = [0..int (job_npes j) - 1]"

definition nvshmemi_team_set_p2p_connectivity :: "nvshmemi_team \<Rightarrow> nvshmemi_team \<Rightarrow> nvshmemi_team" where
  "nvshmemi_team_set_p2p_connectivity shared t = t\<lparr>tm_p2p_connected := nvshmemi_team_is_subset t shared\<rparr>"

section \<open>World and shared\<close>

definition team_world_init :: "job \<Rightarrow> int \<Rightarrow> nvshmemi_team option" where
  "team_world_init j mype =
     nvshmemi_team_populate_pe_mappings_from_constant_stride None
       ((new_team (job_npes j) (job_npes j))\<lparr>tm_idx := NVSHMEM_TEAM_WORLD_INDEX, tm_start := 0, tm_stride := 1,
          tm_size := int (job_npes j), tm_my_pe := mype, tm_rdxn_count := 0, tm_alltoall_count := 0,
          tm_is_node := False, tm_is_same_mype := False\<rparr>)"

text \<open>The list of PEs with a mapped heap, and the own place in it.\<close>

definition p2p_pe_list :: "job \<Rightarrow> int \<Rightarrow> int list" where
  "p2p_pe_list j mype = filter (env_p2p (job_env j mype)) (world_pes j)"

definition my_idx_in_p2p_list :: "job \<Rightarrow> int \<Rightarrow> int" where
  "my_idx_in_p2p_list j mype =
     (if env_p2p (job_env j mype) mype then int (length (filter (env_p2p (job_env j mype)) [0..mype - 1])) else 0)"

text \<open>
  The tests on the gathered lists: all PEs have lists of one length; the PEs of the list have the same list; the
  list has a constant difference. A PE that fails one of them makes a team of its own.
\<close>

definition n_p2p_pes_equal :: "job \<Rightarrow> int \<Rightarrow> bool" where
  "n_p2p_pes_equal j mype \<longleftrightarrow> list_all (\<lambda>i. length (p2p_pe_list j i) = length (p2p_pe_list j mype)) (world_pes j)"

definition p2p_lists_same :: "job \<Rightarrow> int \<Rightarrow> bool" where
  "p2p_lists_same j mype \<longleftrightarrow> list_all (\<lambda>q. p2p_pe_list j q = p2p_pe_list j mype) (p2p_pe_list j mype)"

definition constant_difference :: "int list \<Rightarrow> bool" where
  "constant_difference l \<longleftrightarrow> list_all (\<lambda>i. l ! i - l ! (i - 1) = l ! (i - 1) - l ! (i - 2)) [2..<length l]"

definition shared_formed :: "job \<Rightarrow> int \<Rightarrow> bool" where
  "shared_formed j mype \<longleftrightarrow> n_p2p_pes_equal j mype \<and> p2p_lists_same j mype \<and> constant_difference (p2p_pe_list j mype)"

text \<open>\<open>None\<close> where the list is empty: its first element is then read uninitialised.\<close>

definition team_shared_init :: "nvshmemi_team \<Rightarrow> job \<Rightarrow> int \<Rightarrow> nvshmemi_team option" where
  "team_shared_init world j mype =
     (let l = p2p_pe_list j mype; n = length l; t = (new_team (job_npes j) n)\<lparr>tm_idx := NVSHMEM_TEAM_SHARED_INDEX\<rparr>;
          t = (if shared_formed j mype
               then t\<lparr>tm_my_pe := my_idx_in_p2p_list j mype, tm_start := l ! 0, tm_stride := (if n > 1 then l ! 1 - l ! 0 else 1),
                      tm_size := int n, tm_is_same_mype := False\<rparr>
               else t\<lparr>tm_my_pe := 0, tm_start := mype, tm_stride := 1, tm_size := 1, tm_is_node := True, tm_is_same_mype := True\<rparr>)
      in if l = [] then None
         else nvshmemi_team_populate_pe_mappings_from_constant_stride (Some world)
                (t\<lparr>tm_rdxn_count := 0, tm_alltoall_count := 0, tm_p2p_connected := True\<rparr>))"

section \<open>Node, same rank, same GPU\<close>

text \<open>The loops over \<open>check_for_linear_stride\<close>; \<open>None\<close> is the break.\<close>

fun linear_search :: "int list \<Rightarrow> int \<times> int \<times> int \<Rightarrow> (int \<times> int \<times> int) option" where
  "linear_search [] sss = Some sss"
| "linear_search (pe # pes) sss =
     (let (ret, sss') = check_for_linear_stride pe sss in if ret < 0 then None else linear_search pes sss')"

definition same_host_pes :: "job \<Rightarrow> int \<Rightarrow> int list" where
  "same_host_pes j mype = filter (\<lambda>pe. env_host (job_env j pe) = env_host (job_env j mype)) (world_pes j)"

definition node_triplet :: "job \<Rightarrow> int \<Rightarrow> int \<times> int \<times> int" where
  "node_triplet j mype = (case linear_search (same_host_pes j mype) (-1, -1, 0) of None \<Rightarrow> (mype, 1, 1) | Some sss \<Rightarrow> sss)"

text \<open>The node team, and the world and shared teams with their marks.\<close>

definition team_node_init ::
  "nvshmemi_team \<Rightarrow> nvshmemi_team \<Rightarrow> job \<Rightarrow> int \<Rightarrow> (nvshmemi_team \<times> nvshmemi_team \<times> nvshmemi_team) option" where
  "team_node_init world shared j mype =
     (case node_triplet j mype of (start, stride, sz) \<Rightarrow>
        let t = (new_team (job_npes j) (nat sz))\<lparr>tm_idx := NVSHMEM_TEAM_NODE_INDEX, tm_my_pe := env_mype_node (job_env j mype),
              tm_rdxn_count := 0, tm_alltoall_count := 0, tm_start := start, tm_stride := (if stride = -1 then 1 else stride),
              tm_size := sz\<rparr>;
            world = world\<lparr>tm_node := NVSHMEM_TEAM_NODE_INDEX\<rparr>;
            world = (if nvshmemi_team_is_identical (Some world) (Some t) then world\<lparr>tm_is_node := True\<rparr> else world);
            shared = (if nvshmemi_team_is_identical (Some shared) (Some t) then shared\<lparr>tm_is_node := True\<rparr> else shared)
        in map_option (\<lambda>t. (world, shared,
               (nvshmemi_team_set_p2p_connectivity shared t)\<lparr>tm_is_node := True, tm_is_same_mype := False\<rparr>))
             (nvshmemi_team_populate_pe_mappings_from_constant_stride (Some world) t))"

datatype init_error = Init_Assertion | Init_Exit | Init_Memory

definition stored :: "'a option \<Rightarrow> init_error + 'a" where
  "stored r = (case r of None \<Rightarrow> Inl Init_Memory | Some t \<Rightarrow> Inr t)"

text \<open>The assertion that all nodes have the same number of PEs comes after the team has been sized.\<close>

definition team_same_mype_node_init :: "nvshmemi_team \<Rightarrow> nvshmemi_team \<Rightarrow> job \<Rightarrow> int \<Rightarrow> init_error + nvshmemi_team" where
  "team_same_mype_node_init world shared j mype =
     (let n = env_npes_node (job_env j mype); sz = int (job_npes j) sdiv n;
          t = (new_team (job_npes j) (nat sz))\<lparr>tm_idx := NVSHMEM_TEAM_SAME_MYPE_NODE_INDEX, tm_my_pe := mype sdiv n, tm_rdxn_count := 0,
            tm_start := env_mype_node (job_env j mype), tm_stride := n, tm_size := sz, tm_alltoall_count := 0,
            tm_is_node := False, tm_is_same_mype := True\<rparr>
      in if int (job_npes j) smod n \<noteq> 0 then Inl Init_Assertion
         else stored (map_option (nvshmemi_team_set_p2p_connectivity shared)
                (nvshmemi_team_populate_pe_mappings_from_constant_stride (Some world) t)))"

definition same_gpu_pes :: "job \<Rightarrow> int \<Rightarrow> int list" where
  "same_gpu_pes j mype = filter (\<lambda>pe. env_host (job_env j pe) = env_host (job_env j mype) \<and>
     env_gpu (job_env j pe) = env_gpu (job_env j mype)) (world_pes j)"

definition team_same_gpu_init :: "nvshmemi_team \<Rightarrow> nvshmemi_team \<Rightarrow> job \<Rightarrow> int \<Rightarrow> init_error + nvshmemi_team" where
  "team_same_gpu_init world shared j mype =
     (case linear_search (same_gpu_pes j mype) (-1, -1, 0) of
        None \<Rightarrow> Inl Init_Exit
      | Some (start, stride, sz) \<Rightarrow>
          if \<not> (0 \<le> start \<and> 0 < sz) then Inl Init_Assertion
          else stored (map_option (nvshmemi_team_set_p2p_connectivity shared)
            (nvshmemi_team_populate_pe_mappings_from_constant_stride (Some world)
               ((new_team (job_npes j) (nat sz))\<lparr>tm_idx := NVSHMEM_TEAM_SAME_GPU_INDEX, tm_rdxn_count := 0, tm_alltoall_count := 0,
                  tm_my_pe := (mype - start) sdiv stride, tm_start := start, tm_stride := (if stride = -1 then 1 else stride),
                  tm_size := sz, tm_is_node := True, tm_is_same_mype := False\<rparr>))))"

text \<open>Only the first PE of a GPU is in the team of the leaders.\<close>

definition team_gpu_leaders_init ::
  "nvshmemi_team \<Rightarrow> nvshmemi_team \<Rightarrow> nvshmemi_team \<Rightarrow> job \<Rightarrow> int \<Rightarrow> init_error + nvshmemi_team option" where
  "team_gpu_leaders_init world shared same_gpu j mype =
     (let sz = int (job_npes j) sdiv tm_size same_gpu; stride = (if tm_stride same_gpu = 1 then tm_size same_gpu else 1);
          t = (new_team (job_npes j) (nat sz))\<lparr>tm_idx := NVSHMEM_TEAM_GPU_LEADERS_INDEX, tm_start := 0, tm_stride := stride,
            tm_size := sz, tm_my_pe := mype sdiv stride, tm_rdxn_count := 0, tm_alltoall_count := 0\<rparr>
      in if tm_start same_gpu = mype
         then stored (map_option (\<lambda>t. Some ((nvshmemi_team_set_p2p_connectivity shared t)\<lparr>tm_is_node := False, tm_is_same_mype := False\<rparr>))
                (nvshmemi_team_populate_pe_mappings_from_constant_stride (Some world) t))
         else Inr None)"

text \<open>The check behind it compares what the PEs gathered with \<open>0, 1, 2, ...\<close>; a PE that is no leader contributes -1.\<close>

fun leaders_formed :: "int \<Rightarrow> int list \<Rightarrow> bool" where
  "leaders_formed last_mype [] = True"
| "leaders_formed last_mype (x # xs) =
     (if x = -1 then leaders_formed last_mype xs else if x \<noteq> last_mype + 1 then False else leaders_formed (last_mype + 1) xs)"

section \<open>All of it\<close>

record job_teams =
  jt_world :: nvshmemi_team
  jt_shared :: nvshmemi_team
  jt_node :: nvshmemi_team
  jt_same_mype_node :: nvshmemi_team
  jt_same_gpu :: nvshmemi_team
  jt_gpu_leaders :: "nvshmemi_team option"

definition nvshmemi_team_init :: "job \<Rightarrow> int \<Rightarrow> init_error + job_teams" where
  "nvshmemi_team_init j mype =
     (case team_world_init j mype of
        None \<Rightarrow> Inl Init_Memory
      | Some world \<Rightarrow> (case team_shared_init world j mype of
        None \<Rightarrow> Inl Init_Memory
      | Some shared \<Rightarrow> (case team_node_init (nvshmemi_team_set_p2p_connectivity shared world) shared j mype of
        None \<Rightarrow> Inl Init_Memory
      | Some (world, shared, node) \<Rightarrow>
          (let world = world\<lparr>tm_same_mype := NVSHMEM_TEAM_SAME_MYPE_NODE_INDEX\<rparr>
           in case team_same_mype_node_init world shared j mype of
                Inl e \<Rightarrow> Inl e
              | Inr same_mype \<Rightarrow> (case team_same_gpu_init world shared j mype of
                Inl e \<Rightarrow> Inl e
              | Inr same_gpu \<Rightarrow> (case team_gpu_leaders_init world shared same_gpu j mype of
                Inl e \<Rightarrow> Inl e
              | Inr leaders \<Rightarrow> Inr \<lparr>jt_world = world, jt_shared = shared, jt_node = node, jt_same_mype_node = same_mype,
                  jt_same_gpu = same_gpu, jt_gpu_leaders = leaders\<rparr>))))))"

end
