(* ===== verification/Team_Init_Correct.thy ===== *)
theory Team_Init_Correct
  imports Team_Init Barrier_Properties
begin

text \<open>
  The predefined teams are well formed, and PEs that are in one team hold the same copy of it, which is what the
  barriers rely on.
\<close>

section \<open>Filling the mapping\<close>

lemma populate_stride_nth:
  "\<forall>i\<in>set is. 0 \<le> i \<and> nat i < length m \<Longrightarrow>
   \<exists>m'. populate_stride start stride m is = Some m' \<and> length m' = length m \<and>
     (\<forall>x < length m. m' ! x = (if int x \<in> set is then start + int x * stride else m ! x))"
proof (induction "is" arbitrary: m)
  case (Cons i "is")
  let ?m = "m[nat i := start + i * stride]"
  obtain m' where m': "populate_stride start stride ?m is = Some m'" "length m' = length ?m"
    "\<forall>x < length ?m. m' ! x = (if int x \<in> set is then start + int x * stride else ?m ! x)"
    using Cons.IH[of ?m] Cons.prems by auto
  show ?case using Cons.prems m' by (intro exI[of _ m']) (auto simp: mapping_store_def nth_list_update)
qed simp

definition world_entry :: "int list option \<Rightarrow> int list \<Rightarrow> int \<Rightarrow> int" where
  "world_entry world m i = (case world of None \<Rightarrow> m | Some w \<Rightarrow> w) ! nat i"

lemma populate_from_world_nth:
  assumes "0 \<le> sz"
  shows "\<forall>i\<in>set is. 0 \<le> i \<and> i < sz \<and> 0 \<le> m ! nat i \<and> nat (m ! nat i + sz) < length m \<Longrightarrow> distinct is \<Longrightarrow>
   inj_on (\<lambda>i. m ! nat i) (set is) \<Longrightarrow>
   \<exists>m'. populate_from_world world sz m is = Some m' \<and> length m' = length m \<and>
     (\<forall>i\<in>set is. m' ! nat (m ! nat i + sz) = world_entry world m i) \<and>
     (\<forall>x. x \<notin> (\<lambda>i. nat (m ! nat i + sz)) ` set is \<longrightarrow> m' ! x = m ! x)"
proof (induction "is" arbitrary: m)
  case (Cons i "is")
  let ?at = "nat (m ! nat i + sz)"
  let ?m = "m[?at := world_entry world m i]"
  have i: "0 \<le> i" "i < sz" "0 \<le> m ! nat i" "?at < length m" using Cons.prems(1) by auto
  have low: "?m ! nat x = m ! nat x" if "x \<in> set (i # is)" for x
  proof -
    have "nat x \<noteq> ?at" using that Cons.prems(1) i(3) by auto
    then show ?thesis by (rule nth_list_update_neq[OF not_sym])
  qed
  have st: "mapping_store (m ! nat i + sz) (world_entry world m i) m = Some ?m"
    using i assms by (simp add: mapping_store_def)
  have inj: "inj_on (\<lambda>x. ?m ! nat x) (set is)" using Cons.prems(3) low by (auto simp: inj_on_def)
  have pre: "\<forall>x\<in>set is. 0 \<le> x \<and> x < sz \<and> 0 \<le> ?m ! nat x \<and> nat (?m ! nat x + sz) < length ?m"
    using Cons.prems(1) low by simp
  obtain m' where m': "populate_from_world world sz ?m is = Some m'" "length m' = length ?m"
    "\<forall>x\<in>set is. m' ! nat (?m ! nat x + sz) = world_entry world ?m x"
    "\<forall>x. x \<notin> (\<lambda>x. nat (?m ! nat x + sz)) ` set is \<longrightarrow> m' ! x = ?m ! x"
    using Cons.IH[OF pre _ inj] Cons.prems(2) by auto
  have img: "(\<lambda>x. nat (?m ! nat x + sz)) ` set is = (\<lambda>x. nat (m ! nat x + sz)) ` set is" using low by (intro image_cong) auto
  have we: "world_entry world ?m x = world_entry world m x" if "x \<in> set is" for x
    using low[of x] that by (cases world) (simp_all add: world_entry_def)
  have fresh: "?at \<notin> (\<lambda>x. nat (m ! nat x + sz)) ` set is"
  proof
    assume "?at \<in> (\<lambda>x. nat (m ! nat x + sz)) ` set is"
    then obtain x where x: "x \<in> set is" "?at = nat (m ! nat x + sz)" by blast
    then have "m ! nat i = m ! nat x" using Cons.prems(1) i(3) assms by auto
    then have "i = x" by (rule inj_onD[OF Cons.prems(3)]) (simp_all add: x(1))
    then show False using x(1) Cons.prems(2) by simp
  qed
  have "populate_from_world world sz m (i # is) = Some m'"
    using st m'(1) by (simp add: Let_def world_entry_def)
  moreover have "\<forall>x\<in>set (i # is). m' ! nat (m ! nat x + sz) = world_entry world m x"
    using m'(3,4) low we img fresh i(4) by auto
  moreover have "\<forall>x. x \<notin> (\<lambda>x. nat (m ! nat x + sz)) ` set (i # is) \<longrightarrow> m' ! x = m ! x"
    using m'(4) img by auto
  ultimately show ?case using m'(2) by auto
qed simp

definition identity_world :: "nat \<Rightarrow> nvshmemi_team \<Rightarrow> bool" where
  "identity_world npes w \<longleftrightarrow> (\<forall>i \<in> {0..<int npes}. tm_mapping w ! nat i = i)"

lemma stride_range:
  assumes "0 < stride" "0 \<le> start" "start + (sz - 1) * stride < int npes" "0 \<le> i" "i < sz"
  shows "0 \<le> start + i * stride" "start + i * stride < int npes" "i < int npes"
proof -
  have "i * stride \<le> (sz - 1) * stride" using assms by (intro mult_right_mono) simp_all
  then show l: "start + i * stride < int npes" using assms(3) by linarith
  show "0 \<le> start + i * stride" using assms by simp
  have "i * 1 \<le> i * stride" using assms by (intro mult_left_mono) simp_all
  then show "i < int npes" using l assms(2) by linarith
qed

lemma populate_constant_stride:
  assumes t: "0 < tm_size t" "0 < tm_stride t" "0 \<le> tm_start t" "tm_start t + (tm_size t - 1) * tm_stride t < int npes"
    and m: "tm_mapping t = replicate (nat (tm_size t) + npes + k) (-1)"
    and w: "world = None \<and> tm_start t = 0 \<and> tm_stride t = 1 \<or> (\<exists>w. world = Some w \<and> identity_world npes w)"
  shows "nvshmemi_team_populate_pe_mappings_from_constant_stride world t =
    Some (t\<lparr>tm_mapping := strided_mapping npes (tm_start t) (tm_stride t) (tm_size t) @ replicate k (-1)\<rparr>)"
proof -
  let ?s = "tm_start t" and ?d = "tm_stride t" and ?n = "tm_size t"
  let ?is = "[0..?n - 1]"
  note rng = stride_range[OF t(2-4)]
  have len: "length (tm_mapping t) = nat ?n + npes + k" using m by simp
  have inb: "\<forall>i\<in>set ?is. 0 \<le> i \<and> nat i < length (tm_mapping t)" using len by auto
  obtain m1 where m1: "populate_stride ?s ?d (tm_mapping t) ?is = Some m1" "length m1 = nat ?n + npes + k"
    "\<forall>x < nat ?n + npes + k. m1 ! x = (if int x \<in> set ?is then ?s + int x * ?d else tm_mapping t ! x)"
    using populate_stride_nth[OF inb, of ?s ?d] unfolding len by blast
  have low: "m1 ! nat i = ?s + i * ?d" if "0 \<le> i" "i < ?n" for i using m1(3) that by (auto simp: nat_less_iff)
  have high: "m1 ! x = -1" if "nat ?n \<le> x" "x < nat ?n + npes + k" for x using m1(3) that m by auto
  have pre: "\<forall>i\<in>set ?is. 0 \<le> i \<and> i < ?n \<and> 0 \<le> m1 ! nat i \<and> nat (m1 ! nat i + ?n) < length m1"
  proof
    fix i assume "i \<in> set ?is"
    then have i: "0 \<le> i" "i < ?n" by auto
    show "0 \<le> i \<and> i < ?n \<and> 0 \<le> m1 ! nat i \<and> nat (m1 ! nat i + ?n) < length m1"
      using rng(1,2)[OF i] i unfolding low[OF i] m1(2) by linarith
  qed
  have inj: "inj_on (\<lambda>i. m1 ! nat i) (set ?is)" using low t(2) by (auto simp: inj_on_def)
  obtain m2 where m2: "populate_from_world (map_option tm_mapping world) ?n m1 ?is = Some m2" "length m2 = length m1"
    "\<forall>i\<in>set ?is. m2 ! nat (m1 ! nat i + ?n) = world_entry (map_option tm_mapping world) m1 i"
    "\<forall>x. x \<notin> (\<lambda>i. nat (m1 ! nat i + ?n)) ` set ?is \<longrightarrow> m2 ! x = m1 ! x"
    using populate_from_world_nth[OF _ pre _ inj, of "map_option tm_mapping world"] t(1) by auto
  have we: "world_entry (map_option tm_mapping world) m1 i = i" if "0 \<le> i" "i < ?n" for i
    using w low[OF that] rng(3)[OF that] that(1) by (auto simp: world_entry_def identity_world_def)
  have img: "(\<lambda>i. nat (m1 ! nat i + ?n)) ` set ?is = (\<lambda>i. nat (?s + i * ?d + ?n)) ` {0..<?n}"
    using low by (intro image_cong) auto
  have notin: "x \<notin> (\<lambda>i. nat (?s + i * ?d + ?n)) ` {0..<?n}" if "\<And>i. 0 \<le> i \<Longrightarrow> i < ?n \<Longrightarrow> int x \<noteq> ?s + i * ?d + ?n" for x
  proof
    assume "x \<in> (\<lambda>i. nat (?s + i * ?d + ?n)) ` {0..<?n}"
    then obtain i where i: "0 \<le> i" "i < ?n" "x = nat (?s + i * ?d + ?n)" by auto
    then show False using that[OF i(1,2)] rng(1)[OF i(1,2)] t(1) by simp
  qed
  note sm = strided_mapping_nth[OF less_imp_le[OF t(1)]]
  have "m2 = strided_mapping npes ?s ?d ?n @ replicate k (-1)"
  proof (rule nth_equalityI)
    show "length m2 = length (strided_mapping npes ?s ?d ?n @ replicate k (-1))" using m2(2) m1(2) sm(3) by simp
    fix x assume "x < length m2"
    then have x: "x < nat ?n + npes + k" using m2(2) m1(2) by simp
    consider "x < nat ?n" | "nat ?n \<le> x" "x < nat ?n + npes" | "nat ?n + npes \<le> x" by linarith
    then show "m2 ! x = (strided_mapping npes ?s ?d ?n @ replicate k (-1)) ! x"
    proof cases
      case 1
      have xi: "int x < ?n" using 1 by linarith
      have "x \<notin> (\<lambda>i. nat (?s + i * ?d + ?n)) ` {0..<?n}"
      proof (rule notin)
        fix i assume "0 \<le> i" "i < ?n"
        from rng(1)[OF this] show "int x \<noteq> ?s + i * ?d + ?n" using xi by linarith
      qed
      then have "m2 ! x = ?s + int x * ?d" using m2(4) img low[of "int x"] xi by simp
      then show ?thesis using sm(1)[of "int x" npes ?s ?d] sm(3) 1 xi by (simp add: nth_append)
    next
      case 2
      define p where "p = int x - ?n"
      have p: "0 \<le> p" "p < int npes" "x = nat (?n + p)" using 2 t(1) by (auto simp: p_def)
      have v: "(strided_mapping npes ?s ?d ?n @ replicate k (-1)) ! x = nvshmemi_pe_in_active_set p ?s ?d ?n"
        using 2 sm(2)[OF p(1,2), of ?s ?d] sm(3) p(3) by (simp add: nth_append)
      show ?thesis
      proof (cases "\<exists>i. 0 \<le> i \<and> i < ?n \<and> p = ?s + i * ?d")
        case True
        then obtain i where i: "0 \<le> i" "i < ?n" "p = ?s + i * ?d" by blast
        have "i \<in> set ?is" using i(1,2) by simp
        from bspec[OF m2(3) this] have "m2 ! x = i" unfolding low[OF i(1,2)] we[OF i(1,2)] p(3) i(3) by (simp add: add.commute)
        moreover have "nvshmemi_pe_in_active_set p ?s ?d ?n = i" using in_active_set[OF t(2), of ?n p ?s i] t(1) i by auto
        ultimately show ?thesis using v by simp
      next
        case False
        have "x \<notin> (\<lambda>i. nat (?s + i * ?d + ?n)) ` {0..<?n}"
        proof (rule notin)
          fix i assume "0 \<le> i" "i < ?n"
          then show "int x \<noteq> ?s + i * ?d + ?n" using False by (auto simp: p_def)
        qed
        then have "m2 ! x = -1" using m2(4) img high[OF 2(1) x] by simp
        moreover have "nvshmemi_pe_in_active_set p ?s ?d ?n = -1" using in_active_set[OF t(2), of ?n p ?s "-1"] t(1) False by auto
        ultimately show ?thesis using v by simp
      qed
    next
      case 3
      have "x \<notin> (\<lambda>i. nat (?s + i * ?d + ?n)) ` {0..<?n}"
      proof (rule notin)
        fix i assume "0 \<le> i" "i < ?n"
        from rng(2)[OF this] show "int x \<noteq> ?s + i * ?d + ?n" using 3 by linarith
      qed
      then have "m2 ! x = -1" using m2(4) img high[OF _ x] 3 by simp
      then show ?thesis using 3 x sm(3) by (simp add: nth_append)
    qed
  qed
  then show ?thesis
    using m1(1) m2(1) by (simp add: nvshmemi_team_populate_pe_mappings_from_constant_stride_def nvshmemi_team_populate_from_world_pe_mapping_def)
qed

lemma strided_append_ok:
  assumes "0 < tm_size t" "0 < tm_stride t" "0 \<le> tm_start t" "tm_start t + (tm_size t - 1) * tm_stride t < int npes"
    "tm_mapping t = strided_mapping npes (tm_start t) (tm_stride t) (tm_size t) @ ext"
  shows "team_ok npes t"
    and "0 \<le> i \<Longrightarrow> i < tm_size t \<Longrightarrow> team_pe t i = tm_start t + i * tm_stride t"
proof -
  note sm = strided_mapping_nth[OF less_imp_le[OF assms(1)]]
  have n1: "tm_mapping t ! nat i = tm_start t + i * tm_stride t" if "0 \<le> i" "i < tm_size t" for i
    using sm(1)[OF that] sm(3) that by (simp add: assms(5) nth_append nat_less_iff)
  have n2: "tm_mapping t ! nat (tm_size t + p) = nvshmemi_pe_in_active_set p (tm_start t) (tm_stride t) (tm_size t)"
    if "0 \<le> p" "p < int npes" for p
    using sm(2)[OF that] sm(3) that assms(1) by (simp add: assms(5) nth_append nat_less_iff)
  show "team_ok npes t" using assms(1-4) by (rule strided_nth_team_ok) (simp_all add: n1 n2, simp add: assms(5) sm(3))
  show "team_pe t i = tm_start t + i * tm_stride t" if "0 \<le> i" "i < tm_size t" using n1[OF that] by (simp add: team_pe_def)
qed

section \<open>Teams that are read off a list\<close>

text \<open>
  The list of PEs that a PE takes for its team is in ascending order, has a constant difference and is the same on all of its
  PEs; every PE knows its own place. An array that was allocated for more PEs has \<open>k\<close> unused entries.
\<close>

lemma nth_constant_difference:
  assumes "constant_difference l" "1 < length l"
  shows "i < length l \<Longrightarrow> l ! i = l ! 0 + int i * (l ! 1 - l ! 0)"
proof (induction i rule: less_induct)
  case (less i)
  consider "i = 0" | "i = 1" | "2 \<le> i" by linarith
  then show ?case
  proof cases
    case 3
    have "l ! i - l ! (i - 1) = l ! (i - 1) - l ! (i - 2)"
      using assms(1) 3 less.prems unfolding constant_difference_def by (simp add: list_all_iff)
    moreover have "l ! (i - 1) = l ! 0 + int (i - 1) * (l ! 1 - l ! 0)" "l ! (i - 2) = l ! 0 + int (i - 2) * (l ! 1 - l ! 0)"
      using less.IH[of "i - 1"] less.IH[of "i - 2"] less.prems 3 by simp_all
    ultimately show ?thesis using 3 by (simp add: of_nat_diff algebra_simps)
  qed simp_all
qed

lemma filter_upto_index:
  assumes "0 \<le> q" "q < n" "P q"
  shows "length (filter P [0..q - 1]) < length (filter P [0..n - 1])" "filter P [0..n - 1] ! length (filter P [0..q - 1]) = q"
proof -
  have "[0..n - 1] = [0..q - 1] @ q # [q + 1..n - 1]" using upto_split2[of 0 q "n - 1"] upto_rec2[of 0 q] assms by simp
  then have e: "filter P [0..n - 1] = filter P [0..q - 1] @ q # filter P [q + 1..n - 1]" using assms(3) by simp
  show "length (filter P [0..q - 1]) < length (filter P [0..n - 1])" "filter P [0..n - 1] ! length (filter P [0..q - 1]) = q"
    unfolding e by (simp_all add: nth_append)
qed

definition list_stride :: "int list \<Rightarrow> int" where "list_stride l = (if length l > 1 then l ! 1 - l ! 0 else 1)"

definition team_of_list :: "nat \<Rightarrow> nat \<Rightarrow> int \<Rightarrow> int list \<Rightarrow> int \<Rightarrow> nvshmemi_team \<Rightarrow> bool" where
  "team_of_list npes k d l q t \<longleftrightarrow> 0 < d \<and> set l \<subseteq> {0..<int npes} \<and> (\<forall>i < length l. l ! i = l ! 0 + int i * d) \<and>
     0 \<le> tm_my_pe t \<and> nat (tm_my_pe t) < length l \<and> l ! nat (tm_my_pe t) = q \<and> tm_start t = l ! 0 \<and> tm_stride t = d \<and>
     tm_size t = int (length l) \<and> tm_mapping t = strided_mapping npes (l ! 0) d (int (length l)) @ replicate k (-1)"

lemma progression:
  assumes "sorted l" "distinct l" "set l \<subseteq> {0..<int npes}" "constant_difference l" "l \<noteq> []"
  shows "0 < list_stride l" "0 \<le> l ! 0" "\<forall>i < length l. l ! i = l ! 0 + int i * list_stride l"
proof -
  have in_l: "0 \<le> l ! x \<and> l ! x < int npes" if "x < length l" for x using assms(3) nth_mem[OF that] by auto
  then show "0 \<le> l ! 0" using assms(5) by simp
  have nth: "l ! i = l ! 0 + int i * list_stride l" if "i < length l" for i
  proof (cases "1 < length l")
    case True
    then show ?thesis using nth_constant_difference[OF assms(4) True that] by (simp add: list_stride_def)
  next
    case False
    then have "i = 0" using that by linarith
    then show ?thesis by simp
  qed
  then show "\<forall>i < length l. l ! i = l ! 0 + int i * list_stride l" by blast
  have "l ! 0 < l ! 1" if "1 < length l"
  proof -
    have "l ! 0 \<le> l ! 1" using assms(1) that by (simp add: sorted_iff_nth_mono)
    moreover have "l ! 0 \<noteq> l ! 1" using assms(2,5) that by (simp add: nth_eq_iff_index_eq)
    ultimately show ?thesis by simp
  qed
  then show "0 < list_stride l" by (simp add: list_stride_def)
qed

lemma list_range:
  assumes "set l \<subseteq> {0..<int npes}" "\<forall>i < length l. l ! i = l ! 0 + int i * d" "l \<noteq> []"
  shows "0 \<le> l ! 0" "l ! 0 + (int (length l) - 1) * d < int npes"
proof -
  have in_l: "0 \<le> l ! x \<and> l ! x < int npes" if "x < length l" for x using assms(1) nth_mem[OF that] by auto
  then show "0 \<le> l ! 0" using assms(3) by simp
  show "l ! 0 + (int (length l) - 1) * d < int npes"
    using spec[OF assms(2), of "length l - 1"] in_l[of "length l - 1"] assms(3) by (simp add: of_nat_diff Suc_le_eq)
qed

lemma team_of_list_ok:
  assumes "team_of_list npes k d l q t"
  shows "team_ok npes t" "0 \<le> i \<Longrightarrow> i < tm_size t \<Longrightarrow> team_pe t i = l ! nat i" "team_pe t (tm_my_pe t) = q"
proof -
  have l: "0 < d" "set l \<subseteq> {0..<int npes}" "\<forall>i < length l. l ! i = l ! 0 + int i * d" "l \<noteq> []"
    and t: "tm_start t = l ! 0" "tm_stride t = d" "tm_size t = int (length l)"
      "tm_mapping t = strided_mapping npes (l ! 0) d (int (length l)) @ replicate k (-1)"
    and me: "0 \<le> tm_my_pe t" "nat (tm_my_pe t) < length l" "l ! nat (tm_my_pe t) = q"
    using assms by (auto simp: team_of_list_def)
  note ok = strided_append_ok[of t npes "replicate k (-1)", unfolded t, OF _ l(1) list_range[OF l(2-4)]]
  show "team_ok npes t" using ok(1) l(4) by simp
  show pe: "team_pe t i = l ! nat i" if "0 \<le> i" "i < tm_size t" for i
    using ok(2)[of i] spec[OF l(3), of "nat i"] that l(4) t(3) by (simp add: nat_less_iff)
  show "team_pe t (tm_my_pe t) = q" using pe[of "tm_my_pe t"] me t(3) by (simp add: nat_less_iff)
qed

lemma team_of_list_coherent:
  assumes "team_of_list npes k d l q t" "\<And>x. x \<in> set l \<Longrightarrow> team_of_list npes k d l x (teams x)"
  shows "coherent_team npes teams t"
proof -
  note ok = team_of_list_ok[OF assms(1)]
  have d: "0 < d" "tm_size t = int (length l)" "\<forall>i < length l. l ! i = l ! 0 + int i * d"
    using assms(1) by (simp_all add: team_of_list_def)
  show ?thesis unfolding coherent_team_def
  proof (intro conjI ballI ok(1))
    fix i assume i: "i \<in> {0..<tm_size t}"
    have pe: "team_pe t i = l ! nat i" "nat i < length l" using ok(2)[of i] i d(2) by auto
    have x: "team_of_list npes k d l (team_pe t i) (teams (team_pe t i))" using assms(2) pe by simp
    show "tm_size (teams (team_pe t i)) = tm_size t" "tm_mapping (teams (team_pe t i)) = tm_mapping t"
      using x assms(1) by (simp_all add: team_of_list_def)
    define y where "y = tm_my_pe (teams (team_pe t i))"
    have y: "l ! nat y = l ! nat i" "nat y < length l" "0 \<le> y" using x pe(1) by (simp_all add: team_of_list_def y_def)
    then have "l ! 0 + int (nat y) * d = l ! 0 + int (nat i) * d" using d(3) pe(2) by metis
    then show "tm_my_pe (teams (team_pe t i)) = i" using y(3) i d(1) by (simp add: y_def)
  qed
qed

lemma populate_list:
  assumes "0 < d" "set l \<subseteq> {0..<int npes}" "\<forall>i < length l. l ! i = l ! 0 + int i * d"
    and "tm_start t = l ! 0" "tm_stride t = d" "tm_size t = int (length l)"
      "tm_mapping t = replicate (length l + npes + k) (-1)" "identity_world npes w"
    and "0 \<le> tm_my_pe t" "nat (tm_my_pe t) < length l" "l ! nat (tm_my_pe t) = q"
  shows "\<exists>m. nvshmemi_team_populate_pe_mappings_from_constant_stride (Some w) t = Some (t\<lparr>tm_mapping := m\<rparr>) \<and>
    team_of_list npes k d l q (t\<lparr>tm_mapping := m\<rparr>)"
proof -
  have ne: "l \<noteq> []" using assms(10) by auto
  have "nvshmemi_team_populate_pe_mappings_from_constant_stride (Some w) t =
    Some (t\<lparr>tm_mapping := strided_mapping npes (l ! 0) d (int (length l)) @ replicate k (-1)\<rparr>)"
    using populate_constant_stride[of t npes k "Some w"] list_range[OF assms(2,3) ne] ne assms(1,4-8) by simp
  then show ?thesis using assms(1-6,9-11) by (auto simp: team_of_list_def)
qed

section \<open>The world team\<close>

lemma world_of_list:
  assumes "0 \<le> q" "q < int (job_npes j)"
  shows "\<exists>t. team_world_init j q = Some t \<and> team_of_list (job_npes j) 0 1 (world_pes j) q t \<and> identity_world (job_npes j) t"
proof -
  let ?t = "(new_team (job_npes j) (job_npes j))\<lparr>tm_idx := NVSHMEM_TEAM_WORLD_INDEX, tm_start := 0, tm_stride := 1,
    tm_size := int (job_npes j), tm_my_pe := q, tm_rdxn_count := 0, tm_alltoall_count := 0,
    tm_is_node := False, tm_is_same_mype := False\<rparr>"
  let ?r = "?t\<lparr>tm_mapping := strided_mapping (job_npes j) 0 1 (int (job_npes j))\<rparr>"
  have "team_world_init j q = Some ?r" unfolding team_world_init_def
    using populate_constant_stride[of ?t "job_npes j" 0 None] assms by (simp add: new_team_def TEAM_SCALAR_INVALID_def)
  moreover have "team_of_list (job_npes j) 0 1 (world_pes j) q ?r"
    using assms by (auto simp: team_of_list_def world_pes_def nat_less_iff)
  moreover have "identity_world (job_npes j) ?r" by (simp add: identity_world_def strided_mapping_nth(1))
  ultimately show ?thesis by blast
qed

definition world_view :: "job \<Rightarrow> int \<Rightarrow> nvshmemi_team" where "world_view j q = the (team_world_init j q)"

lemma world_view:
  assumes "0 \<le> q" "q < int (job_npes j)"
  shows "tm_my_pe (world_view j q) = q" "tm_size (world_view j q) = int (job_npes j)"
    "0 \<le> i \<Longrightarrow> i < int (job_npes j) \<Longrightarrow> mapping_at (world_view j q) i = Some i"
proof -
  obtain t where t: "world_view j q = t" "team_of_list (job_npes j) 0 1 (world_pes j) q t" "identity_world (job_npes j) t"
    using world_of_list[OF assms] by (auto simp: world_view_def)
  show sz: "tm_size (world_view j q) = int (job_npes j)" using t(1,2) by (simp add: team_of_list_def world_pes_def)
  show "tm_my_pe (world_view j q) = q" using t(1,2) by (auto simp: team_of_list_def world_pes_def nat_less_iff)
  show "mapping_at (world_view j q) i = Some i" if "0 \<le> i" "i < int (job_npes j)"
  proof -
    have "nat i < job_npes j" using that by (simp add: nat_less_iff)
    then have "nat i < length (tm_mapping t)" using t(2) by (simp add: team_of_list_def strided_mapping_def world_pes_def)
    then show ?thesis using t that by (simp add: mapping_at_def identity_world_def)
  qed
qed

section \<open>The shared team\<close>

lemma p2p_index:
  assumes "0 \<le> q" "q < int (job_npes j)" "env_p2p (job_env j q) q"
  shows "0 \<le> my_idx_in_p2p_list j q" "nat (my_idx_in_p2p_list j q) < length (p2p_pe_list j q)"
    "p2p_pe_list j q ! nat (my_idx_in_p2p_list j q) = q"
  using filter_upto_index[OF assms(1,2), of "env_p2p (job_env j q)"] assms(3)
  by (simp_all add: my_idx_in_p2p_list_def p2p_pe_list_def world_pes_def)

lemma p2p_list_props:
  "q \<in> set (p2p_pe_list j mype) \<longleftrightarrow> 0 \<le> q \<and> q < int (job_npes j) \<and> env_p2p (job_env j mype) q"
  "sorted (p2p_pe_list j mype)" "distinct (p2p_pe_list j mype)"
  by (auto simp: p2p_pe_list_def world_pes_def intro!: sorted_filter[of id, simplified])

definition shared_pes :: "job \<Rightarrow> int \<Rightarrow> int list" where
  "shared_pes j mype = (if shared_formed j mype then p2p_pe_list j mype else [mype])"

definition shared_spare :: "job \<Rightarrow> int \<Rightarrow> nat" where
  "shared_spare j mype = (if shared_formed j mype then 0 else length (p2p_pe_list j mype) - 1)"

text \<open>Every PE has its own heap mapped.\<close>

definition self_p2p :: "job \<Rightarrow> bool" where "self_p2p j \<longleftrightarrow> list_all (\<lambda>q. env_p2p (job_env j q) q) (world_pes j)"

lemma shared_of_list:
  assumes "self_p2p j" "0 \<le> q" "q < int (job_npes j)" "identity_world (job_npes j) w"
  shows "\<exists>t. team_shared_init w j q = Some t \<and> team_of_list (job_npes j) (shared_spare j q) (list_stride (shared_pes j q)) (shared_pes j q) q t"
proof -
  let ?l = "p2p_pe_list j q"
  have self: "env_p2p (job_env j q) q" using assms(1-3) by (simp add: self_p2p_def list_all_iff world_pes_def)
  note me = p2p_index[OF assms(2,3) self] and pr = p2p_list_props[where j = j and mype = q]
  have ne: "?l \<noteq> []" using me(2) by auto
  have rng: "set ?l \<subseteq> {0..<int (job_npes j)}" by (simp add: subset_iff p2p_list_props(1))
  let ?new = "(new_team (job_npes j) (length ?l))\<lparr>tm_idx := NVSHMEM_TEAM_SHARED_INDEX\<rparr>"
  let ?rest = "\<lambda>t. t\<lparr>tm_rdxn_count := 0, tm_alltoall_count := 0, tm_p2p_connected := True\<rparr>"
  let ?A = "?rest (?new\<lparr>tm_my_pe := my_idx_in_p2p_list j q, tm_start := ?l ! 0, tm_stride := list_stride ?l,
    tm_size := int (length ?l), tm_is_same_mype := False\<rparr>)"
  let ?B = "?rest (?new\<lparr>tm_my_pe := 0, tm_start := q, tm_stride := 1, tm_size := 1, tm_is_node := True, tm_is_same_mype := True\<rparr>)"
  show ?thesis
  proof (cases "shared_formed j q")
    case True
    then have "constant_difference ?l" by (simp add: shared_formed_def)
    note pg = progression[OF pr(2,3) rng this ne]
    have "\<exists>m. nvshmemi_team_populate_pe_mappings_from_constant_stride (Some w) ?A = Some (?A\<lparr>tm_mapping := m\<rparr>) \<and>
        team_of_list (job_npes j) 0 (list_stride ?l) ?l q (?A\<lparr>tm_mapping := m\<rparr>)"
      by (rule populate_list[OF pg(1) rng pg(3)]) (use me assms(4) in \<open>simp_all add: new_team_def TEAM_SCALAR_INVALID_def\<close>)
    then show ?thesis using True ne
      unfolding team_shared_init_def Let_def list_stride_def shared_pes_def shared_spare_def by auto
  next
    case False
    have m: "tm_mapping ?B = replicate (length [q] + job_npes j + (length ?l - 1)) (-1)"
      using ne by (cases ?l) (simp_all add: new_team_def TEAM_SCALAR_INVALID_def add.commute)
    have "\<exists>m. nvshmemi_team_populate_pe_mappings_from_constant_stride (Some w) ?B = Some (?B\<lparr>tm_mapping := m\<rparr>) \<and>
        team_of_list (job_npes j) (length ?l - 1) 1 [q] q (?B\<lparr>tm_mapping := m\<rparr>)"
      by (rule populate_list[OF _ _ _ _ _ _ m assms(4)]) (use assms(2,3) in simp_all)
    then show ?thesis using False ne
      unfolding team_shared_init_def Let_def shared_pes_def shared_spare_def list_stride_def by auto
  qed
qed

lemma shared_member:
  assumes "x \<in> set (shared_pes j q)"
  shows "shared_pes j x = shared_pes j q \<and> shared_spare j x = shared_spare j q"
proof (cases "shared_formed j q")
  case True
  then have x: "x \<in> set (p2p_pe_list j q)" using assms by (simp add: shared_pes_def)
  then have l: "p2p_pe_list j x = p2p_pe_list j q" using True by (simp add: shared_formed_def p2p_lists_same_def list_all_iff)
  then have "shared_formed j x" using True by (simp add: shared_formed_def p2p_lists_same_def n_p2p_pes_equal_def)
  then show ?thesis using True l by (simp add: shared_pes_def shared_spare_def)
next
  case False
  then show ?thesis using assms by (simp add: shared_pes_def)
qed

section \<open>The node team and the team of a GPU\<close>

lemma linear_search_tail:
  "\<forall>pe\<in>set l. a \<le> pe \<and> (pe - a) mod d = 0 \<Longrightarrow> 0 \<le> a \<Longrightarrow> 0 < d \<Longrightarrow> linear_search l (a, d, n) = Some (a, d, n + int (length l))"
  by (induction l arbitrary: n) (auto simp: check_for_linear_stride_def smod_pos)

lemma linear_search_progression:
  assumes "sorted l" "distinct l" "set l \<subseteq> {0..<int npes}" "constant_difference l" "l \<noteq> []"
  shows "linear_search l (-1, -1, 0) = Some (l ! 0, if length l > 1 then list_stride l else -1, int (length l))"
proof -
  note p = progression[OF assms]
  obtain a l' where l: "l = a # l'" using assms(5) by (cases l) auto
  have a0: "0 \<le> a" using p(2) l by simp
  show ?thesis
  proof (cases l')
    case Nil
    then show ?thesis using l by (simp add: check_for_linear_stride_def)
  next
    case (Cons b r)
    have d: "list_stride l = b - a" using l Cons by (simp add: list_stride_def)
    have "\<forall>pe\<in>set r. a \<le> pe \<and> (pe - a) mod (b - a) = 0"
    proof
      fix pe assume "pe \<in> set r"
      then obtain i where i: "i < length r" "pe = r ! i" by (auto simp: in_set_conv_nth)
      have "pe = a + int (i + 2) * (b - a)" using spec[OF p(3), of "i + 2"] i l Cons d by simp
      then show "a \<le> pe \<and> (pe - a) mod (b - a) = 0" using p(1) d by simp
    qed
    then have "linear_search r (a, b - a, 2) = Some (a, b - a, 2 + int (length r))"
      using a0 p(1) d by (intro linear_search_tail) simp_all
    then show ?thesis using l Cons d a0 by (simp add: check_for_linear_stride_def)
  qed
qed

lemma filter_world_pes:
  "sorted (filter P (world_pes j))" "distinct (filter P (world_pes j))" "set (filter P (world_pes j)) \<subseteq> {0..<int (job_npes j)}"
  by (auto simp: world_pes_def intro!: sorted_filter[of id, simplified])

lemma node_of_list:
  assumes "constant_difference (same_host_pes j q)" "identity_world (job_npes j) w"
    and me: "0 \<le> env_mype_node (job_env j q)" "nat (env_mype_node (job_env j q)) < length (same_host_pes j q)"
      "same_host_pes j q ! nat (env_mype_node (job_env j q)) = q"
  shows "\<exists>w' s' t. team_node_init w s j q = Some (w', s', t) \<and> team_of_list (job_npes j) 0 (list_stride (same_host_pes j q)) (same_host_pes j q) q t \<and>
    (\<exists>n b. w' = w\<lparr>tm_node := n, tm_is_node := b\<rparr>) \<and> (\<exists>b. s' = s\<lparr>tm_is_node := b\<rparr>)"
proof -
  let ?l = "same_host_pes j q"
  note fl = filter_world_pes[of "\<lambda>pe. env_host (job_env j pe) = env_host (job_env j q)" j, folded same_host_pes_def]
  have ne: "?l \<noteq> []" using me(2) by auto
  have nt: "node_triplet j q = (?l ! 0, if length ?l > 1 then list_stride ?l else -1, int (length ?l))"
    using linear_search_progression[OF fl assms(1) ne] by (simp add: node_triplet_def)
  note pr = progression[OF fl assms(1) ne]
  have st: "(if (if length ?l > 1 then list_stride ?l else -1) = -1 then 1 else if length ?l > 1 then list_stride ?l else -1) = list_stride ?l"
  proof (cases "length ?l > 1")
    case True
    then show ?thesis using pr(1) by simp
  qed (simp add: list_stride_def)
  let ?t = "(new_team (job_npes j) (nat (int (length ?l))))\<lparr>tm_idx := NVSHMEM_TEAM_NODE_INDEX, tm_my_pe := env_mype_node (job_env j q),
    tm_rdxn_count := 0, tm_alltoall_count := 0, tm_start := ?l ! 0, tm_stride := list_stride ?l, tm_size := int (length ?l)\<rparr>"
  define w1 where "w1 = w\<lparr>tm_node := NVSHMEM_TEAM_NODE_INDEX\<rparr>"
  define w2 where "w2 = (if nvshmemi_team_is_identical (Some w1) (Some ?t) then w1\<lparr>tm_is_node := True\<rparr> else w1)"
  define s1 where "s1 = (if nvshmemi_team_is_identical (Some s) (Some ?t) then s\<lparr>tm_is_node := True\<rparr> else s)"
  have "identity_world (job_npes j) w2" using assms(2) by (simp add: w2_def w1_def identity_world_def)
  then have "\<exists>m. nvshmemi_team_populate_pe_mappings_from_constant_stride (Some w2) ?t = Some (?t\<lparr>tm_mapping := m\<rparr>) \<and>
      team_of_list (job_npes j) 0 (list_stride ?l) ?l q (?t\<lparr>tm_mapping := m\<rparr>)"
    by (intro populate_list[OF pr(1) fl(3) pr(3)]) (use me in \<open>simp_all add: new_team_def TEAM_SCALAR_INVALID_def\<close>)
  then obtain m where m: "nvshmemi_team_populate_pe_mappings_from_constant_stride (Some w2) ?t = Some (?t\<lparr>tm_mapping := m\<rparr>)"
    "team_of_list (job_npes j) 0 (list_stride ?l) ?l q (?t\<lparr>tm_mapping := m\<rparr>)" by blast
  let ?r = "(nvshmemi_team_set_p2p_connectivity s1 (?t\<lparr>tm_mapping := m\<rparr>))\<lparr>tm_is_node := True, tm_is_same_mype := False\<rparr>"
  have "team_node_init w s j q = Some (w2, s1, ?r)"
    unfolding team_node_init_def nt prod.case Let_def st w1_def[symmetric] unfolding w2_def[symmetric] s1_def[symmetric] by (simp only: m(1) option.map)
  moreover have "team_of_list (job_npes j) 0 (list_stride ?l) ?l q ?r" using m(2) by (simp add: team_of_list_def nvshmemi_team_set_p2p_connectivity_def)
  moreover have "\<exists>n b. w2 = w\<lparr>tm_node := n, tm_is_node := b\<rparr>"
    unfolding w2_def w1_def by (cases w) (auto intro!: exI[of _ NVSHMEM_TEAM_NODE_INDEX])
  moreover have "\<exists>b. s1 = s\<lparr>tm_is_node := b\<rparr>" unfolding s1_def by (cases s) auto
  ultimately show ?thesis by blast
qed

lemma set_p2p_of_list [simp]: "team_of_list npes k d l q (nvshmemi_team_set_p2p_connectivity s t) = team_of_list npes k d l q t"
  by (simp add: team_of_list_def nvshmemi_team_set_p2p_connectivity_def)

lemma same_gpu_of_list:
  assumes "constant_difference (same_gpu_pes j q)" "identity_world (job_npes j) w" "0 \<le> q" "q < int (job_npes j)"
  shows "\<exists>t. team_same_gpu_init w s j q = Inr t \<and> team_of_list (job_npes j) 0 (list_stride (same_gpu_pes j q)) (same_gpu_pes j q) q t"
proof -
  let ?l = "same_gpu_pes j q"
  note fl = filter_world_pes[of "\<lambda>pe. env_host (job_env j pe) = env_host (job_env j q) \<and> env_gpu (job_env j pe) = env_gpu (job_env j q)" j,
      folded same_gpu_pes_def]
  have "q \<in> set ?l" using assms(3,4) by (simp add: same_gpu_pes_def world_pes_def)
  then obtain i where i: "i < length ?l" "?l ! i = q" by (auto simp: in_set_conv_nth)
  then have ne: "?l \<noteq> []" by auto
  note pr = progression[OF fl assms(1) ne]
  let ?d = "if length ?l > 1 then list_stride ?l else -1"
  have st: "(if ?d = -1 then 1 else ?d) = list_stride ?l"
  proof (cases "length ?l > 1")
    case True
    then show ?thesis using pr(1) by simp
  qed (simp add: list_stride_def)
  have my: "(q - ?l ! 0) sdiv ?d = int i"
  proof (cases "length ?l > 1")
    case True
    have "q - ?l ! 0 = int i * list_stride ?l" using pr(3) i by auto
    then show ?thesis using True pr(1) by (simp add: sdiv_pos)
  next
    case False
    then have "i = 0" using i(1) by linarith
    then show ?thesis using i(2) False by (simp add: signed_divide_int_def)
  qed
  let ?t = "(new_team (job_npes j) (nat (int (length ?l))))\<lparr>tm_idx := NVSHMEM_TEAM_SAME_GPU_INDEX, tm_rdxn_count := 0,
    tm_alltoall_count := 0, tm_my_pe := int i, tm_start := ?l ! 0, tm_stride := list_stride ?l, tm_size := int (length ?l),
    tm_is_node := True, tm_is_same_mype := False\<rparr>"
  have "\<exists>m. nvshmemi_team_populate_pe_mappings_from_constant_stride (Some w) ?t = Some (?t\<lparr>tm_mapping := m\<rparr>) \<and>
      team_of_list (job_npes j) 0 (list_stride ?l) ?l q (?t\<lparr>tm_mapping := m\<rparr>)"
    by (intro populate_list[OF pr(1) fl(3) pr(3)]) (use i assms(2) in \<open>simp_all add: new_team_def TEAM_SCALAR_INVALID_def\<close>)
  then obtain m where m: "nvshmemi_team_populate_pe_mappings_from_constant_stride (Some w) ?t = Some (?t\<lparr>tm_mapping := m\<rparr>)"
    "team_of_list (job_npes j) 0 (list_stride ?l) ?l q (?t\<lparr>tm_mapping := m\<rparr>)" by blast
  have c: "(0 \<le> ?l ! 0 \<and> 0 < int (length ?l)) = True" using pr(2) ne by simp
  have "team_same_gpu_init w s j q = Inr (nvshmemi_team_set_p2p_connectivity s (?t\<lparr>tm_mapping := m\<rparr>))"
    unfolding team_same_gpu_init_def linear_search_progression[OF fl assms(1) ne] option.case prod.case st my c
    by (simp only: m(1) option.map stored_def option.case simp_thms if_False)
  then show ?thesis using m(2) by (intro exI[of _ "nvshmemi_team_set_p2p_connectivity s (?t\<lparr>tm_mapping := m\<rparr>)"]) (simp only: set_p2p_of_list simp_thms)
qed

definition same_rank_pes :: "job \<Rightarrow> int \<Rightarrow> int \<Rightarrow> int list" where
  "same_rank_pes j c q = map (\<lambda>i. q mod c + i * c) [0..int (job_npes j) div c - 1]"

lemma same_mype_of_list:
  assumes c: "0 < c" "c dvd int (job_npes j)" "env_npes_node (job_env j q) = c" "env_mype_node (job_env j q) = q mod c"
    and w: "identity_world (job_npes j) w" and q: "0 \<le> q" "q < int (job_npes j)"
  shows "\<exists>t. team_same_mype_node_init w s j q = Inr t \<and> team_of_list (job_npes j) 0 c (same_rank_pes j c q) q t"
proof -
  let ?l = "same_rank_pes j c q" and ?n = "int (job_npes j) div c"
  have n: "int (job_npes j) = ?n * c" "0 \<le> ?n" using c(1,2) by (simp_all add: pos_imp_zdiv_nonneg_iff)
  have qn: "0 \<le> q div c" "q div c < ?n"
  proof -
    show "0 \<le> q div c" using q(1) c(1) by (simp add: pos_imp_zdiv_nonneg_iff)
    have "(q div c) * c \<le> q" using c(1) pos_mod_sign[of c q] div_mult_mod_eq[of q c] by linarith
    then have "(q div c) * c < ?n * c" using q(2) n(1) by linarith
    then show "q div c < ?n" using c(1) by (simp add: mult_less_cancel_right)
  qed
  have len: "length ?l = nat ?n" by (simp add: same_rank_pes_def)
  have nth: "?l ! x = q mod c + int x * c" if "x < nat ?n" for x using that by (simp add: same_rank_pes_def)
  have rng: "set ?l \<subseteq> {0..<int (job_npes j)}"
  proof
    fix x assume "x \<in> set ?l"
    then have "x \<in> (\<lambda>i. q mod c + i * c) ` {0..?n - 1}" by (simp add: same_rank_pes_def)
    then obtain i where x: "x = q mod c + i * c" and ii: "i \<in> {0..?n - 1}" by (rule imageE)
    have i: "0 \<le> i" "i < ?n" using ii by simp_all
    have "(i + 1) * c \<le> ?n * c" using i(2) c(1) by (intro mult_right_mono) simp_all
    then have "i * c + c \<le> int (job_npes j)" unfolding n(1)[symmetric] by (simp only: distrib_right mult_1)
    then show "x \<in> {0..<int (job_npes j)}" using x i c(1) pos_mod_bound[OF c(1), of q] pos_mod_sign[OF c(1), of q] by simp
  qed
  have z: "?l ! 0 = q mod c" using nth[of 0] qn by simp
  have all: "\<forall>i < length ?l. ?l ! i = ?l ! 0 + int i * c" using nth z len by simp
  have me: "?l ! nat (q div c) = q" using nth[of "nat (q div c)"] qn by simp
  let ?t = "(new_team (job_npes j) (nat ?n))\<lparr>tm_idx := NVSHMEM_TEAM_SAME_MYPE_NODE_INDEX, tm_my_pe := q div c, tm_rdxn_count := 0,
    tm_start := q mod c, tm_stride := c, tm_size := ?n, tm_alltoall_count := 0, tm_is_node := False, tm_is_same_mype := True\<rparr>"
  have "\<exists>m. nvshmemi_team_populate_pe_mappings_from_constant_stride (Some w) ?t = Some (?t\<lparr>tm_mapping := m\<rparr>) \<and>
      team_of_list (job_npes j) 0 c ?l q (?t\<lparr>tm_mapping := m\<rparr>)"
    by (intro populate_list[OF c(1) rng all]) (use z len qn me w in \<open>simp_all add: new_team_def TEAM_SCALAR_INVALID_def\<close>)
  then obtain m where m: "nvshmemi_team_populate_pe_mappings_from_constant_stride (Some w) ?t = Some (?t\<lparr>tm_mapping := m\<rparr>)"
    "team_of_list (job_npes j) 0 c ?l q (?t\<lparr>tm_mapping := m\<rparr>)" by blast
  have arith: "int (job_npes j) sdiv c = ?n" "int (job_npes j) smod c = 0" "q sdiv c = q div c"
    using c(1,2) q(1) by (simp_all add: sdiv_pos smod_pos)
  have "team_same_mype_node_init w s j q = Inr (nvshmemi_team_set_p2p_connectivity s (?t\<lparr>tm_mapping := m\<rparr>))"
    unfolding team_same_mype_node_init_def c(3,4) Let_def arith
    by (simp only: m(1) option.map stored_def option.case simp_thms if_False)
  then show ?thesis using m(2) by (intro exI[of _ "nvshmemi_team_set_p2p_connectivity s (?t\<lparr>tm_mapping := m\<rparr>)"]) (simp only: set_p2p_of_list simp_thms)
qed

section \<open>All teams\<close>

lemma leaders_total:
  assumes "team_of_list (job_npes j) k d l q t" "identity_world (job_npes j) w"
  shows "\<exists>r. team_gpu_leaders_init w s t j q = Inr r"
proof -
  let ?g = "tm_size t" and ?n = "int (job_npes j)"
  have ok: "team_ok (job_npes j) t" by (rule team_of_list_ok(1)[OF assms(1)])
  have g: "0 < ?g" "inj_on (team_pe t) {0..<?g}" "team_pe t ` {0..<?g} \<subseteq> {0..<?n}"
    using ok team_pe_inj[OF ok] by (auto simp: team_ok_def team_pe_def)
  have "card {0..<?g} \<le> card {0..<?n}" using g(2,3) by (intro card_inj_on_le) simp_all
  then have le: "?g \<le> ?n" by simp
  have sz: "?n sdiv ?g = ?n div ?g" using g(1) by (simp add: sdiv_pos)
  have n1: "0 < ?n div ?g" using le g(1) by (simp add: pos_imp_zdiv_pos_iff)
  let ?st = "if tm_stride t = 1 then ?g else 1"
  have last: "(?n div ?g - 1) * ?st < ?n"
  proof -
    have "(?n div ?g - 1) * ?st \<le> (?n div ?g - 1) * ?g" using n1 g(1) by (intro mult_left_mono) simp_all
    moreover have "(?n div ?g) * ?g \<le> ?n" using g(1) pos_mod_sign[of ?g ?n] div_mult_mod_eq[of ?n ?g] by linarith
    ultimately show ?thesis using g(1) by (simp add: left_diff_distrib)
  qed
  let ?t = "(new_team (job_npes j) (nat (?n sdiv ?g)))\<lparr>tm_idx := NVSHMEM_TEAM_GPU_LEADERS_INDEX, tm_start := 0, tm_stride := ?st,
    tm_size := ?n sdiv ?g, tm_my_pe := q sdiv ?st, tm_rdxn_count := 0, tm_alltoall_count := 0\<rparr>"
  have "nvshmemi_team_populate_pe_mappings_from_constant_stride (Some w) ?t \<noteq> None"
    using populate_constant_stride[of ?t "job_npes j" 0 "Some w"] assms(2) g(1) n1 last
    by (simp add: sz new_team_def TEAM_SCALAR_INVALID_def)
  then obtain x where "nvshmemi_team_populate_pe_mappings_from_constant_stride (Some w) ?t = Some x" by blast
  then show ?thesis unfolding team_gpu_leaders_init_def Let_def stored_def by (simp only:) simp
qed

text \<open>
  A job with \<open>c\<close> consecutive PEs on every host, whose GPUs are shared by evenly spaced PEs, if at all, and in which every PE
  has its own heap mapped.
\<close>

definition regular_job :: "int \<Rightarrow> job \<Rightarrow> bool" where
  "regular_job c j \<longleftrightarrow> 0 < c \<and> c dvd int (job_npes j) \<and> self_p2p j \<and>
     list_all (\<lambda>q. env_npes_node (job_env j q) = c \<and> env_mype_node (job_env j q) = q mod c \<and>
        same_host_pes j q = [q - q mod c..q - q mod c + c - 1] \<and> constant_difference (same_gpu_pes j q)) (world_pes j)"

lemma constant_difference_upto: "constant_difference [a..b]"
  unfolding constant_difference_def list_all_iff by (auto simp: of_nat_diff)

lemma regular_jobD:
  assumes "regular_job c j" "0 \<le> q" "q < int (job_npes j)"
  shows "0 < c" "c dvd int (job_npes j)" "self_p2p j" "env_npes_node (job_env j q) = c" "env_mype_node (job_env j q) = q mod c"
    "constant_difference (same_host_pes j q)" "nat (q mod c) < length (same_host_pes j q)" "same_host_pes j q ! nat (q mod c) = q"
    "constant_difference (same_gpu_pes j q)" "same_host_pes j q = [q - q mod c..q - q mod c + c - 1]"
proof -
  show c: "0 < c" and r: "c dvd int (job_npes j)" "self_p2p j" "env_npes_node (job_env j q) = c" "env_mype_node (job_env j q) = q mod c"
    "constant_difference (same_gpu_pes j q)" "same_host_pes j q = [q - q mod c..q - q mod c + c - 1]"
    using assms by (auto simp: regular_job_def list_all_iff world_pes_def)
  have m: "0 \<le> q mod c" "q mod c < c" using c by simp_all
  show "constant_difference (same_host_pes j q)" unfolding r(6) by (rule constant_difference_upto)
  show "nat (q mod c) < length (same_host_pes j q)" "same_host_pes j q ! nat (q mod c) = q" unfolding r(6) using m by simp_all
qed

text \<open>The lists of the five teams of all PEs, and the number of unused entries.\<close>

definition team_lists :: "int \<Rightarrow> job \<Rightarrow> int \<Rightarrow> ((job_teams \<Rightarrow> nvshmemi_team) \<times> nat \<times> int \<times> int list) list" where
  "team_lists c j q = [(jt_world, 0, 1, world_pes j), (jt_shared, shared_spare j q, list_stride (shared_pes j q), shared_pes j q),
     (jt_node, 0, list_stride (same_host_pes j q), same_host_pes j q), (jt_same_mype_node, 0, c, same_rank_pes j c q),
     (jt_same_gpu, 0, list_stride (same_gpu_pes j q), same_gpu_pes j q)]"

lemma team_of_list_cong:
  "team_of_list npes k d l q t \<Longrightarrow> tm_my_pe t' = tm_my_pe t \<Longrightarrow> tm_start t' = tm_start t \<Longrightarrow> tm_stride t' = tm_stride t \<Longrightarrow>
   tm_size t' = tm_size t \<Longrightarrow> tm_mapping t' = tm_mapping t \<Longrightarrow> team_of_list npes k d l q t'"
  by (simp add: team_of_list_def)

lemma team_init_lists:
  assumes "regular_job c j" "0 \<le> q" "q < int (job_npes j)"
  shows "\<exists>jt. nvshmemi_team_init j q = Inr jt \<and> list_all (\<lambda>(f, k, d, l). team_of_list (job_npes j) k d l q (f jt)) (team_lists c j q)"
proof -
  note r = regular_jobD[OF assms]
  obtain w where w: "team_world_init j q = Some w" "team_of_list (job_npes j) 0 1 (world_pes j) q w" "identity_world (job_npes j) w"
    using world_of_list[OF assms(2,3)] by blast
  obtain s where s: "team_shared_init w j q = Some s"
    "team_of_list (job_npes j) (shared_spare j q) (list_stride (shared_pes j q)) (shared_pes j q) q s"
    using shared_of_list[OF r(3) assms(2,3) w(3)] by blast
  let ?w = "nvshmemi_team_set_p2p_connectivity s w"
  have w': "identity_world (job_npes j) ?w" using w(3) by (simp add: identity_world_def nvshmemi_team_set_p2p_connectivity_def)
  have me: "0 \<le> env_mype_node (job_env j q)" "nat (env_mype_node (job_env j q)) < length (same_host_pes j q)"
    "same_host_pes j q ! nat (env_mype_node (job_env j q)) = q" using r(1,5,7,8) by simp_all
  obtain w2 s2 t nn b b2 where n: "team_node_init ?w s j q = Some (w2, s2, t)"
    "team_of_list (job_npes j) 0 (list_stride (same_host_pes j q)) (same_host_pes j q) q t"
    "w2 = ?w\<lparr>tm_node := nn, tm_is_node := b\<rparr>" "s2 = s\<lparr>tm_is_node := b2\<rparr>"
    using node_of_list[OF r(6) w' me, of s] by blast
  let ?w3 = "w2\<lparr>tm_same_mype := NVSHMEM_TEAM_SAME_MYPE_NODE_INDEX\<rparr>"
  have w3: "identity_world (job_npes j) ?w3" using w' n(3) by (simp add: identity_world_def)
  obtain sm where sm: "team_same_mype_node_init ?w3 s2 j q = Inr sm" "team_of_list (job_npes j) 0 c (same_rank_pes j c q) q sm"
    using same_mype_of_list[OF r(1,2,4,5) w3 assms(2,3)] by blast
  obtain sg where sg: "team_same_gpu_init ?w3 s2 j q = Inr sg"
    "team_of_list (job_npes j) 0 (list_stride (same_gpu_pes j q)) (same_gpu_pes j q) q sg"
    using same_gpu_of_list[OF r(9) w3 assms(2,3)] by blast
  obtain gl where gl: "team_gpu_leaders_init ?w3 s2 sg j q = Inr gl" using leaders_total[OF sg(2) w3] by blast
  let ?jt = "\<lparr>jt_world = ?w3, jt_shared = s2, jt_node = t, jt_same_mype_node = sm, jt_same_gpu = sg, jt_gpu_leaders = gl\<rparr>"
  have "nvshmemi_team_init j q = Inr ?jt"
    unfolding nvshmemi_team_init_def by (simp only: w(1) s(1) n(1) sm(1) sg(1) gl option.case prod.case sum.case Let_def)
  moreover have "team_of_list (job_npes j) 0 1 (world_pes j) q ?w3"
    by (rule team_of_list_cong[OF w(2)]) (simp_all add: n(3) nvshmemi_team_set_p2p_connectivity_def)
  moreover have "team_of_list (job_npes j) (shared_spare j q) (list_stride (shared_pes j q)) (shared_pes j q) q s2"
    by (rule team_of_list_cong[OF s(2)]) (simp_all add: n(4))
  ultimately show ?thesis using n(2) sm(2) sg(2) by (auto simp: team_lists_def)
qed

text \<open>A member of a list has the same list.\<close>

lemma team_lists_member:
  assumes "(f, k, d, l) \<in> set (team_lists c j q)" "x \<in> set l" "0 < c"
  shows "(f, k, d, l) \<in> set (team_lists c j x)"
proof -
  have sh: "shared_pes j x = shared_pes j q \<and> shared_spare j x = shared_spare j q" if "x \<in> set (shared_pes j q)" using that by (rule shared_member)
  have nd: "same_host_pes j x = same_host_pes j q" if "x \<in> set (same_host_pes j q)" using that by (simp add: same_host_pes_def)
  have gp: "same_gpu_pes j x = same_gpu_pes j q" if "x \<in> set (same_gpu_pes j q)" using that by (simp add: same_gpu_pes_def)
  have rk: "same_rank_pes j c x = same_rank_pes j c q" if "x \<in> set (same_rank_pes j c q)"
  proof -
    have "x mod c = q mod c" using that by (auto simp: same_rank_pes_def)
    then show ?thesis by (simp add: same_rank_pes_def)
  qed
  consider "(f, k, d, l) = (jt_world, 0, 1, world_pes j)"
    | "(f, k, d, l) = (jt_shared, shared_spare j q, list_stride (shared_pes j q), shared_pes j q)"
    | "(f, k, d, l) = (jt_node, 0, list_stride (same_host_pes j q), same_host_pes j q)"
    | "(f, k, d, l) = (jt_same_mype_node, 0, c, same_rank_pes j c q)"
    | "(f, k, d, l) = (jt_same_gpu, 0, list_stride (same_gpu_pes j q), same_gpu_pes j q)"
    using assms(1) unfolding team_lists_def list.set insert_iff empty_iff by argo
  then show ?thesis
  proof cases
    case 2
    then show ?thesis using sh assms(2) by (simp add: team_lists_def)
  next
    case 3
    then show ?thesis using nd assms(2) by (simp add: team_lists_def)
  next
    case 4
    then show ?thesis using rk assms(2) by (simp add: team_lists_def)
  next
    case 5
    then show ?thesis using gp assms(2) by (simp add: team_lists_def)
  qed (simp add: team_lists_def)
qed

definition init_view :: "job \<Rightarrow> int \<Rightarrow> job_teams" where "init_view j q = projr (nvshmemi_team_init j q)"

lemma team_init_all_coherent:
  assumes "regular_job c j" "0 \<le> q" "q < int (job_npes j)" "(f, k, d, l) \<in> set (team_lists c j q)"
  shows "coherent_team (job_npes j) (\<lambda>x. f (init_view j x)) (f (init_view j q)) \<and>
    team_pe (f (init_view j q)) (tm_my_pe (f (init_view j q))) = q"
proof -
  have c: "0 < c" using assms(1) by (simp add: regular_job_def)
  have all: "team_of_list (job_npes j) k d l x (f (init_view j x))"
    if "0 \<le> x" "x < int (job_npes j)" "(f, k, d, l) \<in> set (team_lists c j x)" for x
    using team_init_lists[OF assms(1) that(1,2)] that(3) by (auto simp: init_view_def list_all_iff)
  note own = all[OF assms(2-4)]
  have "set l \<subseteq> {0..<int (job_npes j)}" using own by (simp add: team_of_list_def)
  then have mem: "team_of_list (job_npes j) k d l x (f (init_view j x))" if "x \<in> set l" for x
    using all[of x] team_lists_member[OF assms(4) that c] that by auto
  show ?thesis using team_of_list_coherent[OF own mem] team_of_list_ok(3)[OF own] by simp
qed

text \<open>Four PEs on two hosts, and six PEs that are dealt out unevenly.\<close>

definition block_job :: job where
  "block_job = \<lparr>job_npes = 4, job_env = \<lambda>q. \<lparr>env_p2p = \<lambda>x. x div 2 = q div 2, env_host = word_of_int (q div 2), env_gpu = [word_of_int q],
     env_mype_node = q mod 2, env_npes_node = 2\<rparr>\<rparr>"

definition uneven_job :: job where
  "uneven_job = \<lparr>job_npes = 6, job_env = \<lambda>q. \<lparr>env_p2p = \<lambda>x. (x \<in> {0, 1, 3}) = (q \<in> {0, 1, 3}),
     env_host = (if q \<in> {0, 1, 3} then 0 else 1), env_gpu = [word_of_int q],
     env_mype_node = (if q = 0 \<or> q = 2 then 0 else if q = 1 \<or> q = 4 then 1 else 2), env_npes_node = 3\<rparr>\<rparr>"

lemma block_job_regular: "regular_job 2 block_job" by code_simp

end
