(* ===== verification/Recexch_Properties.thy ===== *)
theory Recexch_Properties
  imports Recexch_Correct Team_Init_Correct
begin

text \<open>The reduction by recursive exchange on the world team.\<close>

interpretation rxt: rx "recexch_k (int a + 2) (int b + 1)" "int b + 1" "snd (p_of_k (recexch_k (int a + 2) (int b + 1)) (int b + 1))" for a b :: nat
proof
  show k: "2 \<le> recexch_k (int a + 2) (int b + 1)" by (simp add: recexch_k_def)
  show "recexch_k (int a + 2) (int b + 1) ^ snd (p_of_k (recexch_k (int a + 2) (int b + 1)) (int b + 1)) \<le> int b + 1"
    "int b + 1 < recexch_k (int a + 2) (int b + 1) ^ Suc (snd (p_of_k (recexch_k (int a + 2) (int b + 1)) (int b + 1)))"
    using p_of_k(2,3)[OF k, of "int b + 1"] by simp_all
qed

text \<open>The kernels and the tables use one radix.\<close>

lemma recexch_kval: "2 \<le> kval \<Longrightarrow> reduce_recexch_kval kval npes = recexch_k kval npes"
  by (simp add: reduce_recexch_kval_def recexch_k_def)

definition recexch_tables :: "int \<Rightarrow> job \<Rightarrow> int \<Rightarrow> recexch" where
  "recexch_tables kval j q = the (nvshmemi_recexchalgo_get_neighbors kval (world_view j q))"

lemma world_tables:
  assumes "0 \<le> q" "q < int (Suc b)" "job_npes j = Suc b"
  shows "nvshmemi_recexchalgo_get_neighbors (int a + 2) (world_view j q) = Some (rxt.entry a b q)"
proof -
  let ?k = "recexch_k (int a + 2) (int b + 1)" and ?n = "int b + 1"
  have q: "0 \<le> q" "q < ?n" using assms by simp_all
  note wv = world_view[of q j, unfolded assms(3), OF assms(1,2)]
  have id: "the (mapping_at (world_view j q) i) = i" if "0 \<le> i" "i < ?n" for i using wv(3)[of i] that by simp
  note er = rxt.entry_range[OF q]
  let ?e = "rxt.entry a b q"
  have e: "recexch_local ?k ?n q = Some ?e" by (rule rxt.recexch_local[OF q])
  have A: "(if step1_sendto ?e \<noteq> -1 then the (mapping_at (world_view j q) (step1_sendto ?e)) else -1) = step1_sendto ?e"
    using er(1) id by auto
  have B: "map (\<lambda>i. the (mapping_at (world_view j q) i)) (step1_recvfrom ?e) = step1_recvfrom ?e"
  proof (intro map_idI)
    fix i assume "i \<in> set (step1_recvfrom ?e)"
    then have "i \<in> {0..<?n}" using er(2) by blast
    then show "the (mapping_at (world_view j q) i) = i" using id[of i] by simp
  qed
  have C: "map (map (\<lambda>x. if x \<noteq> TEAM_SCALAR_INVALID then the (mapping_at (world_view j q) x) else x)) (step2_nbrs ?e) = step2_nbrs ?e"
  proof (intro map_idI)
    fix ns x assume ns: "ns \<in> set (step2_nbrs ?e)" and x: "x \<in> set ns"
    show "(if x \<noteq> TEAM_SCALAR_INVALID then the (mapping_at (world_view j q) x) else x) = x"
    proof (cases "rxt.part a b q")
      case True
      obtain f where f: "f < length (step2_nbrs ?e)" "ns = step2_nbrs ?e ! f" using ns by (auto simp: in_set_conv_nth)
      have len: "length (step2_nbrs ?e) = snd (p_of_k ?k ?n)" using True by (simp add: rxt.entry_def)
      have "x \<in> {0..<?n} - {q}" using er(3)[OF True f(1)[unfolded len]] x unfolding f(2) by blast
      then show ?thesis using id[of x] by simp
    next
      case False
      then have "x = TEAM_SCALAR_INVALID" using ns x by (auto simp: rxt.entry_def)
      then show ?thesis by simp
    qed
  qed
  have sz: "tm_size (world_view j q) = ?n" using wv(2) by simp
  show ?thesis unfolding nvshmemi_recexchalgo_get_neighbors_def Let_def wv(1) sz e option.map A B C by simp
qed

text \<open>
  C11: The recursive exchange computes the reduction. For every number of PEs and every radix the tables of all PEs fit together: with the
  tables that each PE computes on its own, \<open>gpu_rdxn_recexch_threadgroup\<close> ends on every PE, taking part in the exchange
  or not, with the sum of the values of all PEs, each taken once.
\<close>

theorem recexch_reduces:
  fixes source :: "int \<Rightarrow> 'a :: comm_monoid_add"
  assumes "2 \<le> kval" "0 \<le> x" "x < int (job_npes j)"
  shows "nvshmemi_recexchalgo_get_neighbors kval (world_view j x) = Some (recexch_tables kval j x) \<and>
    gpu_rdxn_recexch_threadgroup (recexch_tables kval j) (int (job_npes j)) (reduce_recexch_kval kval (int (job_npes j))) source x =
      Some (\<Sum>i\<in>{0..<int (job_npes j)}. source i)"
proof -
  obtain a where a: "kval = int a + 2" using assms(1) by (metis add.commute zle_iff_zadd)
  obtain b where b: "job_npes j = Suc b" using assms(2,3) by (cases "job_npes j") simp_all
  have n: "int (job_npes j) = int b + 1" using b by simp
  have t: "nvshmemi_recexchalgo_get_neighbors kval (world_view j i) = Some (rxt.entry a b i)" if "0 \<le> i" "i < int b + 1" for i
    using world_tables[of i b j a] that b a by simp
  then have tab: "recexch_tables kval j i = rxt.entry a b i" if "0 \<le> i" "i < int b + 1" for i using that by (simp add: recexch_tables_def)
  have x: "x < int b + 1" using assms(3) n by simp
  show ?thesis unfolding n recexch_kval[OF assms(1)] using rxt.reduces[OF tab assms(2) x, of source] t[OF assms(2) x] tab[OF assms(2) x] a by simp
qed

theorem recexch_reduces_witness:
  "gpu_rdxn_recexch_threadgroup (recexch_tables 3 \<lparr>job_npes = 7, job_env = job_env block_job\<rparr>) 7 3 (\<lambda>i. 10 ^ nat i :: int) 2 = Some 1111111"
proof -
  have "(\<Sum>i\<in>{0..<7 :: int}. 10 ^ nat i :: int) = 1111111" by code_simp
  then show ?thesis
    using recexch_reduces[of 3 2 "\<lparr>job_npes = 7, job_env = job_env block_job\<rparr>" "\<lambda>i. 10 ^ nat i :: int"] by (simp add: reduce_recexch_kval_def)
qed

end
