(* ===== verification/Team_Init_Properties.thy ===== *)
theory Team_Init_Properties
  imports Team_Init_Correct
begin

text \<open>The teams that every job has.\<close>

text \<open>
  C12: Team initialisation gives every PE well-formed teams that fit together. In a regular job (every host has the same
  number of consecutive PEs, and the PEs of a GPU are evenly spaced) every PE gets its world, shared, node, same-rank and same-GPU
  team without an error, each with a mapping that is injective and in range; all members of such a team have the same view
  of it, and each PE is in its own teams at its own index.
\<close>

theorem team_init_coherent:
  assumes "regular_job c j" "0 \<le> q" "q < int (job_npes j)"
  shows "nvshmemi_team_init j q = Inr (init_view j q) \<and>
    list_all (\<lambda>team. coherent_team (job_npes j) (\<lambda>x. team (init_view j x)) (team (init_view j q)) \<and>
      team_pe (team (init_view j q)) (tm_my_pe (team (init_view j q))) = q)
    [jt_world, jt_shared, jt_node, jt_same_mype_node, jt_same_gpu]"
  using team_init_lists[OF assms] team_init_all_coherent[OF assms]
  by (auto simp: team_lists_def init_view_def)

theorem team_init_coherent_witness:
  "coherent_team 4 (\<lambda>x. jt_shared (init_view block_job x)) (jt_shared (init_view block_job 3)) \<and>
   team_pes (jt_shared (init_view block_job 3)) = [2, 3] \<and> team_pes (jt_same_mype_node (init_view block_job 3)) = [1, 3]"
proof -
  have n: "job_npes block_job = 4" by (simp add: block_job_def)
  have p: "team_pes (jt_shared (init_view block_job 3)) = [2, 3]" "team_pes (jt_same_mype_node (init_view block_job 3)) = [1, 3]"
    by code_simp+
  show ?thesis using team_init_coherent[OF block_job_regular, of 3] p by (simp add: n)
qed

section \<open>What the node team really is\<close>

text \<open>\<open>check_for_linear_stride\<close> accepts a list whose distances to the first PE are multiples of the first distance.\<close>

lemma linear_search_rest:
  "\<forall>pe\<in>set l. a \<le> pe \<Longrightarrow> 0 \<le> a \<Longrightarrow> 0 < d \<Longrightarrow>
   linear_search l (a, d, n) = (if \<forall>pe\<in>set l. d dvd pe - a then Some (a, d, n + int (length l)) else None)"
  by (induction l arbitrary: n) (auto simp: check_for_linear_stride_def smod_pos dvd_eq_mod_eq_0)

lemma stride_pos:
  assumes "sorted l" "distinct l" "l \<noteq> []"
  shows "0 < list_stride l"
proof (cases "1 < length l")
  case True
  have "l ! 0 \<le> l ! 1" using assms(1) True by (simp add: sorted_iff_nth_mono)
  moreover have "l ! 0 \<noteq> l ! 1" using assms(2,3) True by (simp add: nth_eq_iff_index_eq)
  ultimately show ?thesis by (simp add: list_stride_def)
qed (simp add: list_stride_def)

lemma linear_search_iff:
  assumes "sorted l" "distinct l" "set l \<subseteq> {0..<int npes}" "l \<noteq> []"
  shows "linear_search l (-1, -1, 0) =
    (if \<forall>pe\<in>set l. list_stride l dvd pe - l ! 0 then Some (l ! 0, if length l > 1 then list_stride l else -1, int (length l)) else None)"
proof -
  obtain a l' where l: "l = a # l'" using assms(4) by (cases l) auto
  have a0: "0 \<le> a" using assms(3) l by simp
  show ?thesis
  proof (cases l')
    case Nil
    then show ?thesis using l by (simp add: check_for_linear_stride_def)
  next
    case (Cons b r)
    have d: "list_stride l = b - a" using l Cons by (simp add: list_stride_def)
    have "0 < b - a" using stride_pos[OF assms(1,2,4)] d by simp
    moreover have "\<forall>pe\<in>set r. a \<le> pe" using assms(1) l Cons by simp
    ultimately show ?thesis using l Cons d a0 linear_search_rest[of r a "b - a" 2] by (simp add: check_for_linear_stride_def)
  qed
qed

lemma spread:
  assumes "sorted l" "distinct l" "\<forall>pe\<in>set l. d dvd pe - l ! 0" "0 < (d :: int)"
  shows "i \<le> k \<Longrightarrow> k < length l \<Longrightarrow> l ! i + int (k - i) * d \<le> l ! k"
proof (induction k rule: dec_induct)
  case (step n)
  have lt: "l ! n < l ! Suc n"
    using assms(1,2) step.prems by (metis Suc_lessD le_less lessI nat_neq_iff nth_eq_iff_index_eq sorted_nth_mono)
  have "d dvd l ! Suc n - l ! 0" "d dvd l ! n - l ! 0" using assms(3) step.prems by simp_all
  then have "d dvd (l ! Suc n - l ! 0) - (l ! n - l ! 0)" by (rule dvd_diff)
  then have "d \<le> l ! Suc n - l ! n" using lt by (intro zdvd_imp_le) simp_all
  then show ?case using step by (simp add: algebra_simps Suc_diff_le)
qed simp

lemma even_iff_last:
  assumes "sorted l" "distinct l" "\<forall>pe\<in>set l. d dvd pe - l ! 0" "d = list_stride l" "l \<noteq> []"
  shows "constant_difference l \<longleftrightarrow> last l = l ! 0 + (int (length l) - 1) * d"
    "constant_difference l \<Longrightarrow> map (\<lambda>i. l ! 0 + i * d) [0..int (length l) - 1] = l"
proof -
  have d0: "0 < d" using stride_pos[OF assms(1,2,5)] assms(4) by simp
  note sp = spread[OF assms(1-3) d0]
  have last: "last l = l ! (length l - 1)" using assms(5) by (rule last_conv_nth)
  have nth: "l ! i = l ! 0 + int i * d" if "constant_difference l" "i < length l" for i
  proof (cases "1 < length l")
    case True
    then show ?thesis using nth_constant_difference[OF that(1) True that(2)] assms(4) by (simp add: list_stride_def)
  next
    case False
    then show ?thesis using that(2) by (cases i) auto
  qed
  show "map (\<lambda>i. l ! 0 + i * d) [0..int (length l) - 1] = l" if c: "constant_difference l"
    using nth[OF c] by (intro nth_equalityI) simp_all
  have n1: "int (length l - 1) = int (length l) - 1" using assms(5) by (cases l) simp_all
  show "constant_difference l \<longleftrightarrow> last l = l ! 0 + (int (length l) - 1) * d"
  proof
    assume c: "constant_difference l"
    show "last l = l ! 0 + (int (length l) - 1) * d" using nth[OF c, of "length l - 1"] assms(5) last n1 by simp
  next
    assume a: "last l = l ! 0 + (int (length l) - 1) * d"
    have "l ! i = l ! 0 + int i * d" if i: "i < length l" for i
    proof -
      have "l ! 0 + int i * d \<le> l ! i" using sp[of 0 i] i by simp
      moreover have "l ! i + int (length l - 1 - i) * d \<le> last l" unfolding last by (rule sp) (use i in simp_all)
      moreover have "int (length l - 1 - i) = int (length l) - 1 - int i" using i by (simp add: of_nat_diff)
      ultimately show ?thesis using a by (simp add: algebra_simps)
    qed
    then show "constant_difference l" unfolding constant_difference_def list_all_iff
      by (auto simp: of_nat_diff algebra_simps)
  qed
qed

lemma node_of_triplet:
  assumes "node_triplet j q = (s, st, n)" "d = (if st = -1 then 1 else st)" "0 < d" "0 \<le> s" "0 < n" "s + (n - 1) * d < int (job_npes j)"
    and "identity_world (job_npes j) w" "team_node_init w sh j q = Some (w', sh', t)"
  shows "team_pes t = map (\<lambda>i. s + i * d) [0..n - 1] \<and> tm_my_pe t = env_mype_node (job_env j q)"
proof -
  let ?t = "(new_team (job_npes j) (nat n))\<lparr>tm_idx := NVSHMEM_TEAM_NODE_INDEX, tm_my_pe := env_mype_node (job_env j q),
    tm_rdxn_count := 0, tm_alltoall_count := 0, tm_start := s, tm_stride := d, tm_size := n\<rparr>"
  define w1 where "w1 = w\<lparr>tm_node := NVSHMEM_TEAM_NODE_INDEX\<rparr>"
  define w2 where "w2 = (if nvshmemi_team_is_identical (Some w1) (Some ?t) then w1\<lparr>tm_is_node := True\<rparr> else w1)"
  have w2: "identity_world (job_npes j) w2" using assms(7) by (simp add: w2_def w1_def identity_world_def)
  have pop: "nvshmemi_team_populate_pe_mappings_from_constant_stride (Some w2) ?t =
      Some (?t\<lparr>tm_mapping := strided_mapping (job_npes j) s d n @ replicate 0 (-1)\<rparr>)"
    using populate_constant_stride[of ?t "job_npes j" 0 "Some w2"] assms(3-6) w2 by (simp add: new_team_def TEAM_SCALAR_INVALID_def)
  have t: "tm_mapping t = strided_mapping (job_npes j) s d n" "tm_size t = n" "tm_my_pe t = env_mype_node (job_env j q)"
    using assms(8) pop unfolding team_node_init_def assms(1) prod.case Let_def assms(2)[symmetric] w1_def[symmetric] unfolding w2_def[symmetric]
    by (auto simp: nvshmemi_team_set_p2p_connectivity_def)
  show ?thesis using t assms(5) by (simp add: team_pes_def team_pe_def strided_mapping_def nth_append)
qed

lemma init_node:
  assumes "0 \<le> q" "q < int (job_npes j)" "nvshmemi_team_init j q = Inr v"
  obtains w sh w' sh' where "identity_world (job_npes j) w" "team_node_init w sh j q = Some (w', sh', jt_node v)"
proof -
  obtain w where w: "team_world_init j q = Some w" "identity_world (job_npes j) w" using world_of_list[OF assms(1,2)] by blast
  have "identity_world (job_npes j) (nvshmemi_team_set_p2p_connectivity sh w)" for sh
    using w(2) by (simp add: identity_world_def nvshmemi_team_set_p2p_connectivity_def)
  moreover have "\<exists>sh w' sh'. team_node_init (nvshmemi_team_set_p2p_connectivity sh w) sh j q = Some (w', sh', jt_node v)"
    using assms(3) w(1) by (simp add: nvshmemi_team_init_def Let_def split: option.splits sum.splits prod.splits) (metis job_teams.select_convs(3))
  ultimately show ?thesis using that by blast
qed

text \<open>
  C13: The node team of a PE, for every job whose initialisation goes through. If the distances of the host's PEs to the first
  one are multiples of the first distance, then the team is the host's PEs exactly if they are evenly spaced. If they are not,
  \<open>check_for_linear_stride\<close> lets the list pass all the same, and every PE of the host gets a team that the host's last PE is not
  in, this last PE included. Otherwise every PE gets a team of itself alone. In each case the PE takes its rank on the host for
  its own index, which only a team of the host's PEs in order makes right.
\<close>

theorem node_team_of_host:
  assumes "0 \<le> q" "q < int (job_npes j)" "nvshmemi_team_init j q = Inr v" "l = same_host_pes j q"
  shows "tm_my_pe (jt_node v) = env_mype_node (job_env j q) \<and>
    (if \<forall>pe\<in>set l. list_stride l dvd pe - l ! 0
     then (team_pes (jt_node v) = l \<longleftrightarrow> constant_difference l) \<and> (last l \<in> set (team_pes (jt_node v)) \<longleftrightarrow> constant_difference l)
     else team_pes (jt_node v) = [q])"
proof -
  obtain w sh w' sh' where n: "identity_world (job_npes j) w" "team_node_init w sh j q = Some (w', sh', jt_node v)"
    using init_node[OF assms(1-3)] .
  note fl = filter_world_pes[of "\<lambda>pe. env_host (job_env j pe) = env_host (job_env j q)" j, folded same_host_pes_def, folded assms(4)]
  have "q \<in> set l" using assms(1,2,4) by (simp add: same_host_pes_def world_pes_def)
  then have ne: "l \<noteq> []" by auto
  note ls = linear_search_iff[OF fl ne, unfolded assms(4)]
  let ?d = "list_stride l"
  have d0: "0 < ?d" by (rule stride_pos[OF fl(1,2) ne])
  show ?thesis
  proof (cases "\<forall>pe\<in>set l. ?d dvd pe - l ! 0")
    case True
    let ?st = "if length l > 1 then ?d else -1"
    have nt: "node_triplet j q = (l ! 0, ?st, int (length l))" using ls True assms(4) by (simp add: node_triplet_def)
    have st: "?d = (if ?st = -1 then 1 else ?st)"
    proof (cases "length l > 1")
      case True
      then show ?thesis using d0 by simp
    qed (simp add: list_stride_def)
    have lst: "l ! 0 + (int (length l) - 1) * ?d \<le> last l"
      using spread[OF fl(1,2) True d0, of 0 "length l - 1"] ne by (simp add: last_conv_nth of_nat_diff Suc_le_eq)
    have rng: "0 \<le> l ! 0" "last l < int (job_npes j)" using fl(3) ne by (auto dest: subsetD[OF _ last_in_set] subsetD[OF _ nth_mem[of 0 l]])
    have pes: "team_pes (jt_node v) = map (\<lambda>i. l ! 0 + i * ?d) [0..int (length l) - 1] \<and> tm_my_pe (jt_node v) = env_mype_node (job_env j q)"
      by (rule node_of_triplet[OF nt st d0 rng(1) _ _ n]) (use ne lst rng in simp_all)
    note ev = even_iff_last[OF fl(1,2) True refl ne]
    have "last l \<notin> set (team_pes (jt_node v))" if "\<not> constant_difference l"
    proof
      assume "last l \<in> set (team_pes (jt_node v))"
      then have "\<exists>i. last l = l ! 0 + i * ?d \<and> i \<le> int (length l) - 1" using pes by auto
      then obtain i where i: "last l = l ! 0 + i * ?d" "i \<le> int (length l) - 1" by blast
      then have "i * ?d \<le> (int (length l) - 1) * ?d" using d0 by (intro mult_right_mono) simp_all
      then show False using i lst ev(1) that by simp
    qed
    moreover have "last l \<in> set l" using ne by simp
    ultimately show ?thesis using pes ev(2) True by (metis (no_types, lifting))
  next
    case False
    then have nt: "node_triplet j q = (q, 1, 1)" using ls assms(4) by (simp add: node_triplet_def)
    have "team_pes (jt_node v) = map (\<lambda>i. q + i * 1) [0..1 - 1] \<and> tm_my_pe (jt_node v) = env_mype_node (job_env j q)"
      by (rule node_of_triplet[OF nt _ _ _ _ _ n]) (use assms(1,2) in simp_all)
    then show ?thesis unfolding if_not_P[OF False] by simp
  qed
qed

theorem node_team_of_host_witness:
  "same_host_pes uneven_job 3 = [0, 1, 3] \<and> (3 :: int) \<notin> set (team_pes (jt_node (init_view uneven_job 3))) \<and>
   same_host_pes uneven_job 5 = [2, 4, 5] \<and> team_pes (jt_node (init_view uneven_job 5)) = [5] \<and> tm_my_pe (jt_node (init_view uneven_job 5)) = 2"
proof -
  have h: "same_host_pes uneven_job 3 = [0, 1, 3]" "same_host_pes uneven_job 5 = [2, 4, 5]" by code_simp+
  have "isl (nvshmemi_team_init uneven_job 3) = False" "isl (nvshmemi_team_init uneven_job 5) = False" by code_simp+
  then have v: "nvshmemi_team_init uneven_job 3 = Inr (init_view uneven_job 3)" "nvshmemi_team_init uneven_job 5 = Inr (init_view uneven_job 5)"
    by (simp_all add: init_view_def)
  have n: "job_npes uneven_job = 6" "env_mype_node (job_env uneven_job 5) = 2" by (simp_all add: uneven_job_def)
  have c: "\<not> constant_difference [0, 1, 3]" "list_stride [0, 1, 3] = 1" "list_stride [2, 4, 5] = 2"
    by (simp_all add: constant_difference_def list_stride_def upt_rec)
  show ?thesis using node_team_of_host[of 3 uneven_job, OF _ _ v(1) refl] node_team_of_host[of 5 uneven_job, OF _ _ v(2) refl] h n c by simp
qed

end
