(* ===== verification/Team_Pool.thy ===== *)
theory Team_Pool
  imports Team_Init Reduce_Properties
begin

text \<open>
  The pool of teams: a PE has an array of teams, indexed by the team handle, and a bit string that has a bit set for every
  free index. Since a handle must mean the same team on all its members, the members AND their bit strings, with
  \<open>gpu_rdxn_on_demand_2\<close>, and take the first bit that is set.
\<close>

unbundle bit_operations_syntax

section \<open>Bit strings\<close>

text \<open>\<open>None\<close> is the failing assertion; for \<open>nvshmemi_bit_fetch\<close>, which has none, a read outside the string.\<close>

definition nvshmemi_bit_set :: "u8 list \<Rightarrow> nat \<Rightarrow> u8 list option" where
  "nvshmemi_bit_set ptr index =
     (if index < length ptr * 8 then Some (ptr[index div 8 := ptr ! (index div 8) OR push_bit (index mod 8) 1]) else None)"

definition nvshmemi_bit_clear :: "u8 list \<Rightarrow> nat \<Rightarrow> u8 list option" where
  "nvshmemi_bit_clear ptr index =
     (if index < length ptr * 8 then Some (ptr[index div 8 := ptr ! (index div 8) AND NOT (push_bit (index mod 8) 1)]) else None)"

definition nvshmemi_bit_fetch :: "u8 list \<Rightarrow> nat \<Rightarrow> u8 option" where
  "nvshmemi_bit_fetch ptr index =
     (if index div 8 < length ptr then Some (drop_bit (index mod 8) (ptr ! (index div 8)) AND 1) else None)"

text \<open>The inner loop of \<open>nvshmemi_bit_1st_nonzero\<close> runs while \<open>bit_val && j < CHAR_BIT\<close>.\<close>

function first_bit :: "u8 \<Rightarrow> nat \<Rightarrow> nat option" where
  "first_bit bit_val j =
     (if bit_val = 0 \<or> 8 \<le> j then None
      else if bit_val AND 1 \<noteq> 0 then Some j
      else first_bit (drop_bit 1 bit_val) (j + 1))"
  by pat_completeness auto
termination
  by (relation "measure (\<lambda>(v, j). 8 - j)") auto

declare first_bit.simps [simp del]

text \<open>\<open>(size_t)-1\<close> is -1 in the \<open>int\<close> that receives it.\<close>

fun bit_1st_from :: "nat \<Rightarrow> u8 list \<Rightarrow> int" where
  "bit_1st_from i [] = -1"
| "bit_1st_from i (b # bs) = (case first_bit b 0 of Some j \<Rightarrow> int (i * 8 + j) | None \<Rightarrow> bit_1st_from (i + 1) bs)"

definition nvshmemi_bit_1st_nonzero :: "u8 list \<Rightarrow> int" where
  "nvshmemi_bit_1st_nonzero ptr = bit_1st_from 0 ptr"

text \<open>The bit with an index.\<close>

definition bit_at :: "u8 list \<Rightarrow> nat \<Rightarrow> bool" where "bit_at ptr i \<longleftrightarrow> i < length ptr * 8 \<and> bit (ptr ! (i div 8)) (i mod 8)"

section \<open>The pool\<close>

record pool_cfg =
  pc_max_teams :: nat
  pc_bytes :: nat

record pool =
  pl_avail :: "u8 list"
  pl_teams :: "nvshmemi_team option list"

definition NVSHMEMI_REDUCE_MAX_CTA_COUNT :: nat where "NVSHMEMI_REDUCE_MAX_CTA_COUNT = 64"

definition nvshmemi_set_max_teams :: "int \<Rightarrow> bool \<Rightarrow> pool_cfg" where
  "nvshmemi_set_max_teams MAX_TEAMS is_platform_nvls =
     (let m = nat (max MAX_TEAMS NVSHMEM_TEAMS_MIN); m = (if is_platform_nvls then max m NVSHMEMI_REDUCE_MAX_CTA_COUNT else m)
      in \<lparr>pc_max_teams = m, pc_bytes = (if m > 32 * 8 then (m + 8 - 1) div 8 else 32)\<rparr>)"

fun bits_with :: "(u8 list \<Rightarrow> nat \<Rightarrow> u8 list option) \<Rightarrow> nat list \<Rightarrow> u8 list \<Rightarrow> u8 list option" where
  "bits_with f [] ptr = Some ptr"
| "bits_with f (i # is) ptr = (case f ptr i of None \<Rightarrow> None | Some ptr' \<Rightarrow> bits_with f is ptr')"

text \<open>The pool of \<open>nvshmemi_team_init\<close>; \<open>None\<close> is the exit when the string is too short.\<close>

definition team_pool_init :: "pool_cfg \<Rightarrow> job_teams \<Rightarrow> pool option" where
  "team_pool_init c jt =
     (let m = max (pc_max_teams c) 6;
          teams = (replicate m None)[0 := Some (jt_world jt), 1 := Some (jt_shared jt), 2 := Some (jt_node jt),
            3 := Some (jt_same_mype_node jt), 4 := Some (jt_same_gpu jt), 5 := jt_gpu_leaders jt]
      in if pc_bytes c * 8 < m then None
         else case bits_with nvshmemi_bit_set [0..<m] (replicate (pc_bytes c) 0) of
                None \<Rightarrow> None
              | Some avail \<Rightarrow> map_option (\<lambda>avail. \<lparr>pl_avail = avail, pl_teams = teams\<rparr>)
                  (bits_with nvshmemi_bit_clear [0, 1, 2, 3, 4, 5] avail))"

section \<open>Agreeing on an index\<close>

text \<open>
  \<open>nvshmemi_team_set_team_idx_v1\<close> on one PE, given the bit string that the reduction left in
  \<open>psync_pool_avail_reduced\<close>: the status, the team and the pool. The pool holds a pointer to the team; it is its value here.
\<close>

definition nvshmemi_team_set_team_idx_v1 :: "pool_cfg \<Rightarrow> u8 list \<Rightarrow> nvshmemi_team \<Rightarrow> pool \<Rightarrow> int \<times> nvshmemi_team \<times> pool" where
  "nvshmemi_team_set_team_idx_v1 c reduced myteam pl =
     (let team_idx = nvshmemi_bit_1st_nonzero reduced
      in if team_idx = -1 \<or> int (pc_max_teams c) \<le> team_idx then (NVSHMEMX_ERROR_OUT_OF_MEMORY, myteam, pl)
         else let myteam = myteam\<lparr>tm_idx := team_idx\<rparr>
              in (NVSHMEMX_SUCCESS, myteam,
                  \<lparr>pl_avail = the (nvshmemi_bit_clear (pl_avail pl) (nat team_idx)), pl_teams = (pl_teams pl)[nat team_idx := Some myteam]\<rparr>))"

text \<open>All PEs of a list run it together. The reduced string is the one of \<open>reduced_avail\<close>, whatever the order of their steps.\<close>

definition reduced_avail :: "pool_cfg \<Rightarrow> (int \<Rightarrow> pool) \<Rightarrow> nvshmemi_team \<Rightarrow> u8 list" where
  "reduced_avail c S t = map (\<lambda>b. reduce_all (rdxn False RDXN_OPS_AND)
     (map (\<lambda>q. pl_avail (S q) ! b) (active_set (tm_start t) (tm_stride t) (tm_size t)))) [0..<pc_bytes c]"

definition set_team_idx_all ::
  "pool_cfg \<Rightarrow> int list \<Rightarrow> (int \<Rightarrow> nvshmemi_team) \<Rightarrow> (int \<Rightarrow> pool) \<Rightarrow> (int \<Rightarrow> int) \<times> (int \<Rightarrow> nvshmemi_team) \<times> (int \<Rightarrow> pool)" where
  "set_team_idx_all c ms V S =
     (let r = \<lambda>q. nvshmemi_team_set_team_idx_v1 c (reduced_avail c S (V q)) (V q) (S q)
      in (\<lambda>q. if q \<in> set ms then fst (r q) else NVSHMEMX_SUCCESS,
          \<lambda>q. if q \<in> set ms then fst (snd (r q)) else V q,
          \<lambda>q. if q \<in> set ms then snd (snd (r q)) else S q))"

end
