(* ===== verification/Team_Split.thy ===== *)
theory Team_Split
  imports Team_Pool
begin

text \<open>
  Making and destroying teams: \<open>nvshmemi_team_split_strided\<close>, with the node and same-rank teams that it makes inside the
  new team, \<open>nvshmemi_team_split_2d\<close> and \<open>nvshmemi_team_destroy\<close>.

  All PEs of the parent call a split together. What every PE does with its own structures is a function of its own;
  the reductions and barriers in between join them, so that the whole call is a function of the pools of all PEs. Teams without
  NVLS resources are modelled: for these \<open>nvshmemi_duplicate_team\<close> and the NVLS set-up do nothing. Teams without
  a stride, whose members agree by the kernels of \<open>team_internal_cuda.cu\<close> (\<open>nvshmemi_team_set_team_idx_v2\<close>), are outside the
  model; the inner teams of a strided team in a regular job always have one.
\<close>

section \<open>The team structure of one PE\<close>

text \<open>The head of \<open>nvshmemi_team_allocate_resources\<close>.\<close>

definition resources_reset :: "nvshmemi_team \<Rightarrow> nvshmemi_team \<Rightarrow> nvshmemi_team" where
  "resources_reset parent t = t\<lparr>tm_rdxn_count := 0, tm_alltoall_count := 0,
     tm_is_node := (tm_is_node parent \<or> tm_is_node t), tm_is_same_mype := (tm_is_same_mype parent \<or> tm_is_same_mype t)\<rparr>"

text \<open>
  \<open>nvshmemi_team_initialize_from_overlap\<close>: the PEs of the parent that are in the other team, in the order of the parent,
  and their stride, as long as it is constant.
\<close>

record overlap =
  ov_pes :: "int list"
  ov_my_pe :: int
  ov_start :: int
  ov_stride :: int
  ov_new_stride :: int
  ov_invalid :: bool
  ov_reversed :: bool

definition overlap_new :: overlap where
  "overlap_new = \<lparr>ov_pes = [], ov_my_pe = -1, ov_start = -1, ov_stride = -1, ov_new_stride = -1, ov_invalid = False, ov_reversed = False\<rparr>"

definition overlap_add :: "int \<Rightarrow> int \<Rightarrow> overlap \<Rightarrow> overlap" where
  "overlap_add mype pe ov =
     (let ov = ov\<lparr>ov_my_pe := (if mype = pe then int (length (ov_pes ov)) else ov_my_pe ov),
            ov_new_stride := (if ov_stride ov \<noteq> -1 then (pe - last (ov_pes ov)) * (if ov_reversed ov then -1 else 1) else ov_new_stride ov)\<rparr>;
          ov = (if ov_start ov = -1 then ov\<lparr>ov_start := pe\<rparr>
                else if ov_stride ov = -1 \<and> \<not> ov_invalid ov then
                  (if pe - ov_start ov < 0 then ov\<lparr>ov_stride := - (pe - ov_start ov), ov_reversed := True\<rparr>
                   else ov\<lparr>ov_stride := pe - ov_start ov\<rparr>)
                else if ov_stride ov \<noteq> ov_new_stride ov then ov\<lparr>ov_stride := -1, ov_invalid := True\<rparr>
                else ov)
      in ov\<lparr>ov_pes := ov_pes ov @ [pe]\<rparr>)"

definition team_world_pes :: "nvshmemi_team \<Rightarrow> int list" where
  "team_world_pes t = map (\<lambda>i. the (nvshmemi_team_translate_pe_to_team_world_wrap t i)) [0..tm_size t - 1]"

definition overlap_of :: "int \<Rightarrow> nvshmemi_team \<Rightarrow> nvshmemi_team \<Rightarrow> overlap" where
  "overlap_of mype parent other =
     fold (overlap_add mype) (filter (\<lambda>pe. pe \<in> set (team_world_pes other)) (team_world_pes parent)) overlap_new"

definition nvshmemi_team_initialize_from_overlap :: "nat \<Rightarrow> int \<Rightarrow> nvshmemi_team \<Rightarrow> nvshmemi_team \<Rightarrow> nvshmemi_team \<Rightarrow> int + nvshmemi_team" where
  "nvshmemi_team_initialize_from_overlap npes mype world parent other =
     (let ov = overlap_of mype parent other; sz = length (ov_pes ov); stride = (if sz = 1 then 1 else ov_stride ov);
          stride = (if ov_reversed ov \<and> stride \<noteq> -1 then - stride else stride)
      in if ov_start ov = -1 \<or> sz = 0 then Inl NVSHMEMX_ERROR_INTERNAL
         else if cfg_version (tm_config parent) = Config_V1 \<and> stride = TEAM_SCALAR_INVALID then Inl NVSHMEMX_ERROR_INVALID_VALUE
         else let t = (new_team npes sz)\<lparr>tm_start := ov_start ov, tm_stride := stride, tm_size := int sz, tm_my_pe := ov_my_pe ov,
                    tm_config := (if cfg_version (tm_config parent) = Config_V1
                      then (tm_config (new_team npes sz))\<lparr>cfg_version := Config_V1\<rparr>
                      else \<lparr>cfg_version = Config_V2, cfg_uniqueid = cfg_uniqueid (tm_config parent)\<rparr>),
                    tm_mapping := ov_pes ov @ replicate npes TEAM_SCALAR_INVALID\<rparr>
              in case nvshmemi_team_populate_from_world_pe_mapping (Some world) t of
                   None \<Rightarrow> Inl NVSHMEMX_ERROR_INTERNAL
                 | Some t \<Rightarrow> Inr t)"

section \<open>Resources of a new team\<close>

text \<open>The team is in the pool by reference: what is written to it later is seen there.\<close>

definition pool_write :: "nvshmemi_team \<Rightarrow> pool \<Rightarrow> pool" where
  "pool_write t pl = pl\<lparr>pl_teams := (pl_teams pl)[nat (tm_idx t) := Some t]\<rparr>"

type_synonym pools = "int \<Rightarrow> pool"
type_synonym views = "int \<Rightarrow> nvshmemi_team"

text \<open>The members of a new team agree on its index and set its p2p mark.\<close>

definition allocate_index :: "pool_cfg \<Rightarrow> job \<Rightarrow> int list \<Rightarrow> views \<Rightarrow> views \<Rightarrow> pools \<Rightarrow> (int \<Rightarrow> int) \<times> views \<times> pools" where
  "allocate_index c j ms parent V S =
     (case set_team_idx_all c ms (\<lambda>q. resources_reset (parent q) (V q)) S of (st, V, S) \<Rightarrow>
        let ok = \<lambda>q. q \<in> set ms \<and> st q = NVSHMEMX_SUCCESS;
            V = \<lambda>q. if ok q then nvshmemi_team_set_p2p_connectivity (jt_shared (projr (nvshmemi_team_init j q))) (V q) else V q
        in (\<lambda>q. if q \<in> set ms \<and> st q \<noteq> NVSHMEMX_SUCCESS then NVSHMEMX_ERROR_INTERNAL else NVSHMEMX_SUCCESS, V,
            \<lambda>q. if ok q then pool_write (V q) (S q) else S q))"

text \<open>
  \<open>nvshmemi_team_split_node\<close> and \<open>nvshmemi_team_split_same_mype_node\<close>: one group of PEs after the other makes its part of the
  team. The new team is marked, so that it gets no inner teams itself. The functions differ in the other team, the
  groups and the marks: \<open>mark\<close> sets the mark and the unique identifier, \<open>note\<close> stores the index in the parent.
\<close>

definition split_group ::
  "pool_cfg \<Rightarrow> job \<Rightarrow> (int \<Rightarrow> nvshmemi_team) \<Rightarrow> (int \<Rightarrow> u64 \<Rightarrow> nvshmemi_team \<Rightarrow> nvshmemi_team) \<Rightarrow> (int \<Rightarrow> nvshmemi_team \<Rightarrow> nvshmemi_team) \<Rightarrow>
   int list \<Rightarrow> (int \<Rightarrow> int) \<times> views \<times> pools \<Rightarrow> (int \<Rightarrow> int) \<times> views \<times> pools" where
  "split_group c j other mark note G = (\<lambda>(st, parent, S).
     let sub = \<lambda>q. nvshmemi_team_initialize_from_overlap (job_npes j) q (jt_world (projr (nvshmemi_team_init j q))) (parent q) (other q);
         ms = filter (\<lambda>q. case sub q of Inl _ \<Rightarrow> False | Inr _ \<Rightarrow> True) G
     in case allocate_index c j ms parent (\<lambda>q. mark q (cfg_uniqueid (tm_config (parent q))) (projr (sub q))) S of (st', V, S') \<Rightarrow>
          let ok = \<lambda>q. q \<in> set ms \<and> st' q = NVSHMEMX_SUCCESS;
              parent' = \<lambda>q. if ok q then note (tm_idx (V q)) (parent q) else parent q
          in (\<lambda>q. if q \<in> set G \<and> \<not> ok q then NVSHMEMX_ERROR_INTERNAL else st q, parent',
              \<lambda>q. if ok q then pool_write (parent' q) (S' q) else S' q))"

definition node_mark :: "job \<Rightarrow> int \<Rightarrow> u64 \<Rightarrow> nvshmemi_team \<Rightarrow> nvshmemi_team" where
  "node_mark j mype uniqueid t = t\<lparr>tm_is_node := True, tm_config := (tm_config t)
     \<lparr>cfg_uniqueid := uniqueid + push_bit 32 (word_of_int (mype sdiv env_npes_node (job_env j mype)))\<rparr>\<rparr>"

definition rank_mark :: "job \<Rightarrow> int \<Rightarrow> u64 \<Rightarrow> nvshmemi_team \<Rightarrow> nvshmemi_team" where
  "rank_mark j mype uniqueid t = t\<lparr>tm_is_same_mype := True, tm_config := (tm_config t)
     \<lparr>cfg_uniqueid := uniqueid + word_of_int (env_mype_node (job_env j mype))\<rparr>\<rparr>"

text \<open>\<open>nvshmemi_team_create_internal_teams\<close>.\<close>

definition internal_marks :: "nvshmemi_team \<Rightarrow> nvshmemi_team \<Rightarrow> nvshmemi_team \<Rightarrow> nvshmemi_team" where
  "internal_marks node same_mype t =
     (if tm_is_node t \<or> tm_is_same_mype t then t
      else t\<lparr>tm_is_node := nvshmemi_team_is_subset t node, tm_is_same_mype := nvshmemi_team_is_subset t same_mype\<rparr>)"

definition nvshmemi_team_create_internal_teams ::
  "pool_cfg \<Rightarrow> job \<Rightarrow> int list \<Rightarrow> (int \<Rightarrow> int) \<times> views \<times> pools \<Rightarrow> (int \<Rightarrow> int) \<times> views \<times> pools" where
  "nvshmemi_team_create_internal_teams c j ms = (\<lambda>(st, V, S).
     let jt = \<lambda>q. projr (nvshmemi_team_init j q);
         V' = \<lambda>q. if q \<in> set ms then internal_marks (jt_node (jt q)) (jt_same_mype_node (jt q)) (V q) else V q;
         S' = \<lambda>q. if q \<in> set ms then pool_write (V' q) (S q) else S q;
         rest = filter (\<lambda>q. \<not> tm_is_node (V' q) \<and> \<not> tm_is_same_mype (V' q)) ms;
         n = \<lambda>q. env_npes_node (job_env j q);
         nodes = map (\<lambda>i. filter (\<lambda>q. i < int (job_npes j) sdiv n q \<and> q sdiv n q = i) rest) [0..int (job_npes j) - 1];
         ranks = map (\<lambda>i. filter (\<lambda>q. i < n q \<and> env_mype_node (job_env j q) = i) rest) [0..int (job_npes j) - 1];
         by_node = fold (split_group c j (\<lambda>q. jt_node (jt q)) (node_mark j) (\<lambda>i t. t\<lparr>tm_node := i\<rparr>)) nodes (st, V', S')
     in fold (split_group c j (\<lambda>q. jt_same_mype_node (jt q)) (rank_mark j) (\<lambda>i t. t\<lparr>tm_same_mype := i\<rparr>)) ranks by_node)"

definition nvshmemi_team_allocate_resources ::
  "pool_cfg \<Rightarrow> job \<Rightarrow> int list \<Rightarrow> views \<Rightarrow> views \<Rightarrow> pools \<Rightarrow> (int \<Rightarrow> int) \<times> views \<times> pools" where
  "nvshmemi_team_allocate_resources c j ms parent V S =
     (case allocate_index c j ms parent V S of (st, V, S) \<Rightarrow>
        nvshmemi_team_create_internal_teams c j (filter (\<lambda>q. st q = NVSHMEMX_SUCCESS) ms) (st, V, S))"

section \<open>Destroying a team\<close>

definition nvshmemi_is_rsvd_teams :: "int \<Rightarrow> bool" where
  "nvshmemi_is_rsvd_teams team_idx \<longleftrightarrow> team_idx = NVSHMEM_TEAM_INVALID \<or> NVSHMEM_TEAM_WORLD_INDEX \<le> team_idx \<and> team_idx < NVSHMEM_TEAMS_MIN"

text \<open>
  \<open>nvshmemi_team_destroy\<close> on one PE: first the inner teams, then the index. \<open>None\<close> is an access outside the pool or a
  recursion without end. The counters and the pSync of the index, which are reset as well, are not part of the pool.
\<close>

definition pool_free :: "int \<Rightarrow> pool \<Rightarrow> pool option" where
  "pool_free idx pl =
     (if idx = NVSHMEM_TEAM_INVALID then Some pl
      else if idx < 0 then None
      else map_option (\<lambda>avail. \<lparr>pl_avail = avail, pl_teams = (pl_teams pl)[nat idx := None]\<rparr>) (nvshmemi_bit_set (pl_avail pl) (nat idx)))"

partial_function (option) nvshmemi_team_destroy :: "nvshmemi_team \<Rightarrow> pool \<Rightarrow> pool option" where
  "nvshmemi_team_destroy team pl =
     Option.bind
       (if tm_is_node team \<or> nvshmemi_is_rsvd_teams (tm_node team) then Some pl
        else if tm_node team < 0 \<or> int (length (pl_teams pl)) \<le> tm_node team then None
        else (case pl_teams pl ! nat (tm_node team) of None \<Rightarrow> Some pl | Some sub \<Rightarrow> nvshmemi_team_destroy sub pl))
       (\<lambda>pl. Option.bind
          (if tm_is_same_mype team \<or> nvshmemi_is_rsvd_teams (tm_same_mype team) then Some pl
           else if tm_same_mype team < 0 \<or> int (length (pl_teams pl)) \<le> tm_same_mype team then None
           else (case pl_teams pl ! nat (tm_same_mype team) of None \<Rightarrow> Some pl | Some sub \<Rightarrow> nvshmemi_team_destroy sub pl))
          (pool_free (tm_idx team)))"

section \<open>Splitting\<close>

text \<open>The checks of \<open>nvshmemi_team_split_strided\<close>, in its order, and the child's place in the world.\<close>

datatype split_plan = Plan_Invalid | Plan_Non_Strided | Plan_Range | Plan int int

definition split_plan_of :: "nat \<Rightarrow> nvshmemi_team \<Rightarrow> int \<Rightarrow> int \<Rightarrow> int \<Rightarrow> split_plan" where
  "split_plan_of npes parent PE_start PE_stride PE_size =
     (if PE_start < 0 \<or> tm_size parent \<le> PE_start \<or> PE_size \<le> 0 \<or> tm_size parent < PE_size \<or> PE_stride < 1 then Plan_Invalid
      else if tm_stride parent = TEAM_SCALAR_INVALID then Plan_Non_Strided
      else let start = the (mapping_at parent PE_start); stride = tm_stride parent * PE_stride; last = start + stride * (PE_size - 1)
           in if int npes \<le> start \<or> int npes \<le> last then Plan_Range else Plan start stride)"

fun split_stores :: "int \<Rightarrow> int \<Rightarrow> int \<Rightarrow> int list \<Rightarrow> int list \<Rightarrow> int list option" where
  "split_stores start stride sz m [] = Some m"
| "split_stores start stride sz m (i # is) =
     (let pe = start + i * stride
      in case mapping_store i pe m of
           None \<Rightarrow> None
         | Some m' \<Rightarrow> (case mapping_store (pe + sz) i m' of None \<Rightarrow> None | Some m'' \<Rightarrow> split_stores start stride sz m'' is))"

definition split_view :: "nat \<Rightarrow> team_config option \<Rightarrow> int \<Rightarrow> int \<Rightarrow> int \<Rightarrow> int \<Rightarrow> nvshmemi_team option" where
  "split_view npes config start stride sz my_pe =
     (let t = (new_team npes (nat sz))\<lparr>tm_my_pe := my_pe, tm_start := start, tm_stride := stride, tm_size := sz,
            tm_config := (case config of None \<Rightarrow> (tm_config (new_team npes (nat sz)))\<lparr>cfg_version := Config_V1\<rparr> | Some cf \<Rightarrow> cf)\<rparr>
      in map_option (\<lambda>m. t\<lparr>tm_mapping := m\<rparr>) (split_stores start stride sz (tm_mapping t) [0..sz - 1]))"

text \<open>
  The call of all PEs \<open>ms\<close> of the parent, which has index \<open>pidx\<close>: the value they all return, the handle every PE gets, and
  the pools. \<open>nvshmemi_team_check_collective_error\<close> overwrites \<open>team_ret_val_reduced\<close> with the maximum over the parent.
\<close>

definition nvshmemi_team_split_strided ::
  "pool_cfg \<Rightarrow> job \<Rightarrow> int list \<Rightarrow> nat \<Rightarrow> team_config option \<Rightarrow> int \<Rightarrow> int \<Rightarrow> int \<Rightarrow> pools \<Rightarrow> (int \<times> (int \<Rightarrow> int) \<times> pools) option" where
  "nvshmemi_team_split_strided c j ms pidx config PE_start PE_stride PE_size S =
     (let parent = \<lambda>q. the (pl_teams (S q) ! pidx);
          plan = \<lambda>q. split_plan_of (job_npes j) (parent q) PE_start PE_stride PE_size;
          my_pe = \<lambda>q. (case plan q of Plan start stride \<Rightarrow> nvshmemi_pe_in_active_set q start stride PE_size | _ \<Rightarrow> -1);
          view = \<lambda>q. (case plan q of Plan start stride \<Rightarrow> split_view (job_npes j) config start stride PE_size (my_pe q) | _ \<Rightarrow> None);
          child = filter (\<lambda>q. 0 \<le> my_pe q) ms
      in if list_ex (\<lambda>q. plan q = Plan_Non_Strided) ms \<or> list_ex (\<lambda>q. view q = None) child then None
         else case nvshmemi_team_allocate_resources c j child parent (\<lambda>q. the (view q)) S of (st, V, S') \<Rightarrow>
           let ret = \<lambda>q. if plan q = Plan_Range then NVSHMEMX_ERROR_INVALID_VALUE
                         else if q \<in> set child \<and> st q \<noteq> NVSHMEMX_SUCCESS then NVSHMEMX_ERROR_INTERNAL else NVSHMEMX_SUCCESS;
               reduced = reduce_all max (map ret ms)
           in if reduced = NVSHMEMX_SUCCESS
              then Some (reduced, \<lambda>q. if q \<in> set child then tm_idx (V q) else NVSHMEM_TEAM_INVALID, S')
              else if list_ex (\<lambda>q. nvshmemi_team_destroy (V q) (S' q) = None) child then None
              else Some (reduced, \<lambda>q. NVSHMEM_TEAM_INVALID,
                         \<lambda>q. if q \<in> set child then the (nvshmemi_team_destroy (V q) (S' q)) else S' q))"

text \<open>The triplets of \<open>nvshmemi_team_split_2d\<close>. For \<open>xrange > 0\<close>; the floating-point ceiling
  is exact for all team sizes below \<open>2 ^ 23\<close>. The return value is 0 whatever the splits return.\<close>

definition split_2d_xrange :: "int \<Rightarrow> int \<Rightarrow> int" where "split_2d_xrange parent_size xrange = min xrange parent_size"

definition split_2d_xaxis :: "int \<Rightarrow> int \<Rightarrow> (int \<times> int \<times> int) list" where
  "split_2d_xaxis parent_size xrange =
     (let num_xteams = (parent_size + xrange - 1) sdiv xrange
      in map (\<lambda>i. (i * xrange, 1, if i = num_xteams - 1 \<and> parent_size smod xrange \<noteq> 0 then parent_size smod xrange else xrange))
           [0..num_xteams - 1])"

definition split_2d_yaxis :: "int \<Rightarrow> int \<Rightarrow> (int \<times> int \<times> int) list" where
  "split_2d_yaxis parent_size xrange =
     (let remainder = parent_size smod xrange; yrange = parent_size sdiv xrange
      in map (\<lambda>i. (i, xrange, if remainder \<noteq> 0 \<and> i < remainder then yrange + 1 else yrange)) [0..xrange - 1])"

text \<open>Each axis is a sequence of splits; \<open>None\<close> is also the assertion that a PE gets only one team of each axis.\<close>

fun split_axis ::
  "pool_cfg \<Rightarrow> job \<Rightarrow> int list \<Rightarrow> nat \<Rightarrow> team_config option \<Rightarrow> (int \<times> int \<times> int) list \<Rightarrow> (int \<Rightarrow> int) \<times> pools \<Rightarrow> ((int \<Rightarrow> int) \<times> pools) option" where
  "split_axis c j ms pidx config [] (axis, S) = Some (axis, S)"
| "split_axis c j ms pidx config ((start, stride, sz) # ts) (axis, S) =
     (case nvshmemi_team_split_strided c j ms pidx config start stride sz S of
        None \<Rightarrow> None
      | Some (ret, handle, S') \<Rightarrow>
          if list_ex (\<lambda>q. handle q \<noteq> NVSHMEM_TEAM_INVALID \<and> axis q \<noteq> NVSHMEM_TEAM_INVALID) ms then None
          else split_axis c j ms pidx config ts (\<lambda>q. if handle q \<noteq> NVSHMEM_TEAM_INVALID then handle q else axis q, S'))"

definition nvshmemi_team_split_2d ::
  "pool_cfg \<Rightarrow> job \<Rightarrow> int list \<Rightarrow> nat \<Rightarrow> int \<Rightarrow> team_config option \<Rightarrow> team_config option \<Rightarrow> int \<Rightarrow> pools \<Rightarrow> ((int \<Rightarrow> int) \<times> (int \<Rightarrow> int) \<times> pools) option" where
  "nvshmemi_team_split_2d c j ms pidx parent_size xconfig yconfig xrange S =
     (let xrange = split_2d_xrange parent_size xrange
      in case split_axis c j ms pidx xconfig (split_2d_xaxis parent_size xrange) (\<lambda>_. NVSHMEM_TEAM_INVALID, S) of
           None \<Rightarrow> None
         | Some (xaxis, S') \<Rightarrow>
             (case split_axis c j ms pidx yconfig (split_2d_yaxis parent_size xrange) (\<lambda>_. NVSHMEM_TEAM_INVALID, S') of
                None \<Rightarrow> None
              | Some (yaxis, S'') \<Rightarrow> Some (xaxis, yaxis, S'')))"

end
