(* ===== verification/Team_Pool_Lemmas.thy ===== *)
theory Team_Pool_Lemmas
  imports Team_Split Team_Init_Correct
begin

text \<open>The bit strings as sets of bits, and the invariant of the pools of all PEs, which agreeing on an index keeps.\<close>

unbundle bit_operations_syntax

section \<open>Bit strings\<close>

lemma same_index: "k div 8 = i div 8 \<and> k mod 8 = i mod 8 \<longleftrightarrow> k = (i :: nat)"
  by (metis div_mult_mod_eq)

lemma bit_set_at:
  assumes "i < length ptr * 8"
  shows "\<exists>p. nvshmemi_bit_set ptr i = Some p \<and> length p = length ptr \<and> (\<forall>k. bit_at p k \<longleftrightarrow> k = i \<or> bit_at ptr k)"
proof -
  let ?p = "ptr[i div 8 := ptr ! (i div 8) OR push_bit (i mod 8) 1]"
  have i: "i div 8 < length ptr" using assms by (simp add: less_mult_imp_div_less)
  have "bit_at ?p k \<longleftrightarrow> k = i \<or> bit_at ptr k" for k
  proof (cases "k div 8 = i div 8")
    case True
    have "k < length ptr * 8" using True i by linarith
    then show ?thesis using True i same_index[of k i]
      by (auto simp: bit_at_def bit_simps)
  next
    case False
    then show ?thesis by (auto simp: bit_at_def)
  qed
  then show ?thesis using assms by (simp add: nvshmemi_bit_set_def)
qed

lemma bit_clear_at:
  assumes "i < length ptr * 8"
  shows "\<exists>p. nvshmemi_bit_clear ptr i = Some p \<and> length p = length ptr \<and> (\<forall>k. bit_at p k \<longleftrightarrow> k \<noteq> i \<and> bit_at ptr k)"
proof -
  let ?p = "ptr[i div 8 := ptr ! (i div 8) AND NOT (push_bit (i mod 8) 1)]"
  have i: "i div 8 < length ptr" using assms by (simp add: less_mult_imp_div_less)
  have "bit_at ?p k \<longleftrightarrow> k \<noteq> i \<and> bit_at ptr k" for k
  proof (cases "k div 8 = i div 8")
    case True
    have "k < length ptr * 8" using True i by linarith
    then show ?thesis using True i same_index[of k i]
      by (auto simp: bit_at_def bit_simps)
  next
    case False
    then show ?thesis by (auto simp: bit_at_def)
  qed
  then show ?thesis using assms by (simp add: nvshmemi_bit_clear_def)
qed

lemma bits_with_set:
  "\<forall>i \<in> set is. i < length ptr * 8 \<Longrightarrow>
   \<exists>p. bits_with nvshmemi_bit_set is ptr = Some p \<and> length p = length ptr \<and> (\<forall>k. bit_at p k \<longleftrightarrow> k \<in> set is \<or> bit_at ptr k)"
proof (induction "is" arbitrary: ptr)
  case (Cons i "is")
  obtain p where p: "nvshmemi_bit_set ptr i = Some p" "length p = length ptr" "\<forall>k. bit_at p k \<longleftrightarrow> k = i \<or> bit_at ptr k"
    using bit_set_at[of i ptr] Cons.prems by auto
  then show ?case using Cons.IH[of p] Cons.prems by auto
qed simp

lemma bits_with_clear:
  "\<forall>i \<in> set is. i < length ptr * 8 \<Longrightarrow>
   \<exists>p. bits_with nvshmemi_bit_clear is ptr = Some p \<and> length p = length ptr \<and> (\<forall>k. bit_at p k \<longleftrightarrow> k \<notin> set is \<and> bit_at ptr k)"
proof (induction "is" arbitrary: ptr)
  case (Cons i "is")
  obtain p where p: "nvshmemi_bit_clear ptr i = Some p" "length p = length ptr" "\<forall>k. bit_at p k \<longleftrightarrow> k \<noteq> i \<and> bit_at ptr k"
    using bit_clear_at[of i ptr] Cons.prems by auto
  then show ?case using Cons.IH[of p] Cons.prems by auto
qed simp

lemma fetch_at: "i < length ptr * 8 \<Longrightarrow> nvshmemi_bit_fetch ptr i = Some (if bit_at ptr i then 1 else 0)"
  by (simp add: nvshmemi_bit_fetch_def bit_at_def less_mult_imp_div_less bit_iff_and_drop_bit_eq_1 and_one_eq odd_iff_mod_2_eq_one)

section \<open>The first bit\<close>

lemma first_bit_spec:
  "j \<le> 8 \<Longrightarrow> (case first_bit v j of None \<Rightarrow> \<forall>i. j + i < 8 \<longrightarrow> \<not> bit v i
    | Some m \<Rightarrow> j \<le> m \<and> m < 8 \<and> bit v (m - j) \<and> (\<forall>i < m - j. \<not> bit v i))"
proof (induction v j rule: first_bit.induct)
  case (1 v j)
  show ?case
  proof (cases "v = 0 \<or> 8 \<le> j")
    case True
    then show ?thesis by (subst first_bit.simps) auto
  next
    case go: False
    show ?thesis
    proof (cases "v AND 1 \<noteq> 0")
      case True
      then have "bit v 0" by (simp add: and_one_eq odd_iff_mod_2_eq_one bit_0)
      then show ?thesis using go True by (subst first_bit.simps) auto
    next
      case False
      then have z: "\<not> bit v 0" by (simp add: and_one_eq bit_0 even_iff_mod_2_eq_zero)
      have e: "first_bit v j = first_bit (drop_bit 1 v) (j + 1)" using go False by (subst first_bit.simps) simp
      have b: "bit v i \<longleftrightarrow> (\<exists>k. i = Suc k \<and> bit (drop_bit 1 v) k)" for i using z by (cases i) (simp_all add: bit_drop_bit_eq)
      note ih = "1.IH"[OF go False]
      show ?thesis
      proof (cases "first_bit (drop_bit 1 v) (j + 1)")
        case None
        then show ?thesis using ih go unfolding e by (auto simp: b)
      next
        case (Some m)
        then have m: "j + 1 \<le> m" "m < 8" "bit (drop_bit 1 v) (m - (j + 1))" "\<forall>i < m - (j + 1). \<not> bit (drop_bit 1 v) i" using ih go by auto
        have "m - j = Suc (m - (j + 1))" using m(1) by simp
        then show ?thesis unfolding e Some using m by (auto simp: b)
      qed
    qed
  qed
qed

lemma first_bit_0:
  "(case first_bit v 0 of None \<Rightarrow> \<forall>i < 8. \<not> bit v i | Some m \<Rightarrow> m < 8 \<and> bit v m \<and> (\<forall>i < m. \<not> bit v i))"
  using first_bit_spec[of 0 v] by (auto split: option.splits)

lemma bit_1st_from_spec:
  "(bit_1st_from n ptr = -1 \<and> (\<forall>i. \<not> bit_at ptr i)) \<or>
   (\<exists>i. bit_1st_from n ptr = int (n * 8 + i) \<and> bit_at ptr i \<and> (\<forall>k < i. \<not> bit_at ptr k))"
proof (induction ptr arbitrary: n)
  case Nil
  then show ?case by (simp add: bit_at_def)
next
  case (Cons b bs)
  have at: "bit_at (b # bs) i \<longleftrightarrow> (if i < 8 then bit b i else bit_at bs (i - 8))" for i
  proof (cases "i < 8")
    case False
    then have "i div 8 = Suc ((i - 8) div 8)" "i mod 8 = (i - 8) mod 8" by presburger+
    then show ?thesis using False by (auto simp: bit_at_def)
  qed (simp add: bit_at_def)
  show ?case
  proof (cases "first_bit b 0")
    case None
    then have b: "\<forall>i < 8. \<not> bit b i" using first_bit_0[of b] by simp
    have e: "bit_1st_from n (b # bs) = bit_1st_from (n + 1) bs" using None by simp
    show ?thesis using Cons.IH[of "n + 1"]
    proof
      assume "bit_1st_from (n + 1) bs = -1 \<and> (\<forall>i. \<not> bit_at bs i)"
      then show ?thesis unfolding e using b by (simp add: at)
    next
      assume "\<exists>i. bit_1st_from (n + 1) bs = int ((n + 1) * 8 + i) \<and> bit_at bs i \<and> (\<forall>k < i. \<not> bit_at bs k)"
      then obtain i where "bit_1st_from (n + 1) bs = int ((n + 1) * 8 + i)" "bit_at bs i" "\<forall>k < i. \<not> bit_at bs k" by blast
      then show ?thesis unfolding e using b by (intro disjI2 exI[of _ "i + 8"]) (auto simp: at)
    qed
  next
    case (Some m)
    then have "m < 8" "bit b m" "\<forall>i < m. \<not> bit b i" using first_bit_0[of b] by simp_all
    then show ?thesis using Some by (intro disjI2 exI[of _ m]) (auto simp: at)
  qed
qed

lemma bit_1st_nonzero:
  obtains "nvshmemi_bit_1st_nonzero ptr = -1" "\<And>i. \<not> bit_at ptr i"
    | i where "nvshmemi_bit_1st_nonzero ptr = int i" "bit_at ptr i" "\<And>k. k < i \<Longrightarrow> \<not> bit_at ptr k"
  using bit_1st_from_spec[of 0 ptr] unfolding nvshmemi_bit_1st_nonzero_def by auto

section \<open>The reduced string\<close>

lemma bit_reduce_all_and:
  "vs \<noteq> [] \<Longrightarrow> bit (reduce_all (AND) vs) i \<longleftrightarrow> (\<forall>v \<in> set vs. bit (v :: u8) i)"
proof -
  have "bit (fold (\<lambda>x acc. acc AND x) ws a) i \<longleftrightarrow> bit a i \<and> (\<forall>v \<in> set ws. bit v i)" for a :: u8 and ws
    by (induction ws arbitrary: a) (auto simp: bit_and_iff)
  then show "vs \<noteq> [] \<Longrightarrow> ?thesis" by (cases vs) (auto simp: reduce_all_def)
qed

lemma reduced_at:
  assumes "active_set (tm_start t) (tm_stride t) (tm_size t) = ms" "ms \<noteq> []" "\<And>q. q \<in> set ms \<Longrightarrow> length (pl_avail (S q)) = pc_bytes c"
  shows "bit_at (reduced_avail c S t) i \<longleftrightarrow> (\<forall>q \<in> set ms. bit_at (pl_avail (S q)) i)"
proof (cases "i < pc_bytes c * 8")
  case True
  then have "i div 8 < pc_bytes c" by (simp add: less_mult_imp_div_less)
  then show ?thesis using True assms by (simp add: bit_at_def reduced_avail_def bit_reduce_all_and)
next
  case False
  obtain q where "q \<in> set ms" using assms(2) by (meson list.set_sel(1))
  then show ?thesis using False assms(3) by (auto simp: bit_at_def reduced_avail_def)
qed

section \<open>The invariant of the pools\<close>

text \<open>
  A free index has no team and is no index of an initial team. A handle, other than that of the GPU leaders, means on every PE of its
  team a team with the same PEs, in which the PE has its own place.
\<close>

definition pool_ok :: "pool_cfg \<Rightarrow> pool \<Rightarrow> bool" where
  "pool_ok c pl \<longleftrightarrow> length (pl_avail pl) = pc_bytes c \<and> length (pl_teams pl) = pc_max_teams c \<and> pc_max_teams c \<le> pc_bytes c * 8 \<and>
     (\<forall>i. bit_at (pl_avail pl) i \<longrightarrow> 6 \<le> i \<and> i < pc_max_teams c \<and> pl_teams pl ! i = None)"

definition team_at :: "nat \<Rightarrow> pools \<Rightarrow> nat \<Rightarrow> nat \<Rightarrow> int \<Rightarrow> int list \<Rightarrow> bool" where
  "team_at npes S i k d l \<longleftrightarrow> (\<forall>x \<in> set l. \<exists>t. pl_teams (S x) ! i = Some t \<and> team_of_list npes k d l x t \<and> (6 \<le> i \<longrightarrow> tm_idx t = int i))"

definition pools_ok :: "pool_cfg \<Rightarrow> nat \<Rightarrow> pools \<Rightarrow> bool" where
  "pools_ok c npes S \<longleftrightarrow> (\<forall>q \<in> {0..<int npes}. pool_ok c (S q)) \<and>
     (\<forall>q \<in> {0..<int npes}. \<forall>i < pc_max_teams c. i \<noteq> 5 \<longrightarrow> pl_teams (S q) ! i \<noteq> None \<longrightarrow> (\<exists>k d l. q \<in> set l \<and> team_at npes S i k d l))"

lemma pools_okD:
  assumes "pools_ok c npes S" "0 \<le> q" "q < int npes"
  shows "pool_ok c (S q)"
    "i < pc_max_teams c \<Longrightarrow> i \<noteq> 5 \<Longrightarrow> pl_teams (S q) ! i = Some t \<Longrightarrow> \<exists>k d l. q \<in> set l \<and> team_at npes S i k d l"
  using assms by (auto simp: pools_ok_def)

lemma team_of_list_range: "team_of_list npes k d l q t \<Longrightarrow> x \<in> set l \<Longrightarrow> 0 \<le> x \<and> x < int npes"
  by (auto simp: team_of_list_def)

lemma team_of_list_active: "team_of_list npes k d l q t \<Longrightarrow> active_set (tm_start t) (tm_stride t) (tm_size t) = l"
  by (intro nth_equalityI) (auto simp: team_of_list_def active_set_def)

lemma team_at_coherent:
  assumes "team_at npes S i k d l" "q \<in> set l"
  shows "coherent_team npes (\<lambda>x. the (pl_teams (S x) ! i)) (the (pl_teams (S q) ! i))"
proof (rule team_of_list_coherent)
  show "team_of_list npes k d l x (the (pl_teams (S x) ! i))" if "x \<in> set l" for x using assms(1) that by (auto simp: team_at_def)
  then show "team_of_list npes k d l q (the (pl_teams (S q) ! i))" using assms(2) .
qed

text \<open>Taking a free index for a team keeps the invariant, and so does writing to a team what does not change its PEs.\<close>

definition same_pes :: "nvshmemi_team \<Rightarrow> nvshmemi_team \<Rightarrow> bool" where
  "same_pes t t' \<longleftrightarrow> tm_my_pe t' = tm_my_pe t \<and> tm_start t' = tm_start t \<and> tm_stride t' = tm_stride t \<and> tm_size t' = tm_size t \<and>
     tm_mapping t' = tm_mapping t"

lemma same_pes_list: "same_pes t t' \<Longrightarrow> team_of_list npes k d l q t \<Longrightarrow> team_of_list npes k d l q t'"
  unfolding same_pes_def by (blast intro: team_of_list_cong)

lemma same_pes_trans: "same_pes a b \<Longrightarrow> same_pes b c \<Longrightarrow> same_pes a c" by (simp add: same_pes_def)

lemma pools_ok_put:
  assumes ok: "pools_ok c npes S" and i: "6 \<le> i" "i < pc_max_teams c"
    and V: "\<And>x. x \<in> set l \<Longrightarrow> team_of_list npes k d l x (V x) \<and> tm_idx (V x) = int i"
    and free: "\<And>x. x \<in> set l \<Longrightarrow> pl_teams (S x) ! i = None \<or> (\<exists>k' d'. team_at npes S i k' d' l)"
    and S': "\<And>x. x \<in> set l \<Longrightarrow> pl_teams (S' x) = (pl_teams (S x))[i := Some (V x)] \<and> length (pl_avail (S' x)) = pc_bytes c \<and>
        (\<forall>b. bit_at (pl_avail (S' x)) b \<longrightarrow> b \<noteq> i \<and> bit_at (pl_avail (S x)) b)" "\<And>x. x \<notin> set l \<Longrightarrow> S' x = S x"
  shows "pools_ok c npes S'" "team_at npes S' i k d l"
proof -
  have range: "0 \<le> x \<and> x < int npes" if "x \<in> set l" for x using team_of_list_range V that by blast
  have len: "length (pl_teams (S x)) = pc_max_teams c" if "x \<in> set l" for x
    using pools_okD(1)[OF ok] range[OF that] by (simp add: pool_ok_def)
  show new: "team_at npes S' i k d l" unfolding team_at_def using V S'(1) len i by simp
  have other: "pl_teams (S' x) ! n = pl_teams (S x) ! n" if "n \<noteq> i" for x n using S' that by (cases "x \<in> set l") simp_all
  have pool: "pool_ok c (S' q)" if "q \<in> {0..<int npes}" for q
  proof (cases "q \<in> set l")
    case True
    have "pool_ok c (S q)" using pools_okD(1)[OF ok] that by simp
    then show ?thesis using S'(1)[OF True] other unfolding pool_ok_def by (simp; metis)
  next
    case False
    then show ?thesis using pools_okD(1)[OF ok] that S'(2) by simp
  qed
  have "\<exists>k d l. q \<in> set l \<and> team_at npes S' n k d l"
    if q: "q \<in> {0..<int npes}" "n < pc_max_teams c" "n \<noteq> 5" "pl_teams (S' q) ! n \<noteq> None" for q n
  proof (cases "n = i")
    case False
    then have "pl_teams (S q) ! n \<noteq> None" using q(4) other by simp
    then obtain k2 d2 l2 where "q \<in> set l2" "team_at npes S n k2 d2 l2" using ok q unfolding pools_ok_def by blast
    moreover have "team_at npes S' n k2 d2 l2" using calculation(2) other[OF False] by (simp add: team_at_def)
    ultimately show ?thesis by blast
  next
    case eq: True
    show ?thesis
    proof (cases "q \<in> set l")
      case True
      then show ?thesis using new eq by blast
    next
      case False
      then have "pl_teams (S q) ! i \<noteq> None" using q(4) eq S'(2) by simp
      then obtain k2 d2 l2 where l2: "q \<in> set l2" "team_at npes S i k2 d2 l2" using ok q eq unfolding pools_ok_def by blast
      have disj: "x \<notin> set l2" if xl: "x \<in> set l" for x
      proof
        assume x: "x \<in> set l2"
        then obtain t where t: "pl_teams (S x) ! i = Some t" "team_of_list npes k2 d2 l2 x t" using l2(2) by (auto simp: team_at_def)
        then obtain k' d' where "team_at npes S i k' d' l" using free[OF xl] by auto
        then have "team_of_list npes k' d' l x t" using t(1) xl by (auto simp: team_at_def)
        then have "l = l2" using team_of_list_active t(2) by metis
        then show False using False l2(1) by simp
      qed
      then have "team_at npes S' i k2 d2 l2" using l2(2) S'(2) unfolding team_at_def by metis
      then show ?thesis using l2(1) eq by blast
    qed
  qed
  then show "pools_ok c npes S'" using pool by (simp add: pools_ok_def)
qed

section \<open>Agreeing on an index\<close>

text \<open>
  \<open>taken S S' l i T\<close>: the PEs of \<open>l\<close> have taken index \<open>i\<close>, the first one that was free on all of them, for their teams \<open>T\<close>, and
  nothing else is changed.
\<close>

definition taken :: "pools \<Rightarrow> pools \<Rightarrow> int list \<Rightarrow> nat \<Rightarrow> views \<Rightarrow> bool" where
  "taken S S' l i T \<longleftrightarrow> (\<forall>x. x \<notin> set l \<longrightarrow> S' x = S x) \<and>
     (\<forall>x \<in> set l. bit_at (pl_avail (S x)) i \<and> pl_teams (S' x) = (pl_teams (S x))[i := Some (T x)] \<and>
        length (pl_avail (S' x)) = length (pl_avail (S x)) \<and> (\<forall>b. bit_at (pl_avail (S' x)) b \<longleftrightarrow> b \<noteq> i \<and> bit_at (pl_avail (S x)) b)) \<and>
     (\<forall>b < i. \<exists>x \<in> set l. \<not> bit_at (pl_avail (S x)) b)"

text \<open>The indices of \<open>F\<close> are free on all PEs of \<open>l\<close>; taking an index costs at most the least of them.\<close>

definition frees :: "pools \<Rightarrow> int list \<Rightarrow> nat set \<Rightarrow> bool" where
  "frees S l F \<longleftrightarrow> (\<forall>q \<in> set l. \<forall>i \<in> F. bit_at (pl_avail (S q)) i)"

definition but_least :: "nat set \<Rightarrow> nat set" where "but_least F = F - {LEAST i. i \<in> F}"

lemma but_least_twice: "3 \<le> card F \<Longrightarrow> but_least (but_least F) \<noteq> {}"
proof
  assume F: "3 \<le> card F" "but_least (but_least F) = {}"
  have fin: "finite F" using F(1) by (cases "finite F") simp_all
  have drop: "card A \<le> Suc (card (but_least A))" if "finite A" for A
    unfolding but_least_def using card_Suc_Diff1[OF that] by (cases "(LEAST i. i \<in> A) \<in> A") auto
  have "finite (but_least F)" using fin by (simp add: but_least_def)
  then show False using drop[OF fin] drop[of "but_least F"] F by simp
qed

lemma taken_frees:
  assumes "taken S S' l i T" "frees S l F"
  shows "frees S' l (but_least F)"
proof -
  have "b \<noteq> i" if b: "b \<in> but_least F" for b
  proof
    assume "b = i"
    then have "i \<in> F" "i \<noteq> (LEAST i. i \<in> F)" using b by (auto simp: but_least_def)
    then have least: "(LEAST i. i \<in> F) < i" using Least_le[of "\<lambda>i. i \<in> F" i] by simp
    have "(LEAST i. i \<in> F) \<in> F" using \<open>i \<in> F\<close> by (rule LeastI)
    then show False using least assms unfolding taken_def frees_def by blast
  qed
  then show ?thesis using assms by (auto simp: taken_def frees_def but_least_def)
qed

lemma allocate_index_cases:
  assumes ok: "pools_ok c (job_npes j) S" and V: "\<And>x. x \<in> set l \<Longrightarrow> team_of_list (job_npes j) k d l x (V x)" and l: "l \<noteq> []"
    and A: "allocate_index c j l parent V S = (st, V', S')"
  obtains (none) "\<And>x. x \<in> set l \<Longrightarrow> st x = NVSHMEMX_ERROR_INTERNAL \<and> V' x = resources_reset (parent x) (V x)" "S' = S"
          "\<And>F. frees S l F \<Longrightarrow> F = {}"
    | (index) i where "6 \<le> i" "i < pc_max_teams c" "taken S S' l i V'"
        "\<And>x. x \<in> set l \<Longrightarrow> st x = NVSHMEMX_SUCCESS \<and> V' x =
          nvshmemi_team_set_p2p_connectivity (jt_shared (projr (nvshmemi_team_init j x))) ((resources_reset (parent x) (V x))\<lparr>tm_idx := int i\<rparr>)"
proof -
  let ?W = "\<lambda>x. resources_reset (parent x) (V x)"
  define R where "R = map (\<lambda>b. reduce_all (rdxn False RDXN_OPS_AND) (map (\<lambda>q. pl_avail (S q) ! b) l)) [0..<pc_bytes c]"
  have act: "active_set (tm_start (?W x)) (tm_stride (?W x)) (tm_size (?W x)) = l" if "x \<in> set l" for x
    using team_of_list_active[OF V[OF that]] by (simp add: resources_reset_def)
  then have red: "reduced_avail c S (?W x) = R" if "x \<in> set l" for x using that by (simp add: reduced_avail_def R_def)
  have pok: "pool_ok c (S x)" if "x \<in> set l" for x using pools_okD(1)[OF ok] team_of_list_range[OF V[OF that] that] by blast
  obtain x0 where x0: "x0 \<in> set l" using l by (meson list.set_sel(1))
  have bits: "bit_at R i \<longleftrightarrow> (\<forall>q \<in> set l. bit_at (pl_avail (S q)) i)" for i
    using reduced_at[OF act[OF x0] l, of S c i] red[OF x0] pok by (auto simp: pool_ok_def)
  define r where "r x = nvshmemi_team_set_team_idx_v1 c R (?W x) (S x)" for x
  have at: "st x = (if fst (r x) \<noteq> NVSHMEMX_SUCCESS then NVSHMEMX_ERROR_INTERNAL else NVSHMEMX_SUCCESS)"
    "V' x = (if fst (r x) = NVSHMEMX_SUCCESS
       then nvshmemi_team_set_p2p_connectivity (jt_shared (projr (nvshmemi_team_init j x))) (fst (snd (r x))) else fst (snd (r x)))"
    "S' x = (if fst (r x) = NVSHMEMX_SUCCESS then pool_write (V' x) (snd (snd (r x))) else snd (snd (r x)))" if "x \<in> set l" for x
    using A that red[OF that] by (auto simp: allocate_index_def set_team_idx_all_def Let_def r_def)
  have out: "S' x = S x" if "x \<notin> set l" for x using A that by (auto simp: allocate_index_def set_team_idx_all_def Let_def)
  show thesis
  proof (rule bit_1st_nonzero[of R])
    assume m1: "nvshmemi_bit_1st_nonzero R = -1" and no: "\<And>i. \<not> bit_at R i"
    have r: "r x = (NVSHMEMX_ERROR_OUT_OF_MEMORY, ?W x, S x)" for x by (simp add: r_def nvshmemi_team_set_team_idx_v1_def m1)
    have ne: "NVSHMEMX_ERROR_OUT_OF_MEMORY \<noteq> NVSHMEMX_SUCCESS" by (simp add: status_defs)
    show thesis
    proof (rule none)
      show "st x = NVSHMEMX_ERROR_INTERNAL \<and> V' x = ?W x" if "x \<in> set l" for x using at(1,2)[OF that] r ne by simp
      show "S' = S"
      proof
        show "S' x = S x" for x using at(3)[of x] out[of x] r ne by (cases "x \<in> set l") simp_all
      qed
      show "F = {}" if "frees S l F" for F using that no bits unfolding frees_def by blast
    qed
  next
    fix i assume i: "nvshmemi_bit_1st_nonzero R = int i" "bit_at R i" and first: "\<And>k. k < i \<Longrightarrow> \<not> bit_at R k"
    have b: "bit_at (pl_avail (S x)) i" if "x \<in> set l" for x using i(2) bits that by blast
    then have lim: "6 \<le> i" "i < pc_max_teams c" using pok[OF x0] x0 by (auto simp: pool_ok_def)
    let ?U = "\<lambda>x. (?W x)\<lparr>tm_idx := int i\<rparr>"
    have r: "r x = (NVSHMEMX_SUCCESS, ?U x,
        \<lparr>pl_avail = the (nvshmemi_bit_clear (pl_avail (S x)) i), pl_teams = (pl_teams (S x))[i := Some (?U x)]\<rparr>)" for x
      using lim by (simp add: r_def nvshmemi_team_set_team_idx_v1_def i(1) Let_def)
    let ?T = "\<lambda>x. nvshmemi_team_set_p2p_connectivity (jt_shared (projr (nvshmemi_team_init j x))) (?U x)"
    have idx: "tm_idx (?T x) = int i" for x by (simp add: nvshmemi_team_set_p2p_connectivity_def)
    have st: "st x = NVSHMEMX_SUCCESS \<and> V' x = ?T x" if "x \<in> set l" for x using at(1,2)[OF that] r by simp
    have S': "S' x = \<lparr>pl_avail = the (nvshmemi_bit_clear (pl_avail (S x)) i), pl_teams = (pl_teams (S x))[i := Some (?T x)]\<rparr>" if "x \<in> set l" for x
    proof -
      have "S' x = pool_write (?T x) \<lparr>pl_avail = the (nvshmemi_bit_clear (pl_avail (S x)) i), pl_teams = (pl_teams (S x))[i := Some (?U x)]\<rparr>"
        using at(3)[OF that] st[OF that] r by simp
      then show ?thesis by (simp add: pool_write_def idx)
    qed
    have "bit_at (pl_avail (S x)) i \<and> pl_teams (S' x) = (pl_teams (S x))[i := Some (V' x)] \<and>
        length (pl_avail (S' x)) = length (pl_avail (S x)) \<and> (\<forall>b. bit_at (pl_avail (S' x)) b \<longleftrightarrow> b \<noteq> i \<and> bit_at (pl_avail (S x)) b)"
      if "x \<in> set l" for x
    proof -
      have "i < length (pl_avail (S x)) * 8" using b[OF that] by (simp add: bit_at_def)
      then obtain p where p: "nvshmemi_bit_clear (pl_avail (S x)) i = Some p" "length p = length (pl_avail (S x))"
        "\<forall>k. bit_at p k \<longleftrightarrow> k \<noteq> i \<and> bit_at (pl_avail (S x)) k" using bit_clear_at by blast
      have "pl_avail (S' x) = p" "pl_teams (S' x) = (pl_teams (S x))[i := Some (V' x)]" using S'[OF that] st[OF that] p(1) by simp_all
      then show ?thesis using p(2,3) b[OF that] by simp
    qed
    then have "taken S S' l i V'" using out first bits by (simp add: taken_def)
    then show thesis using index[OF lim] st by blast
  qed
qed

lemma taken_ok:
  assumes ok: "pools_ok c npes S" and V: "\<And>x. x \<in> set l \<Longrightarrow> team_of_list npes k d l x (T x) \<and> tm_idx (T x) = int i"
    and i: "6 \<le> i" "i < pc_max_teams c" and t: "taken S S' l i T"
  shows "pools_ok c npes S'" "team_at npes S' i k d l"
proof -
  have pok: "pool_ok c (S x)" if "x \<in> set l" for x using pools_okD(1)[OF ok] team_of_list_range V that by blast
  have free: "pl_teams (S x) ! i = None" if "x \<in> set l" for x using pok[OF that] t that by (auto simp: taken_def pool_ok_def)
  have S': "pl_teams (S' x) = (pl_teams (S x))[i := Some (T x)] \<and> length (pl_avail (S' x)) = pc_bytes c \<and>
      (\<forall>b. bit_at (pl_avail (S' x)) b \<longrightarrow> b \<noteq> i \<and> bit_at (pl_avail (S x)) b)" if "x \<in> set l" for x
    using t that pok[OF that] by (simp add: taken_def pool_ok_def)
  have out: "S' x = S x" if "x \<notin> set l" for x using t that by (simp add: taken_def)
  show "pools_ok c npes S'" "team_at npes S' i k d l"
    by (rule pools_ok_put[OF ok i V _ S' out]; use free in blast)+
qed

end
