(* ===== verification/Team_Split_Correct.thy ===== *)
theory Team_Split_Correct
  imports Team_Pool_Lemmas
begin

text \<open>
  Splitting keeps the invariant of the pools: the members of the new team and of its inner teams agree on their indices, on
  their PEs and on their order.
\<close>

section \<open>The overlap of two teams\<close>

text \<open>Two evenly spaced lists have an evenly spaced intersection.\<close>

definition spaced :: "int \<Rightarrow> int list \<Rightarrow> bool" where
  "spaced d l \<longleftrightarrow> 0 < d \<and> (\<forall>i < length l. l ! i = l ! 0 + int i * d)"

lemma spaced_nth: "spaced d l \<Longrightarrow> i < length l \<Longrightarrow> l ! i = l ! 0 + int i * d"
  unfolding spaced_def by blast

lemma spaced_sorted: "spaced d l \<Longrightarrow> sorted_wrt (<) l"
proof (unfold sorted_wrt_iff_nth_less, intro allI impI)
  fix a b assume s: "spaced d l" and ab: "a < b" "b < length l"
  have "int a * d < int b * d" using conjunct1[OF s[unfolded spaced_def]] ab by (intro mult_strict_right_mono) simp_all
  moreover have "a < length l" using ab by simp
  ultimately show "l ! a < l ! b" using spaced_nth[OF s, of a] spaced_nth[OF s ab(2)] by linarith
qed

lemma spaced_between:
  assumes s: "spaced d l" and m: "p \<in> set l" "q \<in> set l" "r \<in> set l" "a \<in> set l" "c \<in> set l" and w: "w = p + (q - r)" "a \<le> w" "w \<le> c"
  shows "w \<in> set l"
proof -
  have d: "0 < d" using s unfolding spaced_def by blast
  have at: "\<exists>i < length l. x = l ! 0 + int i * d" if "x \<in> set l" for x
    using that spaced_nth[OF s] unfolding in_set_conv_nth by metis
  obtain ip iq ir ia ic where i: "p = l ! 0 + int ip * d" "q = l ! 0 + int iq * d" "r = l ! 0 + int ir * d"
    "a = l ! 0 + int ia * d" "ic < length l" "c = l ! 0 + int ic * d" using at m by meson
  define n where "n = int ip + int iq - int ir"
  have e: "w = l ! 0 + n * d" by (simp add: w(1) i n_def algebra_simps)
  have "int ia * d \<le> n * d" "n * d \<le> int ic * d" using w(2,3) i(4,6) e by linarith+
  then have "int ia \<le> n" "n \<le> int ic" using d by simp_all
  then have n: "nat n < length l" "int (nat n) = n" using i(5) by simp_all
  then have "l ! nat n = w" using spaced_nth[OF s n(1)] e by simp
  then show ?thesis using n(1) nth_mem by metis
qed

lemma spaced_overlap:
  assumes A: "spaced d1 l1" and B: "spaced d2 l2"
  shows "constant_difference (filter (\<lambda>x. x \<in> set l2) l1)"
proof -
  let ?f = "filter (\<lambda>x. x \<in> set l2) l1"
  have srt: "sorted_wrt (<) ?f" by (rule sorted_wrt_filter[OF spaced_sorted[OF A]])
  have lt: "?f ! a < ?f ! b" if "a < b" "b < length ?f" for a b using srt that by (simp add: sorted_wrt_iff_nth_less)
  have mem: "x \<in> set ?f \<longleftrightarrow> x \<in> set l1 \<and> x \<in> set l2" for x by auto
  have gap: "z \<le> ?f ! a \<or> ?f ! Suc a \<le> z" if z: "z \<in> set ?f" "Suc a < length ?f" for z a
  proof -
    obtain i where i: "i < length ?f" "?f ! i = z" using z(1) unfolding in_set_conv_nth[of z ?f] by blast
    then show ?thesis using lt[of i a] lt[of "Suc a" i] z(2) by (cases "i < a"; cases "i = a"; cases "i = Suc a") force+
  qed
  have "?f ! Suc (Suc i) - ?f ! Suc i = ?f ! Suc i - ?f ! i" if n: "Suc (Suc i) < length ?f" for i
  proof -
    let ?x = "?f ! i" and ?y = "?f ! Suc i" and ?z = "?f ! Suc (Suc i)"
    have x: "?x \<in> set ?f" and y: "?y \<in> set ?f" and z: "?z \<in> set ?f" using n by (intro nth_mem; simp)+
    have o: "?x < ?y" "?y < ?z" using lt n by simp_all
    show ?thesis
    proof (rule antisym)
      show "?z - ?y \<le> ?y - ?x"
      proof (rule ccontr)
        assume "\<not> ?z - ?y \<le> ?y - ?x"
        then have s: "?y < ?y + (?y - ?x)" "?y + (?y - ?x) < ?z" using o by simp_all
        have "?y + (?y - ?x) \<in> set l" if "spaced d l" "?x \<in> set l" "?y \<in> set l" "?z \<in> set l" for d l
          using spaced_between[OF that(1,3,3,2,3,4) refl] s by simp
        then have "?y + (?y - ?x) \<in> set ?f" using A B x y z by (auto simp: mem)
        then show False using gap[of "?y + (?y - ?x)" "Suc i"] n s by simp
      qed
      show "?y - ?x \<le> ?z - ?y"
      proof (rule ccontr)
        assume "\<not> ?y - ?x \<le> ?z - ?y"
        then have s: "?x < ?x + (?z - ?y)" "?x + (?z - ?y) < ?y" using o by simp_all
        have "?x + (?z - ?y) \<in> set l" if "spaced d l" "?x \<in> set l" "?y \<in> set l" "?z \<in> set l" for d l
          using spaced_between[OF that(1,2,4,3,2,3) refl] s by simp
        then have "?x + (?z - ?y) \<in> set ?f" using A B x y z by (auto simp: mem)
        then show False using gap[of "?x + (?z - ?y)" i] n s by simp
      qed
    qed
  qed
  note step = this
  show ?thesis unfolding constant_difference_def list_all_iff
  proof
    fix i assume i: "i \<in> set [2..<length ?f]"
    then obtain k where "i = Suc (Suc k)" by (metis Suc_le_D atLeastLessThan_iff numeral_2_eq_2 set_upt le_Suc_ex add_2_eq_Suc)
    then show "?f ! i - ?f ! (i - 1) = ?f ! (i - 1) - ?f ! (i - 2)" using step[of k] i by simp
  qed
qed

lemma overlap_fold:
  assumes s: "spaced d xs" and nn: "\<And>x. x \<in> set xs \<Longrightarrow> 0 \<le> x" and i0: "i0 < length xs"
  shows "n \<le> length xs \<Longrightarrow> fold (overlap_add (xs ! i0)) (take n xs) overlap_new =
    \<lparr>ov_pes = take n xs, ov_my_pe = (if i0 < n then int i0 else -1), ov_start = (if n = 0 then -1 else xs ! 0),
     ov_stride = (if n \<le> 1 then -1 else d), ov_new_stride = (if n \<le> 2 then -1 else d), ov_invalid = False, ov_reversed = False\<rparr>"
proof (induction n)
  case 0
  then show ?case by (simp add: overlap_new_def)
next
  case (Suc n)
  have n: "n < length xs" using Suc.prems by simp
  have d: "0 < d" using s unfolding spaced_def by blast
  have take: "take (Suc n) xs = take n xs @ [xs ! n]" by (rule take_Suc_conv_app_nth[OF n])
  have me: "xs ! i0 = xs ! n \<longleftrightarrow> i0 = n"
    using spaced_sorted[OF s] i0 n by (simp add: nth_eq_iff_index_eq strict_sorted_iff)
  have x0: "0 \<le> xs ! 0" by (rule nn) (use i0 nth_mem[of 0 xs] in fastforce)
  have len: "length (take n xs) = n" using n by simp
  consider "n = 0" | "n = 1" | m where "n = Suc (Suc m)" by (metis One_nat_def not0_implies_Suc)
  then have "overlap_add (xs ! i0) (xs ! n)
    \<lparr>ov_pes = take n xs, ov_my_pe = (if i0 < n then int i0 else -1), ov_start = (if n = 0 then -1 else xs ! 0),
     ov_stride = (if n \<le> 1 then -1 else d), ov_new_stride = (if n \<le> 2 then -1 else d), ov_invalid = False, ov_reversed = False\<rparr> =
    \<lparr>ov_pes = take (Suc n) xs, ov_my_pe = (if i0 < Suc n then int i0 else -1), ov_start = xs ! 0,
     ov_stride = (if Suc n \<le> 1 then -1 else d), ov_new_stride = (if Suc n \<le> 2 then -1 else d), ov_invalid = False, ov_reversed = False\<rparr>"
  proof cases
    case 1
    then show ?thesis using me unfolding take by (simp add: overlap_add_def Let_def)
  next
    case 2
    have "xs ! 1 = xs ! 0 + d" using spaced_nth[OF s n] 2 by simp
    then show ?thesis using me len d x0 2 unfolding take by (auto simp: overlap_add_def Let_def)
  next
    case 3
    have l: "last (take n xs) = xs ! Suc m" using 3 n take_Suc_conv_app_nth[of "Suc m" xs] by simp
    have "xs ! n - xs ! Suc m = d" using spaced_nth[OF s n] spaced_nth[OF s, of "Suc m"] n 3 by (simp add: algebra_simps)
    then show ?thesis using me len d x0 3 l unfolding take by (auto simp: overlap_add_def Let_def)
  qed
  then show ?case using Suc n unfolding take by simp
qed

lemma team_world_pes_list:
  assumes "team_of_list npes k d l q t"
  shows "team_world_pes t = l"
proof (rule nth_equalityI)
  have sz: "tm_size t = int (length l)" and ne: "l \<noteq> []" using assms by (auto simp: team_of_list_def)
  show "length (team_world_pes t) = length l" by (simp add: team_world_pes_def sz)
  fix i assume "i < length (team_world_pes t)"
  then have i: "i < length l" by (simp add: team_world_pes_def sz)
  have "0 < int (length l)" using i by linarith
  then have "int i smod tm_size t = int i" unfolding sz using i smod_pos[of "int i" "int (length l)"] by simp
  moreover have "nat (tm_size t) + npes \<le> length (tm_mapping t)" using team_of_list_ok(1)[OF assms] by (simp add: team_ok_def)
  ultimately show "team_world_pes t ! i = l ! i"
    using team_of_list_ok(2)[OF assms, of "int i"] i sz
    by (simp add: team_world_pes_def nvshmemi_team_translate_pe_to_team_world_wrap_def mapping_at_def team_pe_def)
qed

lemma team_of_list_spaced: "team_of_list npes k d l q t \<Longrightarrow> spaced d l"
  by (simp add: team_of_list_def spaced_def)

lemma team_of_list_mem: "team_of_list npes k d l q t \<Longrightarrow> q \<in> set l"
  by (auto simp: team_of_list_def)

text \<open>A team that knows no inner teams.\<close>

definition bare :: "nvshmemi_team \<Rightarrow> bool" where "bare t \<longleftrightarrow> tm_node t = -1 \<and> tm_same_mype t = -1"

lemma overlap_team:
  assumes P: "team_of_list npes k d l q parent" and Q: "team_of_list npes k2 d2 l2 q other" and w: "identity_world npes w"
  shows "\<exists>t. nvshmemi_team_initialize_from_overlap npes q w parent other = Inr t \<and>
    team_of_list npes 0 (list_stride (filter (\<lambda>x. x \<in> set l2) l)) (filter (\<lambda>x. x \<in> set l2) l) q t \<and> bare t"
proof -
  let ?m = "filter (\<lambda>x. x \<in> set l2) l"
  have q: "q \<in> set ?m" using team_of_list_mem[OF P] team_of_list_mem[OF Q] by simp
  then have ne: "?m \<noteq> []" using empty_iff list.set(1) by metis
  have rng: "set ?m \<subseteq> {0..<int npes}" using team_of_list_range[OF P] by auto
  have "sorted_wrt (<) ?m" by (rule sorted_wrt_filter[OF spaced_sorted[OF team_of_list_spaced[OF P]]])
  then have srt: "sorted ?m" "distinct ?m" by (simp_all only: strict_sorted_iff)
  note pg = progression[OF srt rng
      spaced_overlap[OF team_of_list_spaced[OF P] team_of_list_spaced[OF Q]] ne]
  have sp: "spaced (list_stride ?m) ?m" using pg unfolding spaced_def by blast
  obtain i0 where i0: "i0 < length ?m" "?m ! i0 = q" using q unfolding in_set_conv_nth[of q ?m] by blast
  let ?s = "if length ?m = 1 then 1 else if length ?m \<le> 1 then -1 else list_stride ?m"
  have st: "?s = list_stride ?m" using i0(1) by (auto simp: list_stride_def)
  have ov: "overlap_of q parent other = \<lparr>ov_pes = ?m, ov_my_pe = int i0, ov_start = ?m ! 0, ov_stride = (if length ?m \<le> 1 then -1 else list_stride ?m),
      ov_new_stride = (if length ?m \<le> 2 then -1 else list_stride ?m), ov_invalid = False, ov_reversed = False\<rparr>"
    using overlap_fold[OF sp _ i0(1), of "length ?m"] rng i0 ne
    unfolding overlap_of_def team_world_pes_list[OF P] team_world_pes_list[OF Q] by fastforce
  let ?cfg = "if cfg_version (tm_config parent) = Config_V1
      then (tm_config (new_team npes (length ?m)))\<lparr>cfg_version := Config_V1\<rparr>
      else \<lparr>cfg_version = Config_V2, cfg_uniqueid = cfg_uniqueid (tm_config parent)\<rparr>"
  let ?t = "(new_team npes (length ?m))\<lparr>tm_start := ?m ! 0, tm_stride := list_stride ?m, tm_size := int (length ?m),
      tm_my_pe := int i0, tm_config := ?cfg\<rparr>"
  let ?u = "?t\<lparr>tm_mapping := ?m @ replicate npes (-1)\<rparr>"
  have "populate_stride (?m ! 0) (list_stride ?m) (replicate (length ?m + npes) (-1)) [0..int (length ?m) - 1] = Some (?m @ replicate npes (-1))"
  proof -
    have "\<forall>i\<in>set [0..int (length ?m) - 1]. 0 \<le> i \<and> nat i < length (replicate (length ?m + npes) (-1 :: int))" by auto
    from populate_stride_nth[OF this, of "?m ! 0" "list_stride ?m"] obtain m' where
      m': "populate_stride (?m ! 0) (list_stride ?m) (replicate (length ?m + npes) (-1)) [0..int (length ?m) - 1] = Some m'"
        "length m' = length ?m + npes"
        "\<forall>x < length ?m + npes. m' ! x = (if int x \<in> set [0..int (length ?m) - 1] then ?m ! 0 + int x * list_stride ?m else -1)" by auto
    have "m' = ?m @ replicate npes (-1)"
      using m'(2,3) spaced_nth[OF sp] by (intro nth_equalityI) (auto simp: nth_append)
    then show ?thesis using m'(1) by simp
  qed
  then have "nvshmemi_team_populate_pe_mappings_from_constant_stride (Some w) ?t = nvshmemi_team_populate_from_world_pe_mapping (Some w) ?u"
    by (simp add: nvshmemi_team_populate_pe_mappings_from_constant_stride_def new_team_def TEAM_SCALAR_INVALID_def)
  moreover have "\<exists>m. nvshmemi_team_populate_pe_mappings_from_constant_stride (Some w) ?t = Some (?t\<lparr>tm_mapping := m\<rparr>) \<and>
      team_of_list npes 0 (list_stride ?m) ?m q (?t\<lparr>tm_mapping := m\<rparr>)"
    by (rule populate_list[OF pg(1) rng pg(3)]) (use i0 w in \<open>simp_all add: new_team_def TEAM_SCALAR_INVALID_def\<close>)
  ultimately obtain m where m: "nvshmemi_team_populate_from_world_pe_mapping (Some w) ?u = Some (?t\<lparr>tm_mapping := m\<rparr>)"
    "team_of_list npes 0 (list_stride ?m) ?m q (?t\<lparr>tm_mapping := m\<rparr>)" by auto
  have "nvshmemi_team_initialize_from_overlap npes q w parent other = Inr (?t\<lparr>tm_mapping := m\<rparr>)"
    unfolding nvshmemi_team_initialize_from_overlap_def Let_def ov overlap.select_convs st
    using m(1) pg(1,2) ne i0 by (simp add: TEAM_SCALAR_INVALID_def)
  moreover have "bare (?t\<lparr>tm_mapping := m\<rparr>)" by (simp add: bare_def new_team_def TEAM_SCALAR_INVALID_def)
  ultimately show ?thesis using m(2) by blast
qed

section \<open>The team of the split\<close>

lemma split_stores_nth:
  assumes d: "0 < d" and s: "0 \<le> start" "start + (sz - 1) * d < int npes" and sz: "0 \<le> sz"
  shows "\<forall>i\<in>set is. 0 \<le> i \<and> i < sz \<Longrightarrow> length m = nat sz + npes \<Longrightarrow>
    \<exists>m'. split_stores start d sz m is = Some m' \<and> length m' = nat sz + npes \<and>
      (\<forall>x < nat sz. m' ! x = (if int x \<in> set is then start + int x * d else m ! x)) \<and>
      (\<forall>p < npes. m' ! (nat sz + p) = (if \<exists>i\<in>set is. int p = start + i * d then nvshmemi_pe_in_active_set (int p) start d sz else m ! (nat sz + p)))"
proof (induction "is" arbitrary: m)
  case (Cons i "is")
  have i: "0 \<le> i" "i < sz" using Cons.prems(1) by simp_all
  let ?pe = "start + i * d"
  note r = stride_range[OF d s i]
  let ?m1 = "m[nat i := ?pe]" and ?at = "nat (?pe + sz)"
  let ?m2 = "?m1[?at := i]"
  have at: "?at = nat sz + nat ?pe" "nat ?pe < npes" using r(1,2) sz by (simp_all add: nat_add_distrib)
  have st: "mapping_store i ?pe m = Some ?m1" "mapping_store (?pe + sz) i ?m1 = Some ?m2"
    using i r(1,2) sz Cons.prems(2) by (simp_all add: mapping_store_def)
  obtain m' where m': "split_stores start d sz ?m2 is = Some m'" "length m' = nat sz + npes"
    "\<forall>x < nat sz. m' ! x = (if int x \<in> set is then start + int x * d else ?m2 ! x)"
    "\<forall>p < npes. m' ! (nat sz + p) = (if \<exists>i\<in>set is. int p = start + i * d then nvshmemi_pe_in_active_set (int p) start d sz else ?m2 ! (nat sz + p))"
    using Cons.IH[of ?m2] Cons.prems by auto
  have ix: "nvshmemi_pe_in_active_set ?pe start d sz = i" using in_active_set[OF d sz, of ?pe start i] i by auto
  have low: "?m2 ! x = (if int x = i then ?pe else m ! x)" if "x < nat sz" for x
    using that at(1) i Cons.prems(2) by (auto simp: nth_list_update)
  have high: "?m2 ! (nat sz + p) = (if int p = ?pe then i else m ! (nat sz + p))" if "p < npes" for p
  proof -
    have "nat sz + p = ?at \<longleftrightarrow> int p = ?pe" using at(1) r(1) by auto
    moreover have "nat sz + p \<noteq> nat i" using i by linarith
    ultimately show ?thesis using that Cons.prems(2) by (auto simp: nth_list_update)
  qed
  have "split_stores start d sz m (i # is) = Some m'" using st m'(1) by (simp add: Let_def)
  moreover have "\<forall>x < nat sz. m' ! x = (if int x \<in> set (i # is) then start + int x * d else m ! x)" using m'(3) low by auto
  moreover have "\<forall>p < npes. m' ! (nat sz + p) = (if \<exists>i\<in>set (i # is). int p = start + i * d
      then nvshmemi_pe_in_active_set (int p) start d sz else m ! (nat sz + p))"
    using m'(4) high ix by auto
  ultimately show ?case using m'(2) by blast
qed simp

lemma split_view_list:
  assumes d: "0 < d" and s: "0 \<le> start" "start + (sz - 1) * d < int npes" and sz: "0 < sz" and q: "q \<in> set (active_set start d sz)"
  shows "\<exists>t. split_view npes config start d sz (nvshmemi_pe_in_active_set q start d sz) = Some t \<and>
    team_of_list npes 0 d (active_set start d sz) q t \<and> bare t \<and> tm_idx t = -1"
proof -
  have sz0: "0 \<le> sz" using sz by simp
  obtain i where i: "0 \<le> i" "i < sz" "q = start + i * d" using q by (auto simp: active_mem)
  have ix: "nvshmemi_pe_in_active_set q start d sz = i" using in_active_set[OF d sz0, of q start i] i by auto
  have len: "length (replicate (nat sz + npes) (-1 :: int)) = nat sz + npes" by simp
  have all: "\<forall>i\<in>set [0..sz - 1]. 0 \<le> i \<and> i < sz" by simp
  obtain m where m: "split_stores start d sz (replicate (nat sz + npes) (-1)) [0..sz - 1] = Some m" "length m = nat sz + npes"
    "\<forall>x < nat sz. m ! x = (if int x \<in> set [0..sz - 1] then start + int x * d else replicate (nat sz + npes) (-1) ! x)"
    "\<forall>p < npes. m ! (nat sz + p) = (if \<exists>i\<in>set [0..sz - 1]. int p = start + i * d then nvshmemi_pe_in_active_set (int p) start d sz
       else replicate (nat sz + npes) (-1) ! (nat sz + p))"
    using split_stores_nth[OF d s sz0 all len] by blast
  note sm = strided_mapping_nth[OF sz0]
  have "m = strided_mapping npes start d sz"
  proof (rule nth_equalityI)
    show "length m = length (strided_mapping npes start d sz)" using m(2) sm(3) by simp
    fix x assume "x < length m"
    then have x: "x < nat sz + npes" using m(2) by simp
    show "m ! x = strided_mapping npes start d sz ! x"
    proof (cases "x < nat sz")
      case True
      then show ?thesis using m(3) sm(1)[of "int x"] by auto
    next
      case False
      define p where "p = x - nat sz"
      have p: "x = nat sz + p" "p < npes" using False x by (simp_all add: p_def)
      have "nat (sz + int p) = x" using p(1) sz0 by (simp add: nat_add_distrib)
      then have "strided_mapping npes start d sz ! x = nvshmemi_pe_in_active_set (int p) start d sz" using sm(2)[of "int p"] p(2) by simp
      moreover have "nvshmemi_pe_in_active_set (int p) start d sz = -1" if "\<not> (\<exists>i\<in>set [0..sz - 1]. int p = start + i * d)"
        using in_active_set[OF d sz0, of "int p" start "-1"] that by auto
      ultimately show ?thesis using m(4) p by auto
    qed
  qed
  then have "split_view npes config start d sz i = Some ((new_team npes (nat sz))\<lparr>tm_my_pe := i, tm_start := start, tm_stride := d, tm_size := sz,
      tm_config := (case config of None \<Rightarrow> (tm_config (new_team npes (nat sz)))\<lparr>cfg_version := Config_V1\<rparr> | Some cf \<Rightarrow> cf),
      tm_mapping := strided_mapping npes start d sz\<rparr>)" (is "_ = Some ?t")
    using m(1) by (simp add: split_view_def new_team_def TEAM_SCALAR_INVALID_def Let_def)
  moreover have "team_of_list npes 0 d (active_set start d sz) q ?t"
    using i d sz stride_range(1,2)[OF d s] by (auto simp: team_of_list_def active_set_def)
  moreover have "bare ?t" "tm_idx ?t = -1" by (simp_all add: bare_def new_team_def TEAM_SCALAR_INVALID_def)
  ultimately show ?thesis unfolding ix by blast
qed

section \<open>Destroying what was made\<close>

text \<open>The inner teams of a team, and a team without any.\<close>

definition inner :: "nvshmemi_team \<Rightarrow> int set" where
  "inner t = ((if tm_is_node t then {} else {tm_node t}) \<union> (if tm_is_same_mype t then {} else {tm_same_mype t})) - {-1}"

definition leaf :: "nvshmemi_team \<Rightarrow> bool" where
  "leaf t \<longleftrightarrow> (tm_is_node t \<or> tm_node t = -1) \<and> (tm_is_same_mype t \<or> tm_same_mype t = -1)"

text \<open>\<open>grown pl0 pl t\<close>: the pool \<open>pl\<close> is the pool \<open>pl0\<close> with the team \<open>t\<close> and its inner teams on indices that were free.\<close>

definition grown :: "pool \<Rightarrow> pool \<Rightarrow> nvshmemi_team \<Rightarrow> bool" where
  "grown pl0 pl t \<longleftrightarrow> length (pl_avail pl) = length (pl_avail pl0) \<and> length (pl_teams pl) = length (pl_teams pl0) \<and>
     (\<forall>n. bit_at (pl_avail pl) n \<longleftrightarrow> bit_at (pl_avail pl0) n \<and> int n \<notin> insert (tm_idx t) (inner t)) \<and>
     (\<forall>n < length (pl_teams pl0). int n \<notin> insert (tm_idx t) (inner t) \<longrightarrow> pl_teams pl ! n = pl_teams pl0 ! n) \<and>
     (\<forall>i \<in> insert (tm_idx t) (inner t). 6 \<le> i \<and> bit_at (pl_avail pl0) (nat i)) \<and>
     tm_idx t \<notin> inner t \<and> (\<not> tm_is_node t \<and> \<not> tm_is_same_mype t \<and> tm_node t \<noteq> -1 \<longrightarrow> tm_node t \<noteq> tm_same_mype t) \<and>
     (\<forall>i \<in> inner t. \<exists>sub. pl_teams pl ! nat i = Some sub \<and> tm_idx sub = i \<and> leaf sub)"

lemma rsvd_invalid [simp]: "nvshmemi_is_rsvd_teams (-1)"
  by (simp add: nvshmemi_is_rsvd_teams_def NVSHMEM_TEAM_INVALID_def)

lemma not_rsvd: "6 \<le> i \<Longrightarrow> \<not> nvshmemi_is_rsvd_teams i"
  by (simp add: nvshmemi_is_rsvd_teams_def NVSHMEM_TEAM_INVALID_def NVSHMEM_TEAMS_MIN_def)

lemma destroy_leaf: "leaf t \<Longrightarrow> nvshmemi_team_destroy t pl = pool_free (tm_idx t) pl"
  by (subst nvshmemi_team_destroy.simps) (auto simp: leaf_def)

lemma pool_free_at:
  assumes "0 \<le> i" "nat i < length (pl_avail pl) * 8"
  shows "\<exists>pl'. pool_free i pl = Some pl' \<and> length (pl_avail pl') = length (pl_avail pl) \<and>
    (\<forall>n. bit_at (pl_avail pl') n \<longleftrightarrow> n = nat i \<or> bit_at (pl_avail pl) n) \<and> pl_teams pl' = (pl_teams pl)[nat i := None]"
  using bit_set_at[OF assms(2)] assms(1) by (auto simp: pool_free_def NVSHMEM_TEAM_INVALID_def)

lemma bits_eqI:
  assumes "length a = length b" "\<And>n. bit_at a n \<longleftrightarrow> bit_at b n"
  shows "a = (b :: u8 list)"
proof (intro nth_equalityI assms(1))
  fix i assume i: "i < length a"
  show "a ! i = b ! i"
  proof (rule bit_eqI)
    fix n assume "possible_bit TYPE(u8) n"
    then have n: "n < 8" by (simp add: possible_bit_word)
    have "(i * 8 + n) div 8 = i" "(i * 8 + n) mod 8 = n" "i * 8 + n < length a * 8" using i n by simp_all
    then show "bit (a ! i) n \<longleftrightarrow> bit (b ! i) n" using assms(2)[of "i * 8 + n"] assms(1) by (simp add: bit_at_def)
  qed
qed

text \<open>One inner team goes.\<close>

lemma destroy_inner:
  assumes "m \<or> i = -1 \<or> 6 \<le> i \<and> nat i < length (pl_teams pl) \<and> nat i < length (pl_avail pl) * 8 \<and>
    (\<exists>sub. pl_teams pl ! nat i = Some sub \<and> tm_idx sub = i \<and> leaf sub)"
  shows "\<exists>pl'. (if m \<or> nvshmemi_is_rsvd_teams i then Some pl
      else if i < 0 \<or> int (length (pl_teams pl)) \<le> i then None
      else (case pl_teams pl ! nat i of None \<Rightarrow> Some pl | Some sub \<Rightarrow> nvshmemi_team_destroy sub pl)) = Some pl' \<and>
    length (pl_avail pl') = length (pl_avail pl) \<and> length (pl_teams pl') = length (pl_teams pl) \<and>
    (\<forall>n. bit_at (pl_avail pl') n \<longleftrightarrow> \<not> m \<and> i \<noteq> -1 \<and> n = nat i \<or> bit_at (pl_avail pl) n) \<and>
    (\<forall>n. pl_teams pl' ! n = (if \<not> m \<and> i \<noteq> -1 \<and> n = nat i \<and> n < length (pl_teams pl) then None else pl_teams pl ! n))"
proof (cases "m \<or> i = -1")
  case True
  then show ?thesis by auto
next
  case False
  then obtain sub where i: "6 \<le> i" "nat i < length (pl_teams pl)" "nat i < length (pl_avail pl) * 8"
    "pl_teams pl ! nat i = Some sub" "tm_idx sub = i" "leaf sub" using assms by blast
  have e: "(if m \<or> nvshmemi_is_rsvd_teams i then Some pl
      else if i < 0 \<or> int (length (pl_teams pl)) \<le> i then None
      else (case pl_teams pl ! nat i of None \<Rightarrow> Some pl | Some sub \<Rightarrow> nvshmemi_team_destroy sub pl)) = pool_free i pl"
    using False i not_rsvd[OF i(1)] destroy_leaf[OF i(6), of pl] by auto
  obtain pl' where "pool_free i pl = Some pl'" "length (pl_avail pl') = length (pl_avail pl)"
    "\<forall>n. bit_at (pl_avail pl') n \<longleftrightarrow> n = nat i \<or> bit_at (pl_avail pl) n" "pl_teams pl' = (pl_teams pl)[nat i := None]"
    using pool_free_at[of i pl] i by auto
  then show ?thesis unfolding e using False i(2) by (auto simp: nth_list_update)
qed

lemma destroy_grown:
  assumes ok: "pool_ok c pl0" and g: "grown pl0 pl t"
  shows "nvshmemi_team_destroy t pl = Some pl0"
proof -
  have len: "length (pl_avail pl) = length (pl_avail pl0)" "length (pl_teams pl) = length (pl_teams pl0)"
    and bits: "\<And>n. bit_at (pl_avail pl) n \<longleftrightarrow> bit_at (pl_avail pl0) n \<and> int n \<notin> insert (tm_idx t) (inner t)"
    and teams: "\<And>n. n < length (pl_teams pl0) \<Longrightarrow> int n \<notin> insert (tm_idx t) (inner t) \<Longrightarrow> pl_teams pl ! n = pl_teams pl0 ! n"
    and own: "\<And>i. i \<in> insert (tm_idx t) (inner t) \<Longrightarrow> 6 \<le> i \<and> bit_at (pl_avail pl0) (nat i)"
    and idx: "tm_idx t \<notin> inner t" and two: "\<not> tm_is_node t \<Longrightarrow> \<not> tm_is_same_mype t \<Longrightarrow> tm_node t \<noteq> -1 \<Longrightarrow> tm_node t \<noteq> tm_same_mype t"
    and sub: "\<And>i. i \<in> inner t \<Longrightarrow> \<exists>sub. pl_teams pl ! nat i = Some sub \<and> tm_idx sub = i \<and> leaf sub"
    using g unfolding grown_def by blast+
  have room: "6 \<le> i \<and> nat i < length (pl_teams pl) \<and> nat i < length (pl_avail pl) * 8 \<and> pl_teams pl0 ! nat i = None"
    if "i \<in> insert (tm_idx t) (inner t)" for i
    using own[OF that] ok len by (auto simp: pool_ok_def bit_at_def)
  have n1: "tm_is_node t \<or> tm_node t = -1 \<or> 6 \<le> tm_node t \<and> nat (tm_node t) < length (pl_teams pl) \<and>
      nat (tm_node t) < length (pl_avail pl) * 8 \<and> (\<exists>sub. pl_teams pl ! nat (tm_node t) = Some sub \<and> tm_idx sub = tm_node t \<and> leaf sub)"
    using room[of "tm_node t"] sub[of "tm_node t"] by (auto simp: inner_def)
  obtain pl1 where pl1: "(if tm_is_node t \<or> nvshmemi_is_rsvd_teams (tm_node t) then Some pl
      else if tm_node t < 0 \<or> int (length (pl_teams pl)) \<le> tm_node t then None
      else (case pl_teams pl ! nat (tm_node t) of None \<Rightarrow> Some pl | Some sub \<Rightarrow> nvshmemi_team_destroy sub pl)) = Some pl1"
    "length (pl_avail pl1) = length (pl_avail pl)" "length (pl_teams pl1) = length (pl_teams pl)"
    "\<And>n. bit_at (pl_avail pl1) n \<longleftrightarrow> \<not> tm_is_node t \<and> tm_node t \<noteq> -1 \<and> n = nat (tm_node t) \<or> bit_at (pl_avail pl) n"
    "\<And>n. pl_teams pl1 ! n = (if \<not> tm_is_node t \<and> tm_node t \<noteq> -1 \<and> n = nat (tm_node t) \<and> n < length (pl_teams pl) then None else pl_teams pl ! n)"
    using destroy_inner[OF n1] by blast
  have "pl_teams pl1 ! nat (tm_same_mype t) = pl_teams pl ! nat (tm_same_mype t)" if "\<not> tm_is_same_mype t" "tm_same_mype t \<noteq> -1"
  proof -
    have a: "6 \<le> tm_same_mype t" using room[of "tm_same_mype t"] that by (simp add: inner_def)
    have "nat (tm_same_mype t) \<noteq> nat (tm_node t)" if "\<not> tm_is_node t" "tm_node t \<noteq> -1"
    proof -
      have "6 \<le> tm_node t" using room[of "tm_node t"] that by (simp add: inner_def)
      then show ?thesis using two that \<open>\<not> tm_is_same_mype t\<close> a by auto
    qed
    then show ?thesis unfolding pl1(5) by auto
  qed
  then have n2: "tm_is_same_mype t \<or> tm_same_mype t = -1 \<or> 6 \<le> tm_same_mype t \<and> nat (tm_same_mype t) < length (pl_teams pl1) \<and>
      nat (tm_same_mype t) < length (pl_avail pl1) * 8 \<and>
      (\<exists>sub. pl_teams pl1 ! nat (tm_same_mype t) = Some sub \<and> tm_idx sub = tm_same_mype t \<and> leaf sub)"
    using room[of "tm_same_mype t"] sub[of "tm_same_mype t"] pl1(2,3) by (auto simp: inner_def)
  obtain pl2 where pl2: "(if tm_is_same_mype t \<or> nvshmemi_is_rsvd_teams (tm_same_mype t) then Some pl1
      else if tm_same_mype t < 0 \<or> int (length (pl_teams pl1)) \<le> tm_same_mype t then None
      else (case pl_teams pl1 ! nat (tm_same_mype t) of None \<Rightarrow> Some pl1 | Some sub \<Rightarrow> nvshmemi_team_destroy sub pl1)) = Some pl2"
    "length (pl_avail pl2) = length (pl_avail pl1)" "length (pl_teams pl2) = length (pl_teams pl1)"
    "\<And>n. bit_at (pl_avail pl2) n \<longleftrightarrow> \<not> tm_is_same_mype t \<and> tm_same_mype t \<noteq> -1 \<and> n = nat (tm_same_mype t) \<or> bit_at (pl_avail pl1) n"
    "\<And>n. pl_teams pl2 ! n = (if \<not> tm_is_same_mype t \<and> tm_same_mype t \<noteq> -1 \<and> n = nat (tm_same_mype t) \<and> n < length (pl_teams pl1) then None else pl_teams pl1 ! n)"
    using destroy_inner[OF n2] by blast
  have i: "0 \<le> tm_idx t" "nat (tm_idx t) < length (pl_avail pl2) * 8" using room[of "tm_idx t"] pl1(2) pl2(2) by auto
  obtain pl3 where pl3: "pool_free (tm_idx t) pl2 = Some pl3" "length (pl_avail pl3) = length (pl_avail pl2)"
    "\<forall>n. bit_at (pl_avail pl3) n \<longleftrightarrow> n = nat (tm_idx t) \<or> bit_at (pl_avail pl2) n" "pl_teams pl3 = (pl_teams pl2)[nat (tm_idx t) := None]"
    using pool_free_at[OF i] by blast
  have in_own: "int n \<in> insert (tm_idx t) (inner t) \<longleftrightarrow> n = nat (tm_idx t) \<or> (\<not> tm_is_node t \<and> tm_node t \<noteq> -1 \<and> n = nat (tm_node t)) \<or>
      (\<not> tm_is_same_mype t \<and> tm_same_mype t \<noteq> -1 \<and> n = nat (tm_same_mype t))" for n
    using room[of "tm_idx t"] room[of "tm_node t"] room[of "tm_same_mype t"] by (auto simp: inner_def)
  have "pl_avail pl3 = pl_avail pl0"
  proof (rule bits_eqI)
    show "length (pl_avail pl3) = length (pl_avail pl0)" using pl3(2) pl2(2) pl1(2) len(1) by simp
    show "bit_at (pl_avail pl3) n \<longleftrightarrow> bit_at (pl_avail pl0) n" for n
      using pl3(3) pl2(4) pl1(4) bits[of n] in_own[of n] own[of "int n"] by auto
  qed
  moreover have "pl_teams pl3 = pl_teams pl0"
  proof (rule nth_equalityI)
    show "length (pl_teams pl3) = length (pl_teams pl0)" using pl3(4) pl2(3) pl1(3) len(2) by simp
    fix n assume "n < length (pl_teams pl3)"
    then have n: "n < length (pl_teams pl0)" using pl3(4) pl2(3) pl1(3) len(2) by simp
    have l: "n < length (pl_teams pl)" "n < length (pl_teams pl1)" "n < length (pl_teams pl2)" using n pl2(3) pl1(3) len(2) by simp_all
    have e3: "pl_teams pl3 ! n = (if n = nat (tm_idx t) then None else pl_teams pl2 ! n)"
      unfolding pl3(4) using l(3) by (simp add: nth_list_update)
    show "pl_teams pl3 ! n = pl_teams pl0 ! n"
    proof (cases "int n \<in> insert (tm_idx t) (inner t)")
      case True
      then have "pl_teams pl0 ! n = None" using room[OF True] by simp
      moreover have "pl_teams pl3 ! n = None"
        using True[unfolded in_own] l unfolding e3 pl2(5) pl1(5) by auto
      ultimately show ?thesis by simp
    next
      case False
      then show ?thesis using teams[OF n False] False[unfolded in_own] unfolding e3 pl2(5) pl1(5) by auto
    qed
  qed
  ultimately have "pl3 = pl0" by (cases pl3, cases pl0) simp
  then show ?thesis using pl3(1) by (subst nvshmemi_team_destroy.simps) (simp only: pl1(1) pl2(1) bind.simps)
qed

end
