(* ===== verification/Team_Split_Steps.thy ===== *)
theory Team_Split_Steps
  imports Team_Split_Correct
begin

text \<open>The steps of a split keep the invariant of the pools, and what they made can be destroyed again.\<close>

section \<open>A group makes an inner team\<close>

definition growing :: "pool_cfg \<Rightarrow> nat \<Rightarrow> pools \<Rightarrow> nat \<Rightarrow> int \<Rightarrow> int list \<Rightarrow> nat \<Rightarrow> (int \<Rightarrow> int) \<times> views \<times> pools \<Rightarrow> bool" where
  "growing c npes S0 k d l ip = (\<lambda>(st, P, S). pools_ok c npes S \<and> (\<forall>x. x \<notin> set l \<longrightarrow> S x = S0 x) \<and>
     (\<forall>x \<in> set l. pl_teams (S x) ! ip = Some (P x) \<and> team_of_list npes k d l x (P x) \<and> tm_idx (P x) = int ip \<and> grown (S0 x) (S x) (P x)))"

text \<open>\<open>note\<close> enters an inner team.\<close>

definition enters :: "(int \<Rightarrow> nvshmemi_team \<Rightarrow> nvshmemi_team) \<Rightarrow> nvshmemi_team \<Rightarrow> bool" where
  "enters note t \<longleftrightarrow> (\<forall>i \<ge> 6. i \<notin> inner t \<longrightarrow> same_pes t (note i t) \<and> tm_idx (note i t) = tm_idx t \<and> inner (note i t) = insert i (inner t) \<and>
     tm_node (note i t) \<noteq> tm_same_mype (note i t))"

lemma enters_node: "\<not> tm_is_node t \<Longrightarrow> tm_node t = -1 \<Longrightarrow> \<not> tm_is_same_mype t \<Longrightarrow> enters (\<lambda>i t. t\<lparr>tm_node := i\<rparr>) t"
  by (auto simp: enters_def same_pes_def inner_def)

lemma enters_same_mype: "\<not> tm_is_same_mype t \<Longrightarrow> tm_same_mype t = -1 \<Longrightarrow> \<not> tm_is_node t \<Longrightarrow> enters (\<lambda>i t. t\<lparr>tm_same_mype := i\<rparr>) t"
  by (auto simp: enters_def same_pes_def inner_def)

lemma grown_enter:
  assumes g: "grown pl0 pl t" and pl: "pool_ok c pl" and t: "pl_teams pl ! ip = Some t'" "tm_idx t = int ip" "6 \<le> ip"
    and i: "bit_at (pl_avail pl) i" and e: "enters note t" and sub: "tm_idx sub = int i" "leaf sub"
    and pl': "pl_teams pl' = (pl_teams pl)[i := Some sub, ip := Some (note (int i) t)]" "length (pl_avail pl') = length (pl_avail pl)"
      "\<And>b. bit_at (pl_avail pl') b \<longleftrightarrow> b \<noteq> i \<and> bit_at (pl_avail pl) b"
  shows "grown pl0 pl' (note (int i) t)"
proof -
  let ?own = "insert (tm_idx t) (inner t)"
  have len: "length (pl_avail pl) = length (pl_avail pl0)" "length (pl_teams pl) = length (pl_teams pl0)"
    and bits: "\<And>n. bit_at (pl_avail pl) n \<longleftrightarrow> bit_at (pl_avail pl0) n \<and> int n \<notin> ?own"
    and teams: "\<And>n. n < length (pl_teams pl0) \<Longrightarrow> int n \<notin> ?own \<Longrightarrow> pl_teams pl ! n = pl_teams pl0 ! n"
    and own: "\<And>n. n \<in> ?own \<Longrightarrow> 6 \<le> n \<and> bit_at (pl_avail pl0) (nat n)"
    and idx: "tm_idx t \<notin> inner t"
    and subs: "\<And>n. n \<in> inner t \<Longrightarrow> \<exists>sub. pl_teams pl ! nat n = Some sub \<and> tm_idx sub = n \<and> leaf sub"
    using g unfolding grown_def by blast+
  have i6: "6 \<le> i" "i < length (pl_teams pl)" using i pl by (auto simp: pool_ok_def)
  have i0: "bit_at (pl_avail pl0) i" "int i \<notin> ?own" using i bits by blast+
  note n = e[unfolded enters_def, rule_format, of "int i"]
  have t': "same_pes t (note (int i) t)" "tm_idx (note (int i) t) = tm_idx t" "inner (note (int i) t) = insert (int i) (inner t)"
    "tm_node (note (int i) t) \<noteq> tm_same_mype (note (int i) t)" using n i6 i0 by simp_all
  have own': "insert (tm_idx (note (int i) t)) (inner (note (int i) t)) = insert (int i) ?own" unfolding t' by auto
  have ne: "i \<noteq> ip" using i0(2) t(2) by auto
  show ?thesis unfolding grown_def own'
  proof (intro conjI allI ballI impI)
    show "length (pl_avail pl') = length (pl_avail pl0)" "length (pl_teams pl') = length (pl_teams pl0)" using pl' len by simp_all
    show "bit_at (pl_avail pl') b \<longleftrightarrow> bit_at (pl_avail pl0) b \<and> int b \<notin> insert (int i) ?own" for b using pl'(3) bits by auto
    fix b assume "b < length (pl_teams pl0)" "int b \<notin> insert (int i) ?own"
    then show "pl_teams pl' ! b = pl_teams pl0 ! b" using teams[of b] t(2) by (auto simp: pl'(1))
  next
    fix b assume "b \<in> insert (int i) ?own"
    then show "6 \<le> b" "bit_at (pl_avail pl0) (nat b)" using own i6(1) i0(1) by auto
  next
    show "tm_idx (note (int i) t) \<notin> inner (note (int i) t)" unfolding t' using idx i0(2) by auto
    show "tm_node (note (int i) t) \<noteq> tm_same_mype (note (int i) t)" by (rule t'(4))
    fix b assume "b \<in> inner (note (int i) t)"
    then consider "b = int i" | "b \<in> inner t" "b \<noteq> int i" unfolding t' using i0(2) by auto
    then show "\<exists>sub. pl_teams pl' ! nat b = Some sub \<and> tm_idx sub = b \<and> leaf sub"
    proof cases
      case 1
      then show ?thesis using sub ne i6(2) by (simp add: pl'(1))
    next
      case 2
      have "nat b \<noteq> i" "nat b \<noteq> ip" using 2 own[of b] idx t(2) by auto
      then show ?thesis using subs[OF 2(1)] by (simp add: pl'(1))
    qed
  qed
qed

lemma split_group_step:
  assumes inv: "growing c (job_npes j) S0 k d l ip (st, P, S)" and ip: "6 \<le> ip" "ip < pc_max_teams c"
    and G: "set G \<subseteq> set l" "\<And>q. q \<in> set G \<Longrightarrow> \<exists>k2 d2 l2. team_of_list (job_npes j) k2 d2 l2 q (other q) \<and> G = filter (\<lambda>x. x \<in> set l2) l"
    and w: "\<And>q. q \<in> set G \<Longrightarrow> identity_world (job_npes j) (jt_world (projr (nvshmemi_team_init j q)))"
    and mark: "\<And>q u t. same_pes t (mark q u t)" "\<And>q u t. bare t \<Longrightarrow> bare (mark q u t)"
    and en: "\<And>q. q \<in> set G \<Longrightarrow> enters note (P q)"
    and R: "split_group c j other mark note G (st, P, S) = (st', P', S')"
  shows "growing c (job_npes j) S0 k d l ip (st', P', S')"
    "\<And>q. q \<notin> set G \<Longrightarrow> st' q = st q \<and> P' q = P q"
    "\<And>q. q \<in> set G \<Longrightarrow> st' q = NVSHMEMX_ERROR_INTERNAL \<and> P' q = P q \<or> st' q = st q \<and> (\<exists>i. P' q = note i (P q))"
    "\<And>q. q \<notin> set G \<Longrightarrow> pl_avail (S' q) = pl_avail (S q)"
    "\<And>F. frees S G F \<Longrightarrow> F \<noteq> {} \<Longrightarrow> (\<forall>q \<in> set G. st' q = st q) \<and> frees S' G (but_least F)"
proof -
  let ?n = "job_npes j"
  have ok: "pools_ok c ?n S" and out: "\<And>x. x \<notin> set l \<Longrightarrow> S x = S0 x"
    and P: "\<And>x. x \<in> set l \<Longrightarrow> pl_teams (S x) ! ip = Some (P x) \<and> team_of_list ?n k d l x (P x) \<and> tm_idx (P x) = int ip \<and> grown (S0 x) (S x) (P x)"
    using inv by (simp_all add: growing_def)
  define sub where "sub q = nvshmemi_team_initialize_from_overlap ?n q (jt_world (projr (nvshmemi_team_init j q))) (P q) (other q)" for q
  have sub: "\<exists>t. sub q = Inr t \<and> team_of_list ?n 0 (list_stride G) G q t \<and> bare t" if q: "q \<in> set G" for q
  proof -
    obtain k2 d2 l2 where l2: "team_of_list ?n k2 d2 l2 q (other q)" "G = filter (\<lambda>x. x \<in> set l2) l" using G(2)[OF q] by blast
    have "team_of_list ?n k d l q (P q)" using P G(1) q by blast
    from overlap_team[OF this l2(1) w[OF q]] show ?thesis unfolding sub_def l2(2)[symmetric] .
  qed
  have ms: "filter (\<lambda>q. case sub q of Inl _ \<Rightarrow> False | Inr _ \<Rightarrow> True) G = G" using sub by (force intro!: filter_True)
  define V where "V q = mark q (cfg_uniqueid (tm_config (P q))) (projr (sub q))" for q
  have V: "team_of_list ?n 0 (list_stride G) G q (V q) \<and> bare (V q)" if "q \<in> set G" for q
    using sub[OF that] mark same_pes_list by (fastforce simp: V_def)
  obtain st1 V1 S1 where A: "allocate_index c j G P V S = (st1, V1, S1)" by (metis prod_cases3)
  have st': "st' q = (if q \<in> set G \<and> st1 q \<noteq> NVSHMEMX_SUCCESS then NVSHMEMX_ERROR_INTERNAL else st q)"
    and P': "P' q = (if q \<in> set G \<and> st1 q = NVSHMEMX_SUCCESS then note (tm_idx (V1 q)) (P q) else P q)"
    and S': "S' q = (if q \<in> set G \<and> st1 q = NVSHMEMX_SUCCESS then pool_write (P' q) (S1 q) else S1 q)" for q
    using R unfolding split_group_def Let_def prod.case sub_def[symmetric] ms V_def[symmetric] A by auto
  show "st' q = st q \<and> P' q = P q" if "q \<notin> set G" for q using that st' P' by simp
  have "growing c ?n S0 k d l ip (st', P', S') \<and>
      (\<forall>q \<in> set G. st' q = NVSHMEMX_ERROR_INTERNAL \<and> P' q = P q \<or> st' q = st q \<and> (\<exists>i. P' q = note i (P q))) \<and>
      (\<forall>q. q \<notin> set G \<longrightarrow> pl_avail (S' q) = pl_avail (S q)) \<and>
      (\<forall>F. frees S G F \<longrightarrow> F \<noteq> {} \<longrightarrow> (\<forall>q \<in> set G. st' q = st q) \<and> frees S' G (but_least F))"
  proof (cases "G = []")
    case True
    then have "S1 = S" using A by (auto simp: allocate_index_def set_team_idx_all_def Let_def)
    then have "S' = S" "P' = P" using True S' P' by auto
    then show ?thesis using inv True by (simp add: growing_def frees_def)
  next
    case ne: False
    have Vt: "\<And>x. x \<in> set G \<Longrightarrow> team_of_list ?n 0 (list_stride G) G x (V x)" using V by blast
    show ?thesis
    proof (rule allocate_index_cases[OF ok Vt ne A])
      assume none: "\<And>x. x \<in> set G \<Longrightarrow> st1 x = NVSHMEMX_ERROR_INTERNAL \<and> V1 x = resources_reset (P x) (V x)" "S1 = S"
        "\<And>F. frees S G F \<Longrightarrow> F = {}"
      have err: "NVSHMEMX_ERROR_INTERNAL \<noteq> NVSHMEMX_SUCCESS" by (simp add: status_defs)
      have "S' q = S q" "P' q = P q" for q using none(1)[of q] none(2) S'[of q] P'[of q] err by (cases "q \<in> set G"; simp)+
      then have "S' = S" "P' = P" by auto
      then show ?thesis using inv none(1) err st' none(3) by (auto simp: growing_def)
    next
      fix i assume i: "6 \<le> i" "i < pc_max_teams c" "taken S S1 G i V1"
        and V1: "\<And>x. x \<in> set G \<Longrightarrow> st1 x = NVSHMEMX_SUCCESS \<and> V1 x =
          nvshmemi_team_set_p2p_connectivity (jt_shared (projr (nvshmemi_team_init j x))) ((resources_reset (P x) (V x))\<lparr>tm_idx := int i\<rparr>)"
      have T: "team_of_list ?n 0 (list_stride G) G x (V1 x) \<and> tm_idx (V1 x) = int i \<and> leaf (V1 x)" if "x \<in> set G" for x
      proof -
        have "same_pes (V x) (V1 x)" "tm_idx (V1 x) = int i" "bare (V1 x)" using V1[OF that] V[OF that]
          by (simp_all add: same_pes_def resources_reset_def nvshmemi_team_set_p2p_connectivity_def bare_def)
        then show ?thesis using V[OF that] same_pes_list by (auto simp: bare_def leaf_def)
      qed
      have pok: "pool_ok c (S x)" if "x \<in> set l" for x using pools_okD(1)[OF ok] team_of_list_range P that by blast
      have tk: "bit_at (pl_avail (S x)) i" "pl_teams (S1 x) = (pl_teams (S x))[i := Some (V1 x)]" "length (pl_avail (S1 x)) = length (pl_avail (S x))"
        "\<And>b. bit_at (pl_avail (S1 x)) b \<longleftrightarrow> b \<noteq> i \<and> bit_at (pl_avail (S x)) b" if "x \<in> set G" for x
        using i(3) that by (auto simp: taken_def)
      have same: "S1 x = S x" if "x \<notin> set G" for x using i(3) that by (simp add: taken_def)
      have i_ip: "i \<noteq> ip"
      proof -
        obtain x where x: "x \<in> set G" using ne by (meson list.set_sel(1))
        then have "pl_teams (S x) ! i = None" using tk(1) pok G(1) by (auto simp: pool_ok_def)
        then show ?thesis using P x G(1) by auto
      qed
      have new: "P' x = note (int i) (P x) \<and> st' x = st x \<and> same_pes (P x) (P' x) \<and> tm_idx (P' x) = int ip" if "x \<in> set G" for x
      proof -
        have "int i \<notin> inner (P x)" using P[of x] G(1) that tk(1)[OF that] unfolding grown_def by blast
        then have "same_pes (P x) (note (int i) (P x))" "tm_idx (note (int i) (P x)) = int ip"
          using en[OF that] i(1) P[of x] G(1) that by (auto simp: enters_def)
        then show ?thesis using P' st' V1[OF that] T[OF that] that by simp
      qed
      have old: "P' x = P x \<and> st' x = st x" if "x \<notin> set G" for x using P' st' that by simp
      have P't: "team_of_list ?n k d l x (P' x) \<and> tm_idx (P' x) = int ip" if "x \<in> set l" for x
      proof (cases "x \<in> set G")
        case True
        then show ?thesis using new[OF True] P[OF that] same_pes_list[of "P x" "P' x"] by blast
      qed (use old P[OF that] in simp)
      have ok1: "pools_ok c ?n S1" by (rule taken_ok(1)[OF ok _ i, of 0 "list_stride G"]) (use T in blast)
      have at1: "pl_teams (S1 x) ! ip = Some (P x)" if "x \<in> set l" for x
        using P[OF that] same[of x] tk(2)[of x] i_ip by (cases "x \<in> set G") simp_all
      have team1: "team_at ?n S1 ip k d l" unfolding team_at_def using at1 P by blast
      have S2: "pl_teams (S' x) = (pl_teams (S1 x))[ip := Some (P' x)] \<and> pl_avail (S' x) = pl_avail (S1 x)" if "x \<in> set l" for x
      proof (cases "x \<in> set G")
        case True
        have "S' x = pool_write (P' x) (S1 x)" using S' V1[OF True] True by simp
        moreover have "tm_idx (P' x) = int ip" using new[OF True] by blast
        ultimately show ?thesis by (simp add: pool_write_def)
      next
        case False
        then show ?thesis using S' old[OF False] at1[OF that] list_update_id[of "pl_teams (S1 x)" ip] by simp
      qed
      have pok1: "pool_ok c (S1 x)" if "x \<in> set l" for x using pools_okD(1)[OF ok1] team_of_list_range P that by blast
      have put: "pools_ok c ?n S'"
      proof (rule pools_ok_put(1)[OF ok1 ip P't])
        show "pl_teams (S1 x) ! ip = None \<or> (\<exists>k' d'. team_at ?n S1 ip k' d' l)" for x using team1 by blast
        show "pl_teams (S' x) = (pl_teams (S1 x))[ip := Some (P' x)] \<and> length (pl_avail (S' x)) = pc_bytes c \<and>
            (\<forall>b. bit_at (pl_avail (S' x)) b \<longrightarrow> b \<noteq> ip \<and> bit_at (pl_avail (S1 x)) b)" if "x \<in> set l" for x
          using S2[OF that] pok1[OF that] at1[OF that] unfolding pool_ok_def by (metis option.distinct(1))
        show "S' x = S1 x" if "x \<notin> set l" for x using S' G(1) that by auto
      qed
      have "pl_teams (S' x) ! ip = Some (P' x) \<and> grown (S0 x) (S' x) (P' x)" if "x \<in> set l" for x
      proof (cases "x \<in> set G")
        case True
        have "ip < length (pl_teams (S1 x))" using pok1[OF that] ip(2) by (simp add: pool_ok_def)
        then have "pl_teams (S' x) ! ip = Some (P' x)" using S2[OF that] by simp
        moreover have "grown (S0 x) (S' x) (note (int i) (P x))"
          by (rule grown_enter[where pl = "S x" and t' = "P x" and sub = "V1 x" and c = c])
            (use P[OF that] pok[OF that] ip(1) tk[OF True] en[OF True] T[OF True] S2[OF that] conjunct1[OF new[OF True]] in simp_all)
        ultimately show ?thesis using new[OF True] by simp
      next
        case False
        have "S' x = S x" using S' False same by simp
        then show ?thesis using P[OF that] old[OF False] by simp
      qed
      moreover have "S' x = S0 x" if "x \<notin> set l" for x using S' G(1) that same[of x] out[OF that] by auto
      ultimately have "growing c ?n S0 k d l ip (st', P', S')" using put P't by (simp add: growing_def)
      moreover have av: "pl_avail (S' q) = pl_avail (S1 q)" for q using S'[of q] by (simp add: pool_write_def)
      moreover have "frees S' G (but_least F)" if "frees S G F" for F using taken_frees[OF i(3) that] by (simp add: frees_def av)
      ultimately show ?thesis using new same by auto
    qed
  qed
  then show "growing c ?n S0 k d l ip (st', P', S')"
    "\<And>q. q \<in> set G \<Longrightarrow> st' q = NVSHMEMX_ERROR_INTERNAL \<and> P' q = P q \<or> st' q = st q \<and> (\<exists>i. P' q = note i (P q))"
    "\<And>q. q \<notin> set G \<Longrightarrow> pl_avail (S' q) = pl_avail (S q)"
    "\<And>F. frees S G F \<Longrightarrow> F \<noteq> {} \<Longrightarrow> (\<forall>q \<in> set G. st' q = st q) \<and> frees S' G (but_least F)" by blast+
qed

lemma split_groups:
  assumes ip: "6 \<le> ip" "ip < pc_max_teams c"
    and mark: "\<And>q u t. same_pes t (mark q u t)" "\<And>q u t. bare t \<Longrightarrow> bare (mark q u t)"
  shows "growing c (job_npes j) S0 k d l ip (st, P, S) \<Longrightarrow> sorted_wrt (\<lambda>A B. set A \<inter> set B = {}) Gs \<Longrightarrow>
    (\<And>G q. G \<in> set Gs \<Longrightarrow> q \<in> set G \<Longrightarrow> set G \<subseteq> set l \<and> enters note (P q) \<and>
       identity_world (job_npes j) (jt_world (projr (nvshmemi_team_init j q))) \<and>
       (\<exists>k2 d2 l2. team_of_list (job_npes j) k2 d2 l2 q (other q) \<and> G = filter (\<lambda>x. x \<in> set l2) l)) \<Longrightarrow>
    fold (split_group c j other mark note) Gs (st, P, S) = (st', P', S') \<Longrightarrow>
    growing c (job_npes j) S0 k d l ip (st', P', S') \<and>
    (\<forall>q. (q \<notin> \<Union> (set ` set Gs) \<longrightarrow> P' q = P q \<and> st' q = st q) \<and>
      (st' q = st q \<or> st' q = NVSHMEMX_ERROR_INTERNAL) \<and> (P' q = P q \<or> (\<exists>i. P' q = note i (P q)))) \<and>
    (\<forall>q. q \<notin> \<Union> (set ` set Gs) \<longrightarrow> pl_avail (S' q) = pl_avail (S q)) \<and>
    (\<forall>F. frees S (concat Gs) F \<longrightarrow> F \<noteq> {} \<longrightarrow> st' = st \<and> frees S' (concat Gs) (but_least F))"
proof (induction Gs arbitrary: st P S)
  case (Cons G Gs)
  obtain st1 P1 S1 where step: "split_group c j other mark note G (st, P, S) = (st1, P1, S1)" by (metis prod_cases3)
  have sub: "set G \<subseteq> set l" using Cons.prems(3)[of G] by (cases G) auto
  note one = split_group_step[OF Cons.prems(1) ip sub _ _ mark _ step]
  have one: "growing c (job_npes j) S0 k d l ip (st1, P1, S1)" "\<And>q. q \<notin> set G \<Longrightarrow> st1 q = st q \<and> P1 q = P q"
    "\<And>q. q \<in> set G \<Longrightarrow> st1 q = NVSHMEMX_ERROR_INTERNAL \<and> P1 q = P q \<or> st1 q = st q \<and> (\<exists>i. P1 q = note i (P q))"
    "\<And>q. q \<notin> set G \<Longrightarrow> pl_avail (S1 q) = pl_avail (S q)"
    "\<And>F. frees S G F \<Longrightarrow> F \<noteq> {} \<Longrightarrow> (\<forall>q \<in> set G. st1 q = st q) \<and> frees S1 G (but_least F)"
    using one Cons.prems(3)[of G] by simp_all
  have apart: "q \<notin> set G" if "B \<in> set Gs" "q \<in> set B" for B q using Cons.prems(2) that by auto
  have two: "growing c (job_npes j) S0 k d l ip (st', P', S') \<and>
    (\<forall>q. (q \<notin> \<Union> (set ` set Gs) \<longrightarrow> P' q = P1 q \<and> st' q = st1 q) \<and>
      (st' q = st1 q \<or> st' q = NVSHMEMX_ERROR_INTERNAL) \<and> (P' q = P1 q \<or> (\<exists>i. P' q = note i (P1 q)))) \<and>
    (\<forall>q. q \<notin> \<Union> (set ` set Gs) \<longrightarrow> pl_avail (S' q) = pl_avail (S1 q)) \<and>
    (\<forall>F. frees S1 (concat Gs) F \<longrightarrow> F \<noteq> {} \<longrightarrow> st' = st1 \<and> frees S' (concat Gs) (but_least F))"
  proof (rule Cons.IH[OF one(1)])
    show "sorted_wrt (\<lambda>A B. set A \<inter> set B = {}) Gs" using Cons.prems(2) by simp
    show "fold (split_group c j other mark note) Gs (st1, P1, S1) = (st', P', S')" using Cons.prems(4) step by simp
  qed (use Cons.prems(3) one(2) apart in auto)
  have avail: "pl_avail (S' q) = pl_avail (S q)" if "q \<notin> \<Union> (set ` set (G # Gs))" for q using two one(4)[of q] that by auto
  have room: "st' = st \<and> frees S' (concat (G # Gs)) (but_least F)" if F: "frees S (concat (G # Gs)) F" "F \<noteq> {}" for F
  proof -
    have G: "(\<forall>q \<in> set G. st1 q = st q) \<and> frees S1 G (but_least F)" using one(5)[of F] F by (simp add: frees_def)
    have st1: "st1 = st" using G one(2) by blast
    have "frees S1 (concat Gs) F" using F(1) one(4) apart by (auto simp: frees_def)
    then have rest: "st' = st1 \<and> frees S' (concat Gs) (but_least F)" using two F(2) by blast
    have "pl_avail (S' q) = pl_avail (S1 q)" if "q \<in> set G" for q using two apart that by blast
    then show ?thesis using G st1 rest by (auto simp: frees_def)
  qed
  show ?case
  proof (intro conjI allI impI)
    show "pl_avail (S' q) = pl_avail (S q)" if "q \<notin> \<Union> (set ` set (G # Gs))" for q using avail that .
    show "st' = st" "frees S' (concat (G # Gs)) (but_least F)" if "frees S (concat (G # Gs)) F" "F \<noteq> {}" for F using room that by blast+
  next
    fix q
    have inG: "P' q = P1 q \<and> st' q = st1 q" if "q \<in> set G" using two apart that by blast
    show "P' q = P q" "st' q = st q" if "q \<notin> \<Union> (set ` set (G # Gs))" using two one(2)[of q] that by auto
    show "st' q = st q \<or> st' q = NVSHMEMX_ERROR_INTERNAL" using two one(2,3)[of q] by metis
    show "P' q = P q \<or> (\<exists>i. P' q = note i (P q))"
      using two one(2,3)[of q] inG by (cases "q \<in> set G") metis+
  qed (use two in blast)
qed (simp add: frees_def)

end
