(* ===== verification/Team_Split_Resources.thy ===== *)
theory Team_Split_Resources
  imports Team_Split_Steps
begin

text \<open>
  \<open>nvshmemi_team_allocate_resources\<close> on a regular job: the groups by node and by rank are the overlaps of the new team with
  the teams of the job, so every step of the two inner splits is an instance of \<open>split_groups\<close>.
\<close>

section \<open>The teams of a regular job\<close>

lemma subset_lists:
  assumes "team_of_list npes k d l q t" "team_of_list npes k2 d2 l2 q2 t2"
  shows "nvshmemi_team_is_subset t t2 \<longleftrightarrow> set l \<subseteq> set l2"
proof -
  have at: "mapping_at t i = Some (l ! nat i)" if "team_of_list npes k d l q t" "0 \<le> i" "i < int (length l)" for k d l q i and t :: nvshmemi_team
  proof -
    have n: "nat i < length l" using that by (simp add: nat_less_iff)
    have "l ! nat i = l ! 0 + i * d" using that n by (simp add: team_of_list_def)
    then show ?thesis using that n strided_mapping_nth(1)[of "int (length l)" i npes "l ! 0" d] strided_mapping_nth(3)[of "int (length l)" npes "l ! 0" d]
      by (auto simp: team_of_list_def mapping_at_def nth_append)
  qed
  have len: "tm_size t = int (length l)" "tm_size t2 = int (length l2)" using assms by (auto simp: team_of_list_def)
  have le: "length l \<le> length l2" if "set l \<subseteq> set l2"
  proof -
    have "distinct l" using spaced_sorted[OF team_of_list_spaced[OF assms(1)]] strict_sorted_iff by blast
    then show ?thesis using that by (metis List.finite_set card_length card_mono distinct_card order_trans)
  qed
  have "list_all (\<lambda>i. list_ex (\<lambda>j. mapping_at t i = mapping_at t2 j) [0..tm_size t2 - 1]) [0..tm_size t - 1] \<longleftrightarrow>
      (\<forall>i \<in> {0..<int (length l)}. \<exists>j \<in> {0..<int (length l2)}. l ! nat i = l2 ! nat j)"
    using at[OF assms(1)] at[OF assms(2)] by (simp add: list_all_iff list_ex_iff len atLeastLessThanPlusOne_atLeastAtMost_int[symmetric])
  also have "\<dots> \<longleftrightarrow> set l \<subseteq> set l2"
  proof
    assume *: "\<forall>i \<in> {0..<int (length l)}. \<exists>j \<in> {0..<int (length l2)}. l ! nat i = l2 ! nat j"
    show "set l \<subseteq> set l2"
    proof
      fix x assume "x \<in> set l"
      then obtain i where i: "i < length l" "x = l ! i" by (auto simp: in_set_conv_nth)
      then obtain j where "0 \<le> j" "j < int (length l2)" "x = l2 ! nat j" using bspec[OF *, of "int i"] by auto
      then show "x \<in> set l2" by (simp add: nat_less_iff)
    qed
  next
    assume sub: "set l \<subseteq> set l2"
    show "\<forall>i \<in> {0..<int (length l)}. \<exists>j \<in> {0..<int (length l2)}. l ! nat i = l2 ! nat j"
    proof
      fix i assume "i \<in> {0..<int (length l)}"
      then have "l ! nat i \<in> set l2" using sub by (simp add: nat_less_iff subset_iff)
      then obtain m where "m < length l2" "l ! nat i = l2 ! m" by (metis in_set_conv_nth)
      then show "\<exists>j \<in> {0..<int (length l2)}. l ! nat i = l2 ! nat j" by (intro bexI[of _ "int m"]) simp_all
    qed
  qed
  finally show ?thesis using le by (auto simp: nvshmemi_team_is_subset_def len)
qed

lemma div_block: "0 < c \<Longrightarrow> c dvd n \<Longrightarrow> x < n \<Longrightarrow> x div c < n div (c :: int)"
proof (rule ccontr)
  assume c: "0 < c" "c dvd n" "x < n" "\<not> x div c < n div c"
  have "c * (n div c) \<le> c * (x div c)" using c by (intro mult_left_mono) simp_all
  then have "n \<le> x - x mod c" using c(2) by (simp add: minus_mod_eq_mult_div)
  then show False using c(3) pos_mod_sign[OF c(1), of x] by linarith
qed

lemma regular_teams:
  assumes "regular_job c j" "0 \<le> q" "q < int (job_npes j)"
  defines "jt \<equiv> projr (nvshmemi_team_init j q)"
  shows "identity_world (job_npes j) (jt_world jt)"
    "team_of_list (job_npes j) 0 (list_stride (same_host_pes j q)) (same_host_pes j q) q (jt_node jt)"
    "team_of_list (job_npes j) 0 c (same_rank_pes j c q) q (jt_same_mype_node jt)"
    "x \<in> set (same_host_pes j q) \<longleftrightarrow> x div c = q div c"
    "x \<in> set (same_rank_pes j c q) \<longleftrightarrow> 0 \<le> x \<and> x < int (job_npes j) \<and> x mod c = q mod c"
proof -
  have c: "0 < c" "c dvd int (job_npes j)" "same_host_pes j q = [q - q mod c..q - q mod c + c - 1]"
    using regular_jobD[OF assms(1-3)] by blast+
  have all: "list_all (\<lambda>(f, k, d, l). team_of_list (job_npes j) k d l q (f jt)) (team_lists c j q)"
    using team_init_lists[OF assms(1-3)] by (auto simp: jt_def)
  then show "team_of_list (job_npes j) 0 (list_stride (same_host_pes j q)) (same_host_pes j q) q (jt_node jt)"
    "team_of_list (job_npes j) 0 c (same_rank_pes j c q) q (jt_same_mype_node jt)" by (simp_all add: team_lists_def)
  have w: "team_of_list (job_npes j) 0 1 (world_pes j) q (jt_world jt)" using all by (simp add: team_lists_def)
  have "tm_mapping (jt_world jt) = strided_mapping (job_npes j) 0 1 (int (job_npes j))"
    using w assms(2,3) by (auto simp: team_of_list_def world_pes_def)
  then show "identity_world (job_npes j) (jt_world jt)"
    using strided_mapping_nth(1)[of "int (job_npes j)"] by (auto simp: identity_world_def)
  have q: "q - q mod c = c * (q div c)" by (simp add: minus_mod_eq_mult_div)
  have dv: "x div c = q div c \<longleftrightarrow> c * (q div c) \<le> x \<and> x < c * (q div c) + c"
  proof
    assume "x div c = q div c"
    then have "x = c * (q div c) + x mod c" by (metis mult_div_mod_eq)
    then show "c * (q div c) \<le> x \<and> x < c * (q div c) + c" using pos_mod_bound[OF c(1), of x] pos_mod_sign[OF c(1), of x] by linarith
  next
    assume "c * (q div c) \<le> x \<and> x < c * (q div c) + c"
    then show "x div c = q div c" by (intro int_div_pos_eq[where r = "x - c * (q div c)"]) simp_all
  qed
  then show "x \<in> set (same_host_pes j q) \<longleftrightarrow> x div c = q div c" unfolding c(3) q by auto
  have n: "int (job_npes j) = c * (int (job_npes j) div c)" using c(2) by simp
  show "x \<in> set (same_rank_pes j c q) \<longleftrightarrow> 0 \<le> x \<and> x < int (job_npes j) \<and> x mod c = q mod c"
  proof
    assume "x \<in> set (same_rank_pes j c q)"
    then obtain i where i: "0 \<le> i" "i \<le> int (job_npes j) div c - 1" "x = q mod c + i * c" by (auto simp: same_rank_pes_def)
    have "i * c \<le> (int (job_npes j) div c - 1) * c" using i(2) c(1) by (intro mult_right_mono) simp_all
    then have up: "i * c + c \<le> int (job_npes j)" using n by (simp add: algebra_simps)
    have "0 \<le> i * c" using i(1) c(1) by simp
    then have "0 \<le> x" "x < int (job_npes j)"
      using up i(3) pos_mod_bound[OF c(1), of q] pos_mod_sign[OF c(1), of q] by linarith+
    then show "0 \<le> x \<and> x < int (job_npes j) \<and> x mod c = q mod c" by (simp add: i(3))
  next
    assume x: "0 \<le> x \<and> x < int (job_npes j) \<and> x mod c = q mod c"
    have "x = q mod c + x div c * c" using x by (metis add.commute div_mult_mod_eq)
    moreover have "0 \<le> x div c" using x c(1) by (simp add: pos_imp_zdiv_nonneg_iff)
    moreover have "x div c \<le> int (job_npes j) div c - 1"
    proof -
      have "x div c < int (job_npes j) div c" using div_block[OF c(1,2)] x by blast
      then show ?thesis by simp
    qed
    ultimately show "x \<in> set (same_rank_pes j c q)" unfolding same_rank_pes_def by force
  qed
qed

section \<open>The inner teams\<close>

definition marked :: "bool \<Rightarrow> bool \<Rightarrow> nvshmemi_team \<Rightarrow> bool" where
  "marked a b t \<longleftrightarrow> tm_is_node t = a \<and> tm_is_same_mype t = b"

lemma inner_bare: "bare t \<Longrightarrow> inner t = {}" by (simp add: bare_def inner_def)

lemma growing_marks:
  assumes inv: "growing c npes S0 k d l ip (st, V, S)" and ip: "6 \<le> ip" "ip < pc_max_teams c"
    and V: "\<And>x. x \<in> set l \<Longrightarrow> bare (V x) \<and> same_pes (V x) (V' x) \<and> tm_idx (V' x) = tm_idx (V x) \<and> bare (V' x)"
    and S': "S' = (\<lambda>q. if q \<in> set l then pool_write (V' q) (S q) else S q)"
  shows "growing c npes S0 k d l ip (st, V', S')"
proof -
  have P: "pl_teams (S x) ! ip = Some (V x) \<and> team_of_list npes k d l x (V x) \<and> tm_idx (V x) = int ip \<and> grown (S0 x) (S x) (V x)" if "x \<in> set l" for x
    using inv that by (simp add: growing_def)
  have ok: "pools_ok c npes S" and out: "\<And>x. x \<notin> set l \<Longrightarrow> S x = S0 x" using inv by (simp_all add: growing_def)
  have V't: "team_of_list npes k d l x (V' x) \<and> tm_idx (V' x) = int ip" if "x \<in> set l" for x
    using V[OF that] P[OF that] same_pes_list[of "V x" "V' x"] by simp
  have pok: "pool_ok c (S x)" if "x \<in> set l" for x using pools_okD(1)[OF ok] team_of_list_range P that by blast
  have at: "pl_teams (S' x) = (pl_teams (S x))[ip := Some (V' x)] \<and> pl_avail (S' x) = pl_avail (S x)" if "x \<in> set l" for x
    using that V't[OF that] by (simp add: S' pool_write_def)
  have "pools_ok c npes S'"
  proof (rule pools_ok_put(1)[OF ok ip V't])
    show "pl_teams (S x) ! ip = None \<or> (\<exists>k' d'. team_at npes S ip k' d' l)" for x
      using P unfolding team_at_def by blast
    show "pl_teams (S' x) = (pl_teams (S x))[ip := Some (V' x)] \<and> length (pl_avail (S' x)) = pc_bytes c \<and>
        (\<forall>b. bit_at (pl_avail (S' x)) b \<longrightarrow> b \<noteq> ip \<and> bit_at (pl_avail (S x)) b)" if "x \<in> set l" for x
      using at[OF that] pok[OF that] P[OF that] unfolding pool_ok_def by (metis option.distinct(1))
  qed (simp_all add: S')
  moreover have "grown (S0 x) (S' x) (V' x)" if "x \<in> set l" for x
  proof -
    have i: "inner (V x) = {}" "inner (V' x) = {}" "tm_idx (V' x) = tm_idx (V x)" "bare (V' x)" using V[OF that] inner_bare by auto
    show ?thesis using P[OF that] i at[OF that] unfolding grown_def bare_def by (auto simp: nth_list_update)
  qed
  moreover have "pl_teams (S' x) ! ip = Some (V' x)" if "x \<in> set l" for x
    using at[OF that] pok[OF that] ip by (simp add: pool_ok_def)
  ultimately show ?thesis using V't out S' by (simp add: growing_def)
qed

lemma internal_marks_agree:
  assumes r: "regular_job c0 j" and V: "\<And>x. x \<in> set l \<Longrightarrow> team_of_list (job_npes j) k d l x (V x) \<and> marked a b (V x)"
  shows "\<exists>a b. \<forall>x \<in> set l. marked a b
    (internal_marks (jt_node (projr (nvshmemi_team_init j x))) (jt_same_mype_node (projr (nvshmemi_team_init j x))) (V x))"
proof (cases "a \<or> b")
  case True
  then show ?thesis using V by (intro exI[of _ a] exI[of _ b]) (auto simp: internal_marks_def marked_def)
next
  case False
  have range: "0 \<le> x" "x < int (job_npes j)" if "x \<in> set l" for x using V[OF that] that team_of_list_range by blast+
  have sub: "nvshmemi_team_is_subset (V x) (jt_node (projr (nvshmemi_team_init j x))) = (\<forall>y \<in> set l. \<forall>z \<in> set l. y div c0 = z div c0)"
    "nvshmemi_team_is_subset (V x) (jt_same_mype_node (projr (nvshmemi_team_init j x))) = (\<forall>y \<in> set l. \<forall>z \<in> set l. y mod c0 = z mod c0)"
    if "x \<in> set l" for x
  proof -
    note t = regular_teams[OF r range[OF that]] and Vx = conjunct1[OF V[OF that]]
    show "nvshmemi_team_is_subset (V x) (jt_node (projr (nvshmemi_team_init j x))) = (\<forall>y \<in> set l. \<forall>z \<in> set l. y div c0 = z div c0)"
      unfolding subset_lists[OF Vx t(2)] subset_iff t(4) using that by metis
    show "nvshmemi_team_is_subset (V x) (jt_same_mype_node (projr (nvshmemi_team_init j x))) = (\<forall>y \<in> set l. \<forall>z \<in> set l. y mod c0 = z mod c0)"
      unfolding subset_lists[OF Vx t(3)] subset_iff t(5) using that range by metis
  qed
  have "marked (\<forall>y \<in> set l. \<forall>z \<in> set l. y div c0 = z div c0) (\<forall>y \<in> set l. \<forall>z \<in> set l. y mod c0 = z mod c0)
    (internal_marks (jt_node (projr (nvshmemi_team_init j x))) (jt_same_mype_node (projr (nvshmemi_team_init j x))) (V x))"
    if "x \<in> set l" for x
    using V[OF that] False unfolding internal_marks_def marked_def sub[OF that, symmetric] by simp
  then show ?thesis by blast
qed

lemma sorted_wrt_groups:
  assumes "\<And>i x k. P i x \<Longrightarrow> P k x \<Longrightarrow> i = k"
  shows "sorted_wrt (\<lambda>A B. set A \<inter> set B = {}) (map (\<lambda>i. filter (P i) xs) [m..n])"
proof -
  have "sorted_wrt (<) [m..n]" by (simp add: strict_sorted_iff)
  then have "sorted_wrt (\<lambda>i k. set (filter (P i) xs) \<inter> set (filter (P k) xs) = {}) [m..n]"
  proof (rule sorted_wrt_mono_rel[rotated])
    fix i k :: int assume "i < k"
    then show "set (filter (P i) xs) \<inter> set (filter (P k) xs) = {}" using assms[of i _ k] by auto
  qed
  then show ?thesis by (simp add: sorted_wrt_map)
qed

lemma node_groups:
  assumes r: "regular_job c0 j" and l: "set l \<subseteq> {0..<int (job_npes j)}"
    and G: "G \<in> set (map (\<lambda>i. filter (\<lambda>q. i < int (job_npes j) sdiv env_npes_node (job_env j q) \<and> q sdiv env_npes_node (job_env j q) = i) l) is)" "q \<in> set G"
  shows "set G \<subseteq> set l" "G = filter (\<lambda>x. x \<in> set (same_host_pes j q)) l"
proof -
  obtain i where i: "G = filter (\<lambda>q. i < int (job_npes j) sdiv env_npes_node (job_env j q) \<and> q sdiv env_npes_node (job_env j q) = i) l" using G(1) by auto
  show "set G \<subseteq> set l" using i by auto
  have q: "q \<in> set l" "0 \<le> q" "q < int (job_npes j)" using G(2) i l by auto
  have s: "int (job_npes j) sdiv env_npes_node (job_env j x) = int (job_npes j) div c0" "x sdiv env_npes_node (job_env j x) = x div c0"
    if "x \<in> set l" for x using regular_jobD(1,4)[OF r, of x] l that by (auto simp: sdiv_pos subset_iff)
  have "q div c0 = i" using G(2) i s[OF q(1)] by simp
  moreover have "i < int (job_npes j) div c0" using G(2) i s[OF q(1)] by simp
  ultimately show "G = filter (\<lambda>x. x \<in> set (same_host_pes j q)) l"
    unfolding i regular_teams(4)[OF r q(2,3)] using s by (intro filter_cong) auto
qed

lemma rank_groups:
  assumes r: "regular_job c0 j" and l: "set l \<subseteq> {0..<int (job_npes j)}"
    and G: "G \<in> set (map (\<lambda>i. filter (\<lambda>q. i < env_npes_node (job_env j q) \<and> env_mype_node (job_env j q) = i) l) is)" "q \<in> set G"
  shows "set G \<subseteq> set l" "G = filter (\<lambda>x. x \<in> set (same_rank_pes j c0 q)) l"
proof -
  obtain i where i: "G = filter (\<lambda>q. i < env_npes_node (job_env j q) \<and> env_mype_node (job_env j q) = i) l" using G(1) by auto
  show "set G \<subseteq> set l" using i by auto
  have q: "q \<in> set l" "0 \<le> q" "q < int (job_npes j)" using G(2) i l by auto
  have s: "0 \<le> x \<and> x < int (job_npes j) \<and> env_npes_node (job_env j x) = c0 \<and> env_mype_node (job_env j x) = x mod c0" if "x \<in> set l" for x
    using regular_jobD(4,5)[OF r, of x] l that by (auto simp: subset_iff)
  have "q mod c0 = i" "i < c0" using G(2) i s[OF q(1)] by simp_all
  then show "G = filter (\<lambda>x. x \<in> set (same_rank_pes j c0 q)) l"
    unfolding i regular_teams(5)[OF r q(2,3)] using s by (intro filter_cong) auto
qed

lemma mark_facts:
  "same_pes t (node_mark j q u t)" "bare t \<Longrightarrow> bare (node_mark j q u t)" "same_pes t (rank_mark j q u t)" "bare t \<Longrightarrow> bare (rank_mark j q u t)"
  by (simp_all add: same_pes_def bare_def node_mark_def rank_mark_def)

lemma empty_group: "split_group c j other mark note [] X = X"
  by (cases X) (simp add: split_group_def allocate_index_def set_team_idx_all_def Let_def)

lemma no_groups: "set Gs \<subseteq> {[]} \<Longrightarrow> fold (split_group c j other mark note) Gs X = X"
  by (induction Gs) (simp_all add: empty_group)

lemma frees_mono: "frees S l F \<Longrightarrow> set l' \<subseteq> set l \<Longrightarrow> frees S l' F" unfolding frees_def by blast

lemma frees_groups:
  assumes "frees S l F" "frees S' (concat Gs) (but_least F)" "\<And>q. q \<notin> \<Union> (set ` set Gs) \<Longrightarrow> pl_avail (S' q) = pl_avail (S q)"
  shows "frees S' l (but_least F)"
  unfolding frees_def
proof (intro ballI)
  fix q i assume q: "q \<in> set l" "i \<in> but_least F"
  show "bit_at (pl_avail (S' q)) i"
  proof (cases "q \<in> \<Union> (set ` set Gs)")
    case True
    then show ?thesis using assms(2) q(2) unfolding frees_def set_concat by blast
  next
    case False
    then show ?thesis using assms(1,3) q by (simp add: frees_def but_least_def)
  qed
qed

text \<open>The two inner splits together: the pools stay in order, and the marks of the new team stay the same on all its PEs.\<close>

lemma inner_splits:
  assumes r: "regular_job c0 j" and inv: "growing c (job_npes j) S0 k d l ip (st, V, S)" and ip: "6 \<le> ip" "ip < pc_max_teams c"
    and V: "\<And>x. x \<in> set l \<Longrightarrow> bare (V x) \<and> marked False False (V x)"
    and N: "fold (split_group c j (\<lambda>q. jt_node (projr (nvshmemi_team_init j q))) (node_mark j) (\<lambda>i t. t\<lparr>tm_node := i\<rparr>))
        (map (\<lambda>i. filter (\<lambda>q. i < int (job_npes j) sdiv env_npes_node (job_env j q) \<and> q sdiv env_npes_node (job_env j q) = i) l) is)
        (st, V, S) = (st1, V1, S1)"
    and R: "fold (split_group c j (\<lambda>q. jt_same_mype_node (projr (nvshmemi_team_init j q))) (rank_mark j) (\<lambda>i t. t\<lparr>tm_same_mype := i\<rparr>))
        (map (\<lambda>i. filter (\<lambda>q. i < env_npes_node (job_env j q) \<and> env_mype_node (job_env j q) = i) l) is) (st1, V1, S1) = (st', V', S')"
    and "is": "is = [m..n]"
  shows "growing c (job_npes j) S0 k d l ip (st', V', S')" "\<And>x. st' x = st x \<or> st' x = NVSHMEMX_ERROR_INTERNAL"
    "\<And>x. x \<notin> set l \<Longrightarrow> st' x = st x" "\<And>x. x \<in> set l \<Longrightarrow> marked False False (V' x)"
    "\<And>F. frees S l F \<Longrightarrow> but_least F \<noteq> {} \<Longrightarrow> st' = st \<and> frees S' l (but_least (but_least F))"
proof -
  let ?nodes = "map (\<lambda>i. filter (\<lambda>q. i < int (job_npes j) sdiv env_npes_node (job_env j q) \<and> q sdiv env_npes_node (job_env j q) = i) l) is"
  let ?ranks = "map (\<lambda>i. filter (\<lambda>q. i < env_npes_node (job_env j q) \<and> env_mype_node (job_env j q) = i) l) is"
  have l: "set l \<subseteq> {0..<int (job_npes j)}"
    using inv team_of_list_range by (fastforce simp: growing_def)
  have range: "0 \<le> q \<and> q < int (job_npes j)" if "q \<in> set l" for q using l that by auto
  have "sorted_wrt (\<lambda>A B. set A \<inter> set B = {}) ?nodes" unfolding "is" by (rule sorted_wrt_groups) auto
  note nodes = split_groups[OF ip mark_facts(1,2) inv this _ N]
  have one: "growing c (job_npes j) S0 k d l ip (st1, V1, S1) \<and> (\<forall>q. (q \<notin> \<Union> (set ` set ?nodes) \<longrightarrow> V1 q = V q \<and> st1 q = st q) \<and>
      (st1 q = st q \<or> st1 q = NVSHMEMX_ERROR_INTERNAL) \<and> (V1 q = V q \<or> (\<exists>i. V1 q = (V q)\<lparr>tm_node := i\<rparr>))) \<and>
      (\<forall>q. q \<notin> \<Union> (set ` set ?nodes) \<longrightarrow> pl_avail (S1 q) = pl_avail (S q)) \<and>
      (\<forall>F. frees S (concat ?nodes) F \<longrightarrow> F \<noteq> {} \<longrightarrow> st1 = st \<and> frees S1 (concat ?nodes) (but_least F))"
  proof (rule nodes)
    fix G q assume G: "G \<in> set ?nodes" "q \<in> set G"
    note g = node_groups[OF r l G]
    have q: "0 \<le> q" "q < int (job_npes j)" "q \<in> set l" using g(1) G(2) range by auto
    have "enters (\<lambda>i t. t\<lparr>tm_node := i\<rparr>) (V q)" using V[OF q(3)] by (intro enters_node) (simp_all add: bare_def marked_def)
    then show "set G \<subseteq> set l \<and> enters (\<lambda>i t. t\<lparr>tm_node := i\<rparr>) (V q) \<and> identity_world (job_npes j) (jt_world (projr (nvshmemi_team_init j q))) \<and>
      (\<exists>k2 d2 l2. team_of_list (job_npes j) k2 d2 l2 q (jt_node (projr (nvshmemi_team_init j q))) \<and> G = filter (\<lambda>x. x \<in> set l2) l)"
      using g regular_teams(1,2)[OF r q(1,2)] by blast
  qed
  have V1: "tm_same_mype (V1 x) = -1 \<and> marked False False (V1 x)" if "x \<in> set l" for x
  proof -
    from one consider "V1 x = V x" | i where "V1 x = (V x)\<lparr>tm_node := i\<rparr>" by blast
    then show ?thesis using V[OF that] by cases (simp_all add: bare_def marked_def)
  qed
  have "sorted_wrt (\<lambda>A B. set A \<inter> set B = {}) ?ranks" unfolding "is" by (rule sorted_wrt_groups) auto
  note ranks = split_groups[OF ip mark_facts(3,4) conjunct1[OF one] this _ R]
  have two: "growing c (job_npes j) S0 k d l ip (st', V', S') \<and> (\<forall>q. (q \<notin> \<Union> (set ` set ?ranks) \<longrightarrow> V' q = V1 q \<and> st' q = st1 q) \<and>
      (st' q = st1 q \<or> st' q = NVSHMEMX_ERROR_INTERNAL) \<and> (V' q = V1 q \<or> (\<exists>i. V' q = (V1 q)\<lparr>tm_same_mype := i\<rparr>))) \<and>
      (\<forall>q. q \<notin> \<Union> (set ` set ?ranks) \<longrightarrow> pl_avail (S' q) = pl_avail (S1 q)) \<and>
      (\<forall>F. frees S1 (concat ?ranks) F \<longrightarrow> F \<noteq> {} \<longrightarrow> st' = st1 \<and> frees S' (concat ?ranks) (but_least F))"
  proof (rule ranks)
    fix G q assume G: "G \<in> set ?ranks" "q \<in> set G"
    note g = rank_groups[OF r l G]
    have q: "0 \<le> q" "q < int (job_npes j)" "q \<in> set l" using g(1) G(2) range by auto
    have "enters (\<lambda>i t. t\<lparr>tm_same_mype := i\<rparr>) (V1 q)" using V1[OF q(3)] by (intro enters_same_mype) (simp_all add: marked_def)
    then show "set G \<subseteq> set l \<and> enters (\<lambda>i t. t\<lparr>tm_same_mype := i\<rparr>) (V1 q) \<and> identity_world (job_npes j) (jt_world (projr (nvshmemi_team_init j q))) \<and>
      (\<exists>k2 d2 l2. team_of_list (job_npes j) k2 d2 l2 q (jt_same_mype_node (projr (nvshmemi_team_init j q))) \<and> G = filter (\<lambda>x. x \<in> set l2) l)"
      using g regular_teams(1,3)[OF r q(1,2)] by blast
  qed
  show "growing c (job_npes j) S0 k d l ip (st', V', S')" using two by blast
  show "st' x = st x \<or> st' x = NVSHMEMX_ERROR_INTERNAL" for x using one two by metis
  have sub: "\<Union> (set ` set ?nodes) \<subseteq> set l" "\<Union> (set ` set ?ranks) \<subseteq> set l" by auto
  show "st' x = st x" if "x \<notin> set l" for x
    using spec[OF conjunct1[OF conjunct2[OF one]], of x] spec[OF conjunct1[OF conjunct2[OF two]], of x]
      contra_subsetD[OF sub(1) that] contra_subsetD[OF sub(2) that] by simp
  show "st' = st \<and> frees S' l (but_least (but_least F))" if F: "frees S l F" "but_least F \<noteq> {}" for F
  proof -
    have ne: "F \<noteq> {}" using F(2) by (auto simp: but_least_def)
    have "frees S (concat ?nodes) F" using F(1) by (rule frees_mono) auto
    then have st1: "st1 = st" and f: "frees S1 (concat ?nodes) (but_least F)" using one ne by blast+
    have l1: "frees S1 l (but_least F)" by (rule frees_groups[OF F(1) f]) (use one in simp)
    then have "frees S1 (concat ?ranks) (but_least F)" by (rule frees_mono) auto
    then have st': "st' = st1" and f': "frees S' (concat ?ranks) (but_least (but_least F))" using two F(2) by blast+
    have "frees S' l (but_least (but_least F))" by (rule frees_groups[OF l1 f']) (use two in simp)
    then show ?thesis using st1 st' by simp
  qed
  show "marked False False (V' x)" if x: "x \<in> set l" for x
  proof -
    from two consider "V' x = V1 x" | i where "V' x = (V1 x)\<lparr>tm_same_mype := i\<rparr>" by blast
    then show ?thesis using V1[OF x] by cases (simp_all add: marked_def)
  qed
qed

lemma internal_teams:
  assumes r: "regular_job c0 j" and inv: "growing c (job_npes j) S0 k d l ip (st, V, S)" and ip: "6 \<le> ip" "ip < pc_max_teams c"
    and V: "\<And>x. x \<in> set l \<Longrightarrow> bare (V x) \<and> marked a b (V x)"
    and R: "nvshmemi_team_create_internal_teams c j l (st, V, S) = (st', V', S')"
  shows "growing c (job_npes j) S0 k d l ip (st', V', S') \<and> (\<forall>x. st' x = st x \<or> st' x = NVSHMEMX_ERROR_INTERNAL) \<and>
    (\<forall>x. x \<notin> set l \<longrightarrow> st' x = st x) \<and> (\<exists>a b. \<forall>x \<in> set l. marked a b (V' x)) \<and>
    (\<forall>F. frees S l F \<longrightarrow> but_least F \<noteq> {} \<longrightarrow> st' = st \<and> frees S' l (but_least (but_least F)))"
proof -
  define W where "W q = (if q \<in> set l then internal_marks (jt_node (projr (nvshmemi_team_init j q)))
    (jt_same_mype_node (projr (nvshmemi_team_init j q))) (V q) else V q)" for q
  define T where "T q = (if q \<in> set l then pool_write (W q) (S q) else S q)" for q
  have Vt: "team_of_list (job_npes j) k d l x (V x) \<and> marked a b (V x)" if "x \<in> set l" for x using inv V that by (simp add: growing_def)
  obtain a' b' where W: "\<And>x. x \<in> set l \<Longrightarrow> marked a' b' (W x)" using internal_marks_agree[OF r Vt] by (auto simp: W_def)
  have bW: "same_pes (V x) (W x) \<and> tm_idx (W x) = tm_idx (V x) \<and> bare (W x)" if "x \<in> set l" for x
    using V[OF that] that by (simp add: W_def internal_marks_def same_pes_def bare_def)
  have inv': "growing c (job_npes j) S0 k d l ip (st, W, T)"
    by (rule growing_marks[OF inv ip]) (use V bW T_def in auto)
  define rest where "rest = filter (\<lambda>q. \<not> tm_is_node (W q) \<and> \<not> tm_is_same_mype (W q)) l"
  let ?is = "[0..int (job_npes j) - 1]"
  define nodes where "nodes = map (\<lambda>i. filter (\<lambda>q. i < int (job_npes j) sdiv env_npes_node (job_env j q) \<and> q sdiv env_npes_node (job_env j q) = i) rest) ?is"
  define ranks where "ranks = map (\<lambda>i. filter (\<lambda>q. i < env_npes_node (job_env j q) \<and> env_mype_node (job_env j q) = i) rest) ?is"
  obtain st1 V1 S1 where N: "fold (split_group c j (\<lambda>q. jt_node (projr (nvshmemi_team_init j q))) (node_mark j) (\<lambda>i t. t\<lparr>tm_node := i\<rparr>)) nodes
      (st, W, T) = (st1, V1, S1)" by (metis prod_cases3)
  have R': "fold (split_group c j (\<lambda>q. jt_same_mype_node (projr (nvshmemi_team_init j q))) (rank_mark j) (\<lambda>i t. t\<lparr>tm_same_mype := i\<rparr>)) ranks
      (st1, V1, S1) = (st', V', S')"
    using R unfolding nvshmemi_team_create_internal_teams_def Let_def prod.case W_def[symmetric] T_def[symmetric]
      rest_def[symmetric] nodes_def[symmetric] ranks_def[symmetric] N .
  show ?thesis
  proof (cases "a' \<or> b'")
    case True
    have "rest = []" using W True by (auto simp: rest_def marked_def filter_empty_conv)
    then have "set nodes \<subseteq> {[]}" "set ranks \<subseteq> {[]}" by (auto simp: nodes_def ranks_def)
    then have "st' = st \<and> V' = W \<and> S' = T" using N R' by (simp add: no_groups)
    moreover have "frees T l (but_least (but_least F))" if "frees S l F" for F
      using that by (simp add: frees_def but_least_def T_def pool_write_def)
    ultimately show ?thesis using inv' W by blast
  next
    case False
    have l: "rest = l" using W False by (auto simp: rest_def marked_def intro!: filter_True)
    have bare: "bare (W x) \<and> marked False False (W x)" if "x \<in> set l" for x using W[OF that] bW[OF that] False by simp
    have "frees T l F \<longleftrightarrow> frees S l F" for F by (simp add: frees_def T_def pool_write_def)
    with inner_splits[OF r inv' ip bare N[unfolded nodes_def l] R'[unfolded ranks_def l] refl] show ?thesis by blast
  qed
qed

section \<open>All resources\<close>

lemma no_internal_teams: "nvshmemi_team_create_internal_teams c j [] X = X"
  by (cases X) (simp add: nvshmemi_team_create_internal_teams_def no_groups image_subset_iff)

lemma taken_growing:
  assumes ok: "pools_ok c npes S" and i: "6 \<le> i" "i < pc_max_teams c" "taken S S' l i V"
    and V: "\<And>x. x \<in> set l \<Longrightarrow> team_of_list npes k d l x (V x) \<and> tm_idx (V x) = int i \<and> bare (V x)"
  shows "growing c npes S k d l i (st, V, S')"
proof -
  have V': "team_of_list npes k d l x (V x) \<and> tm_idx (V x) = int i" if "x \<in> set l" for x using V that by blast
  have at: "bit_at (pl_avail (S x)) i" "pl_teams (S' x) = (pl_teams (S x))[i := Some (V x)]" "length (pl_avail (S' x)) = length (pl_avail (S x))"
    "\<And>b. bit_at (pl_avail (S' x)) b \<longleftrightarrow> b \<noteq> i \<and> bit_at (pl_avail (S x)) b" if "x \<in> set l" for x
    using i(3) that by (auto simp: taken_def)
  have "pl_teams (S' x) ! i = Some (V x) \<and> grown (S x) (S' x) (V x)" if "x \<in> set l" for x
  proof -
    have "pool_ok c (S x)" using pools_okD(1)[OF ok] V team_of_list_range that by blast
    then have "i < length (pl_teams (S x))" using i(2) by (simp add: pool_ok_def)
    then show ?thesis using at[OF that] V[OF that] inner_bare[of "V x"] i(1) by (auto simp: grown_def bare_def nth_list_update)
  qed
  moreover have "pools_ok c npes S'" by (rule taken_ok(1)[OF ok V' i])
  ultimately show ?thesis using i(3) V' by (simp add: growing_def taken_def)
qed

lemma allocate_resources:
  assumes r: "regular_job c0 j" and ok: "pools_ok c (job_npes j) S" and l: "l \<noteq> []"
    and V: "\<And>x. x \<in> set l \<Longrightarrow> team_of_list (job_npes j) k d l x (V x) \<and> bare (V x) \<and> marked a b (V x) \<and> marked a' b' (parent x)"
    and R: "nvshmemi_team_allocate_resources c j l parent V S = (st, V', S')"
  obtains (none) "\<And>x. x \<in> set l \<Longrightarrow> st x = NVSHMEMX_ERROR_INTERNAL \<and> V' x = resources_reset (parent x) (V x)" "S' = S"
          "\<And>F. frees S l F \<Longrightarrow> F = {}"
    | (index) i a'' b'' where "6 \<le> i" "i < pc_max_teams c" "growing c (job_npes j) S k d l i (st, V', S')"
        "\<And>x. x \<in> set l \<Longrightarrow> (st x = NVSHMEMX_SUCCESS \<or> st x = NVSHMEMX_ERROR_INTERNAL) \<and> marked a'' b'' (V' x)"
        "\<And>F x. frees S l F \<Longrightarrow> but_least (but_least F) \<noteq> {} \<Longrightarrow> x \<in> set l \<Longrightarrow> st x = NVSHMEMX_SUCCESS"
        "\<And>F. frees S l F \<Longrightarrow> but_least (but_least F) \<noteq> {} \<Longrightarrow> frees S' l (but_least (but_least (but_least F)))"
proof -
  obtain st1 V1 S1 where A: "allocate_index c j l parent V S = (st1, V1, S1)" by (metis prod_cases3)
  let ?ms = "filter (\<lambda>q. st1 q = NVSHMEMX_SUCCESS) l"
  have C: "nvshmemi_team_create_internal_teams c j ?ms (st1, V1, S1) = (st, V', S')"
    using R by (simp add: nvshmemi_team_allocate_resources_def A)
  have Vt: "\<And>x. x \<in> set l \<Longrightarrow> team_of_list (job_npes j) k d l x (V x)" using V by blast
  show thesis
  proof (rule allocate_index_cases[OF ok Vt l A])
    assume n: "\<And>x. x \<in> set l \<Longrightarrow> st1 x = NVSHMEMX_ERROR_INTERNAL \<and> V1 x = resources_reset (parent x) (V x)" "S1 = S"
      "\<And>F. frees S l F \<Longrightarrow> F = {}"
    have "NVSHMEMX_ERROR_INTERNAL \<noteq> NVSHMEMX_SUCCESS" by (simp add: status_defs)
    then have "?ms = []" using n(1) by (simp add: filter_empty_conv)
    then have "(st1, V1, S1) = (st, V', S')" using C by (simp add: no_internal_teams)
    then show thesis using n none by blast
  next
    fix i assume i: "6 \<le> i" "i < pc_max_teams c" "taken S S1 l i V1"
      and V1: "\<And>x. x \<in> set l \<Longrightarrow> st1 x = NVSHMEMX_SUCCESS \<and> V1 x =
          nvshmemi_team_set_p2p_connectivity (jt_shared (projr (nvshmemi_team_init j x))) ((resources_reset (parent x) (V x))\<lparr>tm_idx := int i\<rparr>)"
    have ms: "?ms = l" using V1 by simp
    have T: "team_of_list (job_npes j) k d l x (V1 x) \<and> tm_idx (V1 x) = int i \<and> bare (V1 x)" if "x \<in> set l" for x
    proof -
      have "same_pes (V x) (V1 x)" "tm_idx (V1 x) = int i" "bare (V1 x)" using V1[OF that] V[OF that]
        by (simp_all add: same_pes_def resources_reset_def nvshmemi_team_set_p2p_connectivity_def bare_def)
      then show ?thesis using V[OF that] same_pes_list by blast
    qed
    have M: "bare (V1 x) \<and> marked (a' \<or> a) (b' \<or> b) (V1 x)" if "x \<in> set l" for x
      using T[OF that] V1[OF that] V[OF that] by (simp add: marked_def resources_reset_def nvshmemi_team_set_p2p_connectivity_def)
    have "growing c (job_npes j) S k d l i (st1, V1, S1)" by (rule taken_growing[OF ok i T])
    note C' = internal_teams[OF r this i(1,2) M C[unfolded ms]]
    then obtain a'' b'' where m: "\<forall>x \<in> set l. marked a'' b'' (V' x)" by blast
    have g: "growing c (job_npes j) S k d l i (st, V', S')" using C' by blast
    have s: "st x = NVSHMEMX_SUCCESS \<or> st x = NVSHMEMX_ERROR_INTERNAL" if "x \<in> set l" for x using C' V1[OF that] by metis
    have u: "st x = NVSHMEMX_SUCCESS" if "frees S l F" "but_least (but_least F) \<noteq> {}" "x \<in> set l" for F x
    proof -
      have "st = st1" using C' taken_frees[OF i(3) that(1)] that(2) by blast
      then show ?thesis using V1[OF that(3)] by simp
    qed
    have v: "frees S' l (but_least (but_least (but_least F)))" if "frees S l F" "but_least (but_least F) \<noteq> {}" for F
      using C' taken_frees[OF i(3) that(1)] that(2) by blast
    show thesis
    proof (rule index[OF i(1,2) g])
      fix x assume "x \<in> set l"
      then show "(st x = NVSHMEMX_SUCCESS \<or> st x = NVSHMEMX_ERROR_INTERNAL) \<and> marked a'' b'' (V' x)" using s m by blast
    qed (rule u v; assumption)+
  qed
qed

end
