(* ===== verification/Team_Split_Outcome.thy ===== *)
theory Team_Split_Outcome
  imports Team_Split_Resources
begin

text \<open>
  \<open>nvshmemi_team_split_strided\<close> as a whole: its checks and its place in the parent, and then the two outcomes of the
  resources. Either every PE of the child has the team, or the half-made team is destroyed and every pool is as before.
\<close>

section \<open>Splitting\<close>

definition valid_triplet :: "int \<Rightarrow> int \<Rightarrow> int \<Rightarrow> int \<Rightarrow> bool" where
  "valid_triplet m PE_start PE_stride PE_size \<longleftrightarrow>
     0 \<le> PE_start \<and> 1 \<le> PE_stride \<and> 0 < PE_size \<and> PE_start + (PE_size - 1) * PE_stride < m"

text \<open>The PEs of the child, by their indices in the parent.\<close>

definition child_pes :: "int list \<Rightarrow> int \<Rightarrow> int \<Rightarrow> int \<Rightarrow> int list" where
  "child_pes l PE_start PE_stride PE_size = map (\<lambda>i. l ! nat (PE_start + i * PE_stride)) [0..PE_size - 1]"

lemma reduce_all_max: "vs \<noteq> [] \<Longrightarrow> reduce_all max vs = Max (set (vs :: int list))"
proof (cases vs)
  case (Cons v ws)
  have "(\<lambda>x acc. max acc (x :: int)) = max" by (simp add: fun_eq_iff max.commute)
  then show ?thesis using Max.set_eq_fold[of v ws] by (simp add: Cons reduce_all_def)
qed simp

lemma reduced_success:
  assumes "vs \<noteq> []" "\<And>v. v \<in> set vs \<Longrightarrow> v = NVSHMEMX_SUCCESS \<or> v = NVSHMEMX_ERROR_INTERNAL"
  shows "reduce_all max vs = NVSHMEMX_SUCCESS \<longleftrightarrow> (\<forall>v \<in> set vs. v = NVSHMEMX_SUCCESS)"
    "reduce_all max vs = NVSHMEMX_SUCCESS \<or> reduce_all max vs = NVSHMEMX_ERROR_INTERNAL"
proof -
  have pos: "0 < NVSHMEMX_ERROR_INTERNAL" "NVSHMEMX_SUCCESS = 0" by (simp_all add: status_defs)
  have in_set: "Max (set vs) \<in> set vs" using assms(1) by simp
  show "reduce_all max vs = NVSHMEMX_SUCCESS \<longleftrightarrow> (\<forall>v \<in> set vs. v = NVSHMEMX_SUCCESS)"
  proof
    assume "reduce_all max vs = NVSHMEMX_SUCCESS"
    then have "v \<le> 0" if "v \<in> set vs" for v using Max_ge[of "set vs" v] that reduce_all_max[OF assms(1)] pos by simp
    then show "\<forall>v \<in> set vs. v = NVSHMEMX_SUCCESS" using assms(2) pos by force
  qed (use in_set reduce_all_max[OF assms(1)] in simp)
  show "reduce_all max vs = NVSHMEMX_SUCCESS \<or> reduce_all max vs = NVSHMEMX_ERROR_INTERNAL"
    using in_set assms(2) reduce_all_max[OF assms(1)] by simp
qed

lemma triplet_range:
  assumes "valid_triplet m s st n" "0 \<le> i" "i < n"
  shows "0 \<le> s + i * st" "s + i * st < m" "s < m" "n \<le> m"
proof -
  have v: "0 \<le> s" "1 \<le> st" "0 < n" "s + (n - 1) * st < m" using assms(1) by (simp_all add: valid_triplet_def)
  have "i * st \<le> (n - 1) * st" "0 \<le> i * st" using v assms(2,3) by (auto intro: mult_right_mono)
  moreover have "n - 1 \<le> (n - 1) * st" using mult_left_mono[of 1 st "n - 1"] v by simp
  ultimately show "0 \<le> s + i * st" "s + i * st < m" "s < m" "n \<le> m" using v by linarith+
qed

lemma split_place:
  assumes t: "team_of_list npes k d l q t" and v: "valid_triplet (int (length l)) s st n"
  shows "split_plan_of npes t s st n = Plan (l ! nat s) (d * st)" "0 < d * st" "0 \<le> l ! nat s" "l ! nat s + (n - 1) * (d * st) < int npes"
    "child_pes l s st n = active_set (l ! nat s) (d * st) n" "set (child_pes l s st n) \<subseteq> set l"
proof -
  have d: "0 < d" "set l \<subseteq> {0..<int npes}" "tm_size t = int (length l)" "tm_stride t = d"
    and m: "tm_mapping t = strided_mapping npes (l ! 0) d (int (length l)) @ replicate k (-1)"
    using t by (auto simp: team_of_list_def)
  have vs: "0 \<le> s" "1 \<le> st" "0 < n" using v by (simp_all add: valid_triplet_def)
  note lim = triplet_range[OF v]
  have nth: "l ! nat x = l ! 0 + x * d" if "0 \<le> x" "x < int (length l)" for x
    using spaced_nth[OF team_of_list_spaced[OF t], of "nat x"] that by (simp add: nat_less_iff)
  have in_l: "l ! nat x \<in> set l" if "0 \<le> x" "x < int (length l)" for x using that by (simp add: nat_less_iff)
  have rng: "0 \<le> l ! nat x \<and> l ! nat x < int npes" if "0 \<le> x" "x < int (length l)" for x
    using team_of_list_range[OF t in_l[OF that]] .
  have s: "s < int (length l)" "n \<le> int (length l)" using lim[of 0] vs by auto
  show "0 < d * st" using d(1) vs(2) by simp
  show s0: "0 \<le> l ! nat s" using rng[of s] vs(1) s by simp
  have at: "l ! nat (s + i * st) = l ! nat s + i * (d * st)" if "0 \<le> i" "i < n" for i
    using nth[of "s + i * st"] nth[of s] lim[OF that] vs(1) by (simp add: algebra_simps)
  show last: "l ! nat s + (n - 1) * (d * st) < int npes"
    using at[of "n - 1"] rng[of "s + (n - 1) * st"] lim[of "n - 1"] vs(3) by simp
  have "l ! nat s < int npes" using rng[of s] vs(1) s by simp
  moreover have "mapping_at t s = Some (l ! nat s)"
    using m vs(1) s nth[of s] strided_mapping_nth(1,3)[of "int (length l)"] by (auto simp: mapping_at_def nth_append nat_less_iff)
  ultimately show "split_plan_of npes t s st n = Plan (l ! nat s) (d * st)"
    using vs s last d by (simp add: split_plan_of_def Let_def TEAM_SCALAR_INVALID_def algebra_simps)
  show "child_pes l s st n = active_set (l ! nat s) (d * st) n"
    unfolding child_pes_def active_set_def by (rule map_cong) (simp_all add: at)
  show "set (child_pes l s st n) \<subseteq> set l" unfolding child_pes_def using in_l lim by fastforce
qed

lemma child_filter:
  assumes "spaced d l" "set (active_set start e n) \<subseteq> set l" "0 < e" "0 \<le> n"
  shows "filter (\<lambda>q. 0 \<le> nvshmemi_pe_in_active_set q start e n) l = active_set start e n"
proof -
  have "0 \<le> nvshmemi_pe_in_active_set q start e n \<longleftrightarrow> q \<in> set (active_set start e n)" for q
    using in_active_set[OF assms(3,4), of q start "nvshmemi_pe_in_active_set q start e n"] unfolding active_mem by (auto split: if_splits)
  moreover have "filter (\<lambda>q. q \<in> set (active_set start e n)) l = active_set start e n"
  proof (rule strict_sorted_equal)
    show "sorted_wrt (<) (filter (\<lambda>q. q \<in> set (active_set start e n)) l)"
      using spaced_sorted[OF assms(1)] by (rule sorted_wrt_filter)
    have "sorted_wrt (<) [0..n - 1]" by (simp add: strict_sorted_iff)
    then show "sorted_wrt (<) (active_set start e n)" unfolding active_set_def sorted_wrt_map
      by (rule sorted_wrt_mono_rel[rotated]) (use assms(3) in simp)
  qed (use assms(2) in auto)
  ultimately show ?thesis by simp
qed

text \<open>No entry of a pool that holds a team has changed.\<close>

definition keeps :: "pool_cfg \<Rightarrow> pools \<Rightarrow> pools \<Rightarrow> bool" where
  "keeps c S S' \<longleftrightarrow> (\<forall>q. \<forall>i < pc_max_teams c. pl_teams (S q) ! i \<noteq> None \<longrightarrow> pl_teams (S' q) ! i = pl_teams (S q) ! i)"

text \<open>
  The outcome of a split with child \<open>child\<close>. Either all members of the child have its team at the same index, see the same
  PEs in it, can destroy it again and nobody else's pool has changed, or nothing has changed at all. The latter only happens
  when the PEs of the child have less than three free indices in common: one for the team, two for its inner teams.
\<close>

definition split_outcome :: "pool_cfg \<Rightarrow> nat \<Rightarrow> pools \<Rightarrow> int \<Rightarrow> int list \<Rightarrow> int \<Rightarrow> (int \<Rightarrow> int) \<Rightarrow> pools \<Rightarrow> bool" where
  "split_outcome c npes S d child ret handle S' \<longleftrightarrow>
     (if ret = NVSHMEMX_SUCCESS
      then \<exists>i. 6 \<le> i \<and> i < pc_max_teams c \<and> (\<forall>q. handle q = (if q \<in> set child then int i else NVSHMEM_TEAM_INVALID)) \<and>
             team_at npes S' i 0 d child \<and> (\<exists>a b. \<forall>q \<in> set child. marked a b (the (pl_teams (S' q) ! i))) \<and>
             (\<forall>q \<in> set child. bit_at (pl_avail (S q)) i \<and> nvshmemi_team_destroy (the (pl_teams (S' q) ! i)) (S' q) = Some (S q)) \<and>
             keeps c S S' \<and> (\<forall>F. frees S child F \<longrightarrow> 3 \<le> card F \<longrightarrow> frees S' child (but_least (but_least (but_least F)))) \<and>
             (\<forall>q. q \<notin> set child \<longrightarrow> S' q = S q)
      else ret = NVSHMEMX_ERROR_INTERNAL \<and> S' = S \<and> (\<forall>q. handle q = NVSHMEM_TEAM_INVALID) \<and>
             (\<forall>F. frees S child F \<longrightarrow> card F < 3))"

lemma split_view_marked: "split_view npes config start stride sz my_pe = Some t \<Longrightarrow> marked False False t"
  by (auto simp: split_view_def Let_def marked_def new_team_def)

lemma destroy_bare: "bare t \<Longrightarrow> tm_idx t = -1 \<Longrightarrow> nvshmemi_team_destroy t pl = Some pl"
  by (simp add: destroy_leaf leaf_def bare_def pool_free_def NVSHMEM_TEAM_INVALID_def)

lemma grown_keeps:
  assumes "pool_ok c pl0" "grown pl0 pl t" "n < pc_max_teams c" "pl_teams pl0 ! n \<noteq> None"
  shows "pl_teams pl ! n = pl_teams pl0 ! n"
proof -
  have "int n \<notin> insert (tm_idx t) (inner t)" using assms unfolding grown_def pool_ok_def by (metis nat_int)
  then show ?thesis using assms(1-3) by (simp add: grown_def pool_ok_def)
qed

lemma made_outcome:
  assumes ok: "pools_ok c npes S" and i: "6 \<le> i" "i < pc_max_teams c" and g: "growing c npes S 0 d child i (st, V, S')"
    and m: "\<forall>q \<in> set child. marked a b (V q)"
    and room: "\<And>F. frees S child F \<Longrightarrow> 3 \<le> card F \<Longrightarrow> frees S' child (but_least (but_least (but_least F)))"
  shows "split_outcome c npes S d child NVSHMEMX_SUCCESS (\<lambda>q. if q \<in> set child then tm_idx (V q) else NVSHMEM_TEAM_INVALID) S'"
proof -
  have at: "pl_teams (S' q) ! i = Some (V q) \<and> team_of_list npes 0 d child q (V q) \<and> tm_idx (V q) = int i \<and> grown (S q) (S' q) (V q)"
    if "q \<in> set child" for q using g that by (simp add: growing_def)
  have pok: "pool_ok c (S q)" if "q \<in> set child" for q using pools_okD(1)[OF ok] team_of_list_range at that by blast
  have out: "S' q = S q" if "q \<notin> set child" for q using g that by (simp add: growing_def)
  have undo: "bit_at (pl_avail (S q)) i \<and> nvshmemi_team_destroy (the (pl_teams (S' q) ! i)) (S' q) = Some (S q)" if q: "q \<in> set child" for q
  proof -
    have "bit_at (pl_avail (S q)) i" using at[OF q] by (auto simp: grown_def)
    then show ?thesis using at[OF q] destroy_grown[OF pok[OF q]] by simp
  qed
  have keep: "pl_teams (S' q) ! n = pl_teams (S q) ! n" if "n < pc_max_teams c" "pl_teams (S q) ! n \<noteq> None" for q n
    using grown_keeps[OF pok _ that] at out by (cases "q \<in> set child") auto
  have "team_at npes S' i 0 d child" unfolding team_at_def using at by blast
  moreover have "\<exists>a b. \<forall>q \<in> set child. marked a b (the (pl_teams (S' q) ! i))" using m at by auto
  moreover have "keeps c S S'" unfolding keeps_def using keep by blast
  moreover have "(if q \<in> set child then tm_idx (V q) else NVSHMEM_TEAM_INVALID) = (if q \<in> set child then int i else NVSHMEM_TEAM_INVALID)" for q
    using at by simp
  ultimately show ?thesis unfolding split_outcome_def if_P[OF refl] using i undo out room by blast
qed

text \<open>What the resources leave behind: either all PEs succeeded, or destroying the half-made team restores every pool.\<close>

lemma split_cases:
  assumes r: "regular_job c0 j" and ok: "pools_ok c (job_npes j) S" and l: "l \<noteq> []"
    and V: "\<And>x. x \<in> set l \<Longrightarrow> team_of_list (job_npes j) k d l x (V x) \<and> bare (V x) \<and> marked a b (V x) \<and> marked a' b' (parent x)"
    and idx: "\<And>x. x \<in> set l \<Longrightarrow> tm_idx (V x) = -1"
    and A: "nvshmemi_team_allocate_resources c j l parent V S = (st, V', S')"
  obtains (undone) "\<not> (\<forall>q \<in> set l. st q = NVSHMEMX_SUCCESS)" "\<And>q. q \<in> set l \<Longrightarrow> nvshmemi_team_destroy (V' q) (S' q) = Some (S q)"
      "\<And>q. q \<notin> set l \<Longrightarrow> S' q = S q" "\<And>F. frees S l F \<Longrightarrow> card F < 3"
    | (made) i a'' b'' where "\<forall>q \<in> set l. st q = NVSHMEMX_SUCCESS" "6 \<le> i" "i < pc_max_teams c"
      "growing c (job_npes j) S k d l i (st, V', S')" "\<forall>q \<in> set l. marked a'' b'' (V' q)"
      "\<And>F. frees S l F \<Longrightarrow> 3 \<le> card F \<Longrightarrow> frees S' l (but_least (but_least (but_least F)))"
proof (rule allocate_resources[OF r ok l V A])
  assume n: "\<And>x. x \<in> set l \<Longrightarrow> st x = NVSHMEMX_ERROR_INTERNAL \<and> V' x = resources_reset (parent x) (V x)" "S' = S"
    "\<And>F. frees S l F \<Longrightarrow> F = {}"
  have err: "NVSHMEMX_ERROR_INTERNAL \<noteq> NVSHMEMX_SUCCESS" by (simp add: status_defs)
  show thesis
  proof (rule undone)
    show "\<not> (\<forall>q \<in> set l. st q = NVSHMEMX_SUCCESS)" using n(1) l err by (metis list.set_sel(1))
    show "nvshmemi_team_destroy (V' q) (S' q) = Some (S q)" if "q \<in> set l" for q
      using n that V[OF that] idx[OF that] destroy_bare[of "V' q"] by (simp add: resources_reset_def bare_def)
    show "card F < 3" if "frees S l F" for F using n(3)[OF that] by simp
  qed (simp add: n(2))
next
  fix i a'' b'' assume i: "6 \<le> i" "i < pc_max_teams c" "growing c (job_npes j) S k d l i (st, V', S')"
    "\<And>x. x \<in> set l \<Longrightarrow> (st x = NVSHMEMX_SUCCESS \<or> st x = NVSHMEMX_ERROR_INTERNAL) \<and> marked a'' b'' (V' x)"
    "\<And>F x. frees S l F \<Longrightarrow> but_least (but_least F) \<noteq> {} \<Longrightarrow> x \<in> set l \<Longrightarrow> st x = NVSHMEMX_SUCCESS"
    "\<And>F. frees S l F \<Longrightarrow> but_least (but_least F) \<noteq> {} \<Longrightarrow> frees S' l (but_least (but_least (but_least F)))"
  show thesis
  proof (cases "\<forall>q \<in> set l. st q = NVSHMEMX_SUCCESS")
    case False
    show thesis
    proof (rule undone[OF False])
      show "nvshmemi_team_destroy (V' q) (S' q) = Some (S q)" if q: "q \<in> set l" for q
      proof (rule destroy_grown)
        show "pool_ok c (S q)" using pools_okD(1)[OF ok] team_of_list_range V q by blast
        show "grown (S q) (S' q) (V' q)" using i(3) q by (simp add: growing_def)
      qed
      show "card F < 3" if "frees S l F" for F using i(5)[OF that] but_least_twice[of F] False by (meson not_le)
    qed (use i(3) in \<open>simp add: growing_def\<close>)
  next
    case True
    show thesis by (rule made[OF True i(1,2,3)]) (use i(4,6) but_least_twice in auto)
  qed
qed

lemma split_strided_outcome:
  assumes r: "regular_job c0 j" and ok: "pools_ok c (job_npes j) S" and T: "team_at (job_npes j) S pidx k d l" "l \<noteq> []"
    and M: "\<And>q. q \<in> set l \<Longrightarrow> marked a b (the (pl_teams (S q) ! pidx))"
    and v: "valid_triplet (int (length l)) s st n"
  shows "\<exists>ret handle S'. nvshmemi_team_split_strided c j l pidx config s st n S = Some (ret, handle, S') \<and>
    pools_ok c (job_npes j) S' \<and> split_outcome c (job_npes j) S (d * st) (child_pes l s st n) ret handle S'"
proof -
  define parent where "parent q = the (pl_teams (S q) ! pidx)" for q
  define start where "start = l ! nat s"
  define child where "child = child_pes l s st n"
  have P: "team_of_list (job_npes j) k d l q (parent q)" if "q \<in> set l" for q using T(1) that by (auto simp: team_at_def parent_def)
  obtain q0 where q0: "q0 \<in> set l" using T(2) by (meson list.set_sel(1))
  note pl = split_place[OF P v, folded start_def child_def]
  note p0 = pl(2-6)[OF q0]
  have n: "0 < n" using v by (simp add: valid_triplet_def)
  let ?plan = "\<lambda>q. split_plan_of (job_npes j) (parent q) s st n"
  let ?my = "\<lambda>q. case ?plan q of Plan start stride \<Rightarrow> nvshmemi_pe_in_active_set q start stride n | _ \<Rightarrow> -1"
  let ?view = "\<lambda>q. case ?plan q of Plan start stride \<Rightarrow> split_view (job_npes j) config start stride n (?my q) | _ \<Rightarrow> None"
  have plan: "?plan q = Plan start (d * st)" if "q \<in> set l" for q using pl(1)[OF that] .
  have ch: "filter (\<lambda>q. 0 \<le> ?my q) l = child"
  proof -
    have "filter (\<lambda>q. 0 \<le> ?my q) l = filter (\<lambda>q. 0 \<le> nvshmemi_pe_in_active_set q start (d * st) n) l"
      by (rule filter_cong) (simp_all add: plan)
    also have "\<dots> = active_set start (d * st) n"
      by (rule child_filter[OF team_of_list_spaced[OF P[OF q0]]]) (use p0 n in simp_all)
    finally show ?thesis using p0(4) by simp
  qed
  have V: "\<exists>t. ?view q = Some t \<and> team_of_list (job_npes j) 0 (d * st) child q t \<and> bare t \<and> tm_idx t = -1 \<and> marked False False t"
    if "q \<in> set child" for q
  proof -
    have l: "q \<in> set l" using p0(5) that by blast
    have "q \<in> set (active_set start (d * st) n)" using that p0(4) by simp
    from split_view_list[OF p0(1) p0(2) p0(3) n this, of config] show ?thesis
      unfolding p0(4)[symmetric] by (auto simp: plan[OF l] dest: split_view_marked)
  qed
  have ne: "child \<noteq> []" unfolding child_def child_pes_def using n by simp
  define W where "W q = the (?view q)" for q
  have W: "team_of_list (job_npes j) 0 (d * st) child q (W q) \<and> bare (W q) \<and> marked False False (W q) \<and> marked a b (parent q)" if "q \<in> set child" for q
    using V[OF that] M[of q] p0(5) that by (auto simp: W_def parent_def)
  have Widx: "tm_idx (W q) = -1" if "q \<in> set child" for q using V[OF that] by (auto simp: W_def)
  obtain st1 V1 S1 where A: "nvshmemi_team_allocate_resources c j child parent W S = (st1, V1, S1)" by (metis prod_cases3)
  let ?ret = "\<lambda>q. if ?plan q = Plan_Range then NVSHMEMX_ERROR_INVALID_VALUE
    else if q \<in> set child \<and> st1 q \<noteq> NVSHMEMX_SUCCESS then NVSHMEMX_ERROR_INTERNAL else NVSHMEMX_SUCCESS"
  have guard: "\<not> (list_ex (\<lambda>q. ?plan q = Plan_Non_Strided) l \<or> list_ex (\<lambda>q. ?view q = None) child)"
    using plan V by (fastforce simp: list_ex_iff)
  have split: "nvshmemi_team_split_strided c j l pidx config s st n S =
    (if reduce_all max (map ?ret l) = NVSHMEMX_SUCCESS
     then Some (reduce_all max (map ?ret l), \<lambda>q. if q \<in> set child then tm_idx (V1 q) else NVSHMEM_TEAM_INVALID, S1)
     else if list_ex (\<lambda>q. nvshmemi_team_destroy (V1 q) (S1 q) = None) child then None
     else Some (reduce_all max (map ?ret l), \<lambda>q. NVSHMEM_TEAM_INVALID,
            \<lambda>q. if q \<in> set child then the (nvshmemi_team_destroy (V1 q) (S1 q)) else S1 q))"
    unfolding nvshmemi_team_split_strided_def Let_def parent_def[symmetric] ch W_def[symmetric] if_not_P[OF guard] A prod.case ..
  have ret: "?ret q = (if q \<in> set child \<and> st1 q \<noteq> NVSHMEMX_SUCCESS then NVSHMEMX_ERROR_INTERNAL else NVSHMEMX_SUCCESS)" if "q \<in> set l" for q
    using plan[OF that] by simp
  have maps: "map ?ret l \<noteq> []" "\<And>v. v \<in> set (map ?ret l) \<Longrightarrow> v = NVSHMEMX_SUCCESS \<or> v = NVSHMEMX_ERROR_INTERNAL"
    using T(2) ret by (auto split: if_splits)
  have err: "NVSHMEMX_ERROR_INTERNAL \<noteq> NVSHMEMX_SUCCESS" by (simp add: status_defs)
  have "reduce_all max (map ?ret l) = NVSHMEMX_SUCCESS \<longleftrightarrow> (\<forall>q \<in> set l. ?ret q = NVSHMEMX_SUCCESS)"
    by (subst reduced_success(1)[of "map ?ret l", OF maps(1)]) (use maps(2) in \<open>blast, simp only: set_map ball_simps\<close>)
  also have "\<dots> \<longleftrightarrow> (\<forall>q \<in> set child. st1 q = NVSHMEMX_SUCCESS)" using ret err p0(5) by (auto split: if_splits)
  finally have red: "reduce_all max (map ?ret l) = NVSHMEMX_SUCCESS \<longleftrightarrow> (\<forall>q \<in> set child. st1 q = NVSHMEMX_SUCCESS)" .
  show "\<exists>ret handle S'. nvshmemi_team_split_strided c j l pidx config s st n S = Some (ret, handle, S') \<and>
    pools_ok c (job_npes j) S' \<and> split_outcome c (job_npes j) S (d * st) (child_pes l s st n) ret handle S'" 
    unfolding child_def[symmetric]
  proof (rule split_cases[OF r ok ne W Widx A])
    assume fail: "\<not> (\<forall>q \<in> set child. st1 q = NVSHMEMX_SUCCESS)"
      and un: "\<And>q. q \<in> set child \<Longrightarrow> nvshmemi_team_destroy (V1 q) (S1 q) = Some (S q)" "\<And>q. q \<notin> set child \<Longrightarrow> S1 q = S q" "\<And>F. frees S child F \<Longrightarrow> card F < 3"
    have "(\<lambda>q. if q \<in> set child then the (nvshmemi_team_destroy (V1 q) (S1 q)) else S1 q) = S" using un(1,2) by auto
    moreover have "\<not> list_ex (\<lambda>q. nvshmemi_team_destroy (V1 q) (S1 q) = None) child" using un(1) by (simp add: list_ex_iff)
    ultimately show "\<exists>ret handle S'. nvshmemi_team_split_strided c j l pidx config s st n S = Some (ret, handle, S') \<and>
        pools_ok c (job_npes j) S' \<and> split_outcome c (job_npes j) S (d * st) child ret handle S'" using split red fail reduced_success(2)[OF maps] ok err un(3) by (auto simp: split_outcome_def)
  next
    fix i a'' b'' assume good: "\<forall>q \<in> set child. st1 q = NVSHMEMX_SUCCESS"
      and i: "6 \<le> i" "i < pc_max_teams c" "growing c (job_npes j) S 0 (d * st) child i (st1, V1, S1)" "\<forall>q \<in> set child. marked a'' b'' (V1 q)"
        "\<And>F. frees S child F \<Longrightarrow> 3 \<le> card F \<Longrightarrow> frees S1 child (but_least (but_least (but_least F)))"
    note out = made_outcome[OF ok i]
    from out show "\<exists>ret handle S'. nvshmemi_team_split_strided c j l pidx config s st n S = Some (ret, handle, S') \<and>
        pools_ok c (job_npes j) S' \<and> split_outcome c (job_npes j) S (d * st) child ret handle S'" using split red good i(3) by (auto simp: growing_def)
  qed
qed

end
