(* ===== verification/Team_Split_Properties.thy ===== *)
theory Team_Split_Properties
  imports Team_Split_Outcome
begin

text \<open>
  What the split operations promise, from the pools of the initialisation on: every team they make is seen alike by all
  its PEs and has the same index on all of them; a failed split leaves no trace; destroying a team undoes its split; an
  invalid triplet goes unreported.
\<close>

section \<open>The pools of the initialisation\<close>

definition job_pools :: "pool_cfg \<Rightarrow> job \<Rightarrow> pools" where
  "job_pools c j q = the (team_pool_init c (init_view j q))"

lemma max_teams_fit: "c = nvshmemi_set_max_teams m nvls \<Longrightarrow> 6 \<le> pc_max_teams c \<and> pc_max_teams c \<le> pc_bytes c * 8"
  by (auto simp: nvshmemi_set_max_teams_def Let_def NVSHMEM_TEAMS_MIN_def max_def)

lemma pool_init:
  assumes c: "6 \<le> pc_max_teams c" "pc_max_teams c \<le> pc_bytes c * 8"
  shows "\<exists>pl. team_pool_init c jt = Some pl \<and> pool_ok c pl \<and>
    pl_teams pl = (replicate (pc_max_teams c) None)[0 := Some (jt_world jt), 1 := Some (jt_shared jt), 2 := Some (jt_node jt),
      3 := Some (jt_same_mype_node jt), 4 := Some (jt_same_gpu jt), 5 := jt_gpu_leaders jt] \<and>
    (\<forall>i. bit_at (pl_avail pl) i \<longleftrightarrow> 6 \<le> i \<and> i < pc_max_teams c)"
proof -
  let ?m = "pc_max_teams c"
  have m: "max ?m 6 = ?m" using c(1) by simp
  have zero: "\<not> bit_at (replicate (pc_bytes c) 0) k" for k by (simp add: bit_at_def less_mult_imp_div_less)
  obtain p where p: "bits_with nvshmemi_bit_set [0..<?m] (replicate (pc_bytes c) 0) = Some p" "length p = pc_bytes c"
    "\<forall>k. bit_at p k \<longleftrightarrow> k < ?m"
    using bits_with_set[of "[0..<?m]" "replicate (pc_bytes c) 0"] c(2) zero by auto
  have "\<forall>i \<in> set [0, 1, 2, 3, 4, 5]. i < length p * 8" using c p(2) by auto
  then obtain p' where p': "bits_with nvshmemi_bit_clear [0, 1, 2, 3, 4, 5] p = Some p'" "length p' = pc_bytes c"
    "\<forall>k. bit_at p' k \<longleftrightarrow> k \<notin> {0, 1, 2, 3, 4, 5} \<and> k < ?m"
    using bits_with_clear[of "[0, 1, 2, 3, 4, 5]" p] p(2,3) by auto
  have k: "k \<notin> {0, 1, 2, 3, 4, 5} \<longleftrightarrow> 6 \<le> k" for k :: nat by auto
  show ?thesis using c p(1) p' unfolding k by (auto simp: team_pool_init_def m Let_def pool_ok_def nth_list_update)
qed

lemma job_pools_init:
  assumes "6 \<le> pc_max_teams c" "pc_max_teams c \<le> pc_bytes c * 8"
  shows "pl_teams (job_pools c j q) ! 0 = Some (jt_world (init_view j q))"
    "bit_at (pl_avail (job_pools c j q)) i \<longleftrightarrow> 6 \<le> i \<and> i < pc_max_teams c"
proof -
  obtain pl where pl: "team_pool_init c (init_view j q) = Some pl" "pl_teams pl ! 0 = Some (jt_world (init_view j q))"
    "\<forall>i. bit_at (pl_avail pl) i \<longleftrightarrow> 6 \<le> i \<and> i < pc_max_teams c"
    using pool_init[OF assms, of "init_view j q"] assms(1) by auto
  have "job_pools c j q = pl" by (simp add: job_pools_def pl(1))
  then show "pl_teams (job_pools c j q) ! 0 = Some (jt_world (init_view j q))"
    "bit_at (pl_avail (job_pools c j q)) i \<longleftrightarrow> 6 \<le> i \<and> i < pc_max_teams c" using pl(2,3) by blast+
qed

lemma initial_team_at:
  assumes r: "regular_job c0 j" and c: "6 \<le> pc_max_teams c" "pc_max_teams c \<le> pc_bytes c * 8"
    and q: "0 \<le> q" "q < int (job_npes j)" and f: "(f, k, d, l) \<in> set (team_lists c0 j q)"
    and i: "i < 5" "\<And>jt pl. team_pool_init c jt = Some pl \<Longrightarrow> pl_teams pl ! i = Some (f jt)"
  shows "team_at (job_npes j) (job_pools c j) i k d l" "q \<in> set l"
proof -
  have c0: "0 < c0" using r by (simp add: regular_job_def)
  have all: "team_of_list (job_npes j) k d l x (f (init_view j x))"
    if "0 \<le> x" "x < int (job_npes j)" "(f, k, d, l) \<in> set (team_lists c0 j x)" for x
    using team_init_lists[OF r that(1,2)] that(3) by (auto simp: init_view_def list_all_iff)
  note own = all[OF q f]
  show "q \<in> set l" using team_of_list_mem[OF own] .
  have mem: "team_of_list (job_npes j) k d l x (f (init_view j x))" if "x \<in> set l" for x
    using all[of x] team_lists_member[OF f that c0] team_of_list_range[OF own that] by blast
  have "pl_teams (job_pools c j x) ! i = Some (f (init_view j x))" for x
  proof -
    obtain pl where pl: "team_pool_init c (init_view j x) = Some pl" using pool_init[OF c] by blast
    show ?thesis using i(2)[OF pl] by (simp add: job_pools_def pl)
  qed
  then show "team_at (job_npes j) (job_pools c j) i k d l" using mem i(1) by (simp add: team_at_def)
qed

lemma initial_pools:
  assumes r: "regular_job c0 j" and c: "6 \<le> pc_max_teams c" "pc_max_teams c \<le> pc_bytes c * 8"
  shows "pools_ok c (job_npes j) (job_pools c j)" "0 < job_npes j \<Longrightarrow> team_at (job_npes j) (job_pools c j) 0 0 1 (world_pes j)"
proof -
  have at: "\<exists>k d l. q \<in> set l \<and> team_at (job_npes j) (job_pools c j) i k d l"
    if q: "0 \<le> q" "q < int (job_npes j)" and i: "i < 5" for q i
  proof -
    obtain f k d l where f: "(f, k, d, l) = team_lists c0 j q ! i" by (metis prod_cases4)
    have in_lists: "(f, k, d, l) \<in> set (team_lists c0 j q)" unfolding f using i by (intro nth_mem) (simp add: team_lists_def)
    have "pl_teams pl ! i = Some (f jt)" if "team_pool_init c jt = Some pl" for jt pl
    proof -
      have t: "pl_teams pl = (replicate (pc_max_teams c) None)[0 := Some (jt_world jt), 1 := Some (jt_shared jt), 2 := Some (jt_node jt),
        3 := Some (jt_same_mype_node jt), 4 := Some (jt_same_gpu jt), 5 := jt_gpu_leaders jt]" using pool_init[OF c, of jt] that by simp
      consider "i = 0" | "i = 1" | "i = 2" | "i = 3" | "i = 4" using i by linarith
      then show ?thesis using f c(1) by cases (simp_all add: t team_lists_def)
    qed
    from initial_team_at[OF r c q in_lists i this] show ?thesis by blast
  qed
  have pool: "pool_ok c (job_pools c j q) \<and> (\<forall>i < pc_max_teams c. 6 \<le> i \<longrightarrow> pl_teams (job_pools c j q) ! i = None)" for q
  proof -
    obtain pl where pl: "team_pool_init c (init_view j q) = Some pl" "pool_ok c pl" "\<forall>i. bit_at (pl_avail pl) i \<longleftrightarrow> 6 \<le> i \<and> i < pc_max_teams c"
      using pool_init[OF c, of "init_view j q"] by auto
    have "pl_teams pl ! i = None" if "i < pc_max_teams c" "6 \<le> i" for i
    proof -
      have "bit_at (pl_avail pl) i" using pl(3) that by blast
      then show ?thesis using pl(2) by (simp add: pool_ok_def)
    qed
    then show ?thesis using pl(1,2) by (simp add: job_pools_def)
  qed
  show "pools_ok c (job_npes j) (job_pools c j)" unfolding pools_ok_def
  proof (intro conjI ballI allI impI)
    fix q i assume q: "q \<in> {0..<int (job_npes j)}" and i: "i < pc_max_teams c" "i \<noteq> 5" "pl_teams (job_pools c j q) ! i \<noteq> None"
    have "\<not> 6 \<le> i" using spec[OF conjunct2[OF pool[of q]], of i] i(1,3) by simp
    then have "i < 5" using i(2) by linarith
    then show "\<exists>k d l. q \<in> set l \<and> team_at (job_npes j) (job_pools c j) i k d l" using at[of q i] q by (simp only: atLeastLessThan_iff)
  next
    show "pool_ok c (job_pools c j q)" for q using pool[of q] by (rule conjunct1)
  qed
  assume n: "0 < job_npes j"
  have "pl_teams pl ! 0 = Some (jt_world jt)" if "team_pool_init c jt = Some pl" for jt pl using pool_init[OF c, of jt] that c(1) by auto
  then show "team_at (job_npes j) (job_pools c j) 0 0 1 (world_pes j)"
    using initial_team_at(1)[OF r c, of 0 jt_world 0 1 "world_pes j" 0] n by (simp add: team_lists_def)
qed

section \<open>Splitting with a stride\<close>

text \<open>A team that is ready to be split: on all its PEs it has the same index, the same PEs and the same marks.\<close>

definition parent_ok :: "pool_cfg \<Rightarrow> job \<Rightarrow> pools \<Rightarrow> nat \<Rightarrow> int \<Rightarrow> int list \<Rightarrow> bool" where
  "parent_ok c j S pidx d l \<longleftrightarrow> pidx < pc_max_teams c \<and> l \<noteq> [] \<and> (\<exists>k. team_at (job_npes j) S pidx k d l) \<and>
     (\<exists>a b. \<forall>q \<in> set l. marked a b (the (pl_teams (S q) ! pidx)))"

text \<open>The view that a PE has of a team, by the handle.\<close>

definition team_of :: "pools \<Rightarrow> int \<Rightarrow> int \<Rightarrow> nvshmemi_team" where
  "team_of S handle q = the (pl_teams (S q) ! nat handle)"

lemma team_at_pes:
  assumes "team_at npes S i k d l" "q \<in> set l"
  shows "coherent_team npes (team_of S (int i)) (team_of S (int i) q)" "team_pes (team_of S (int i) q) = l"
    "team_pe (team_of S (int i) q) (tm_my_pe (team_of S (int i) q)) = q"
proof -
  have t: "team_of_list npes k d l q (team_of S (int i) q)" using assms by (auto simp: team_at_def team_of_def)
  show "coherent_team npes (team_of S (int i)) (team_of S (int i) q)"
    using team_at_coherent[OF assms] by (simp add: team_of_def[abs_def])
  show "team_pe (team_of S (int i) q) (tm_my_pe (team_of S (int i) q)) = q" using team_of_list_ok(3)[OF t] .
  have sz: "tm_size (team_of S (int i) q) = int (length l)" using t by (simp add: team_of_list_def)
  show "team_pes (team_of S (int i) q) = l"
    by (rule nth_equalityI) (use team_of_list_ok(2)[OF t] in \<open>simp_all add: team_pes_def sz\<close>)
qed

lemma split_from:
  assumes "regular_job c0 j" "pools_ok c (job_npes j) S" "parent_ok c j S pidx d l" "valid_triplet (int (length l)) s st n"
  obtains ret handle S' where "nvshmemi_team_split_strided c j l pidx config s st n S = Some (ret, handle, S')"
    "pools_ok c (job_npes j) S'" "split_outcome c (job_npes j) S (d * st) (child_pes l s st n) ret handle S'"
proof -
  obtain k a b where p: "team_at (job_npes j) S pidx k d l" "l \<noteq> []" "\<And>q. q \<in> set l \<Longrightarrow> marked a b (the (pl_teams (S q) ! pidx))"
    using assms(3) unfolding parent_ok_def by blast
  show thesis using split_strided_outcome[OF assms(1,2) p assms(4), of config] that by blast
qed

text \<open>
  C8: A split makes one team for all its PEs, or none. In a regular job, for well-formed pools and a triplet inside the parent,
  \<open>nvshmemi_team_split_strided\<close> returns on all PEs and keeps the pools well-formed. When it returns 0, the PEs of the triplet,
  and only they, get a handle; it is the same index on all of them, it was free on all of them, and the team behind it is coherent and
  consists of these PEs in their order. Otherwise no PE gets a handle and all pools are as before; this only
  happens when the PEs of the triplet have less than three free indices in common.
\<close>

theorem split_strided_agrees:
  assumes "regular_job c0 j" "pools_ok c (job_npes j) S" "parent_ok c j S pidx d l" "valid_triplet (int (length l)) s st n"
  shows "\<exists>ret handle S'. nvshmemi_team_split_strided c j l pidx config s st n S = Some (ret, handle, S') \<and> pools_ok c (job_npes j) S' \<and>
    (if ret = NVSHMEMX_SUCCESS
     then \<exists>i. 6 \<le> i \<and> i < pc_max_teams c \<and> (\<forall>q. handle q = (if q \<in> set (child_pes l s st n) then int i else NVSHMEM_TEAM_INVALID)) \<and>
       (\<forall>q \<in> set (child_pes l s st n). bit_at (pl_avail (S q)) i \<and> coherent_team (job_npes j) (team_of S' (int i)) (team_of S' (int i) q) \<and>
          team_pes (team_of S' (int i) q) = child_pes l s st n \<and>
          team_pe (team_of S' (int i) q) (tm_my_pe (team_of S' (int i) q)) = q) \<and>
       parent_ok c j S' i (d * st) (child_pes l s st n)
     else ret = NVSHMEMX_ERROR_INTERNAL \<and> S' = S \<and> (\<forall>q. handle q = NVSHMEM_TEAM_INVALID) \<and>
       (\<forall>F. frees S (child_pes l s st n) F \<longrightarrow> card F < 3))"
proof (rule split_from[OF assms, of config])
  fix ret handle S'
  assume r: "nvshmemi_team_split_strided c j l pidx config s st n S = Some (ret, handle, S')" "pools_ok c (job_npes j) S'"
    and out: "split_outcome c (job_npes j) S (d * st) (child_pes l s st n) ret handle S'"
  show ?thesis
  proof (cases "ret = NVSHMEMX_SUCCESS")
    case True
    let ?child = "child_pes l s st n"
    obtain i a b where i: "6 \<le> i" "i < pc_max_teams c" "\<forall>q. handle q = (if q \<in> set ?child then int i else NVSHMEM_TEAM_INVALID)"
      "team_at (job_npes j) S' i 0 (d * st) ?child" "\<forall>q \<in> set ?child. marked a b (the (pl_teams (S' q) ! i))"
      "\<forall>q \<in> set ?child. bit_at (pl_avail (S q)) i" using out True unfolding split_outcome_def by auto
    have "?child \<noteq> []" using assms(4) by (simp add: child_pes_def valid_triplet_def)
    then have ready: "parent_ok c j S' i (d * st) ?child" unfolding parent_ok_def using i(2,4,5) by blast
    show ?thesis
      by (intro exI[of _ ret] exI[of _ handle] exI[of _ S'] conjI r, unfold if_P[OF True], intro exI[of _ i] conjI)
        (use i ready team_at_pes[OF i(4)] in blast)+
  next
    case False
    then show ?thesis using r out by (simp add: split_outcome_def)
  qed
qed


section \<open>Arguments outside the parent\<close>

lemma no_resources: "nvshmemi_team_allocate_resources c j [] parent V S = (\<lambda>_. NVSHMEMX_SUCCESS, \<lambda>q. resources_reset (parent q) (V q), S)"
  by (simp add: nvshmemi_team_allocate_resources_def allocate_index_def set_team_idx_all_def Let_def no_internal_teams)

text \<open>
  A split with an invalid triplet reports success. The error code of the argument check is stored in
  \<open>team_ret_val_reduced\<close>, which \<open>nvshmemi_team_check_collective_error\<close> overwrites with the maximum of \<open>team_ret_val\<close>, still 0 on
  every PE: the call returns 0 and no PE gets a team.
\<close>

theorem split_invalid_silent:
  assumes "l \<noteq> []" "\<And>q. q \<in> set l \<Longrightarrow> tm_size (the (pl_teams (S q) ! pidx)) = m"
    and "PE_start < 0 \<or> m \<le> PE_start \<or> PE_size \<le> 0 \<or> m < PE_size \<or> PE_stride < 1"
  shows "nvshmemi_team_split_strided c j l pidx config PE_start PE_stride PE_size S =
    Some (NVSHMEMX_SUCCESS, \<lambda>_. NVSHMEM_TEAM_INVALID, S)"
proof -
  have plan: "split_plan_of (job_npes j) (the (pl_teams (S q) ! pidx)) PE_start PE_stride PE_size = Plan_Invalid" if "q \<in> set l" for q
    using assms(2)[OF that] assms(3) by (auto simp: split_plan_of_def)
  have child: "filter (\<lambda>q. 0 \<le> (case split_plan_of (job_npes j) (the (pl_teams (S q) ! pidx)) PE_start PE_stride PE_size of
      Plan start stride \<Rightarrow> nvshmemi_pe_in_active_set q start stride PE_size | _ \<Rightarrow> - 1)) l = []"
    by (simp add: filter_empty_conv plan)
  have zeros: "map (\<lambda>q. if split_plan_of (job_npes j) (the (pl_teams (S q) ! pidx)) PE_start PE_stride PE_size = Plan_Range
      then NVSHMEMX_ERROR_INVALID_VALUE
      else if q \<in> set [] \<and> NVSHMEMX_SUCCESS \<noteq> NVSHMEMX_SUCCESS then NVSHMEMX_ERROR_INTERNAL else NVSHMEMX_SUCCESS) l = map (\<lambda>_. NVSHMEMX_SUCCESS) l"
    by (rule map_cong) (simp_all add: plan)
  have none: "\<not> list_ex (\<lambda>q. split_plan_of (job_npes j) (the (pl_teams (S q) ! pidx)) PE_start PE_stride PE_size = Plan_Non_Strided) l"
    by (simp add: list_ex_iff plan)
  have "reduce_all max (map (\<lambda>_. NVSHMEMX_SUCCESS) l) = NVSHMEMX_SUCCESS"
    using assms(1) by (subst reduced_success(1)) auto
  then show ?thesis
    unfolding nvshmemi_team_split_strided_def Let_def child no_resources prod.case zeros using none by simp
qed

section \<open>The grid of a split in two dimensions\<close>

lemma le_div_iff: "0 < b \<Longrightarrow> k \<le> a div b \<longleftrightarrow> k * b \<le> (a :: int)"
proof
  assume b: "0 < b"
  { assume "k \<le> a div b"
    then have "k * b \<le> a div b * b" using b by (intro mult_right_mono) auto
    also have "\<dots> \<le> a" using pos_mod_sign[OF b, of a] div_mult_mod_eq[of a b] by linarith
    finally show "k * b \<le> a" . }
  assume "k * b \<le> a"
  from zdiv_mono1[OF this b] show "k \<le> a div b" using b by simp
qed

text \<open>The rows: blocks of \<open>xrange\<close> indices, the last one shorter if need be.\<close>

lemma split_2d_rows:
  assumes "1 \<le> xrange" "xrange \<le> m"
  shows "(s, st, n) \<in> set (split_2d_xaxis m xrange) \<longleftrightarrow> (\<exists>i. 0 \<le> i \<and> i * xrange < m \<and> s = i * xrange \<and> st = 1 \<and> n = min xrange (m - s))"
proof -
  define q where "q = (m + xrange - 1) div xrange"
  have q: "i \<le> q - 1 \<longleftrightarrow> i * xrange < m" for i
    using le_div_iff[of xrange "i + 1" "m + xrange - 1"] assms(1) unfolding q_def by (auto simp: algebra_simps)
  have n: "(if i = q - 1 \<and> m mod xrange \<noteq> 0 then m mod xrange else xrange) = min xrange (m - i * xrange)" if "i * xrange < m" for i
  proof (cases "i = q - 1")
    case True
    then have "\<not> (i + 1) * xrange < m" unfolding q[symmetric] by simp
    then have "m \<le> i * xrange + xrange" by (simp add: algebra_simps)
    moreover have "m mod xrange = (m - i * xrange) mod xrange" by (simp add: mod_diff_eq[symmetric])
    ultimately show ?thesis using that True by (cases "m - i * xrange = xrange") simp_all
  next
    case False
    then have "i + 1 \<le> q - 1" using that q[of i] by linarith
    then have "(i + 1) * xrange < m" using q by blast
    then show ?thesis using False by (simp add: algebra_simps)
  qed
  have c: "(m + xrange - 1) sdiv xrange = (m + xrange - 1) div xrange" "m smod xrange = m mod xrange"
    using assms by (simp_all add: sdiv_pos smod_pos)
  have "set (split_2d_xaxis m xrange) =
      (\<lambda>i. (i * xrange, 1, if i = q - 1 \<and> m mod xrange \<noteq> 0 then m mod xrange else xrange)) ` {0..q - 1}"
    unfolding split_2d_xaxis_def Let_def c q_def by simp
  then show ?thesis using n q by auto
qed

text \<open>The columns: every \<open>xrange\<close>-th index, as far as the parent goes.\<close>

lemma split_2d_columns:
  assumes "1 \<le> xrange" "xrange \<le> m" "(s, st, n) \<in> set (split_2d_yaxis m xrange)"
  shows "0 \<le> s" "s < xrange" "st = xrange" "s + (n - 1) * xrange < m" "m \<le> s + n * xrange" "0 < n"
proof -
  obtain d r where dr: "d = m div xrange" "r = m mod xrange" by blast
  have m: "m = d * xrange + r" unfolding dr by simp
  have r: "0 \<le> r" "r < xrange" "1 \<le> d" using assms(1,2) le_div_iff[of xrange 1 m] by (auto simp: dr)
  have s: "0 \<le> s" "s < xrange" "st = xrange" "n = (if s < r then d + 1 else d)"
    using assms r by (auto simp: split_2d_yaxis_def Let_def sdiv_pos smod_pos dr split: if_splits)
  show "0 \<le> s" "s < xrange" "st = xrange" by (fact s)+
  show "0 < n" using s(4) r by simp
  show "s + (n - 1) * xrange < m" "m \<le> s + n * xrange"
    using s r by (simp_all add: m left_diff_distrib distrib_right)
qed

text \<open>\<open>nvshmemi_team_split_2d\<close> only asks for splits inside the parent.\<close>

lemma split_2d_valid:
  assumes "1 \<le> xrange" "xrange \<le> m" "(s, st, n) \<in> set (split_2d_xaxis m xrange) \<union> set (split_2d_yaxis m xrange)"
  shows "valid_triplet m s st n"
  using assms(3) split_2d_columns[OF assms(1,2), of s st n] assms(1)
  by (auto simp: split_2d_rows[OF assms(1,2)] valid_triplet_def)

section \<open>An example\<close>

definition demo_cfg :: pool_cfg where "demo_cfg = nvshmemi_set_max_teams 32 False"

definition demo_pools :: pools where "demo_pools = job_pools demo_cfg block_job"

lemma demo_facts:
  "pools_ok demo_cfg 4 demo_pools" "parent_ok demo_cfg block_job demo_pools 0 1 [0, 1, 2, 3]" "job_npes block_job = 4"
  "frees demo_pools l {6, 7, 8}"
proof -
  show n: "job_npes block_job = 4" by (simp add: block_job_def)
  have w: "world_pes block_job = [0, 1, 2, 3]" by code_simp
  have c: "6 \<le> pc_max_teams demo_cfg" "pc_max_teams demo_cfg \<le> pc_bytes demo_cfg * 8" "8 < pc_max_teams demo_cfg" by code_simp+
  note i = initial_pools[OF block_job_regular c(1,2), folded demo_pools_def, unfolded n w]
  show "pools_ok demo_cfg 4 demo_pools" by (rule i(1))
  have t: "team_at (job_npes block_job) demo_pools 0 0 1 [0, 1, 2, 3]" unfolding n by (rule i(2)) simp
  have "marked False False (the (pl_teams (demo_pools q) ! 0))" if "q \<in> set [0, 1, 2, 3]" for q
  proof -
    have "list_all (\<lambda>q. marked False False (jt_world (init_view block_job q))) [0, 1, 2, 3]" by code_simp
    then have "marked False False (jt_world (init_view block_job q))" using that by auto
    moreover have "pl_teams (demo_pools q) ! 0 = Some (jt_world (init_view block_job q))"
      unfolding demo_pools_def by (rule job_pools_init(1)[OF c(1,2)])
    ultimately show ?thesis by simp
  qed
  then show "parent_ok demo_cfg block_job demo_pools 0 1 [0, 1, 2, 3]" unfolding parent_ok_def using t c(1) by auto
  have "bit_at (pl_avail (demo_pools q)) b \<longleftrightarrow> 6 \<le> b \<and> b < pc_max_teams demo_cfg" for q b
    unfolding demo_pools_def by (rule job_pools_init(2)[OF c(1,2)])
  then show "frees demo_pools l {6, 7, 8}" using c(3) by (simp add: frees_def)
qed

lemma demo_child: "valid_triplet (int (length [0, 1, 2, 3 :: int])) 1 2 2" "child_pes [0, 1, 2, 3] 1 2 2 = [1, 3]"
  by code_simp+

theorem split_strided_agrees_witness:
  "\<exists>handle S' i. nvshmemi_team_split_strided demo_cfg block_job [0, 1, 2, 3] 0 None 1 2 2 demo_pools = Some (NVSHMEMX_SUCCESS, handle, S') \<and>
     handle 0 = NVSHMEM_TEAM_INVALID \<and> handle 1 = i \<and> handle 3 = i \<and> team_pes (team_of S' i 3) = [1, 3]"
proof -
  note s = split_strided_agrees[OF block_job_regular demo_facts(1)[folded demo_facts(3)] demo_facts(2) demo_child(1), where config = None,
      unfolded demo_child(2)]
  then show ?thesis
  proof (elim exE conjE, goal_cases)
    case (1 ret handle S')
    note r = 1(1) and I = 1(3)
    have ok: "ret = NVSHMEMX_SUCCESS"
    proof (rule ccontr)
      assume no: "ret \<noteq> NVSHMEMX_SUCCESS"
      have "card {6, 7, 8 :: nat} < 3" using I[unfolded if_not_P[OF no]] demo_facts(4) by blast
      then show False by simp
    qed
    obtain i where i: "\<forall>q. handle q = (if q \<in> set [1, 3] then int i else NVSHMEM_TEAM_INVALID)"
      "\<forall>q \<in> set [1, 3]. team_pes (team_of S' (int i) q) = [1, 3]" using I[unfolded if_P[OF ok]] by blast
    show ?case by (intro exI[of _ handle] exI[of _ S'] exI[of _ "int i"] conjI) (use r ok i in simp_all)
  qed
qed



theorem split_invalid_silent_witness:
  "nvshmemi_team_split_strided demo_cfg block_job [0, 1, 2, 3] 0 None 4 1 1 demo_pools =
     Some (NVSHMEMX_SUCCESS, \<lambda>_. NVSHMEM_TEAM_INVALID, demo_pools)"
proof -
  have "tm_size (the (pl_teams (demo_pools q) ! 0)) = 4" if "q \<in> set [0, 1, 2, 3]" for q
  proof -
    obtain k where "team_at (job_npes block_job) demo_pools 0 k 1 [0, 1, 2, 3]" using demo_facts(2) unfolding parent_ok_def by blast
    then have "\<exists>t. pl_teams (demo_pools q) ! 0 = Some t \<and> team_of_list (job_npes block_job) k 1 [0, 1, 2, 3] q t"
      using that unfolding team_at_def by blast
    then show ?thesis by (auto simp: team_of_list_def)
  qed
  then show ?thesis by (intro split_invalid_silent) auto
qed

end
