(* ===== verification/Spec2Isabelle.thy ===== *)
theory Spec2Isabelle
  imports Malloc_Contract Buf_Cache_Props Sync_Properties Proxy_Effects Fetch_Buffer Global_Exit Barrier_Properties
  Reduce_Barrier Recexch_Properties Team_Init_Properties Team_Split_Properties
begin

text \<open>
  \<^bold>\<open>Verification of NVSHMEM\<close>

  NVSHMEM gives GPUs a partitioned global address space: processing elements (PEs) read, write and update
  each other's symmetric heap, from the host or from inside a kernel. This development models the parts of
  the library that decide where data goes and in which order, and proves that they do so.

  \<^bold>\<open>The parts and how they work together\<close>

  \<^item> The symmetric heap is handed out by a first-fit allocator (\<open>src/src/host/mem/custom_malloc.cpp\<close>).
  \<^item> User buffers are registered with the transports and found again by address
    (\<open>src/src/host/mem/mem.cpp\<close>).
  \<^item> A GPU thread that cannot reach a PE directly posts a request into a ring in host memory
    (\<open>proxy_device.cuh\<close>, \<open>nvshmem_proxy_channel.h\<close>). A host thread, the proxy (\<open>src/src/host/proxy/proxy.cpp\<close>),
    takes the requests, cuts the transfers into pieces that fit the memory handles (\<open>util.h\<close>,
    \<open>nvshmemi_symmetric_heap.hpp\<close>) and hands them to a transport; it also serves the threads that wait for
    completion.
  \<^item> PEs form teams (\<open>src/src/host/team/team_internal.cpp\<close>). All PEs of a team call its collectives together: barriers
    (\<open>barrier.cuh\<close>) and reductions (\<open>reduce.cuh\<close>), which move data by puts and wait at the barrier.

  \<^bold>\<open>Theories\<close>

  \<^item> \<open>Nvshmem_Prelude\<close>: machine types, status codes, shared lemmas. \<open>Std_Map\<close>: \<open>std::map\<close> as a sorted association
    list, with the interface locale of an ordered map.
  \<^item> \<open>Custom_Malloc\<close> models \<open>class mspace\<close>; \<open>Malloc_Invariant\<close> has its invariant (free and used chunks tile the heap, no two
    free chunks touch) and its preservation; \<open>Malloc_Contract\<close> what each operation does on every branch.
  \<^item> \<open>Local_Buf_Cache\<close> models the registered buffer cache; \<open>Buf_Cache_Regions\<close> its invariant, a sorted array of disjoint
    chains of handles; \<open>Buf_Cache_Props\<close> registration, removal and lookup against the set of regions.
  \<^item> \<open>Proxy_Channel\<close> has the packed request formats and the device functions that build them; \<open>Proxy_Codec\<close> proves
    that decoding inverts packing; \<open>Proxy_Ring\<close> is the ring as a step relation of any number of GPU threads and the
    host; \<open>Ring_Invariant\<close>, \<open>Ring_Delivery\<close> and \<open>Ring_Properties\<close> prove flow control, delivery in order and progress, and compose
    them with the codec.
  \<^item> \<open>Heap_Handles\<close> models handle lookup and address translation, \<open>Multisend\<close> the cutting of transfers.
  \<^item> \<open>Proxy_Progress\<close> models the host's progress engine, every request handler included; \<open>Proxy_Refines\<close> shows that it
    consumes the ring as \<open>Proxy_Ring\<close> says; \<open>Proxy_System\<close> is the whole system of threads and proxy; \<open>Sync_Invariant\<close>
    and \<open>Sync_Properties\<close> prove what a quiet guarantees and that it is answered.
  \<^item> \<open>Global_Exit\<close>, \<open>Fetch_Buffer\<close> and \<open>Proxy_Effects\<close> treat the global exit, the buffer of fetched values and the
    choice of transports.
  \<^item> \<open>Team_State\<close> has the team structure, its mapping and the helpers on it; \<open>Team_Init\<close> the teams that
    \<open>nvshmemi_team_init\<close> makes on all PEs of a job; \<open>Team_Init_Correct\<close> and \<open>Team_Init_Properties\<close> prove that in a regular
    job the members of each of them agree on it (\<open>coherent_team\<close>), and which node team the PEs of an uneven one get.
  \<^item> \<open>Team_Pool\<close> has the pool of team indices and the agreement on a free one; \<open>Team_Split\<close> the strided and two-dimensional
    splits, the inner teams a split makes and the destruction of teams. \<open>Team_Pool_Lemmas\<close>, \<open>Team_Split_Correct\<close>,
    \<open>Team_Split_Steps\<close>, \<open>Team_Split_Resources\<close> and \<open>Team_Split_Outcome\<close> follow a split step by step;
    \<open>Team_Split_Properties\<close> proves that it makes one coherent team or leaves no trace, and that destroying undoes it.
    A split is collective: the code of every PE is a function on its own pool, and the reductions and barriers between
    these functions join the PEs. The reduction that finds the index is \<open>gpu_rdxn_on_demand_2\<close>, whose result
    \<open>Reduce_Properties\<close> proves for a synchronisation that no PE leaves before all have arrived.
  \<^item> \<open>Dissem_Barrier\<close> models the device barrier as a system of PEs and signals; \<open>Dissem_Correct\<close> and
    \<open>Barrier_Properties\<close> prove, in the locale \<open>dissemination\<close> and for the schedules of \<open>barrier.cuh\<close>, that no PE leaves
    before all have entered and that all leave.
  \<^item> \<open>Recexch\<close> models the tables and the data flow of the recursive exchange reduction; \<open>Recexch_Tables\<close> and
    \<open>Recexch_Correct\<close> prove, in the locale \<open>rx\<close> of a radix and a number of PEs, that the tables of all PEs fit together and
    that the result is the reduction; \<open>Recexch_Properties\<close> has the interpretation and the theorem.
  \<^item> \<open>Put_Rounds\<close> is the system of PEs that put, wait at a barrier and compute, in rounds, with puts arriving in any
    order; its locale \<open>put_rounds\<close> shows what such a program computes and that it ends. \<open>Reduce_Rounds\<close> models the reductions
    of that form, \<open>Reduce_Properties\<close> proves them correct and within their buffers. \<open>Put_Rounds\<close> builds in that a PE leaves
    a barrier only when all have arrived; \<open>Reduce_Barrier\<close> puts the barrier of \<open>Dissem_Barrier\<close> in its place, behind the
    locale \<open>team_barrier\<close>, and proves the reduction in segments over it, with all its steps interleaved.

  \<^bold>\<open>How code is modelled\<close>

  \<open>size_t\<close>, pointers and fixed-width unsigned types are machine words and wrap, except that element counts and sizes in the
  reductions are natural numbers: they are those of arrays in memory, so \<open>msg_len\<close> does not wrap. \<open>int\<close> is an integer, with C's
  truncating division. A process exit, an assertion and an access outside an array are values of an error type or
  \<open>None\<close>; so is a loop that does not end. Calls to CUDA and to a transport are recorded in a log and their results are
  fields of a parameter record, over which every theorem quantifies. GPU threads and the host interleave at the
  granularity of their accesses to shared memory; a request handler and a pass of \<open>progress_quiet\<close> are one step of the host each. No fuel is used: recursion is structural, by a measure, or a
  \<open>partial_function\<close> whose termination is a theorem. The proxy theorems bound the entries posted by \<open>2 ^ 61\<close>, where
  the 64-bit counters of the ring would wrap, and the theorem on the fetch buffer the fetches by \<open>2 ^ 56\<close>.

  \<^bold>\<open>Not modelled\<close>

  The transport modules and the IBGDA device code issue verbs, libfabric and UCX calls, whose behaviour is not in
  this repository; the proxy sees a transport only through its operation table. \<open>dlmalloc.cpp\<close> and \<open>nvtx3.hpp\<close> are vendored.
  Bootstrap is socket and MPI start-up. \<open>mem_heap.cpp\<close> maps CUDA memory and exchanges handles between processes.
  Warp-level data movement inside the collectives depends on the GPU's memory model. Of the proxy, finalisation and
  thread creation are left out; of teams, NVLS resources and duplicates and the making of teams without a constant stride.
\<close>

end
